(* ===== verification/Prelude.thy ===== *)
theory Prelude
  imports Main "HOL-Library.Word" "HOL-Library.Monad_Syntax" "HOL-Library.Sublist"
begin

text \<open>
  What the components share: the types of the Go values the model uses, checked indexing and
  slicing (a Go program panics where an index is out of range), the event runs over which
  invariants are lifted, and the lemma collections the component proofs use.

  A value of type \<open>'a go\<close> is the outcome of a piece of Go code: \<open>Some v\<close> when it returns
  \<open>v\<close>, \<open>None\<close> when it panics (an index or a slice bound out of range).  Code that returns a
  second \<open>ok\<close> result returns an \<open>option\<close> inside.
\<close>

unbundle bit_operations_syntax

section \<open>Types\<close>

type_synonym byte = "8 word"
type_synonym u16 = "16 word"
type_synonym u32 = "32 word"
type_synonym bytes = "byte list"
type_synonym 'a go = "'a option"

named_theorems go_simps \<open>evaluation of checked reads\<close>
named_theorems go_safe \<open>a piece of code does not panic\<close>
named_theorems inv_simps \<open>unfolding of component invariants\<close>

section \<open>Checked indexing and slicing\<close>

definition len :: "'a list \<Rightarrow> int" where
  "len xs = int (length xs)"

definition at :: "'a list \<Rightarrow> int \<Rightarrow> 'a go" where
  "at xs i = (if 0 \<le> i \<and> i < len xs then Some (xs ! nat i) else None)"

definition slice_from :: "'a list \<Rightarrow> int \<Rightarrow> 'a list go" where
  "slice_from xs i = (if 0 \<le> i \<and> i \<le> len xs then Some (drop (nat i) xs) else None)"

definition slice_to :: "'a list \<Rightarrow> int \<Rightarrow> 'a list go" where
  "slice_to xs i = (if 0 \<le> i \<and> i \<le> len xs then Some (take (nat i) xs) else None)"

lemma ex_False [simp]: "\<exists>b. \<not> b"
  by blast

lemma len_simps [simp]:
  "len [] = 0" "len (x # xs) = len xs + 1" "len (xs @ ys) = len xs + len ys"
  "0 \<le> len xs"
  by (simp_all add: len_def)

lemma len_eq_0: "len xs = 0 \<longleftrightarrow> xs = []"
  by (simp add: len_def)

lemma len_gt_0: "0 < len xs \<longleftrightarrow> xs \<noteq> []"
  by (simp add: len_def)

lemma len_drop: "len (drop n xs) = max 0 (len xs - int n)"
  by (simp add: len_def)

lemma len_take: "len (take n xs) = min (len xs) (int n)"
  by (simp add: len_def)

lemma at_Some [go_simps]: "0 \<le> i \<Longrightarrow> i < len xs \<Longrightarrow> at xs i = Some (xs ! nat i)"
  by (simp add: at_def)

lemma at_eq_Some: "at xs i = Some x \<longleftrightarrow> 0 \<le> i \<and> i < len xs \<and> xs ! nat i = x"
  by (auto simp: at_def)

lemma slice_from_Some [go_simps]:
  "0 \<le> i \<Longrightarrow> i \<le> len xs \<Longrightarrow> slice_from xs i = Some (drop (nat i) xs)"
  by (simp add: slice_from_def)

lemma slice_to_Some [go_simps]:
  "0 \<le> i \<Longrightarrow> i \<le> len xs \<Longrightarrow> slice_to xs i = Some (take (nat i) xs)"
  by (simp add: slice_to_def)

section \<open>Reading numbers out of bytes\<close>

text \<open>\<open>uint16(hi & 0x1f)<<8 | uint16(lo)\<close>, the 13-bit PID of a packet or a table entry.\<close>

definition pid13 :: "byte \<Rightarrow> byte \<Rightarrow> u16" where
  "pid13 hi lo = push_bit 8 (ucast (hi AND 0x1f)) OR ucast lo"

text \<open>\<open>int(hi & 0x0f)<<8 | int(lo)\<close>, the 12-bit lengths of PSI sections.\<close>

definition len12 :: "byte \<Rightarrow> byte \<Rightarrow> int" where
  "len12 hi lo = push_bit 8 (uint (hi AND 0x0f)) OR uint lo"

lemma len12_nonneg [simp]: "0 \<le> len12 hi lo"
  by (simp add: len12_def)

lemma push_bit_or_eq_plus:
  fixes a b :: int
  assumes "0 \<le> b" "b < 2 ^ n"
  shows "push_bit n a OR b = a * 2 ^ n + b"
proof -
  have t: "take_bit n b = b" using assms by (simp add: take_bit_int_eq_self)
  have "push_bit n a AND take_bit n b = 0"
    by (rule bit_eqI) (auto simp: bit_simps)
  then show ?thesis
    using disjunctive_add_eq_or [of "push_bit n a" b] t by (simp add: push_bit_eq_mult)
qed

lemma len12_eq: "len12 hi lo = uint (hi AND 0x0f) * 256 + uint lo"
proof -
  have "uint lo < 2 ^ 8" using uint_bounded [of lo] by simp
  then show ?thesis
    using push_bit_or_eq_plus [of "uint lo" 8 "uint (hi AND 0x0f)"] by (simp add: len12_def)
qed

lemma uint_byte_less [simp]: "uint (b :: byte) < 256"
  using uint_bounded [of b] by simp

lemma len12_less: "len12 hi lo < 4096"
proof -
  have "hi AND 0x0f \<le> 0x0f" by (rule word_and_le1)
  then have "uint (hi AND 0x0f) \<le> 15" by (simp add: word_le_def)
  then show ?thesis unfolding len12_eq using uint_byte_less [of lo] by linarith
qed

lemma len12_gt [simp]: "k < 0 \<Longrightarrow> k < len12 hi lo"
  using len12_nonneg [of hi lo] by linarith

lemma int_and_15: "x AND 15 = x mod (16 :: int)"
proof -
  have "x AND mask 4 = x mod 2 ^ 4"
    by (simp only: take_bit_eq_mask [symmetric] take_bit_eq_mod)
  then show ?thesis by (simp add: mask_eq_exp_minus_1)
qed

lemma uint_and_15: "uint (b AND 0x0f :: byte) = uint b mod 16"
  by (simp add: uint_and int_and_15)

lemma uint_Suc_and_15: "uint ((b + 1) AND 0x0f :: byte) = (uint b + 1) mod 16"
proof -
  have "(uint b + 1) mod 256 mod 16 = (uint b + 1) mod 16"
    by (rule mod_mod_cancel) simp
  then show ?thesis by (simp add: uint_and_15 uint_word_ariths)
qed

lemma Cons_replicate_pred:
  "xs \<noteq> [] \<Longrightarrow> x # replicate (length xs - Suc 0) x = replicate (length xs) x"
  by (cases xs) auto

section \<open>Runs of a component's operations\<close>

text \<open>
  A component's operations are an event datatype and a step function; \<open>run\<close> performs a list of
  them and panics where one of them does.
\<close>

fun run :: "('e \<Rightarrow> 's \<Rightarrow> 's go) \<Rightarrow> 'e list \<Rightarrow> 's \<Rightarrow> 's go" where
  "run step [] s = Some s"
| "run step (e # es) s = do { s' \<leftarrow> step e s; run step es s' }"

lemma run_append: "run step (es @ fs) s = do { s' \<leftarrow> run step es s; run step fs s' }"
  by (induction es arbitrary: s) (auto split: Option.bind_splits)

text \<open>
  The contract every stateful component proves: from a state that satisfies its invariant no
  operation panics, and the invariant holds again.
\<close>

locale safe_system =
  fixes step :: "'e \<Rightarrow> 's \<Rightarrow> 's go" and ok :: "'e \<Rightarrow> bool" and inv :: "'s \<Rightarrow> bool"
  assumes step_safe: "inv s \<Longrightarrow> ok e \<Longrightarrow> \<exists>s'. step e s = Some s' \<and> inv s'"
begin

lemma run_safe: "inv s \<Longrightarrow> list_all ok es \<Longrightarrow> \<exists>s'. run step es s = Some s' \<and> inv s'"
proof (induction es arbitrary: s)
  case Nil
  then show ?case by simp
next
  case (Cons e es)
  then obtain s1 where "step e s = Some s1" "inv s1" using step_safe [of s e] by auto
  then show ?case using Cons.IH [of s1] Cons.prems by auto
qed

lemma run_preserves: "inv s \<Longrightarrow> list_all ok es \<Longrightarrow> run step es s = Some s' \<Longrightarrow> inv s'"
  using run_safe by fastforce

end

end
