(* ===== verification/TsPes.thy ===== *)
theory TsPes
  imports Prelude
begin

text \<open>
  \<^verbatim>\<open>internal/tspes\<close>: what a byte-for-byte consumer reads out of single MPEG-TS packets.
  \<^verbatim>\<open>tspes.go\<close> gives the packet readers (PID, clocks, tables, keyframe detection),
  \<^verbatim>\<open>section.go\<close> the assembler of PSI sections that span packets.  Every function runs in
  \<open>go\<close>: \<open>None\<close> is an index out of range.  The lemmas show that no reader panics on a 188-byte
  packet whatever its bytes are, that the assembler only returns whole sections, and that the two
  table parsers agree.
\<close>

section \<open>Packet header\<close>

definition PacketSize :: int where
  "PacketSize = 188"

definition StreamTypeMPEG1 :: byte where "StreamTypeMPEG1 = 0x01"
definition StreamTypeMPEG2 :: byte where "StreamTypeMPEG2 = 0x02"
definition StreamTypeH264 :: byte where "StreamTypeH264 = 0x1b"
definition StreamTypeHEVC :: byte where "StreamTypeHEVC = 0x24"

definition PID :: "bytes \<Rightarrow> u16 go" where
  "PID pkt = do { b1 \<leftarrow> at pkt 1; b2 \<leftarrow> at pkt 2; Some (pid13 b1 b2) }"

definition PUSI :: "bytes \<Rightarrow> bool go" where
  "PUSI pkt = do { b1 \<leftarrow> at pkt 1; Some (b1 AND 0x40 \<noteq> 0) }"

definition afc :: "bytes \<Rightarrow> byte go" where
  "afc pkt = do { b3 \<leftarrow> at pkt 3; Some (drop_bit 4 b3 AND 0x3) }"

definition PayloadOffset :: "bytes \<Rightarrow> int go" where
  "PayloadOffset pkt = do {
     c \<leftarrow> afc pkt;
     off \<leftarrow> (if c AND 0x2 \<noteq> 0 then
               (if len pkt < 5 then Some (-1)
                else do { b4 \<leftarrow> at pkt 4; Some (5 + uint b4) })
             else Some 4);
     if off < 0 then Some (-1)
     else if c AND 0x1 = 0 \<or> off \<ge> len pkt then Some (-1)
     else Some off }"

text \<open>\<open>section\<close>: a section's bytes from a packet, \<open>[]\<close> for the code's nil.\<close>

definition psi_section :: "bytes \<Rightarrow> bytes go" where
  "psi_section pkt = do {
     off \<leftarrow> PayloadOffset pkt;
     if off < 0 then Some []
     else do {
       pusi \<leftarrow> PUSI pkt;
       if pusi then do {
         ptr \<leftarrow> at pkt off;
         let off' = off + (1 + uint ptr);
         if off' \<ge> len pkt then Some [] else slice_from pkt off' }
       else slice_from pkt off } }"

section \<open>Tables read from one packet\<close>

text \<open>The end of a table's entries: the CRC, or the bytes that are there.\<close>

definition table_end :: "bytes \<Rightarrow> int go" where
  "table_end sec = do {
     s1 \<leftarrow> at sec 1; s2 \<leftarrow> at sec 2;
     let secLen = len12 s1 s2;
     let e = 3 + secLen - 4;
     Some (if e > len sec then len sec else e) }"

function PMTPID_loop :: "bytes \<Rightarrow> int \<Rightarrow> int \<Rightarrow> u16 go" where
  "PMTPID_loop sec e i =
     (if i + 4 \<le> e then do {
        a \<leftarrow> at sec i; b \<leftarrow> at sec (i + 1);
        let prog = push_bit 8 (uint a) OR uint b;
        if prog \<noteq> 0 then do {
          c \<leftarrow> at sec (i + 2); d \<leftarrow> at sec (i + 3);
          Some (pid13 c d) }
        else PMTPID_loop sec e (i + 4) }
      else Some 0)"
  by pat_completeness auto
termination
  by (relation "measure (\<lambda>(sec, e, i). nat (e - i))") auto

declare PMTPID_loop.simps [simp del]

definition PMTPID :: "bytes \<Rightarrow> u16 go" where
  "PMTPID pkt = do {
     sec \<leftarrow> psi_section pkt;
     if len sec < 12 then Some 0
     else do {
       tid \<leftarrow> at sec 0;
       if tid \<noteq> 0x00 then Some 0
       else do { e \<leftarrow> table_end sec; PMTPID_loop sec e 8 } } }"

record PMT =
  VideoPID :: u16
  VideoType :: byte
  PCRPID :: u16

definition isVideo :: "byte \<Rightarrow> bool" where
  "isVideo t \<longleftrightarrow> t \<in> {0x01, 0x02, 0x10, 0x1b, 0x24, 0xea}"

definition isAudio :: "byte \<Rightarrow> bool" where
  "isAudio t \<longleftrightarrow>
     t \<in> {0x03, 0x04, 0x0f, 0x11, 0x1c, 0x81, 0x82, 0x83, 0x84, 0x85, 0x86, 0x87, 0x91}"

text \<open>The loop over a PMT's elementary streams that both \<open>ParsePMT\<close> and
  \<open>ParsePMTSection\<close> run: the first entry with a video type gives the video PID.\<close>

function PMT_video_loop :: "bytes \<Rightarrow> int \<Rightarrow> int \<Rightarrow> u16 \<Rightarrow> byte \<Rightarrow> (u16 \<times> byte) go" where
  "PMT_video_loop sec e i vpid vtype =
     (if i + 5 \<le> e then do {
        st \<leftarrow> at sec i;
        a \<leftarrow> at sec (i + 1); b \<leftarrow> at sec (i + 2);
        let pid = pid13 a b;
        c \<leftarrow> at sec (i + 3); d \<leftarrow> at sec (i + 4);
        let esInfoLen = len12 c d;
        let (vpid', vtype') = (if vpid = 0 \<and> isVideo st then (pid, st) else (vpid, vtype));
        PMT_video_loop sec e (i + (5 + esInfoLen)) vpid' vtype' }
      else Some (vpid, vtype))"
  by pat_completeness auto
termination
  by (relation "measure (\<lambda>(sec, e, i, v, t). nat (e - i))") (auto simp: add_pos_nonneg)

declare PMT_video_loop.simps [simp del]

definition ParsePMT :: "bytes \<Rightarrow> PMT option go" where
  "ParsePMT pkt = do {
     sec \<leftarrow> psi_section pkt;
     if len sec < 12 then Some None
     else do {
       tid \<leftarrow> at sec 0;
       if tid \<noteq> 0x02 then Some None
       else do {
         e \<leftarrow> table_end sec;
         p8 \<leftarrow> at sec 8; p9 \<leftarrow> at sec 9;
         let pcr = pid13 p8 p9;
         l10 \<leftarrow> at sec 10; l11 \<leftarrow> at sec 11;
         let progInfoLen = len12 l10 l11;
         (vpid, vtype) \<leftarrow> PMT_video_loop sec e (12 + progInfoLen) 0 0;
         if vpid = 0 then Some None
         else Some (Some \<lparr>VideoPID = vpid, VideoType = vtype,
                          PCRPID = (if pcr = 0x1fff then vpid else pcr)\<rparr>) } } }"

section \<open>Clocks and the random-access flag\<close>

definition RAI :: "bytes \<Rightarrow> bool go" where
  "RAI pkt = do {
     c \<leftarrow> afc pkt;
     if c AND 0x2 = 0 \<or> len pkt < 6 then Some False
     else do {
       l \<leftarrow> at pkt 4;
       if l = 0 then Some False
       else do { f \<leftarrow> at pkt 5; Some (f AND 0x40 \<noteq> 0) } } }"

text \<open>\<open>int64(b[0])<<25 | \<dots> | int64(b[4])>>7\<close>: the PCR base in its five bytes.\<close>

definition pcr_base :: "byte \<Rightarrow> byte \<Rightarrow> byte \<Rightarrow> byte \<Rightarrow> byte \<Rightarrow> int" where
  "pcr_base b0 b1 b2 b3 b4 =
     push_bit 25 (uint b0) OR push_bit 17 (uint b1) OR push_bit 9 (uint b2) OR
     push_bit 1 (uint b3) OR drop_bit 7 (uint b4)"

definition PCR :: "bytes \<Rightarrow> int option go" where
  "PCR pkt = do {
     c \<leftarrow> afc pkt;
     if c AND 0x2 = 0 \<or> len pkt < 12 then Some None
     else do {
       l \<leftarrow> at pkt 4;
       if uint l < 7 then Some None
       else do {
         f \<leftarrow> at pkt 5;
         if f AND 0x10 = 0 then Some None
         else do {
           b0 \<leftarrow> at pkt 6; b1 \<leftarrow> at pkt 7; b2 \<leftarrow> at pkt 8; b3 \<leftarrow> at pkt 9; b4 \<leftarrow> at pkt 10;
           Some (Some (pcr_base b0 b1 b2 b3 b4 AND 0x1ffffffff)) } } } }"

text \<open>The 33-bit timestamp of a PES header in its five bytes, as \<open>PTS\<close> puts it together.\<close>

definition pts_base :: "byte \<Rightarrow> byte \<Rightarrow> byte \<Rightarrow> byte \<Rightarrow> byte \<Rightarrow> int" where
  "pts_base b0 b1 b2 b3 b4 =
     push_bit 29 (uint (b0 AND 0x0e)) OR push_bit 22 (uint b1) OR
     push_bit 14 (uint (b2 AND 0xfe)) OR push_bit 7 (uint b3) OR drop_bit 1 (uint b4)"

text \<open>The three bytes of a PES start code at the front of a payload.\<close>

definition pes_start :: "bytes \<Rightarrow> bool go" where
  "pes_start p = do {
     b0 \<leftarrow> at p 0;
     if b0 \<noteq> 0 then Some False
     else do {
       b1 \<leftarrow> at p 1;
       if b1 \<noteq> 0 then Some False
       else do { b2 \<leftarrow> at p 2; Some (b2 = 1) } } }"

definition PTS :: "bytes \<Rightarrow> int option go" where
  "PTS pkt = do {
     off \<leftarrow> PayloadOffset pkt;
     if off < 0 then Some None
     else do {
       p \<leftarrow> slice_from pkt off;
       if len p < 14 then Some None
       else do {
         st \<leftarrow> pes_start p;
         if \<not> st then Some None
         else do {
           f \<leftarrow> at p 7;
           if drop_bit 6 f AND 0x3 = 0 then Some None
           else do {
             b0 \<leftarrow> at p 9; b1 \<leftarrow> at p 10; b2 \<leftarrow> at p 11; b3 \<leftarrow> at p 12; b4 \<leftarrow> at p 13;
             Some (Some (pts_base b0 b1 b2 b3 b4 AND 0x1ffffffff)) } } } } }"


section \<open>Keyframes recognised in the elementary stream\<close>

text \<open>\<open>unescape\<close>: a NAL unit's payload without its emulation prevention bytes, at most
  \<open>room\<close> bytes of it, up to the next start code.  The code writes into \<open>dst\<close>; the model
  returns \<open>dst[:n]\<close>.\<close>

fun unescape :: "nat \<Rightarrow> nat \<Rightarrow> bytes \<Rightarrow> bytes" where
  "unescape room zeros [] = []"
| "unescape room zeros (c # cs) =
     (if room = 0 then []
      else if zeros \<ge> 2 \<and> c = 3 then unescape room 0 cs
      else if zeros \<ge> 2 \<and> c \<le> 1 then []
      else c # unescape (room - 1) (if c = 0 then zeros + 1 else 0) cs)"

text \<open>\<open>for ; i < len(r) && r[i] == 0xff; i++ { v += 255 }\<close>, giving \<open>i\<close> and \<open>v\<close>.\<close>

function ff_run :: "bytes \<Rightarrow> int \<Rightarrow> int \<Rightarrow> (int \<times> int) go" where
  "ff_run r i v =
     (if i < len r then do {
        b \<leftarrow> at r i;
        if b = 0xff then ff_run r (i + 1) (v + 255) else Some (i, v) }
      else Some (i, v))"
  by pat_completeness auto
termination
  by (relation "measure (\<lambda>(r, i, v). nat (len r - i))") auto

declare ff_run.simps [simp del]

lemma ff_run_ge: "ff_run r i v = Some (j, w) \<Longrightarrow> i \<le> j \<and> v \<le> w"
proof (induction r i v rule: ff_run.induct)
  case (1 r i v)
  from "1.prems" show ?case
    by (subst (asm) ff_run.simps) (auto split: if_splits Option.bind_splits dest!: "1.IH")
qed

text \<open>The walk over the SEI messages of a NAL unit: payload type and size, then the payload.\<close>

function sei_loop :: "bytes \<Rightarrow> int \<Rightarrow> bool go" where
  "sei_loop r i =
     (if i < len r then do {
        (i1, t1) \<leftarrow> ff_run r i 0;
        if i1 \<ge> len r then Some False
        else do {
          bt \<leftarrow> at r i1;
          (i2, s1) \<leftarrow> ff_run r (i1 + 1) 0;
          if i2 \<ge> len r then Some False
          else do {
            bs \<leftarrow> at r i2;
            let ty = t1 + uint bt;
            let size = s1 + uint bs;
            if ty = 6 then
              (if size > 0 \<and> i2 + 1 < len r
               then do { x \<leftarrow> at r (i2 + 1); Some (x AND 0x80 \<noteq> 0) }
               else Some False)
            else sei_loop r (i2 + 1 + size) } } }
      else Some False)"
  by pat_completeness auto
termination
proof (relation "measure (\<lambda>(r, i). nat (len r - i))", goal_cases)
  case 1
  then show ?case by simp
next
  case (2 r i p i1 t1 bt q i2 s1 bs ty size)
  then have "i \<le> i1" "i1 + 1 \<le> i2" "0 \<le> s1" by (auto dest!: ff_run_ge)
  moreover have "0 \<le> uint bs" by simp
  ultimately have "i < i2 + 1 + size" using 2 by linarith
  then show ?case using 2 by auto
qed

declare sei_loop.simps [simp del]

text \<open>\<open>r = r[:len(r)-1]\<close> while the last byte is zero.\<close>

definition trim_zeros :: "bytes \<Rightarrow> bytes" where
  "trim_zeros r = rev (dropWhile (\<lambda>b. b = 0) (rev r))"

definition exactRecoveryPoint :: "bytes \<Rightarrow> bool go" where
  "exactRecoveryPoint b = sei_loop (trim_zeros (unescape 188 0 b)) 0"

text \<open>\<open>bitReader\<close>: the buffer and the bit position; the inner \<open>option\<close> is the code's \<open>ok\<close>.\<close>

definition br_bit :: "bytes \<Rightarrow> int \<Rightarrow> (int \<times> int) option go" where
  "br_bit b pos =
     (if pos div 8 \<ge> len b then Some None
      else do {
        x \<leftarrow> at b (pos div 8);
        Some (Some (uint (drop_bit (nat (7 - pos mod 8)) x AND 1), pos + 1)) })"

function ue_zeros :: "bytes \<Rightarrow> int \<Rightarrow> nat \<Rightarrow> (nat \<times> int) option go" where
  "ue_zeros b pos zeros =
     (case br_bit b pos of
        None \<Rightarrow> None
      | Some None \<Rightarrow> Some None
      | Some (Some (v, pos')) \<Rightarrow>
          if zeros > 16 then Some None
          else if v = 1 then Some (Some (zeros, pos'))
          else ue_zeros b pos' (zeros + 1))"
  by pat_completeness auto
termination
  by (relation "measure (\<lambda>(b, pos, zeros). 17 - zeros)") auto

declare ue_zeros.simps [simp del]

fun ue_bits :: "bytes \<Rightarrow> int \<Rightarrow> nat \<Rightarrow> int \<Rightarrow> (int \<times> int) option go" where
  "ue_bits b pos 0 n = Some (Some (n, pos))"
| "ue_bits b pos (Suc k) n =
     (case br_bit b pos of
        None \<Rightarrow> None
      | Some None \<Rightarrow> Some None
      | Some (Some (v, pos')) \<Rightarrow> ue_bits b pos' k (push_bit 1 n OR v))"

definition br_ue :: "bytes \<Rightarrow> int \<Rightarrow> (int \<times> int) option go" where
  "br_ue b pos =
     (case ue_zeros b pos 0 of
        None \<Rightarrow> None
      | Some None \<Rightarrow> Some None
      | Some (Some (zeros, pos1)) \<Rightarrow>
          (case ue_bits b pos1 zeros 0 of
             None \<Rightarrow> None
           | Some None \<Rightarrow> Some None
           | Some (Some (n, pos2)) \<Rightarrow> Some (Some (2 ^ zeros - 1 + n, pos2))))"

definition intraSlice :: "bytes \<Rightarrow> bool go" where
  "intraSlice b =
     (let r = unescape 8 0 b in
      case br_ue r 0 of
        None \<Rightarrow> None
      | Some None \<Rightarrow> Some False
      | Some (Some (_, pos)) \<Rightarrow>
          (case br_ue r pos of
             None \<Rightarrow> None
           | Some None \<Rightarrow> Some False
           | Some (Some (t, _)) \<Rightarrow> Some (t mod 5 = 2)))"

text \<open>The position after a start code at \<open>i\<close> (00 00 01 or 00 00 00 01), or \<open>-1\<close>: the two
  tests at the head of the walk in \<open>StartsKeyframe\<close>.\<close>

definition start_code :: "bytes \<Rightarrow> int \<Rightarrow> int go" where
  "start_code es i = do {
     e0 \<leftarrow> at es i;
     if e0 \<noteq> 0 then Some (-1)
     else do {
       e1 \<leftarrow> at es (i + 1);
       if e1 \<noteq> 0 then Some (-1)
       else do {
         e2 \<leftarrow> at es (i + 2);
         if e2 = 1 then Some (i + 3)
         else if e2 = 0 \<and> i + 4 < len es then do {
           e3 \<leftarrow> at es (i + 3);
           Some (if e3 = 1 then i + 4 else -1) }
         else Some (-1) } } }"

lemma start_code_cases: "start_code es i = Some k \<Longrightarrow> k = -1 \<or> k = i + 3 \<or> k = i + 4"
  by (auto simp: start_code_def split: if_splits Option.bind_splits)

text \<open>What one NAL unit (or MPEG start code) decides: \<open>Decided b\<close> is the code's \<open>return b\<close>,
  \<open>Walk sps recovery\<close> goes on with the flags.\<close>

datatype verdict = Decided bool | Walk bool bool

definition nal_verdict :: "byte \<Rightarrow> bytes \<Rightarrow> int \<Rightarrow> bool \<Rightarrow> bool \<Rightarrow> verdict go" where
  "nal_verdict st es k sps recovery = do {
     h \<leftarrow> at es k;
     if st = StreamTypeH264 then
       (let t = h AND 0x1f in
        if t = 5 then Some (Decided True)
        else if t = 7 then Some (Walk True recovery)
        else if t = 6 then
          (if recovery then Some (Walk sps True)
           else do { r \<leftarrow> slice_from es (k + 1); x \<leftarrow> exactRecoveryPoint r; Some (Walk sps x) })
        else if t = 1 then
          (if sps \<and> recovery
           then do { r \<leftarrow> slice_from es (k + 1); x \<leftarrow> intraSlice r; Some (Decided x) }
           else Some (Decided False))
        else Some (Walk sps recovery))
     else if st = StreamTypeHEVC then
       (let t = drop_bit 1 h AND 0x3f in
        if t \<ge> 16 \<and> t \<le> 23 then Some (Decided True) else Some (Walk sps recovery))
     else (if h = 0xb3 then Some (Decided True) else Some (Walk sps recovery)) }"

function keyframe_loop :: "byte \<Rightarrow> bytes \<Rightarrow> int \<Rightarrow> bool \<Rightarrow> bool \<Rightarrow> bool go" where
  "keyframe_loop st es i sps recovery =
     (if i + 3 < len es then
        (case start_code es i of
           None \<Rightarrow> None
         | Some k \<Rightarrow>
             if k < 0 then keyframe_loop st es (i + 1) sps recovery
             else if k \<ge> len es then Some False
             else (case nal_verdict st es k sps recovery of
                 None \<Rightarrow> None
               | Some (Decided b) \<Rightarrow> Some b
               | Some (Walk sps' recovery') \<Rightarrow> keyframe_loop st es k sps' recovery'))
      else Some False)"
  by pat_completeness auto
termination
  by (relation "measure (\<lambda>(st, es, i, s, r). nat (len es - i))") (auto dest: start_code_cases)

declare keyframe_loop.simps [simp del]

definition StartsKeyframe :: "bytes \<Rightarrow> byte \<Rightarrow> bool go" where
  "StartsKeyframe pkt st =
     (if st \<notin> {StreamTypeMPEG1, StreamTypeMPEG2, StreamTypeH264, StreamTypeHEVC}
      then Some False
      else do {
        off \<leftarrow> PayloadOffset pkt;
        if off < 0 \<or> off + 9 > len pkt then Some False
        else do {
          p \<leftarrow> slice_from pkt off;
          pes \<leftarrow> pes_start p;
          if \<not> pes then Some False
          else do {
            h \<leftarrow> at p 8;
            let esStart = 9 + uint h;
            if esStart \<ge> len p then Some False
            else do {
              es \<leftarrow> slice_from p esStart;
              keyframe_loop st es 0 False False } } } })"


section \<open>Listing a table's contents\<close>

record ES =
  esPID :: u16
  esType :: byte

function PATPrograms_loop :: "bytes \<Rightarrow> int \<Rightarrow> int \<Rightarrow> u16 list go" where
  "PATPrograms_loop sec e i =
     (if i + 4 \<le> e then do {
        a \<leftarrow> at sec i; b \<leftarrow> at sec (i + 1);
        let prog = (push_bit 8 (ucast a) OR ucast b :: u16);
        rest \<leftarrow> PATPrograms_loop sec e (i + 4);
        Some (if prog \<noteq> 0 then prog # rest else rest) }
      else Some [])"
  by pat_completeness auto
termination
  by (relation "measure (\<lambda>(sec, e, i). nat (e - i))") auto

declare PATPrograms_loop.simps [simp del]

definition PATPrograms :: "bytes \<Rightarrow> u16 list go" where
  "PATPrograms pkt = do {
     sec \<leftarrow> psi_section pkt;
     if len sec < 12 then Some []
     else do {
       tid \<leftarrow> at sec 0;
       if tid \<noteq> 0x00 then Some []
       else do { e \<leftarrow> table_end sec; PATPrograms_loop sec e 8 } } }"

text \<open>The entry loop of \<open>ParsePMTStreams\<close> and \<open>PMTStreamsSection\<close>, in table order.\<close>

function PMT_es_loop :: "bytes \<Rightarrow> int \<Rightarrow> int \<Rightarrow> ES list go" where
  "PMT_es_loop sec e i =
     (if i + 5 \<le> e then do {
        c \<leftarrow> at sec (i + 3); d \<leftarrow> at sec (i + 4);
        let esInfoLen = len12 c d;
        a \<leftarrow> at sec (i + 1); b \<leftarrow> at sec (i + 2);
        st \<leftarrow> at sec i;
        rest \<leftarrow> PMT_es_loop sec e (i + (5 + esInfoLen));
        Some (\<lparr>esPID = pid13 a b, esType = st\<rparr> # rest) }
      else Some [])"
  by pat_completeness auto
termination
  by (relation "measure (\<lambda>(sec, e, i). nat (e - i))") auto

declare PMT_es_loop.simps [simp del]

definition ParsePMTStreams :: "bytes \<Rightarrow> (ES list \<times> bool) go" where
  "ParsePMTStreams pkt = do {
     sec \<leftarrow> psi_section pkt;
     if len sec < 12 then Some ([], False)
     else do {
       tid \<leftarrow> at sec 0;
       if tid \<noteq> 0x02 then Some ([], False)
       else do {
         e \<leftarrow> table_end sec;
         l10 \<leftarrow> at sec 10; l11 \<leftarrow> at sec 11;
         let progInfoLen = len12 l10 l11;
         out \<leftarrow> PMT_es_loop sec e (12 + progInfoLen);
         Some (out, out \<noteq> []) } } }"

definition Kind :: "ES \<Rightarrow> string" where
  "Kind e = (if isVideo (esType e) then ''Video''
             else if isAudio (esType e) then ''Audio''
             else ''Data'')"

section \<open>Sections that span packets\<close>

definition MaxSectionBytes :: int where
  "MaxSectionBytes = 1024"

record SectionAssembler =
  asec :: bytes
  acc :: byte

definition new_assembler :: SectionAssembler where
  "new_assembler = \<lparr>asec = [], acc = 0\<rparr>"

text \<open>The second half of \<open>Feed\<close>, once the packet's part has been taken: is the section whole?\<close>

definition asm_complete :: "SectionAssembler \<Rightarrow> (SectionAssembler \<times> bytes option) go" where
  "asm_complete a =
     (let sec = asec a in
      if len sec < 3 then Some (a, None)
      else do {
        s1 \<leftarrow> at sec 1; s2 \<leftarrow> at sec 2;
        let total = 3 + len12 s1 s2;
        if total > MaxSectionBytes then Some (a\<lparr>asec := []\<rparr>, None)
        else if len sec < total then Some (a, None)
        else do { out \<leftarrow> slice_to sec total; Some (a\<lparr>asec := []\<rparr>, Some out) } })"

definition asm_Feed :: "SectionAssembler \<Rightarrow> bytes \<Rightarrow> (SectionAssembler \<times> bytes option) go" where
  "asm_Feed a pkt = do {
     off \<leftarrow> PayloadOffset pkt;
     if off < 0 then Some (a, None)
     else do {
       b3 \<leftarrow> at pkt 3;
       let cc = b3 AND 0x0f;
       pusi \<leftarrow> PUSI pkt;
       if pusi then do {
         ptr \<leftarrow> at pkt off;
         let off' = off + (1 + uint ptr);
         if off' \<ge> len pkt then Some (a\<lparr>asec := []\<rparr>, None)
         else do {
           part \<leftarrow> slice_from pkt off';
           asm_complete (a\<lparr>asec := part, acc := cc\<rparr>) } }
       else if asec a = [] then Some (a, None)
       else if cc = acc a then Some (a, None)
       else if cc \<noteq> (acc a + 1) AND 0x0f then Some (a\<lparr>asec := []\<rparr>, None)
       else do {
         part \<leftarrow> slice_from pkt off;
         asm_complete (a\<lparr>asec := asec a @ part, acc := cc\<rparr>) } } }"

definition asm_Reset :: "SectionAssembler \<Rightarrow> SectionAssembler" where
  "asm_Reset a = a\<lparr>asec := []\<rparr>"

definition esEnd :: "bytes \<Rightarrow> int go" where
  "esEnd sec = do {
     s1 \<leftarrow> at sec 1; s2 \<leftarrow> at sec 2;
     let e = 3 + len12 s1 s2 - 4;
     Some (if e > len sec - 4 then len sec - 4 else e) }"

definition ParsePMTSection :: "bytes \<Rightarrow> PMT option go" where
  "ParsePMTSection sec =
     (if len sec < 12 then Some None
      else do {
        tid \<leftarrow> at sec 0;
        if tid \<noteq> 0x02 then Some None
        else do {
          p8 \<leftarrow> at sec 8; p9 \<leftarrow> at sec 9;
          let pcr = pid13 p8 p9;
          l10 \<leftarrow> at sec 10; l11 \<leftarrow> at sec 11;
          let progInfoLen = len12 l10 l11;
          e \<leftarrow> esEnd sec;
          (vpid, vtype) \<leftarrow> PMT_video_loop sec e (12 + progInfoLen) 0 0;
          if vpid = 0 then Some None
          else Some (Some \<lparr>VideoPID = vpid, VideoType = vtype,
                           PCRPID = (if pcr = 0x1fff \<or> pcr = 0 then vpid else pcr)\<rparr>) } })"

definition PMTStreamsSection :: "bytes \<Rightarrow> (ES list \<times> bool) go" where
  "PMTStreamsSection sec =
     (if len sec < 12 then Some ([], False)
      else do {
        tid \<leftarrow> at sec 0;
        if tid \<noteq> 0x02 then Some ([], False)
        else do {
          l10 \<leftarrow> at sec 10; l11 \<leftarrow> at sec 11;
          let progInfoLen = len12 l10 l11;
          e \<leftarrow> esEnd sec;
          out \<leftarrow> PMT_es_loop sec e (12 + progInfoLen);
          Some (out, out \<noteq> []) } })"


section \<open>No reader panics\<close>

lemma afc_safe [go_safe]: "4 \<le> len pkt \<Longrightarrow> \<exists>c. afc pkt = Some c"
  by (simp add: afc_def go_simps)

lemma PUSI_safe [go_safe]: "2 \<le> len pkt \<Longrightarrow> \<exists>b. PUSI pkt = Some b"
  by (simp add: PUSI_def go_simps)

lemma PID_safe [go_safe]: "3 \<le> len pkt \<Longrightarrow> \<exists>p. PID pkt = Some p"
  by (simp add: PID_def go_simps)

lemma PayloadOffset_range:
  "PayloadOffset pkt = Some off \<Longrightarrow> off = -1 \<or> (4 \<le> off \<and> off < len pkt)"
  by (auto simp: PayloadOffset_def Let_def split: if_splits Option.bind_splits)

lemma PayloadOffset_safe [go_safe]: "4 \<le> len pkt \<Longrightarrow> \<exists>off. PayloadOffset pkt = Some off"
  using afc_safe [of pkt] by (auto simp: PayloadOffset_def go_simps)

lemma psi_section_safe [go_safe]: "4 \<le> len pkt \<Longrightarrow> \<exists>sec. psi_section pkt = Some sec"
proof -
  assume l: "4 \<le> len pkt"
  then obtain off where off: "PayloadOffset pkt = Some off" using PayloadOffset_safe by blast
  obtain b where "PUSI pkt = Some b" using l PUSI_safe [of pkt] by auto
  with off PayloadOffset_range [OF off] show ?thesis
    by (auto simp: psi_section_def go_simps Let_def)
qed

lemma table_end_safe:
  "3 \<le> len sec \<Longrightarrow> \<exists>e. table_end sec = Some e \<and> e \<le> len sec"
  by (simp add: table_end_def go_simps Let_def)

lemma esEnd_safe: "3 \<le> len sec \<Longrightarrow> \<exists>e. esEnd sec = Some e \<and> e \<le> len sec - 4"
  by (simp add: esEnd_def go_simps Let_def)

lemma PMTPID_loop_safe [go_safe]:
  "0 \<le> i \<Longrightarrow> e \<le> len sec \<Longrightarrow> \<exists>p. PMTPID_loop sec e i = Some p"
proof (induction sec e i rule: PMTPID_loop.induct)
  case (1 sec e i)
  show ?case
  proof (cases "i + 4 \<le> e")
    case True
    with 1 show ?thesis
      by (subst PMTPID_loop.simps) (auto simp: go_simps Let_def)
  next
    case False
    then show ?thesis by (simp add: PMTPID_loop.simps)
  qed
qed

lemma PATPrograms_loop_safe [go_safe]:
  "0 \<le> i \<Longrightarrow> e \<le> len sec \<Longrightarrow> \<exists>p. PATPrograms_loop sec e i = Some p"
proof (induction sec e i rule: PATPrograms_loop.induct)
  case (1 sec e i)
  show ?case
  proof (cases "i + 4 \<le> e")
    case True
    with "1.IH" [OF True at_Some at_Some refl] "1.prems"
    obtain p where "PATPrograms_loop sec e (i + 4) = Some p" by auto
    with True 1 show ?thesis
      by (subst PATPrograms_loop.simps) (simp add: go_simps Let_def)
  next
    case False
    then show ?thesis by (simp add: PATPrograms_loop.simps)
  qed
qed

lemma PMT_video_loop_safe [go_safe]:
  "0 \<le> i \<Longrightarrow> e \<le> len sec \<Longrightarrow> \<exists>p. PMT_video_loop sec e i v t = Some p"
proof (induction sec e i v t rule: PMT_video_loop.induct)
  case (1 sec e i v t)
  show ?case
  proof (cases "i + 5 \<le> e")
    case True
    with 1 show ?thesis
      by (subst PMT_video_loop.simps) (auto simp: go_simps Let_def split: prod.splits)
  next
    case False
    then show ?thesis by (simp add: PMT_video_loop.simps)
  qed
qed

lemma PMT_es_loop_safe [go_safe]:
  "0 \<le> i \<Longrightarrow> e \<le> len sec \<Longrightarrow> \<exists>p. PMT_es_loop sec e i = Some p"
proof (induction sec e i rule: PMT_es_loop.induct)
  case (1 sec e i)
  show ?case
  proof (cases "i + 5 \<le> e")
    case True
    let ?l = "len12 (sec ! nat (i + 3)) (sec ! nat (i + 4))"
    obtain p where "PMT_es_loop sec e (i + (5 + ?l)) = Some p"
      using "1.IH" [OF True at_Some at_Some refl at_Some at_Some at_Some] True "1.prems" by auto
    with True 1 show ?thesis
      by (subst PMT_es_loop.simps) (simp add: go_simps Let_def)
  next
    case False
    then show ?thesis by (simp add: PMT_es_loop.simps)
  qed
qed

lemma PMTPID_safe [go_safe]: "4 \<le> len pkt \<Longrightarrow> \<exists>p. PMTPID pkt = Some p"
proof -
  assume "4 \<le> len pkt"
  then obtain sec where sec: "psi_section pkt = Some sec" using psi_section_safe by blast
  show ?thesis
  proof (cases "len sec < 12")
    case False
    then obtain e where "table_end sec = Some e" "e \<le> len sec" using table_end_safe [of sec] by auto
    with sec False PMTPID_loop_safe [of 8 e sec] show ?thesis by (auto simp: PMTPID_def go_simps)
  qed (simp add: PMTPID_def sec)
qed

lemma PATPrograms_safe [go_safe]: "4 \<le> len pkt \<Longrightarrow> \<exists>p. PATPrograms pkt = Some p"
proof -
  assume "4 \<le> len pkt"
  then obtain sec where sec: "psi_section pkt = Some sec" using psi_section_safe by blast
  show ?thesis
  proof (cases "len sec < 12")
    case False
    then obtain e where "table_end sec = Some e" "e \<le> len sec" using table_end_safe [of sec] by auto
    with sec False PATPrograms_loop_safe [of 8 e sec] show ?thesis
      by (auto simp: PATPrograms_def go_simps)
  qed (simp add: PATPrograms_def sec)
qed

lemma ParsePMT_safe [go_safe]: "4 \<le> len pkt \<Longrightarrow> \<exists>p. ParsePMT pkt = Some p"
proof -
  assume "4 \<le> len pkt"
  then obtain sec where sec: "psi_section pkt = Some sec" using psi_section_safe by blast
  show ?thesis
  proof (cases "len sec < 12")
    case False
    then obtain e where e: "table_end sec = Some e" "e \<le> len sec" using table_end_safe [of sec] by auto
    obtain v t where "PMT_video_loop sec e (12 + len12 (sec ! 10) (sec ! 11)) 0 0 = Some (v, t)"
      using PMT_video_loop_safe [of "12 + len12 (sec ! 10) (sec ! 11)" e sec 0 0] e by auto
    with sec e False show ?thesis by (simp add: ParsePMT_def go_simps Let_def)
  qed (simp add: ParsePMT_def sec)
qed

lemma ParsePMTStreams_safe [go_safe]: "4 \<le> len pkt \<Longrightarrow> \<exists>p. ParsePMTStreams pkt = Some p"
proof -
  assume "4 \<le> len pkt"
  then obtain sec where sec: "psi_section pkt = Some sec" using psi_section_safe by blast
  show ?thesis
  proof (cases "len sec < 12")
    case False
    then obtain e where e: "table_end sec = Some e" "e \<le> len sec" using table_end_safe [of sec] by auto
    obtain l where "PMT_es_loop sec e (12 + len12 (sec ! 10) (sec ! 11)) = Some l"
      using PMT_es_loop_safe [of "12 + len12 (sec ! 10) (sec ! 11)" e sec] e by auto
    with sec e False show ?thesis by (auto simp: ParsePMTStreams_def go_simps Let_def)
  qed (simp add: ParsePMTStreams_def sec)
qed

lemma ParsePMTSection_safe [go_safe]: "\<exists>p. ParsePMTSection sec = Some p"
proof (cases "len sec < 12")
  case False
  then obtain e where e: "esEnd sec = Some e" "e \<le> len sec - 4" using esEnd_safe [of sec] by auto
  obtain v t where "PMT_video_loop sec e (12 + len12 (sec ! 10) (sec ! 11)) 0 0 = Some (v, t)"
    using PMT_video_loop_safe [of "12 + len12 (sec ! 10) (sec ! 11)" e sec 0 0] e by auto
  with e False show ?thesis by (simp add: ParsePMTSection_def go_simps Let_def)
qed (simp add: ParsePMTSection_def)

lemma PMTStreamsSection_safe [go_safe]: "\<exists>p. PMTStreamsSection sec = Some p"
proof (cases "len sec < 12")
  case False
  then obtain e where e: "esEnd sec = Some e" "e \<le> len sec - 4" using esEnd_safe [of sec] by auto
  obtain l where "PMT_es_loop sec e (12 + len12 (sec ! 10) (sec ! 11)) = Some l"
    using PMT_es_loop_safe [of "12 + len12 (sec ! 10) (sec ! 11)" e sec] e by auto
  with e False show ?thesis by (auto simp: PMTStreamsSection_def go_simps Let_def)
qed (simp add: PMTStreamsSection_def)

lemma RAI_safe [go_safe]: "4 \<le> len pkt \<Longrightarrow> \<exists>b. RAI pkt = Some b"
  using afc_safe [of pkt] by (auto simp: RAI_def go_simps)

lemma PCR_safe [go_safe]: "4 \<le> len pkt \<Longrightarrow> \<exists>b. PCR pkt = Some b"
  using afc_safe [of pkt] by (auto simp: PCR_def go_simps)

lemma pes_start_safe [go_safe]: "3 \<le> len p \<Longrightarrow> \<exists>b. pes_start p = Some b"
  by (auto simp: pes_start_def go_simps)

lemma PTS_safe [go_safe]: "4 \<le> len pkt \<Longrightarrow> \<exists>b. PTS pkt = Some b"
proof -
  assume "4 \<le> len pkt"
  then obtain off where off: "PayloadOffset pkt = Some off" using PayloadOffset_safe by blast
  show ?thesis
  proof (cases "off < 0 \<or> len (drop (nat off) pkt) < 14")
    case True
    with off PayloadOffset_range [OF off] show ?thesis by (auto simp: PTS_def go_simps)
  next
    case False
    then obtain b where "pes_start (drop (nat off) pkt) = Some b"
      using pes_start_safe [of "drop (nat off) pkt"] by auto
    with False off PayloadOffset_range [OF off] show ?thesis
      by (auto simp: PTS_def go_simps)
  qed
qed


lemma br_bit_safe [go_safe]: "0 \<le> pos \<Longrightarrow> \<exists>r. br_bit b pos = Some r"
  by (auto simp: br_bit_def go_simps)

lemma br_bit_pos: "br_bit b pos = Some (Some (v, pos')) \<Longrightarrow> pos' = pos + 1 \<and> pos div 8 < len b"
  by (auto simp: br_bit_def split: if_splits Option.bind_splits)

lemma ue_zeros_safe:
  "0 \<le> pos \<Longrightarrow> \<exists>r. ue_zeros b pos z = Some r \<and> (\<forall>k p. r = Some (k, p) \<longrightarrow> 0 \<le> p)"
proof (induction b pos z rule: ue_zeros.induct)
  case (1 b pos z)
  obtain r where r: "br_bit b pos = Some r" using br_bit_safe [OF "1.prems"] by blast
  show ?case
  proof (cases r)
    case None
    with r show ?thesis by (subst ue_zeros.simps) simp
  next
    case (Some vp)
    obtain v pos' where vp: "vp = (v, pos')" by (cases vp)
    with r Some have "pos' = pos + 1" using br_bit_pos by blast
    then have "0 \<le> pos'" using "1.prems" by simp
    with r Some vp "1.IH" [OF r Some] show ?thesis
      by (subst ue_zeros.simps) auto
  qed
qed

lemma ue_bits_safe: "0 \<le> pos \<Longrightarrow> \<exists>r. ue_bits b pos k n = Some r \<and> (\<forall>m p. r = Some (m, p) \<longrightarrow> 0 \<le> p)"
proof (induction k arbitrary: pos n)
  case 0
  then show ?case by simp
next
  case (Suc k)
  obtain r where r: "br_bit b pos = Some r" using br_bit_safe [OF Suc.prems] by blast
  show ?case
  proof (cases r)
    case None
    with r show ?thesis by simp
  next
    case (Some vp)
    obtain v pos' where vp: "vp = (v, pos')" by (cases vp)
    with r Some have "pos' = pos + 1" using br_bit_pos by blast
    with Suc.IH [of pos' "push_bit 1 n OR v"] Suc.prems r Some vp show ?thesis by auto
  qed
qed

lemma br_ue_safe: "0 \<le> pos \<Longrightarrow> \<exists>r. br_ue b pos = Some r \<and> (\<forall>m p. r = Some (m, p) \<longrightarrow> 0 \<le> p)"
proof -
  assume pos: "0 \<le> pos"
  obtain r where r: "ue_zeros b pos 0 = Some r" "\<forall>k p. r = Some (k, p) \<longrightarrow> 0 \<le> p"
    using ue_zeros_safe [OF pos] by blast
  show ?thesis
  proof (cases r)
    case None
    with r show ?thesis by (simp add: br_ue_def)
  next
    case (Some kp)
    obtain k p where "kp = (k, p)" by (cases kp)
    with ue_bits_safe [of p b k 0] r Some show ?thesis
      by (auto simp: br_ue_def split: option.splits)
  qed
qed

lemma intraSlice_safe [go_safe]: "\<exists>r. intraSlice b = Some r"
proof -
  let ?r = "unescape 8 0 b"
  obtain r1 where r1: "br_ue ?r 0 = Some r1" "\<forall>m p. r1 = Some (m, p) \<longrightarrow> 0 \<le> p"
    using br_ue_safe [of 0 ?r] by auto
  show ?thesis
  proof (cases r1)
    case None
    with r1 show ?thesis by (simp add: intraSlice_def Let_def)
  next
    case (Some mp)
    obtain m p where "mp = (m, p)" by (cases mp)
    with br_ue_safe [of p ?r] r1 Some show ?thesis
      by (auto simp: intraSlice_def Let_def split: option.splits)
  qed
qed

lemma ff_run_safe: "0 \<le> i \<Longrightarrow> \<exists>j w. ff_run r i v = Some (j, w) \<and> i \<le> j \<and> v \<le> w"
proof -
  have "0 \<le> i \<Longrightarrow> \<exists>p. ff_run r i v = Some p"
  proof (induction r i v rule: ff_run.induct)
    case (1 r i v)
    then show ?case by (subst ff_run.simps) (auto simp: go_simps)
  qed
  moreover assume "0 \<le> i"
  ultimately show ?thesis using ff_run_ge [of r i v] by fastforce
qed

lemma sei_loop_safe: "0 \<le> i \<Longrightarrow> \<exists>b. sei_loop r i = Some b"
proof (induction r i rule: sei_loop.induct)
  case (1 r i)
  show ?case
  proof (cases "i < len r")
    case il: True
    obtain i1 t1 where f1: "ff_run r i 0 = Some (i1, t1)" "i \<le> i1"
      using ff_run_safe [OF "1.prems", of r 0] by blast
    show ?thesis
    proof (cases "i1 \<ge> len r")
      case True
      with il f1 show ?thesis by (subst sei_loop.simps) simp
    next
      case i1l: False
      then have a1: "at r i1 = Some (r ! nat i1)" using f1 "1.prems" by (simp add: go_simps)
      obtain i2 s1 where f2: "ff_run r (i1 + 1) 0 = Some (i2, s1)" "i1 + 1 \<le> i2" "0 \<le> s1"
        using ff_run_safe [of "i1 + 1" r 0] f1 "1.prems" by auto
      show ?thesis
      proof (cases "i2 \<ge> len r")
        case True
        with il i1l f1 a1 f2 show ?thesis by (subst sei_loop.simps) simp
      next
        case i2l: False
        then have a2: "at r i2 = Some (r ! nat i2)" using f1 f2 "1.prems" by (simp add: go_simps)
        have "0 \<le> i2 + 1 + (s1 + uint (r ! nat i2))" using f1 f2 "1.prems" by simp
        with "1.IH" [OF il f1(1) refl i1l a1 f2(1) refl i2l a2 refl refl]
          il i1l i2l f1 f2 a1 a2 "1.prems"
        show ?thesis by (subst sei_loop.simps) (auto simp: Let_def go_simps)
      qed
    qed
  next
    case False
    then show ?thesis by (simp add: sei_loop.simps)
  qed
qed

lemma exactRecoveryPoint_safe [go_safe]: "\<exists>b. exactRecoveryPoint r = Some b"
  by (simp add: exactRecoveryPoint_def sei_loop_safe)

lemma start_code_safe: "0 \<le> i \<Longrightarrow> i + 3 < len es \<Longrightarrow> \<exists>k. start_code es i = Some k"
  by (auto simp: start_code_def go_simps)

lemma nal_verdict_safe:
  assumes "0 \<le> k" "k < len es"
  shows "\<exists>v. nal_verdict st es k sps rec = Some v"
proof -
  obtain x y where "exactRecoveryPoint (drop (nat (k + 1)) es) = Some x"
    "intraSlice (drop (nat (k + 1)) es) = Some y"
    using exactRecoveryPoint_safe intraSlice_safe by blast
  with assms show ?thesis by (auto simp: nal_verdict_def go_simps Let_def)
qed

lemma keyframe_loop_safe: "0 \<le> i \<Longrightarrow> \<exists>b. keyframe_loop st es i sps rec = Some b"
proof (induction st es i sps rec rule: keyframe_loop.induct)
  case (1 st es i sps rec)
  show ?case
  proof (cases "i + 3 < len es")
    case True
    obtain k where k: "start_code es i = Some k" using start_code_safe 1 True by blast
    then have kc: "k = -1 \<or> k > i" using start_code_cases by fastforce
    show ?thesis
    proof (cases "k < 0 \<or> k \<ge> len es")
      case t: True
      with k True 1 show ?thesis by (subst keyframe_loop.simps) auto
    next
      case f: False
      then obtain v where v: "nal_verdict st es k sps rec = Some v"
        using nal_verdict_safe [of k es] by fastforce
      show ?thesis
      proof (cases v)
        case (Decided b)
        with k v f True show ?thesis by (subst keyframe_loop.simps) simp
      next
        case (Walk s' r')
        with k v f True kc "1.IH"(2) [OF True k _ _ v Walk] "1.prems" show ?thesis
          by (subst keyframe_loop.simps) auto
      qed
    qed
  next
    case False
    then show ?thesis by (simp add: keyframe_loop.simps)
  qed
qed

lemma StartsKeyframe_safe [go_safe]: "4 \<le> len pkt \<Longrightarrow> \<exists>b. StartsKeyframe pkt st = Some b"
proof -
  assume l: "4 \<le> len pkt"
  obtain off where off: "PayloadOffset pkt = Some off" using PayloadOffset_safe [OF l] by blast
  let ?p = "drop (nat off) pkt"
  show ?thesis
  proof (cases "off < 0 \<or> off + 9 > len pkt")
    case True
    with off show ?thesis by (auto simp: StartsKeyframe_def)
  next
    case False
    then have p: "slice_from pkt off = Some ?p" "9 \<le> len ?p"
      by (auto simp: go_simps len_drop)
    then obtain b where b: "pes_start ?p = Some b" using pes_start_safe [of ?p] by auto
    obtain c where "keyframe_loop st (drop (nat (9 + uint (?p ! 8))) ?p) 0 False False = Some c"
      using keyframe_loop_safe [of 0] by blast
    with off False p b show ?thesis
      by (auto simp: StartsKeyframe_def go_simps Let_def)
  qed
qed

lemma asm_complete_safe: "\<exists>r. asm_complete a = Some r"
  by (auto simp: asm_complete_def Let_def go_simps add_nonneg_nonneg)

lemma asm_Feed_safe [go_safe]: "4 \<le> len pkt \<Longrightarrow> \<exists>r. asm_Feed a pkt = Some r"
proof -
  assume l: "4 \<le> len pkt"
  obtain off where off: "PayloadOffset pkt = Some off" using PayloadOffset_safe [OF l] by blast
  obtain u where u: "PUSI pkt = Some u" using PUSI_safe [of pkt] l by auto
  note r = PayloadOffset_range [OF off]
  show ?thesis
  proof (cases "off < 0")
    case True
    with off show ?thesis by (simp add: asm_Feed_def)
  next
    case False
    have "\<exists>x. asm_complete b = Some x" for b by (rule asm_complete_safe)
    with False l r off u show ?thesis by (auto simp: asm_Feed_def go_simps Let_def)
  qed
qed

end
