(* ===== verification/TsTables.thy ===== *)
theory TsTables
  imports TsPes
begin

text \<open>
  What the readers of \<^verbatim>\<open>internal/tspes\<close> mean: the two readings of a PMT section agree, the section
  assembler returns exactly the section its packets carry and nothing after a lost packet, and a
  packet is taken for an H.264 keyframe only on the evidence the code's comment names.
\<close>

section \<open>The two readings of a PMT\<close>

text \<open>The entry that gives the video PID: the first with a video type and a PID other than 0.\<close>

definition video_entry :: "ES \<Rightarrow> bool" where
  "video_entry e \<longleftrightarrow> isVideo (esType e) \<and> esPID e \<noteq> 0"

lemma PMT_video_loop_found:
  assumes "0 \<le> i" "e \<le> len sec" "v \<noteq> 0"
  shows "PMT_video_loop sec e i v t = Some (v, t)"
  using assms
proof (induction sec e i v t rule: PMT_video_loop.induct)
  case (1 sec e i v t)
  then show ?case
    by (subst PMT_video_loop.simps) (auto simp: go_simps Let_def split: prod.splits)
qed

lemma PMT_video_loop_es:
  assumes "0 \<le> i" "e \<le> len sec" "PMT_es_loop sec e i = Some es"
  shows "\<exists>v' t'. PMT_video_loop sec e i 0 t = Some (v', t') \<and>
           (case find video_entry es of
              None \<Rightarrow> v' = 0
            | Some x \<Rightarrow> v' = esPID x \<and> t' = esType x)"
  using assms
proof (induction es arbitrary: i t)
  case Nil
  have "\<not> i + 5 \<le> e"
  proof
    assume "i + 5 \<le> e"
    with Nil show False
      by (subst (asm) PMT_es_loop.simps) (auto simp: go_simps Let_def split: Option.bind_splits)
  qed
  then show ?case by (subst PMT_video_loop.simps) simp
next
  case (Cons x xs)
  have le: "i + 5 \<le> e"
    using Cons.prems(3) by (rule_tac ccontr) (simp add: PMT_es_loop.simps)
  let ?n = "5 + len12 (sec ! nat (i + 3)) (sec ! nat (i + 4))"
  let ?p = "pid13 (sec ! nat (i + 1)) (sec ! nat (i + 2))"
  let ?st = "sec ! nat i"
  from Cons.prems le have rest: "PMT_es_loop sec e (i + ?n) = Some xs"
    and x: "x = \<lparr>esPID = ?p, esType = ?st\<rparr>"
    by (auto simp: PMT_es_loop.simps [of sec e i] go_simps Let_def split: Option.bind_splits)
  have i': "0 \<le> i + ?n" using Cons.prems by simp
  have step: "PMT_video_loop sec e i 0 t =
      PMT_video_loop sec e (i + ?n) (if isVideo ?st then ?p else 0) (if isVideo ?st then ?st else t)"
    using Cons.prems le by (subst PMT_video_loop.simps) (auto simp: go_simps Let_def)
  show ?case
  proof (cases "video_entry x")
    case True
    then show ?thesis
      using step PMT_video_loop_found [OF i' Cons.prems(2), of ?p ?st]
      by (simp add: video_entry_def x)
  next
    case False
    then have "(if isVideo ?st then ?p else 0) = 0" by (auto simp: video_entry_def x)
    with step Cons.IH [OF i' Cons.prems(2) rest] False show ?thesis by simp
  qed
qed

text \<open>\<open>ParsePMTSection\<close> and \<open>PMTStreamsSection\<close> read the same table.  On any section bytes
  both return (no panic); when the table lists an elementary stream with a video type and a
  non-zero PID, the first such entry is the video stream \<open>ParsePMTSection\<close> reports, and when it
  lists none the parse reports no video.\<close>

theorem pmt_parsers_agree:
  "\<exists>es ok. PMTStreamsSection sec = Some (es, ok) \<and> ok = (es \<noteq> []) \<and>
     (case find video_entry es of
        None \<Rightarrow> ParsePMTSection sec = Some None
      | Some x \<Rightarrow> \<exists>m. ParsePMTSection sec = Some (Some m) \<and>
                    VideoPID m = esPID x \<and> VideoType m = esType x)"
proof (cases "len sec < 12 \<or> sec ! 0 \<noteq> 2")
  case True
  then show ?thesis
    by (cases "len sec < 12") (auto simp: PMTStreamsSection_def ParsePMTSection_def go_simps)
next
  case False
  then have l: "\<not> len sec < 12" and tid: "sec ! 0 = 2" by auto
  obtain e where e: "esEnd sec = Some e" "e \<le> len sec - 4" using esEnd_safe [of sec] l by auto
  let ?i = "12 + len12 (sec ! 10) (sec ! 11)"
  have i: "0 \<le> ?i" "e \<le> len sec" using e by auto
  then obtain es where es: "PMT_es_loop sec e ?i = Some es" using PMT_es_loop_safe by blast
  obtain v t where vt: "PMT_video_loop sec e ?i 0 0 = Some (v, t)"
    "case find video_entry es of None \<Rightarrow> v = 0 | Some x \<Rightarrow> v = esPID x \<and> t = esType x"
    using PMT_video_loop_es [OF i es, of 0] by auto
  have s: "PMTStreamsSection sec = Some (es, es \<noteq> [])"
    using l tid e es by (simp add: PMTStreamsSection_def go_simps Let_def)
  show ?thesis
  proof (cases "find video_entry es")
    case None
    with vt l tid e have "ParsePMTSection sec = Some None"
      by (simp add: ParsePMTSection_def go_simps Let_def)
    with s None show ?thesis by simp
  next
    case (Some x)
    then have "video_entry x" by (auto simp: find_Some_iff)
    with Some vt l tid e have "\<exists>m. ParsePMTSection sec = Some (Some m) \<and>
        VideoPID m = esPID x \<and> VideoType m = esType x"
      by (simp add: ParsePMTSection_def go_simps Let_def video_entry_def)
    with s Some show ?thesis by simp
  qed
qed

section \<open>The section assembler\<close>

lemma asm_complete_whole:
  assumes "asm_complete a = Some (a', Some sec)"
  shows "len sec = 3 + len12 (sec ! 1) (sec ! 2)" "len sec \<le> 1024"
    "sec = take (length sec) (asec a)" "asec a' = []"
proof -
  from assms have l: "3 \<le> len (asec a)"
    by (auto simp: asm_complete_def Let_def split: if_splits)
  let ?t = "3 + len12 (asec a ! 1) (asec a ! 2)"
  from assms l have t: "?t \<le> 1024" "?t \<le> len (asec a)" "sec = take (nat ?t) (asec a)" "asec a' = []"
    by (auto simp: asm_complete_def Let_def go_simps MaxSectionBytes_def slice_to_def split: if_splits)
  have n: "2 < nat ?t" using len12_nonneg [of "asec a ! 1" "asec a ! 2"] by linarith
  from t(2) n have ls: "length sec = nat ?t" unfolding t(3) by (simp add: len_def)
  then have "len sec = ?t" using n by (simp add: len_def)
  moreover have "sec ! 1 = asec a ! 1" "sec ! 2 = asec a ! 2"
    unfolding t(3) using n by (intro nth_take; linarith)+
  ultimately show "len sec = 3 + len12 (sec ! 1) (sec ! 2)" "len sec \<le> 1024" using t by simp_all
  show "sec = take (length sec) (asec a)" using ls t(3) by simp
  show "asec a' = []" by (rule t(4))
qed

lemma asm_Feed_complete:
  assumes "asm_Feed a pkt = Some (a', Some sec)"
  shows "\<exists>b. asm_complete b = Some (a', Some sec)"
  using assms by (auto simp: asm_Feed_def Let_def split: if_splits Option.bind_splits)

text \<open>Whatever packets it is fed, the assembler only returns whole sections: the bytes it
  returns are exactly as many as the section's own length field declares, and at most
  \<open>MaxSectionBytes\<close>.\<close>

theorem asm_Feed_whole_sections:
  assumes "asm_Feed a pkt = Some (a', Some sec)"
  shows "len sec = 3 + len12 (sec ! 1) (sec ! 2) \<and> len sec \<le> MaxSectionBytes \<and> asec a' = []"
proof -
  obtain b where "asm_complete b = Some (a', Some sec)" using asm_Feed_complete [OF assms] by blast
  from asm_complete_whole [OF this] show ?thesis by (simp add: MaxSectionBytes_def)
qed

text \<open>A run of packets of one PID through the assembler: what each \<open>Feed\<close> returns.\<close>

fun asm_feeds :: "SectionAssembler \<Rightarrow> bytes list \<Rightarrow> (SectionAssembler \<times> bytes option list) go" where
  "asm_feeds a [] = Some (a, [])"
| "asm_feeds a (p # ps) = do {
     (a1, r) \<leftarrow> asm_Feed a p;
     (a2, rs) \<leftarrow> asm_feeds a1 ps;
     Some (a2, r # rs) }"

text \<open>A packet that opens a section with \<open>part\<close>, and one that continues it.\<close>

definition opens :: "bytes \<Rightarrow> byte \<Rightarrow> bytes \<Rightarrow> bool" where
  "opens pkt cc part \<longleftrightarrow> (\<exists>off b3 ptr.
     PayloadOffset pkt = Some off \<and> 0 \<le> off \<and> at pkt 3 = Some b3 \<and> b3 AND 0x0f = cc \<and>
     PUSI pkt = Some True \<and> at pkt off = Some ptr \<and> off + 1 + uint ptr < len pkt \<and>
     part = drop (nat (off + 1 + uint ptr)) pkt)"

definition continues :: "bytes \<Rightarrow> byte \<Rightarrow> bytes \<Rightarrow> bool" where
  "continues pkt cc part \<longleftrightarrow> (\<exists>off b3.
     PayloadOffset pkt = Some off \<and> 0 \<le> off \<and> at pkt 3 = Some b3 \<and> b3 AND 0x0f = cc \<and>
     PUSI pkt = Some False \<and> part = drop (nat off) pkt)"

text \<open>Packets that continue a section one after the other, each with the next counter.\<close>

fun continue_all :: "byte \<Rightarrow> (bytes \<times> bytes) list \<Rightarrow> bool" where
  "continue_all cc [] = True"
| "continue_all cc ((pkt, part) # ps) =
     (continues pkt ((cc + 1) AND 0x0f) part \<and> continue_all ((cc + 1) AND 0x0f) ps)"

lemma asm_Feed_opens:
  assumes "opens pkt cc part"
  shows "asm_Feed a pkt = asm_complete (a\<lparr>asec := part, acc := cc\<rparr>)"
  using assms
  by (auto simp: opens_def asm_Feed_def Let_def go_simps add.assoc)

lemma next_cc_neq: "(cc + 1) AND 0x0f \<noteq> (cc :: byte)"
proof
  assume "(cc + 1) AND 0x0f = cc"
  then have "(uint cc + 1) mod 16 = uint cc" using uint_Suc_and_15 [of cc] by simp
  then show False by presburger
qed

lemma asm_Feed_continues:
  assumes "continues pkt ((acc a + 1) AND 0x0f) part" "asec a \<noteq> []"
  shows "asm_Feed a pkt =
    asm_complete (a\<lparr>asec := asec a @ part, acc := (acc a + 1) AND 0x0f\<rparr>)"
proof -
  obtain off b3 where *: "PayloadOffset pkt = Some off" "0 \<le> off" "at pkt 3 = Some b3"
    "b3 AND 0x0f = (acc a + 1) AND 0x0f" "PUSI pkt = Some False" "part = drop (nat off) pkt"
    using assms(1) by (auto simp: continues_def)
  have "off \<le> len pkt" using PayloadOffset_range [OF *(1)] *(2) by auto
  with * assms(2) next_cc_neq [of "acc a"] show ?thesis
    by (simp add: asm_Feed_def Let_def go_simps)
qed


text \<open>The bytes of the section so far decide when it is whole: nothing comes back while they are
  short of the declared length, and the section does once they reach it.\<close>

definition declares :: "bytes \<Rightarrow> int \<Rightarrow> bool" where
  "declares bs tot \<longleftrightarrow> 3 \<le> len bs \<and> tot = 3 + len12 (bs ! 1) (bs ! 2) \<and> tot \<le> MaxSectionBytes"

lemma declares_prefix:
  "declares (bs @ cs) tot \<Longrightarrow> 3 \<le> len bs \<Longrightarrow> declares bs tot"
  by (simp add: declares_def nth_append len_def)

lemma declares_append:
  "declares bs tot \<Longrightarrow> declares (bs @ cs) tot"
  by (auto simp: declares_def nth_append len_def)

lemma asm_complete_short:
  assumes "declares (asec a @ cs) tot" "len (asec a) < tot"
  shows "asm_complete a = Some (a, None)"
proof (cases "3 \<le> len (asec a)")
  case True
  with assms have "declares (asec a) tot" by (blast intro: declares_prefix)
  with assms(2) show ?thesis by (auto simp: asm_complete_def declares_def go_simps Let_def)
qed (simp add: asm_complete_def)

lemma asm_complete_done:
  assumes "declares (asec a) tot" "tot \<le> len (asec a)"
  shows "asm_complete a = Some (a\<lparr>asec := []\<rparr>, Some (take (nat tot) (asec a)))"
  using assms by (auto simp: asm_complete_def declares_def go_simps Let_def)

lemma asm_feeds_continue:
  assumes "continue_all (acc a) ps" "asec a \<noteq> []"
    and "declares (asec a @ concat (map snd ps)) tot"
    and "len (asec a @ concat (map snd (butlast ps))) < tot"
    and "tot \<le> len (asec a @ concat (map snd ps))" "ps \<noteq> []"
  shows "\<exists>a'. asm_feeds a (map fst ps) =
      Some (a', replicate (length ps - 1) None @
                [Some (take (nat tot) (asec a @ concat (map snd ps)))])"
  using assms
proof (induction ps arbitrary: a)
  case Nil
  then show ?case by simp
next
  case (Cons pp ps)
  obtain pkt part where pp: "pp = (pkt, part)" by (cases pp)
  let ?b = "a\<lparr>asec := asec a @ part, acc := (acc a + 1) AND 0x0f\<rparr>"
  have feed: "asm_Feed a pkt = asm_complete ?b"
    using asm_Feed_continues Cons.prems(1,2) pp by simp
  show ?case
  proof (cases "ps = []")
    case True
    with Cons.prems pp have "asm_complete ?b =
        Some (?b\<lparr>asec := []\<rparr>, Some (take (nat tot) (asec ?b)))"
      by (intro asm_complete_done) simp_all
    with feed pp True show ?thesis by simp
  next
    case False
    have short: "len (asec a @ part) < tot"
    proof -
      have "len (asec a @ part) \<le> len (asec a @ concat (map snd (butlast (pp # ps))))"
        using False pp by (simp add: len_def)
      with Cons.prems(4) show ?thesis by linarith
    qed
    have d: "declares (asec ?b @ concat (map snd ps)) tot" using Cons.prems(3) pp by simp
    have none: "asm_Feed a pkt = Some (?b, None)"
      using asm_complete_short [of ?b "concat (map snd ps)" tot] d short feed by simp
    from Cons.IH [of ?b] d Cons.prems pp False obtain a' where
      "asm_feeds ?b (map fst ps) = Some (a', replicate (length ps - 1) None @
         [Some (take (nat tot) (asec ?b @ concat (map snd ps)))])"
      by auto
    with none pp False show ?thesis by (simp add: Cons_replicate_pred)
  qed
qed

text \<open>C31: a section cut over several packets comes back whole.  When a packet opens it and the
  packets after it continue it with consecutive continuity counters, feeding them returns nothing
  until the last and then exactly the declared number of the carried bytes, in order.\<close>

theorem asm_reassembles:
  assumes "opens p0 cc part0" "continue_all cc ps" "part0 \<noteq> []"
    and "declares (part0 @ concat (map snd ps)) tot"
    and "len (part0 @ concat (map snd (butlast ps))) < tot"
    and "tot \<le> len (part0 @ concat (map snd ps))" "ps \<noteq> []"
  shows "\<exists>a'. asm_feeds a (p0 # map fst ps) =
      Some (a', replicate (length ps) None @
                [Some (take (nat tot) (part0 @ concat (map snd ps)))])"
proof -
  let ?b = "a\<lparr>asec := part0, acc := cc\<rparr>"
  have "len part0 < tot"
    using assms(5) by (simp add: len_def)
  then have "asm_Feed a p0 = Some (?b, None)"
    using asm_Feed_opens [OF assms(1)] asm_complete_short [of ?b "concat (map snd ps)" tot] assms(4)
    by simp
  moreover obtain a' where "asm_feeds ?b (map fst ps) = Some (a', replicate (length ps - 1) None @
      [Some (take (nat tot) (part0 @ concat (map snd ps)))])"
    using asm_feeds_continue [of ?b ps tot] assms by auto
  ultimately show ?thesis using assms(7) by (simp add: Cons_replicate_pred)
qed

text \<open>C32: a section is never spliced over a lost packet.  A continuation whose counter is neither
  the next nor the last one's empties the assembler, and from then on nothing is returned until a
  packet opens a new section.\<close>

theorem asm_lost_packet:
  assumes "continues pkt cc part" "asec a \<noteq> []" "cc \<noteq> acc a" "cc \<noteq> (acc a + 1) AND 0x0f"
    and "\<forall>p \<in> set ps. \<exists>c q. continues p c q"
  shows "asm_feeds a (pkt # ps) =
    Some (a\<lparr>asec := []\<rparr>, replicate (Suc (length ps)) None)"
proof -
  have first: "asm_Feed a pkt = Some (a\<lparr>asec := []\<rparr>, None)"
    using assms(1-4) by (auto simp: continues_def asm_Feed_def Let_def)
  have "asm_feeds b ps = Some (b, replicate (length ps) None)" if "asec b = []" for b
    using assms(5) that
  proof (induction ps)
    case (Cons p ps)
    then have "asm_Feed b p = Some (b, None)"
      by (auto simp: continues_def asm_Feed_def Let_def)
    with Cons show ?case by simp
  qed simp
  with first show ?thesis by simp
qed


section \<open>Keyframe evidence\<close>

text \<open>The NAL unit type at a position, and the positions a start code of the payload leads to.\<close>

definition nal_type :: "bytes \<Rightarrow> int \<Rightarrow> byte" where
  "nal_type es k = es ! nat k AND 0x1f"

definition nal_at :: "bytes \<Rightarrow> int \<Rightarrow> bool" where
  "nal_at es k \<longleftrightarrow> 0 \<le> k \<and> k < len es \<and> (\<exists>i. 0 \<le> i \<and> start_code es i = Some k)"

text \<open>What the code accepts for H.264: an IDR slice, or a slice preceded in the same packet by an
  SPS and by a recovery point SEI that is exact, and that is itself an I slice.\<close>

definition exact_recovery_at :: "bytes \<Rightarrow> int \<Rightarrow> bool" where
  "exact_recovery_at es k \<longleftrightarrow> nal_at es k \<and> nal_type es k = 6 \<and>
     exactRecoveryPoint (drop (nat (k + 1)) es) = Some True"

definition sps_at :: "bytes \<Rightarrow> int \<Rightarrow> bool" where
  "sps_at es k \<longleftrightarrow> nal_at es k \<and> nal_type es k = 7"

definition h264_evidence :: "bytes \<Rightarrow> bool" where
  "h264_evidence es \<longleftrightarrow>
     (\<exists>k. nal_at es k \<and> nal_type es k = 5) \<or>
     (\<exists>k. nal_at es k \<and> nal_type es k = 1 \<and>
          intraSlice (drop (nat (k + 1)) es) = Some True \<and>
          (\<exists>k1 < k. sps_at es k1) \<and> (\<exists>k2 < k. exact_recovery_at es k2))"

lemma slice_from_eq_Some: "slice_from xs i = Some ys \<longleftrightarrow> 0 \<le> i \<and> i \<le> len xs \<and> ys = drop (nat i) xs"
  by (auto simp: slice_from_def)

lemma h264_verdict_cases:
  assumes "nal_verdict StreamTypeH264 es k sps rec = Some v"
  shows "0 \<le> k" "k < len es"
    and "v = Decided True \<Longrightarrow> nal_type es k = 5 \<or>
       (nal_type es k = 1 \<and> sps \<and> rec \<and> intraSlice (drop (nat (k + 1)) es) = Some True)"
    and "v = Walk sps' rec' \<Longrightarrow> (sps' \<longrightarrow> sps \<or> nal_type es k = 7) \<and>
       (rec' \<longrightarrow> rec \<or> (nal_type es k = 6 \<and> exactRecoveryPoint (drop (nat (k + 1)) es) = Some True))"
  using assms
  by (auto simp: nal_verdict_def nal_type_def Let_def at_eq_Some slice_from_eq_Some
      split: if_splits Option.bind_splits)

lemma keyframe_loop_h264:
  assumes "keyframe_loop StreamTypeH264 es i sps rec = Some True" "0 \<le> i"
    and "sps \<longrightarrow> (\<exists>k \<le> i. sps_at es k)" "rec \<longrightarrow> (\<exists>k \<le> i. exact_recovery_at es k)"
  shows "h264_evidence es"
  using assms
proof (induction "StreamTypeH264" es i sps rec rule: keyframe_loop.induct)
  case (1 es i sps rec)
  from "1.prems"(1) have il: "i + 3 < len es" by (rule_tac ccontr) (simp add: keyframe_loop.simps)
  with "1.prems"(1) obtain k where k: "start_code es i = Some k"
    by (subst (asm) keyframe_loop.simps) (auto split: option.splits)
  show ?case
  proof (cases "k < 0")
    case True
    with k il "1.prems" have "keyframe_loop StreamTypeH264 es (i + 1) sps rec = Some True"
      by (subst (asm) keyframe_loop.simps) simp
    moreover have "\<And>P. (\<exists>k \<le> i. P k) \<Longrightarrow> (\<exists>k \<le> i + 1. P k)" by (meson zle_add1_eq_le zless_add1_eq)
    ultimately show ?thesis using "1.hyps"(1) [OF il k True] "1.prems" by auto
  next
    case False
    with k have ki: "i < k" using start_code_cases [OF k] by auto
    from "1.prems"(1) il k False obtain v
      where v: "k < len es" "nal_verdict StreamTypeH264 es k sps rec = Some v"
      by (subst (asm) keyframe_loop.simps) (auto split: option.splits if_splits)
    have at: "nal_at es k" using k v False "1.prems"(2) by (auto simp: nal_at_def)
    note c = h264_verdict_cases [OF v(2)]
    show ?thesis
    proof (cases v)
      case (Decided b)
      with "1.prems"(1) il k False v have "v = Decided True"
        by (subst (asm) keyframe_loop.simps) simp
      from c(3) [OF this] "1.prems"(3,4) at ki show ?thesis
        unfolding h264_evidence_def by (meson le_less_trans)
    next
      case (Walk s' r')
      with "1.prems"(1) il k False v have "keyframe_loop StreamTypeH264 es k s' r' = Some True"
        by (subst (asm) keyframe_loop.simps) simp
      moreover have "s' \<longrightarrow> (\<exists>j \<le> k. sps_at es j)" "r' \<longrightarrow> (\<exists>j \<le> k. exact_recovery_at es j)"
        using c(4) [OF Walk] "1.prems"(3,4) ki at
        by (auto simp: sps_at_def exact_recovery_at_def intro: less_imp_le order_trans) 
      ultimately show ?thesis
        using "1.hyps"(2) [OF il k False _ v(2) Walk] v(1) "1.prems"(2) ki by simp
    qed
  qed
qed


text \<open>The elementary-stream bytes of a PES-starting packet: what is left after the PES header.\<close>

definition es_bytes :: "bytes \<Rightarrow> bytes option" where
  "es_bytes pkt =
     (case PayloadOffset pkt of
        Some off \<Rightarrow> if off < 0 then None
                   else let p = drop (nat off) pkt in Some (drop (nat (9 + uint (p ! 8))) p)
      | None \<Rightarrow> None)"


text \<open>C34: no packet reader of \<open>tspes\<close> panics on a packet of the right size, whatever its bytes are;
  the lengths it reads off the wire never take it past the packet.\<close>

theorem packet_readers_never_panic:
  assumes "length pkt = 188"
  shows "PID pkt \<noteq> None \<and> PUSI pkt \<noteq> None \<and> PMTPID pkt \<noteq> None \<and> ParsePMT pkt \<noteq> None \<and>
     PATPrograms pkt \<noteq> None \<and> ParsePMTStreams pkt \<noteq> None \<and> RAI pkt \<noteq> None \<and>
     PCR pkt \<noteq> None \<and> PTS pkt \<noteq> None \<and> StartsKeyframe pkt st \<noteq> None \<and> asm_Feed a pkt \<noteq> None"
proof -
  have l: "4 \<le> len pkt" "3 \<le> len pkt" "2 \<le> len pkt" using assms by (simp_all add: len_def)
  have "ParsePMTStreams pkt \<noteq> None" "asm_Feed a pkt \<noteq> None"
    using ParsePMTStreams_safe [OF l(1)] asm_Feed_safe [OF l(1), of a] by simp_all
  with l show ?thesis by (simp add: go_safe)
qed

text \<open>Witnesses: the theorems above at concrete packets.\<close>

definition example_idr :: bytes where
  "example_idr = [0x47, 0x41, 0x00, 0x10, 0, 0, 1, 0xE0, 0, 0, 0x80, 0x80, 5, 0x21, 0, 1, 0, 1,
     0, 0, 1, 0x65, 0x88] @ replicate 165 0xFF"

lemma example_idr_accepted: "StartsKeyframe example_idr StreamTypeH264 = Some True"
  by code_simp


theorem packet_readers_never_panic_witness:
  "PTS example_idr \<noteq> None \<and> StartsKeyframe example_idr StreamTypeH264 \<noteq> None"
proof -
  have "length example_idr = 188" by (simp add: example_idr_def)
  from packet_readers_never_panic [OF this, of StreamTypeH264 new_assembler] show ?thesis by simp
qed


text \<open>A PMT of 200 bytes over two packets, and a packet after a lost one.\<close>

definition example_p0 :: bytes where
  "example_p0 = [0x47, 0x50, 0x00, 0x10, 0, 0x02, 0xB0, 197] @ replicate 180 0x11"

definition example_p1 :: bytes where
  "example_p1 = [0x47, 0x10, 0x00, 0x11] @ replicate 184 0x22"

definition example_p5 :: bytes where
  "example_p5 = [0x47, 0x10, 0x00, 0x15] @ replicate 184 0x33"

lemma example_opens: "opens example_p0 0 (drop 5 example_p0)"
  unfolding opens_def by (rule exI [where x = "4"], rule exI [where x = "0x10"], rule exI [where x = "0"]) code_simp

lemma example_continues:
  "continues example_p1 1 (drop 4 example_p1)" "continues example_p5 5 (drop 4 example_p5)"
  unfolding continues_def
   apply (rule exI [where x = "4"], rule exI [where x = "0x11"], code_simp)
  apply (rule exI [where x = "4"], rule exI [where x = "0x15"], code_simp)
  done

theorem asm_reassembles_witness:
  "\<exists>a'. asm_feeds new_assembler [example_p0, example_p1] =
     Some (a', [None, Some (drop 5 example_p0 @ replicate 17 0x22)])"
proof -
  let ?ps = "[(example_p1, drop 4 example_p1)]"
  have "continue_all 0 ?ps" using example_continues by simp
  moreover have "drop 5 example_p0 \<noteq> []" by code_simp
  moreover have "declares (drop 5 example_p0 @ concat (map snd ?ps)) 200" by code_simp
  moreover have "len (drop 5 example_p0 @ concat (map snd (butlast ?ps))) < 200" by code_simp
  moreover have "200 \<le> len (drop 5 example_p0 @ concat (map snd ?ps))" by code_simp
  ultimately obtain a' where "asm_feeds new_assembler (example_p0 # map fst ?ps) =
      Some (a', replicate (length ?ps) None @
        [Some (take (nat 200) (drop 5 example_p0 @ concat (map snd ?ps)))])"
    using asm_reassembles [OF example_opens, of ?ps 200 new_assembler] by blast
  moreover have "take (nat 200) (drop 5 example_p0 @ concat (map snd ?ps)) =
      drop 5 example_p0 @ replicate 17 0x22"
    by (simp add: example_p0_def example_p1_def)
  ultimately show ?thesis by simp
qed

theorem asm_lost_packet_witness:
  "asm_feeds \<lparr>asec = drop 5 example_p0, acc = 0\<rparr> [example_p5, example_p1] =
     Some (\<lparr>asec = [], acc = 0\<rparr>, [None, None])"
proof -
  let ?a = "\<lparr>asec = drop 5 example_p0, acc = 0\<rparr>"
  have "asec ?a \<noteq> []" by (simp add: example_p0_def)
  moreover have "(5 :: byte) \<noteq> acc ?a" "(5 :: byte) \<noteq> (acc ?a + 1) AND 0x0f" by simp_all
  moreover have "\<forall>p \<in> set [example_p1]. \<exists>c q. continues p c q" using example_continues by auto
  ultimately have "asm_feeds ?a (example_p5 # [example_p1]) =
      Some (?a\<lparr>asec := []\<rparr>, replicate (Suc (length [example_p1])) None)"
    by (rule asm_lost_packet [OF example_continues(2)])
  then show ?thesis by simp
qed

definition example_pmt :: bytes where
  "example_pmt = [0x47, 0x50, 0x00, 0x10, 0, 0x02, 0xB0, 9, 1, 2, 3, 4, 5, 6, 7, 8, 9] @
     replicate 171 0xFF"

theorem asm_Feed_whole_sections_witness:
  "\<exists>a' sec. asm_Feed new_assembler example_pmt = Some (a', Some sec) \<and> len sec = 12 \<and>
     len sec \<le> MaxSectionBytes"
proof -
  have *: "asm_Feed new_assembler example_pmt =
      Some (\<lparr>asec = [], acc = 0\<rparr>, Some (take 12 (drop 5 example_pmt)))"
    by code_simp
  from asm_Feed_whole_sections [OF this]
  have "len (take 12 (drop 5 example_pmt)) \<le> MaxSectionBytes" by simp
  moreover have "len (take 12 (drop 5 example_pmt)) = 12" by code_simp
  ultimately show ?thesis using * by blast
qed

end
