(* ===== verification/TsMux.thy ===== *)
theory TsMux
  imports TsTables
begin

text \<open>
  \<^verbatim>\<open>internal/tsmux\<close>: MPEG-TS made from packed audio (ADTS AAC, \<^verbatim>\<open>adts.go\<close>) or from timed access
  units (\<^verbatim>\<open>mux.go\<close>).  The muxer's state is a record; its operations return the bytes they append
  and the new state.  The byte slices the code appends to \<open>dst\<close> are the result lists here.
\<close>

section \<open>Constants\<close>

definition pmtPID :: u16 where "pmtPID = 0x1000"
definition videoPID :: u16 where "videoPID = 0x0100"
definition audioPID :: u16 where "audioPID = 0x0101"
definition streamTypeAAC :: byte where "streamTypeAAC = 0x0F"
definition streamTypeH264 :: byte where "streamTypeH264 = 0x1B"
definition tablePeriod90k :: int where "tablePeriod90k = 9000"
definition aacSamplesPerFrame :: int where "aacSamplesPerFrame = 1024"

text \<open>\<open>byte(x >> 8)\<close> and \<open>byte(x)\<close> of a 16-bit value.\<close>

definition hi_byte :: "u16 \<Rightarrow> byte" where "hi_byte x = ucast (drop_bit 8 x)"
definition lo_byte :: "u16 \<Rightarrow> byte" where "lo_byte x = ucast x"

section \<open>Timestamps\<close>

definition encodeTime :: "byte \<Rightarrow> int \<Rightarrow> bytes" where
  "encodeTime pre t =
     [(pre AND 0xF0) OR word_of_int (drop_bit 29 t AND 0x0E) OR 0x01,
      word_of_int (drop_bit 22 t),
      word_of_int (0x01 OR (drop_bit 14 t AND 0xFE)),
      word_of_int (drop_bit 7 t),
      word_of_int (0x01 OR (push_bit 1 t AND 0xFE))]"

definition putPCR :: "int \<Rightarrow> bytes" where
  "putPCR pcr =
     [word_of_int (drop_bit 25 pcr),
      word_of_int (drop_bit 17 pcr),
      word_of_int (drop_bit 9 pcr),
      word_of_int (drop_bit 1 pcr),
      word_of_int (push_bit 7 pcr) OR 0x7E,
      0x00]"

section \<open>Tables\<close>

text \<open>\<open>crc32MPEG\<close>: the inner loop of eight shifts, and the fold over the bytes.\<close>

definition crc_bit :: "u32 \<Rightarrow> u32" where
  "crc_bit crc = (if crc AND 0x80000000 \<noteq> 0 then push_bit 1 crc XOR 0x04C11DB7 else push_bit 1 crc)"

definition crc_byte :: "u32 \<Rightarrow> byte \<Rightarrow> u32" where
  "crc_byte crc x = (crc_bit ^^ 8) (crc XOR push_bit 24 (ucast x))"

definition crc_from :: "u32 \<Rightarrow> bytes \<Rightarrow> u32" where
  "crc_from crc b = foldl crc_byte crc b"

definition crc32MPEG :: "bytes \<Rightarrow> u32" where
  "crc32MPEG b = crc_from 0xFFFFFFFF b"

definition u32_bytes :: "u32 \<Rightarrow> bytes" where
  "u32_bytes crc = [ucast (drop_bit 24 crc), ucast (drop_bit 16 crc), ucast (drop_bit 8 crc), ucast crc]"

definition Section :: "byte \<Rightarrow> bytes \<Rightarrow> bytes" where
  "Section tableID body =
     (let secLen = len body + 4;
          out = [tableID, word_of_int (0xB0 OR drop_bit 8 secLen), word_of_int secLen] @ body
      in out @ u32_bytes (crc32MPEG out))"

definition patSection :: bytes where
  "patSection = Section 0x00
     [0x00, 0x01, 0xC1, 0x00, 0x00, 0x00, 0x01, 0xE0 OR hi_byte pmtPID, lo_byte pmtPID]"

definition pmtSection :: "bool \<Rightarrow> bytes" where
  "pmtSection hasVideo =
     (let pcr = (if hasVideo then videoPID else audioPID);
          body = [0x00, 0x01, 0xC1, 0x00, 0x00, 0xE0 OR hi_byte pcr, lo_byte pcr, 0xF0, 0x00];
          body = (if hasVideo
                  then body @ [streamTypeH264, 0xE0 OR hi_byte videoPID, lo_byte videoPID, 0xF0, 0x00]
                  else body);
          body = body @ [streamTypeAAC, 0xE0 OR hi_byte audioPID, lo_byte audioPID, 0xF0, 0x00]
      in Section 0x02 body)"

text \<open>\<open>(m *Muxer) section\<close>: one section in a single packet padded to 188 bytes, and the counter
  after it.  \<open>copy\<close> takes what fits.\<close>

definition section_packet :: "u16 \<Rightarrow> byte \<Rightarrow> bytes \<Rightarrow> bytes \<times> byte" where
  "section_packet pid cc sec =
     ([0x47, hi_byte pid OR 0x40, lo_byte pid, 0x10 OR (cc AND 0x0F), 0x00]
        @ take 183 sec @ replicate (183 - length sec) 0xFF,
      (cc + 1) AND 0x0F)"

section \<open>PES packets\<close>

text \<open>The PES header and payload \<open>writePESFull\<close> builds before it cuts packets.\<close>

definition pes_unit :: "byte \<Rightarrow> bytes \<Rightarrow> int \<Rightarrow> int \<Rightarrow> bytes" where
  "pes_unit streamID payload pts dts =
     (let withDTS = (pts \<noteq> dts);
          hdrLen = (if withDTS then 10 else 5) :: int;
          ptsFlags = (if withDTS then 0xC0 else 0x80) :: byte;
          plen = len payload + 3 + hdrLen;
          plen = (if plen > 0xFFFF then 0 else plen)
      in [0x00, 0x00, 0x01, streamID]
         @ [word_of_int (drop_bit 8 plen), word_of_int plen]
         @ [0x80, ptsFlags, word_of_int hdrLen]
         @ (if withDTS then encodeTime 0x30 pts @ encodeTime 0x10 dts else encodeTime 0x20 pts)
         @ payload)"

text \<open>One turn of the packet loop: the adaptation field's presence and length and the room left for
  the payload (the two computations at the head of the loop body).\<close>

definition af_layout :: "bool \<Rightarrow> bool \<Rightarrow> bool \<Rightarrow> int \<Rightarrow> bool \<times> int \<times> int" where
  "af_layout first rap withPCR left =
     (let needAF = (first \<and> (withPCR \<or> rap));
          afLen = (if needAF then (if withPCR then 7 else 1) else 0);
          room = (if needAF then 188 - 4 - 1 - afLen else 188 - 4)
      in if left < room then
           (let extra = room - left;
                extra = (if needAF then extra else extra - 1);
                afLen = (if needAF then afLen else 0) + extra
            in (True, afLen, 188 - 4 - 1 - afLen))
         else (needAF, afLen, room))"

definition af_bytes :: "bool \<Rightarrow> bool \<Rightarrow> bool \<Rightarrow> int \<Rightarrow> int \<Rightarrow> bytes" where
  "af_bytes first rap withPCR afLen dts =
     [word_of_int afLen] @
     (if afLen > 0 then
        (let flags = (if first \<and> rap then 0x40 else 0) OR (if first \<and> withPCR then 0x10 else 0 :: byte)
         in [flags] @ (if first \<and> withPCR then putPCR dts else [])
            @ replicate (nat (afLen - (if first \<and> withPCR then 7 else 1))) 0xFF)
      else [])"

definition ts_packet ::
  "u16 \<Rightarrow> byte \<Rightarrow> bool \<Rightarrow> bool \<Rightarrow> bool \<Rightarrow> int \<Rightarrow> bytes \<Rightarrow> bytes \<times> bytes" where
  "ts_packet pid cc first rap withPCR dts pes =
     (let (needAF, afLen, room) = af_layout first rap withPCR (len pes);
          hdr = [0x47, (if first then hi_byte pid OR 0x40 else hi_byte pid), lo_byte pid,
                 (cc AND 0x0F) OR (if needAF then 0x30 else 0x10)];
          af = (if needAF then af_bytes first rap withPCR afLen dts else []);
          n = 188 - length (hdr @ af)
      in (hdr @ af @ take n pes @ replicate (n - length pes) 0, drop n pes))"

lemma af_layout_room:
  "0 < left \<Longrightarrow> af_layout first rap withPCR left = (needAF, afLen, room) \<Longrightarrow>
     0 < room \<and> 0 \<le> afLen \<and> afLen \<le> 183 \<and> room \<le> left \<and>
     room = (if needAF then 183 - afLen else 184) \<and>
     (needAF \<and> first \<and> withPCR \<longrightarrow> 7 \<le> afLen) \<and> (first \<and> (withPCR \<or> rap) \<longrightarrow> needAF \<and> 1 \<le> afLen)"
  by (auto simp: af_layout_def Let_def split: if_splits)

lemma length_encodeTime [simp]: "length (encodeTime p t) = 5"
  by (simp add: encodeTime_def)

lemma length_putPCR [simp]: "length (putPCR t) = 6"
  by (simp add: putPCR_def)

lemma length_af_bytes:
  "0 \<le> afLen \<Longrightarrow> (first \<and> withPCR \<longrightarrow> 7 \<le> afLen \<or> afLen = 0) \<Longrightarrow>
     length (af_bytes first rap withPCR afLen dts) = nat (1 + afLen)"
  by (auto simp: af_bytes_def Let_def nat_add_distrib nat_diff_distrib)


lemma ts_packet_rest:
  assumes "pes \<noteq> []"
  shows "length (snd (ts_packet pid cc first rap withPCR dts pes)) < length pes"
proof -
  obtain needAF afLen room where l: "af_layout first rap withPCR (len pes) = (needAF, afLen, room)"
    by (metis prod_cases3)
  have "0 < len pes" using assms by (simp add: len_def)
  from af_layout_room [OF this l]
  have "length (if needAF then af_bytes first rap withPCR afLen dts else []) \<le> 184 - 1"
    by (auto simp: length_af_bytes)
  moreover have "1 \<le> length pes" using assms by (cases pes) auto
  ultimately show ?thesis
    by (simp only: ts_packet_def l Let_def split_conv snd_conv length_drop length_append list.size)
qed

text \<open>The packet loop of \<open>writePESFull\<close>: the packets and the counter after them.\<close>

function ts_packets ::
  "u16 \<Rightarrow> byte \<Rightarrow> bool \<Rightarrow> bool \<Rightarrow> bool \<Rightarrow> int \<Rightarrow> bytes \<Rightarrow> bytes list \<times> byte" where
  "ts_packets pid cc first rap withPCR dts pes =
     (if pes = [] then ([], cc)
      else let p = ts_packet pid cc first rap withPCR dts pes;
               r = ts_packets pid ((cc + 1) AND 0x0F) False rap withPCR dts (snd p)
           in (fst p # fst r, snd r))"
  by pat_completeness auto
termination
  by (relation "measure (\<lambda>(_, _, _, _, _, _, pes). length pes)") (auto intro: ts_packet_rest)

declare ts_packets.simps [simp del]

definition writePESFull ::
  "u16 \<Rightarrow> byte \<Rightarrow> byte \<Rightarrow> bytes \<Rightarrow> int \<Rightarrow> int \<Rightarrow> bool \<Rightarrow> bool \<Rightarrow> bytes list \<times> byte" where
  "writePESFull pid cc streamID payload pts dts rap withPCR =
     ts_packets pid cc True rap withPCR dts (pes_unit streamID payload pts dts)"

section \<open>ADTS\<close>

datatype adts_error = TrailingBytes int | NoSync int | ReservedRate int | BadFrameLength int int | NoFrames

record frame =
  fdata :: bytes
  sampleRate :: int

definition sampleRates :: "int list" where
  "sampleRates = [96000, 88200, 64000, 48000, 44100, 32000, 24000, 22050,
                  16000, 12000, 11025, 8000, 7350, 0, 0, 0]"

definition duration90k :: "frame \<Rightarrow> int" where
  "duration90k f = (if sampleRate f \<le> 0 then 0 else aacSamplesPerFrame * 90000 div sampleRate f)"

text \<open>The syncsafe 28-bit size of an ID3v2 tag.\<close>

definition id3_size :: "byte \<Rightarrow> byte \<Rightarrow> byte \<Rightarrow> byte \<Rightarrow> int" where
  "id3_size b6 b7 b8 b9 =
     10 + (push_bit 21 (uint b6) OR push_bit 14 (uint b7) OR push_bit 7 (uint b8) OR uint b9)"

lemma id3_size_ge: "10 \<le> id3_size b6 b7 b8 b9"
  by (simp add: id3_size_def or_nonnegative_int_iff)

function skipID3 :: "bytes \<Rightarrow> bytes" where
  "skipID3 b =
     (if 10 \<le> len b \<and> b ! 0 = 0x49 \<and> b ! 1 = 0x44 \<and> b ! 2 = 0x33 then
        (if b ! 6 AND 0x80 \<noteq> 0 \<or> b ! 7 AND 0x80 \<noteq> 0 \<or> b ! 8 AND 0x80 \<noteq> 0 \<or> b ! 9 AND 0x80 \<noteq> 0
         then b
         else let n = id3_size (b ! 6) (b ! 7) (b ! 8) (b ! 9)
              in if n \<le> 0 \<or> n > len b then b else skipID3 (drop (nat n) b))
      else b)"
  by pat_completeness auto
termination
proof (relation "measure length", goal_cases)
  case (2 b n)
  then show ?case using id3_size_ge [of "b ! 6" "b ! 7" "b ! 8" "b ! 9"] by (auto simp: len_def)
qed simp

declare skipID3.simps [simp del]

function parseADTS_loop :: "bytes \<Rightarrow> int \<Rightarrow> (adts_error + frame list) go" where
  "parseADTS_loop b i =
     (if i < len b then
        (if len b - i < 7 then Some (Inl (TrailingBytes (len b - i)))
         else do {
           h0 \<leftarrow> at b i; h1 \<leftarrow> at b (i + 1);
           if h0 \<noteq> 0xFF \<or> h1 AND 0xF0 \<noteq> 0xF0 \<or> h1 AND 0x06 \<noteq> 0 then Some (Inl (NoSync i))
           else do {
             h2 \<leftarrow> at b (i + 2);
             rate \<leftarrow> at sampleRates (uint (drop_bit 2 h2 AND 0x0F));
             if rate = 0 then Some (Inl (ReservedRate i))
             else do {
               h3 \<leftarrow> at b (i + 3); h4 \<leftarrow> at b (i + 4); h5 \<leftarrow> at b (i + 5);
               let n = push_bit 11 (uint (h3 AND 0x03)) OR push_bit 3 (uint h4) OR drop_bit 5 (uint h5);
               if n < 7 \<or> i + n > len b then Some (Inl (BadFrameLength n i))
               else do {
                 d \<leftarrow> slice_from b i;
                 d \<leftarrow> slice_to d n;
                 r \<leftarrow> parseADTS_loop b (i + n);
                 Some (case r of Inl e \<Rightarrow> Inl e
                       | Inr fs \<Rightarrow> Inr (\<lparr>fdata = d, sampleRate = rate\<rparr> # fs)) } } } })
      else Some (Inr []))"
  by pat_completeness auto
termination
  by (relation "measure (\<lambda>(b, i). nat (len b - i))") auto

declare parseADTS_loop.simps [simp del]

definition parseADTS :: "bytes \<Rightarrow> (adts_error + frame list) go" where
  "parseADTS b = do {
     r \<leftarrow> parseADTS_loop (skipID3 b) 0;
     Some (case r of Inl e \<Rightarrow> Inl e | Inr fs \<Rightarrow> if fs = [] then Inl NoFrames else Inr fs) }"

definition LooksLikeADTS :: "bytes \<Rightarrow> bool go" where
  "LooksLikeADTS b0 =
     (let b = skipID3 b0 in
      if len b < 7 then Some False
      else do {
        h0 \<leftarrow> at b 0; h1 \<leftarrow> at b 1; h2 \<leftarrow> at b 2;
        rate \<leftarrow> at sampleRates (uint (drop_bit 2 h2 AND 0x0F));
        Some (h0 = 0xFF \<and> h1 AND 0xF0 = 0xF0 \<and> h1 AND 0x06 = 0 \<and> rate \<noteq> 0) })"

section \<open>The muxer\<close>

record Muxer =
  mpts :: int
  mccPAT :: byte
  mccPMT :: byte
  mccAudio :: byte
  mccVideo :: byte
  mnextTable :: int
  mptsRem :: int
  mstarted :: bool
  mhasVideo :: bool

definition newMuxer :: Muxer where
  "newMuxer = \<lparr>mpts = 0, mccPAT = 0, mccPMT = 0, mccAudio = 0, mccVideo = 0, mnextTable = 0,
               mptsRem = 0, mstarted = False, mhasVideo = False\<rparr>"

definition newAV :: Muxer where
  "newAV = newMuxer\<lparr>mhasVideo := True\<rparr>"

record MuxState =
  spts :: int
  snextTable :: int
  sptsRem :: int
  sccPAT :: byte
  sccPMT :: byte
  sccAudio :: byte
  sccVideo :: byte
  sstarted :: bool

definition Save :: "Muxer \<Rightarrow> MuxState" where
  "Save m = \<lparr>spts = mpts m, snextTable = mnextTable m, sptsRem = mptsRem m, sccPAT = mccPAT m,
             sccPMT = mccPMT m, sccAudio = mccAudio m, sccVideo = mccVideo m, sstarted = mstarted m\<rparr>"

definition Restore :: "Muxer \<Rightarrow> MuxState \<Rightarrow> Muxer" where
  "Restore m s = m\<lparr>mpts := spts s, mnextTable := snextTable s, mptsRem := sptsRem s,
                   mccPAT := sccPAT s, mccPMT := sccPMT s, mccAudio := sccAudio s,
                   mccVideo := sccVideo s, mstarted := sstarted s\<rparr>"

definition mux_pcrPID :: "Muxer \<Rightarrow> u16" where
  "mux_pcrPID m = (if mhasVideo m then videoPID else audioPID)"

definition writeTables :: "Muxer \<Rightarrow> bytes \<times> Muxer" where
  "writeTables m =
     (let (pat, ccp) = section_packet 0x0000 (mccPAT m) patSection;
          (pmt, ccm) = section_packet pmtPID (mccPMT m) (pmtSection (mhasVideo m))
      in (pat @ pmt, m\<lparr>mccPAT := ccp, mccPMT := ccm\<rparr>))"

definition WriteVideo :: "Muxer \<Rightarrow> bytes \<Rightarrow> int \<Rightarrow> int \<Rightarrow> bool \<Rightarrow> bytes \<times> Muxer" where
  "WriteVideo m annexB pts dts rap =
     (let (ps, cc) = writePESFull videoPID (mccVideo m) 0xE0 annexB pts dts rap True
      in (concat ps, m\<lparr>mstarted := True, mccVideo := cc\<rparr>))"

definition WriteAudio :: "Muxer \<Rightarrow> bytes \<Rightarrow> int \<Rightarrow> bytes \<times> Muxer" where
  "WriteAudio m adts pts =
     (let (ps, cc) = writePESFull audioPID (mccAudio m) 0xC0 adts pts pts
                       (\<not> mhasVideo m) (\<not> mhasVideo m)
      in (concat ps, m\<lparr>mstarted := True, mccAudio := cc\<rparr>))"

definition writePES :: "Muxer \<Rightarrow> frame \<Rightarrow> bool \<Rightarrow> bytes \<times> Muxer" where
  "writePES m f rap =
     (let (ps, cc) = writePESFull audioPID (mccAudio m) 0xC0 (fdata f) (mpts m) (mpts m) rap True
      in (concat ps, m\<lparr>mccAudio := cc\<rparr>))"

text \<open>The clock step after a frame: the exact duration, the remainder carried.\<close>

definition advance_clock :: "Muxer \<Rightarrow> frame \<Rightarrow> Muxer" where
  "advance_clock m f =
     (if sampleRate f > 0 then
        (let step = aacSamplesPerFrame * 90000;
             r = sampleRate f;
             pts = mpts m + step div r;
             rem = mptsRem m + step mod r
         in if rem \<ge> r then m\<lparr>mpts := pts + rem div r, mptsRem := rem mod r\<rparr>
            else m\<lparr>mpts := pts, mptsRem := rem\<rparr>)
      else m)"

fun segment_loop :: "Muxer \<Rightarrow> nat \<Rightarrow> frame list \<Rightarrow> bytes \<times> Muxer" where
  "segment_loop m i [] = ([], m)"
| "segment_loop m i (f # fs) =
     (let (tables, m1) = (if mpts m \<ge> mnextTable m \<and> i > 0
                          then (let (t, m') = writeTables m
                                in (t, m'\<lparr>mnextTable := mpts m' + tablePeriod90k\<rparr>))
                          else ([], m));
          (pes, m2) = writePES m1 f (i = 0);
          (rest, m3) = segment_loop (advance_clock m2 f) (Suc i) fs
      in (tables @ pes @ rest, m3))"

definition Segment :: "Muxer \<Rightarrow> bytes \<Rightarrow> (adts_error + bytes \<times> Muxer) go" where
  "Segment m body = do {
     r \<leftarrow> parseADTS body;
     Some (case r of
        Inl e \<Rightarrow> Inl e
      | Inr frames \<Rightarrow>
          (let (tables, m1) = writeTables m;
               (out, m2) = segment_loop (m1\<lparr>mnextTable := mpts m1 + tablePeriod90k\<rparr>) 0 frames
           in Inr (tables @ out, m2\<lparr>mstarted := True\<rparr>))) }"


section \<open>Timestamps read back\<close>

lemma lt8: "(n :: nat) < 8 \<longleftrightarrow> n = 0 \<or> n = 1 \<or> n = 2 \<or> n = 3 \<or> n = 4 \<or> n = 5 \<or> n = 6 \<or> n = 7"
  by auto

lemma bit_times2: "bit (x * 2 :: int) n \<longleftrightarrow> n \<noteq> 0 \<and> bit x (n - 1)"
  by (simp add: mult.commute [of x 2] bit_double_iff)

lemmas byte_bits = bit_simps bit_times2 bit_0 bit_uint_iff bit_word_of_int_iff

lemma byte_int_eqI:
  fixes x y :: int
  assumes "\<And>n. n < 8 \<Longrightarrow> bit x n = bit y n" "\<And>n. 8 \<le> n \<Longrightarrow> bit x n = bit y n"
  shows "x = y"
  by (rule bit_eqI) (metis assms not_less)

lemma push_take_drop:
  "push_bit n (take_bit m (drop_bit n t)) OR take_bit n t = take_bit (n + m) (t :: int)"
  by (rule bit_eqI) (auto simp: bit_simps)

lemma uint_word_of_int_8: "uint (word_of_int x :: byte) = take_bit 8 x"
  by (simp add: uint_word_of_int_eq)

lemma time_b0:
  "uint ((((pre :: byte) AND 0xF0) OR word_of_int (drop_bit 29 t AND 0x0E) OR 1) AND 0x0e)
   = push_bit 1 (take_bit 3 (drop_bit 30 t))"
  by (rule byte_int_eqI) (auto simp: lt8 byte_bits)

lemma time_b2:
  "uint (word_of_int (1 OR (drop_bit 14 t AND 0xFE)) AND 0xfe :: byte)
   = push_bit 1 (take_bit 7 (drop_bit 15 t))"
  by (rule byte_int_eqI) (auto simp: lt8 byte_bits)

lemma time_b4: "drop_bit 1 (uint (word_of_int (1 OR (push_bit 1 t AND 0xFE)) :: byte)) = take_bit 7 t"
  by (rule byte_int_eqI) (auto simp: lt8 byte_bits)

lemma pcr_b4: "drop_bit 7 (uint (word_of_int (push_bit 7 t) OR 0x7E :: byte)) = take_bit 1 t"
  by (rule byte_int_eqI) (auto simp: lt8 byte_bits)

lemma and_mask_33: "x AND 0x1ffffffff = take_bit 33 (x :: int)"
  by (simp add: take_bit_eq_mask mask_eq_exp_minus_1)

text \<open>The reader's side of the two encodings.\<close>

definition read_pcr :: "bytes \<Rightarrow> int" where
  "read_pcr b = pcr_base (b ! 0) (b ! 1) (b ! 2) (b ! 3) (b ! 4) AND 0x1ffffffff"

definition read_pts :: "bytes \<Rightarrow> int" where
  "read_pts b = pts_base (b ! 0) (b ! 1) (b ! 2) (b ! 3) (b ! 4) AND 0x1ffffffff"

lemma putPCR_base:
  "pcr_base (word_of_int (drop_bit 25 t)) (word_of_int (drop_bit 17 t)) (word_of_int (drop_bit 9 t))
     (word_of_int (drop_bit 1 t)) (word_of_int (push_bit 7 t) OR 0x7E) = take_bit 33 t"
  unfolding pcr_base_def pcr_b4 uint_word_of_int_8
  using push_take_drop [of 1 8 t] push_take_drop [of 9 8 t] push_take_drop [of 17 8 t]
    push_take_drop [of 25 8 t]
  by simp

lemma encodeTime_base:
  "pts_base ((pre AND 0xF0) OR word_of_int (drop_bit 29 t AND 0x0E) OR 0x01)
     (word_of_int (drop_bit 22 t)) (word_of_int (0x01 OR (drop_bit 14 t AND 0xFE)))
     (word_of_int (drop_bit 7 t)) (word_of_int (0x01 OR (push_bit 1 t AND 0xFE))) = take_bit 33 t"
proof -
  have p: "push_bit a (push_bit 1 x) = push_bit (a + 1) (x :: int)" for a x
    by (simp only: push_bit_push_bit add.commute)
  show ?thesis
    unfolding pts_base_def
    unfolding time_b0 time_b2 time_b4
    unfolding uint_word_of_int_8 p
    using push_take_drop [of 7 8 t] push_take_drop [of 15 7 t] push_take_drop [of 22 8 t]
      push_take_drop [of 30 3 t]
    by simp
qed

text \<open>The contract of a 33-bit clock field: what is written is read back modulo the wrap.\<close>

locale clock_field =
  fixes enc :: "int \<Rightarrow> bytes" and dec :: "bytes \<Rightarrow> int"
  assumes dec_enc: "dec (enc t) = t mod 2 ^ 33"
begin

lemma dec_enc_in_range: "0 \<le> t \<Longrightarrow> t < 2 ^ 33 \<Longrightarrow> dec (enc t) = t"
  by (simp add: dec_enc)

lemma enc_eq_iff_wrap: "enc s = enc t \<Longrightarrow> s mod 2 ^ 33 = t mod 2 ^ 33"
  using dec_enc by metis

end

interpretation pcr_field: clock_field putPCR read_pcr
  by unfold_locales
    (simp add: read_pcr_def putPCR_def putPCR_base [simplified] and_mask_33 take_bit_eq_mod)

interpretation pts_field: clock_field "encodeTime pre" read_pts
  by unfold_locales
    (simp add: read_pts_def encodeTime_def encodeTime_base [simplified] and_mask_33 take_bit_eq_mod)


section \<open>Packets read back\<close>

definition payload_of :: "bytes \<Rightarrow> bytes" where
  "payload_of pkt =
     (case PayloadOffset pkt of
        Some off \<Rightarrow> if off < 0 then [] else drop (nat off) pkt
      | None \<Rightarrow> [])"

text \<open>The continuity counter of a packet.\<close>

definition cc_of :: "bytes \<Rightarrow> byte" where
  "cc_of pkt = pkt ! 3 AND 0x0F"

lemma byte_eqI: "(\<And>n. n < 8 \<Longrightarrow> bit x n = bit y n) \<Longrightarrow> x = (y :: byte)"
  by (rule bit_eqI) simp

lemma afc_of_control:
  "drop_bit 4 ((cc AND 0x0F) OR 0x30) AND 0x3 = (3 :: byte)"
  "drop_bit 4 ((cc AND 0x0F) OR 0x10) AND 0x3 = (1 :: byte)"
  "drop_bit 4 (0x10 OR (cc AND 0x0F)) AND 0x3 = (1 :: byte)"
  by (rule byte_eqI; auto simp: lt8 byte_bits)+

lemma cc_of_control:
  "((cc AND 0x0F) OR 0x30) AND 0x0F = (cc AND 0x0F :: byte)"
  "((cc AND 0x0F) OR 0x10) AND 0x0F = (cc AND 0x0F :: byte)"
  "(0x10 OR (cc AND 0x0F)) AND 0x0F = (cc AND 0x0F :: byte)"
  by (rule byte_eqI; auto simp: lt8 byte_bits)+

lemma pid_flags:
  "(b OR 0x40) AND 0x1f = (b AND 0x1f :: byte)" "(0xE0 OR b) AND 0x1f = (b AND 0x1f :: byte)"
  by (rule byte_eqI; auto simp: lt8 byte_bits)+

lemma pid13_pusi: "pid13 (hi OR 0x40) lo = pid13 hi lo" "pid13 (0xE0 OR hi) lo = pid13 hi lo"
  by (simp_all add: pid13_def pid_flags)

lemma pid13_bytes: "pid13 (hi_byte pid) (lo_byte pid) = take_bit 13 pid"
proof -
  have "b AND 0x1f = take_bit 5 b" for b :: byte
    by (simp add: take_bit_eq_mask mask_eq_exp_minus_1)
  then show ?thesis
    unfolding pid13_def hi_byte_def lo_byte_def
    by (intro bit_eqI) (auto simp: bit_simps bit_ucast_iff)
qed

lemma hi_pusi: "(hi_byte pid OR 0x40) AND 0x40 \<noteq> 0"
proof -
  have "bit ((hi_byte pid OR 0x40) AND 0x40) 6" by (simp add: byte_bits)
  then show ?thesis by auto
qed

lemma hi_no_pusi:
  assumes "take_bit 13 pid = pid"
  shows "hi_byte pid AND 0x40 = 0"
proof (rule byte_eqI)
  fix n :: nat
  assume n: "n < 8"
  have "bit pid 14 = bit (take_bit 13 pid) 14" using assms by simp
  then have "\<not> bit pid 14" by (simp add: bit_take_bit_iff)
  with n show "bit (hi_byte pid AND 0x40) n = bit (0 :: byte) n"
    by (auto simp: lt8 byte_bits hi_byte_def bit_ucast_iff)
qed

text \<open>Everything one turn of the packet loop promises, for a PID of 13 bits.\<close>

lemma ts_packet_layout:
  assumes "pes \<noteq> []"
    and "af_layout first rap withPCR (len pes) = (needAF, afLen, room)"
  shows "ts_packet pid cc first rap withPCR dts pes =
     ([0x47, (if first then hi_byte pid OR 0x40 else hi_byte pid), lo_byte pid,
       (cc AND 0x0F) OR (if needAF then 0x30 else 0x10)]
      @ (if needAF then af_bytes first rap withPCR afLen dts else [])
      @ take (nat room) pes, drop (nat room) pes)"
proof -
  have pos: "0 < len pes" using assms(1) by (simp add: len_gt_0)
  note r = af_layout_room [OF pos assms(2)]
  have af: "length (if needAF then af_bytes first rap withPCR afLen dts else []) = nat (184 - room)"
    using r by (auto simp: length_af_bytes)
  have n: "188 - (4 + nat (184 - room)) = nat room" using r by (auto split: if_splits)
  have "room \<le> int (length pes)" using r unfolding len_def by blast
  then have fits: "nat room - length pes = 0" by linarith
  show ?thesis
    unfolding ts_packet_def assms(2) Let_def split_conv
    using af n fits by simp
qed

lemma ts_packet_reads:
  assumes "pes \<noteq> []" "take_bit 13 pid = pid"
    and "ts_packet pid cc first rap withPCR dts pes = (p, rest)"
  shows "length p = 188" "p ! 0 = 0x47" "PID p = Some pid" "PUSI p = Some first"
    "cc_of p = cc AND 0x0F" "payload_of p @ rest = pes" "rest = drop (length (payload_of p)) pes"
    "PayloadOffset p \<noteq> Some (-1)" "0 < length (payload_of p)"
    "first \<Longrightarrow> min 176 (length pes) \<le> length (payload_of p)"
proof -
  obtain needAF afLen room where l: "af_layout first rap withPCR (len pes) = (needAF, afLen, room)"
    by (metis prod_cases3)
  have pos: "0 < len pes" using assms(1) by (simp add: len_gt_0)
  note r = af_layout_room [OF pos l]
  let ?af = "if needAF then af_bytes first rap withPCR afLen dts else []"
  let ?h = "[0x47, (if first then hi_byte pid OR 0x40 else hi_byte pid), lo_byte pid,
       (cc AND 0x0F) OR (if needAF then 0x30 else 0x10)]"
  have p: "p = ?h @ ?af @ take (nat room) pes" and rest: "rest = drop (nat room) pes"
    using assms(3) ts_packet_layout [OF assms(1) l, of pid cc dts] by simp_all
  have af: "length ?af = nat (184 - room)" using r by (auto simp: length_af_bytes)
  have "room \<le> int (length pes)" using r unfolding len_def by blast
  then have tk: "length (take (nat room) pes) = nat room" by simp
  show lp: "length p = 188" unfolding p using af tk r by auto
  show "p ! 0 = 0x47" by (simp add: p)
  have ln: "len p = 188" using lp by (simp add: len_def)
  show "PID p = Some pid"
    using assms(2) ln by (simp add: PID_def go_simps p pid13_pusi pid13_bytes)
  show "PUSI p = Some first"
    using assms(2) ln hi_pusi [of pid] hi_no_pusi [of pid] by (simp add: PUSI_def go_simps p)
  show "cc_of p = cc AND 0x0F" by (simp add: cc_of_def p cc_of_control)
  have a4: "needAF \<Longrightarrow> p ! 4 = word_of_int afLen" by (simp add: p af_bytes_def nth_append)
  have u4: "needAF \<Longrightarrow> uint (word_of_int afLen :: byte) = afLen"
    using r by (simp add: uint_word_of_int_8 take_bit_eq_mod)
  have off: "PayloadOffset p = Some (188 - room)"
    using ln r a4 u4 by (auto simp: PayloadOffset_def afc_def go_simps p afc_of_control)
  have "payload_of p = take (nat room) pes"
  proof -
    have "nat (188 - room) = length (?h @ ?af)" using af r by auto
    then have "drop (nat (188 - room)) p = take (nat room) pes" unfolding p by simp
    then show ?thesis using off r by (simp add: payload_of_def)
  qed
  then show "payload_of p @ rest = pes" "rest = drop (length (payload_of p)) pes"
    "0 < length (payload_of p)" using rest tk r by simp_all
  show "PayloadOffset p \<noteq> Some (-1)" using off r by simp
  show "min 176 (length pes) \<le> length (payload_of p)" if "first"
  proof -
    have "min 176 (len pes) \<le> room"
      using l that by (auto simp: af_layout_def Let_def split: if_splits)
    then show ?thesis using \<open>payload_of p = take (nat room) pes\<close> tk by (simp add: len_def)
  qed
qed


text \<open>A list of packets of one PID with consecutive counters, only the first opening a unit.\<close>

fun unit_packets :: "u16 \<Rightarrow> byte \<Rightarrow> bool \<Rightarrow> bytes list \<Rightarrow> bool" where
  "unit_packets pid cc first [] = True"
| "unit_packets pid cc first (p # ps) =
     (length p = 188 \<and> p ! 0 = 0x47 \<and> PID p = Some pid \<and> PUSI p = Some first \<and>
      cc_of p = cc AND 0x0F \<and> unit_packets pid ((cc + 1) AND 0x0F) False ps)"

lemma ts_packets_reads:
  assumes "take_bit 13 pid = pid" "ts_packets pid cc first rap withPCR dts pes = (ps, cc')"
  shows "unit_packets pid cc first ps \<and> concat (map payload_of ps) = pes"
  using assms(2)
proof (induction "length pes" arbitrary: cc first pes ps cc' rule: less_induct)
  case less
  show ?case
  proof (cases "pes = []")
    case True
    with less.prems show ?thesis by (simp add: ts_packets.simps)
  next
    case False
    obtain p rest where p: "ts_packet pid cc first rap withPCR dts pes = (p, rest)"
      by (metis prod.exhaust)
    obtain qs c where qs: "ts_packets pid ((cc + 1) AND 0x0F) False rap withPCR dts rest = (qs, c)"
      by (metis prod.exhaust)
    have "length rest < length pes" using ts_packet_rest [OF False, of pid cc first rap withPCR dts] p by simp
    from less.hyps [OF this qs] ts_packet_reads [OF False assms(1) p] less.prems False p qs
    show ?thesis by (subst (asm) ts_packets.simps) (auto simp: Let_def)
  qed
qed

lemma ts_packets_first:
  assumes "pes \<noteq> []"
  shows "\<exists>qs. fst (ts_packets pid cc first rap withPCR dts pes) =
    fst (ts_packet pid cc first rap withPCR dts pes) # qs"
  using assms by (subst ts_packets.simps) (simp add: Let_def)

lemma pes_unit_header:
  "14 \<le> length (pes_unit sid payload pts dts)" "pes_unit sid payload pts dts \<noteq> []"
  "pes_unit sid payload pts dts ! 0 = 0" "pes_unit sid payload pts dts ! 1 = 0"
  "pes_unit sid payload pts dts ! 2 = 1"
  "drop_bit 6 (pes_unit sid payload pts dts ! 7) AND 0x3 \<noteq> 0"
  "take 5 (drop 9 (pes_unit sid payload pts dts)) =
     encodeTime (if pts = dts then 0x20 else 0x30) pts"
proof -
  show "take 5 (drop 9 (pes_unit sid payload pts dts)) =
     encodeTime (if pts = dts then 0x20 else 0x30) pts"
    by (simp add: pes_unit_def Let_def numeral_eq_Suc)
qed (simp_all add: pes_unit_def Let_def)

lemma PTS_of_payload:
  assumes "PayloadOffset p = Some off" "0 \<le> off" "q = drop (nat off) p" "14 \<le> length q"
    and "q ! 0 = 0" "q ! 1 = 0" "q ! 2 = 1" "drop_bit 6 (q ! 7) AND 0x3 \<noteq> 0"
  shows "PTS p = Some (Some (read_pts (take 5 (drop 9 q))))"
proof -
  have "off \<le> len p" using PayloadOffset_range [OF assms(1)] assms(2) by auto
  moreover have "14 \<le> len q" using assms(4) by (simp add: len_def)
  moreover from this have "pes_start q = Some True"
    using assms(5-7) by (simp add: pes_start_def go_simps)
  moreover have "read_pts (take 5 (drop 9 q)) =
      pts_base (q ! 9) (q ! 10) (q ! 11) (q ! 12) (q ! 13) AND 0x1ffffffff"
    using assms(4) by (simp add: read_pts_def)
  ultimately show ?thesis using assms(1,2,3,8) by (simp add: PTS_def go_simps)
qed

text \<open>C35: the packets \<open>writePESFull\<close> cuts an access unit into are a well-formed run of TS packets
  that carries it losslessly: each is 188 bytes with the sync byte and the unit's PID, only the
  first opens a unit, the continuity counters follow on from \<open>cc\<close>, and the payloads (as the reader's
  \<open>PayloadOffset\<close> finds them) put together are exactly the PES header and the access unit.\<close>

theorem writePESFull_packets:
  assumes "take_bit 13 pid = pid" "writePESFull pid cc sid payload pts dts rap withPCR = (ps, cc')"
  shows "unit_packets pid cc True ps \<and> concat (map payload_of ps) = pes_unit sid payload pts dts"
  using ts_packets_reads [OF assms(1)] assms(2) by (simp add: writePESFull_def)


lemma PCR_of_packet:
  assumes "length p = 188" "p ! 3 = (cc AND 0x0F) OR 0x30" "7 \<le> uint (p ! 4)" "p ! 5 AND 0x10 \<noteq> 0"
    and "take 6 (drop 6 p) = putPCR t"
  shows "PCR p = Some (Some (t mod 2 ^ 33))"
proof -
  have l: "len p = 188" using assms(1) by (simp add: len_def)
  have "read_pcr (putPCR t) = t mod 2 ^ 33" by (rule pcr_field.dec_enc)
  moreover have "read_pcr (take 6 (drop 6 p)) =
      pcr_base (p ! 6) (p ! 7) (p ! 8) (p ! 9) (p ! 10) AND 0x1ffffffff"
    using assms(1) by (simp add: read_pcr_def)
  ultimately show ?thesis
    using assms l by (simp add: PCR_def afc_def go_simps afc_of_control)
qed

lemma ts_packet_clock:
  assumes "pes \<noteq> []" "ts_packet pid cc True rap True dts pes = (p, rest)"
  shows "PCR p = Some (Some (dts mod 2 ^ 33))" "RAI p = Some rap"
proof -
  obtain needAF afLen room where l: "af_layout True rap True (len pes) = (needAF, afLen, room)"
    by (metis prod_cases3)
  have pos: "0 < len pes" using assms(1) by (simp add: len_gt_0)
  note r = af_layout_room [OF pos l]
  then have need: "needAF" and af7: "7 \<le> afLen" "afLen \<le> 183" by auto
  let ?flags = "(if rap then 0x40 else 0) OR 0x10 :: byte"
  have p: "p = [0x47, hi_byte pid OR 0x40, lo_byte pid, (cc AND 0x0F) OR 0x30] @
      [word_of_int afLen, ?flags] @ putPCR dts @ replicate (nat (afLen - 7)) 0xFF @ take (nat room) pes"
    using assms(2) ts_packet_layout [OF assms(1) l, of pid cc dts] need af7
    by (simp add: af_bytes_def Let_def)
  have u: "uint (word_of_int afLen :: byte) = afLen"
    using af7 by (simp add: uint_word_of_int_8 take_bit_eq_mod)
  have "room \<le> int (length pes)" using r unfolding len_def by blast
  moreover have "nat (afLen - 7) + nat (183 - afLen) = 176" using af7 by linarith
  ultimately have lp: "length p = 188" using r af7 need unfolding p by simp
  show "PCR p = Some (Some (dts mod 2 ^ 33))"
  proof (rule PCR_of_packet [OF lp])
    show "p ! 3 = (cc AND 0x0F) OR 0x30" by (simp add: p)
    show "7 \<le> uint (p ! 4)" using u af7 by (simp add: p)
    show "p ! 5 AND 0x10 \<noteq> 0" by (simp add: p)
    show "take 6 (drop 6 p) = putPCR dts" by (simp add: p)
  qed
  have "word_of_int afLen \<noteq> (0 :: byte)" using u af7 by auto
  then show "RAI p = Some rap"
    using lp by (auto simp: RAI_def afc_def go_simps len_def p afc_of_control)
qed

text \<open>C36: a video access unit is read back as it was written: the first packet of \<open>WriteVideo\<close> opens a
  unit on the video PID, \<open>tspes\<close> reads from it the presentation time (modulo the 33-bit wrap), the
  decode time as the PCR, and the random-access flag the caller gave.\<close>

theorem WriteVideo_read_back:
  assumes "WriteVideo m annexB pts dts rap = (out, m')"
  shows "\<exists>p rest. out = p @ rest \<and> length p = 188 \<and> PID p = Some videoPID \<and> PUSI p = Some True \<and>
     PTS p = Some (Some (pts mod 2 ^ 33)) \<and> PCR p = Some (Some (dts mod 2 ^ 33)) \<and>
     RAI p = Some rap"
proof -
  let ?pes = "pes_unit 0xE0 annexB pts dts"
  have ne: "?pes \<noteq> []" by (rule pes_unit_header)
  obtain p r where p: "ts_packet videoPID (mccVideo m) True rap True dts ?pes = (p, r)"
    by (metis prod.exhaust)
  obtain qs where "fst (ts_packets videoPID (mccVideo m) True rap True dts ?pes) = p # qs"
    using ts_packets_first [OF ne, of videoPID "mccVideo m" True rap True dts] p by auto
  then have out: "out = p @ concat qs"
    using assms by (auto simp: WriteVideo_def writePESFull_def split: prod.splits)
  have v: "take_bit 13 videoPID = videoPID" by (simp add: videoPID_def)
  note rd = ts_packet_reads [OF ne v p]
  obtain off where off: "PayloadOffset p = Some off" "0 \<le> off"
    using rd(9) by (auto simp: payload_of_def split: option.splits if_splits)
  let ?q = "drop (nat off) p"
  have q: "payload_of p = ?q" using off by (simp add: payload_of_def)
  have l14: "14 \<le> length ?q" using rd(10) pes_unit_header(1) [of "0xE0" annexB pts dts] q by simp
  have same: "?q ! i = ?pes ! i" if "i < length ?q" for i
    using rd(6) q that by (metis nth_append)
  have "take 5 (drop 9 ?q) = take 5 (drop 9 (?q @ r))" using l14 by simp
  also have "\<dots> = encodeTime (if pts = dts then 0x20 else 0x30) pts"
    using rd(6) q pes_unit_header(7) by metis
  finally have "read_pts (take 5 (drop 9 ?q)) = pts mod 2 ^ 33"
    using pts_field.dec_enc by simp
  moreover have "?q ! 0 = 0" "?q ! 1 = 0" "?q ! 2 = 1" "drop_bit 6 (?q ! 7) AND 0x3 \<noteq> 0"
    using same [of 0] same [of 1] same [of 2] same [of 7] l14
      pes_unit_header(3-6) [of "0xE0" annexB pts dts]
    by simp_all
  note PTS_of_payload [OF off refl l14 this]
  ultimately have "PTS p = Some (Some (pts mod 2 ^ 33))" by simp
  with out rd ts_packet_clock [OF ne p] show ?thesis by blast
qed

end
