(* ===== verification/TsMuxProps.thy ===== *)
theory TsMuxProps
  imports TsMux
begin

text \<open>
  What \<^verbatim>\<open>internal/tsmux\<close> promises about its tables, its clock and its input: the CRC of every section
  checks, the synthetic tables are read back by \<open>tspes\<close>, the packed-audio clock does not drift, an
  ADTS body is cut losslessly, and a failed conversion rolls back.
\<close>

section \<open>The section CRC\<close>

lemma crc_bits_shift:
  assumes "\<And>i. 32 - n \<le> i \<Longrightarrow> i < 32 \<Longrightarrow> \<not> bit c i" "n \<le> 32"
  shows "(crc_bit ^^ n) c = push_bit n c"
  using assms
proof (induction n arbitrary: c)
  case 0
  then show ?case by simp
next
  case (Suc n)
  have "\<not> bit c 31" using Suc.prems(1) [of 31] by simp
  then have "c AND 0x80000000 = 0"
    using and_exp_eq_0_iff_not_bit [of c 31] by simp
  then have c: "crc_bit c = push_bit 1 c" by (simp add: crc_bit_def)
  have "(crc_bit ^^ n) (push_bit 1 c) = push_bit n (push_bit 1 c)"
  proof (rule Suc.IH)
    fix i
    assume "32 - n \<le> i" "i < 32"
    then show "\<not> bit (push_bit 1 c) i"
      using Suc.prems(1) [of "i - 1"] Suc.prems(2)
      by (auto simp: bit_simps mult.commute [of c 2] bit_double_iff)
  qed (use Suc.prems in simp)
  then show ?case using c by (simp add: funpow_swap1 push_bit_push_bit)
qed

lemma crc_byte_top: "crc_byte c (ucast (drop_bit 24 c)) = push_bit 8 c"
proof -
  let ?x = "c XOR push_bit 24 (ucast (ucast (drop_bit 24 c) :: byte))"
  have x: "?x = take_bit 24 c"
    by (rule bit_eqI) (auto simp: bit_simps bit_ucast_iff)
  have "(crc_bit ^^ 8) (take_bit 24 c) = push_bit 8 (take_bit 24 c)"
    by (rule crc_bits_shift) (auto simp: bit_simps)
  also have "\<dots> = push_bit 8 c"
    by (rule bit_eqI) (auto simp: bit_simps)
  finally show ?thesis by (simp add: crc_byte_def x)
qed

lemma crc_of_own_bytes: "crc_from c (u32_bytes c) = 0"
proof -
  have "ucast (drop_bit 16 c) = (ucast (drop_bit 24 (push_bit 8 c)) :: byte)"
    "ucast (drop_bit 8 c) = (ucast (drop_bit 24 (push_bit 16 c)) :: byte)"
    "ucast c = (ucast (drop_bit 24 (push_bit 24 c)) :: byte)"
    by (rule bit_eqI; auto simp: bit_simps bit_ucast_iff)+
  then have "crc_from c (u32_bytes c) = push_bit 8 (push_bit 24 c)"
    by (simp add: crc_from_def u32_bytes_def crc_byte_top push_bit_push_bit del: push_bit_numeral)
  also have "\<dots> = 0" by (rule bit_eqI) (auto simp: bit_simps)
  finally show ?thesis .
qed

text \<open>Every section \<open>Section\<close> builds passes a demuxer's CRC check: the CRC-32/MPEG-2 over the
  whole section, its own CRC bytes included, is zero, for every table id and body.\<close>

theorem section_crc_checks: "crc32MPEG (Section tableID body) = 0"
proof -
  have split: "crc_from c (xs @ ys) = crc_from (crc_from c xs) ys" for c xs ys
    by (simp add: crc_from_def)
  show ?thesis
    unfolding Section_def Let_def crc32MPEG_def split crc_of_own_bytes ..
qed

lemma Section_length:
  assumes "len body \<le> 4091"
  shows "length (Section tableID body) = 3 + length body + 4"
    "len12 (Section tableID body ! 1) (Section tableID body ! 2) = len body + 4"
proof -
  show "length (Section tableID body) = 3 + length body + 4"
    by (simp add: Section_def Let_def u32_bytes_def)
  let ?n = "len body + 4"
  have n: "0 \<le> ?n" "?n < 4096" using assms by auto
  have "word_of_int (0xB0 OR drop_bit 8 ?n) AND 0x0f = (word_of_int (drop_bit 8 ?n) AND 0x0f :: byte)"
    by (rule byte_eqI) (auto simp: lt8 byte_bits)
  moreover have "uint (word_of_int (drop_bit 8 ?n) AND 0x0f :: byte) = ?n div 256"
  proof -
    have "?n div 256 < 16" using n by linarith
    moreover have "0 \<le> ?n div 256" using n by linarith
    ultimately have "(?n div 256) mod 256 mod 16 = ?n div 256" by simp
    then show ?thesis by (simp add: uint_and_15 uint_word_of_int_8 take_bit_eq_mod drop_bit_eq_div)
  qed
  moreover have "uint (word_of_int ?n :: byte) = ?n mod 2 ^ 8"
    by (simp only: uint_word_of_int_8 take_bit_eq_mod)
  ultimately have "len12 (word_of_int (0xB0 OR drop_bit 8 ?n)) (word_of_int ?n) = ?n"
    by (simp add: len12_eq)
  then show "len12 (Section tableID body ! 1) (Section tableID body ! 2) = ?n"
    by (simp add: Section_def Let_def)
qed

section \<open>The tables read back\<close>

lemma section_packet_fed:
  assumes "len sec \<le> 183" "3 \<le> len sec" "len sec = 3 + len12 (sec ! 1) (sec ! 2)"
  shows "\<exists>a'. asm_Feed a (fst (section_packet pid cc sec)) = Some (a', Some sec)"
proof -
  let ?p = "fst (section_packet pid cc sec)"
  have p: "?p = [0x47, hi_byte pid OR 0x40, lo_byte pid, 0x10 OR (cc AND 0x0F), 0x00] @
      sec @ replicate (183 - length sec) 0xFF"
    using assms(1) by (simp add: section_packet_def len_def)
  have lp: "len ?p = 188" unfolding p using assms(1) by (simp add: len_def)
  have off: "PayloadOffset ?p = Some 4"
    using lp by (simp add: PayloadOffset_def afc_def go_simps p afc_of_control)
  have u: "PUSI ?p = Some True" using lp hi_pusi by (simp add: PUSI_def go_simps p)
  have b: "at ?p 3 = Some (0x10 OR (cc AND 0x0F))" "at ?p 4 = Some 0"
    using lp by (simp_all add: go_simps p)
  have "drop 5 ?p = sec @ replicate (183 - length sec) 0xFF" by (simp add: p)
  then have "opens ?p (cc AND 0x0F) (sec @ replicate (183 - length sec) 0xFF)"
    unfolding opens_def using off u b lp by (auto simp: cc_of_control)
  then have fed: "asm_Feed a ?p = asm_complete
      (a\<lparr>asec := sec @ replicate (183 - length sec) 0xFF, acc := cc AND 0x0F\<rparr>)"
    by (rule asm_Feed_opens)
  have "declares sec (len sec)"
    using assms by (simp add: declares_def MaxSectionBytes_def)
  then have "declares (sec @ replicate (183 - length sec) 0xFF) (len sec)" by (rule declares_append)
  from asm_complete_done [of "a\<lparr>asec := sec @ replicate (183 - length sec) 0xFF,
      acc := cc AND 0x0F\<rparr>" "len sec"] this
  show ?thesis unfolding fed by (simp add: len_def)
qed

text \<open>The tables with their CRC bytes left symbolic: no reader looks at them.\<close>

lemma pat_bytes:
  "\<exists>a b c d. patSection = [0x00, 0xB0, 0x0D, 0x00, 0x01, 0xC1, 0x00, 0x00, 0x00, 0x01, 0xF0, 0x00,
     a, b, c, d]"
  unfolding patSection_def Section_def Let_def u32_bytes_def
  by (simp add: hi_byte_def lo_byte_def pmtPID_def)

lemma pmt_bytes_av:
  "\<exists>a b c d. pmtSection True = [0x02, 0xB0, 0x17, 0x00, 0x01, 0xC1, 0x00, 0x00, 0xE1, 0x00, 0xF0, 0x00,
     0x1B, 0xE1, 0x00, 0xF0, 0x00, 0x0F, 0xE1, 0x01, 0xF0, 0x00, a, b, c, d]"
  unfolding pmtSection_def Section_def Let_def u32_bytes_def
  by (simp add: hi_byte_def lo_byte_def videoPID_def audioPID_def streamTypeH264_def streamTypeAAC_def)

lemma pmt_bytes_a:
  "\<exists>a b c d. pmtSection False = [0x02, 0xB0, 0x12, 0x00, 0x01, 0xC1, 0x00, 0x00, 0xE1, 0x01, 0xF0, 0x00,
     0x0F, 0xE1, 0x01, 0xF0, 0x00, a, b, c, d]"
  unfolding pmtSection_def Section_def Let_def u32_bytes_def
  by (simp add: hi_byte_def lo_byte_def videoPID_def audioPID_def streamTypeAAC_def)

lemma parse_av:
  "ParsePMTSection [0x02, 0xB0, 0x17, 0x00, 0x01, 0xC1, 0x00, 0x00, 0xE1, 0x00, 0xF0, 0x00,
     0x1B, 0xE1, 0x00, 0xF0, 0x00, 0x0F, 0xE1, 0x01, 0xF0, 0x00, a, b, c, d] =
   Some (Some \<lparr>VideoPID = videoPID, VideoType = StreamTypeH264, PCRPID = videoPID\<rparr>)"
  "PMTStreamsSection [0x02, 0xB0, 0x17, 0x00, 0x01, 0xC1, 0x00, 0x00, 0xE1, 0x00, 0xF0, 0x00,
     0x1B, 0xE1, 0x00, 0xF0, 0x00, 0x0F, 0xE1, 0x01, 0xF0, 0x00, a, b, c, d] =
   Some ([\<lparr>esPID = videoPID, esType = 0x1b\<rparr>, \<lparr>esPID = audioPID, esType = 0x0f\<rparr>], True)"
  by code_simp+

lemma parse_a:
  "ParsePMTSection [0x02, 0xB0, 0x12, 0x00, 0x01, 0xC1, 0x00, 0x00, 0xE1, 0x01, 0xF0, 0x00,
     0x0F, 0xE1, 0x01, 0xF0, 0x00, a, b, c, d] = Some None"
  "PMTStreamsSection [0x02, 0xB0, 0x12, 0x00, 0x01, 0xC1, 0x00, 0x00, 0xE1, 0x01, 0xF0, 0x00,
     0x0F, 0xE1, 0x01, 0xF0, 0x00, a, b, c, d] = Some ([\<lparr>esPID = audioPID, esType = 0x0f\<rparr>], True)"
  by code_simp+

lemma pmt_fields:
  "len (pmtSection hv) = 3 + len12 (pmtSection hv ! 1) (pmtSection hv ! 2)"
  "len (pmtSection hv) = (if hv then 26 else 21)"
  "ParsePMTSection (pmtSection hv) = Some (if hv then Some \<lparr>VideoPID = videoPID,
     VideoType = StreamTypeH264, PCRPID = videoPID\<rparr> else None)"
  "PMTStreamsSection (pmtSection hv) = Some ((if hv then [\<lparr>esPID = videoPID, esType = 0x1b\<rparr>] else [])
     @ [\<lparr>esPID = audioPID, esType = 0x0f\<rparr>], True)"
proof -
  obtain a b c d where av: "pmtSection True = [0x02, 0xB0, 0x17, 0x00, 0x01, 0xC1, 0x00, 0x00, 0xE1,
     0x00, 0xF0, 0x00, 0x1B, 0xE1, 0x00, 0xF0, 0x00, 0x0F, 0xE1, 0x01, 0xF0, 0x00, a, b, c, d]"
    using pmt_bytes_av by blast
  obtain e f g h where au: "pmtSection False = [0x02, 0xB0, 0x12, 0x00, 0x01, 0xC1, 0x00, 0x00, 0xE1,
     0x01, 0xF0, 0x00, 0x0F, 0xE1, 0x01, 0xF0, 0x00, e, f, g, h]"
    using pmt_bytes_a by blast
  show "len (pmtSection hv) = 3 + len12 (pmtSection hv ! 1) (pmtSection hv ! 2)"
    "len (pmtSection hv) = (if hv then 26 else 21)"
    by (cases hv; simp add: av au len12_def)+
  show "ParsePMTSection (pmtSection hv) = Some (if hv then Some \<lparr>VideoPID = videoPID,
     VideoType = StreamTypeH264, PCRPID = videoPID\<rparr> else None)"
    by (cases hv) (simp_all add: av au parse_av parse_a)
  show "PMTStreamsSection (pmtSection hv) = Some ((if hv then [\<lparr>esPID = videoPID, esType = 0x1b\<rparr>] else [])
     @ [\<lparr>esPID = audioPID, esType = 0x0f\<rparr>], True)"
    by (cases hv) (simp_all add: av au parse_av parse_a)
qed



section \<open>Packed audio\<close>

lemma sampleRates_safe: "\<exists>r. at sampleRates (uint (drop_bit 2 h AND 0x0F :: byte)) = Some r \<and> 0 \<le> r"
proof -
  let ?i = "uint (drop_bit 2 h AND 0x0F :: byte)"
  have "?i = uint (drop_bit 2 h :: byte) mod 16" by (rule uint_and_15)
  then have i: "0 \<le> ?i" "?i < 16" by simp_all
  have l: "len sampleRates = 16" by (simp add: sampleRates_def)
  have "list_all (\<lambda>r. 0 \<le> r) sampleRates" by (simp add: sampleRates_def)
  moreover have "nat ?i < length sampleRates"
    unfolding nat_less_iff [OF i(1)] using i(2) l by (simp only: len_def)
  ultimately have "0 \<le> sampleRates ! nat ?i" by (simp add: list_all_length)
  with i l show ?thesis by (simp add: go_simps)
qed

lemma cut_chunk:
  assumes "0 \<le> i" "7 \<le> n" "i + n \<le> len b"
  shows "7 \<le> length (take (nat n) (drop (nat i) b))"
    "take (nat n) (drop (nat i) b) ! 0 = b ! nat i"
    "take (nat n) (drop (nat i) b) @ drop (nat (i + n)) b = drop (nat i) b"
proof -
  obtain k where k: "n = int k" using assms(2) nonneg_int_cases [of n] by auto
  obtain j where j: "i = int j" using assms(1) nonneg_int_cases [of i] by auto
  have "int j + int k \<le> int (length b)" using assms(3) k j by (simp add: len_def)
  then have "j + k \<le> length b" by linarith
  moreover have "nat (int j + int k) = k + j" by simp
  ultimately show "7 \<le> length (take (nat n) (drop (nat i) b))"
    "take (nat n) (drop (nat i) b) ! 0 = b ! nat i"
    "take (nat n) (drop (nat i) b) @ drop (nat (i + n)) b = drop (nat i) b"
    using assms(2) k j by (simp_all flip: drop_drop)
qed

lemma parseADTS_loop_reads:
  assumes "0 \<le> i"
  shows "\<exists>r. parseADTS_loop b i = Some r \<and>
    (\<forall>fs. r = Inr fs \<longrightarrow> concat (map fdata fs) = drop (nat i) b \<and>
       (\<forall>f \<in> set fs. 7 \<le> length (fdata f) \<and> 0 < sampleRate f \<and> fdata f ! 0 = 0xFF))"
  using assms
proof (induction b i rule: parseADTS_loop.induct)
  case (1 b i)
  show ?case
  proof (cases "i < len b \<and> 7 \<le> len b - i")
    case False
    then show ?thesis by (subst parseADTS_loop.simps) (auto simp: len_def)
  next
    case True
    let ?h = "\<lambda>k. b ! nat (i + k)"
    let ?n = "push_bit 11 (uint (?h 3 AND 0x03)) OR push_bit 3 (uint (?h 4)) OR drop_bit 5 (uint (?h 5))"
    have at0: "at b i = Some (?h 0)" using True "1.prems" by (simp add: go_simps)
    have atk: "at b (i + k) = Some (?h k)" if "0 \<le> k" "k < 7" for k
      using True "1.prems" that by (simp add: go_simps)
    obtain rate where rate: "at sampleRates (uint (drop_bit 2 (?h 2) AND 0x0F)) = Some rate" "0 \<le> rate"
      using sampleRates_safe by blast
    show ?thesis
    proof (cases "?h 0 \<noteq> 0xFF \<or> ?h 1 AND 0xF0 \<noteq> 0xF0 \<or> ?h 1 AND 0x06 \<noteq> 0 \<or> rate = 0 \<or>
        ?n < 7 \<or> i + ?n > len b")
      case bad: True
      then show ?thesis using True at0 atk rate
        by (subst parseADTS_loop.simps) (auto simp: Let_def)
    next
      case ok: False
      let ?d = "take (nat ?n) (drop (nat i) b)"
      have sl: "slice_from b i = Some (drop (nat i) b)"
        "slice_to (drop (nat i) b) ?n = Some ?d"
        using True ok "1.prems" by (auto simp: go_simps len_drop)
      have "\<exists>r. parseADTS_loop b (i + ?n) = Some r \<and>
        (\<forall>fs. r = Inr fs \<longrightarrow> concat (map fdata fs) = drop (nat (i + ?n)) b \<and>
         (\<forall>f \<in> set fs. 7 \<le> length (fdata f) \<and> 0 < sampleRate f \<and> fdata f ! 0 = 0xFF))"
        using "1.IH" [OF _ _ at0 atk _ atk rate(1) _ atk atk atk refl _ sl] True ok "1.prems" by auto
      then obtain r where r: "parseADTS_loop b (i + ?n) = Some r"
        and IH: "\<And>fs. r = Inr fs \<Longrightarrow> concat (map fdata fs) = drop (nat (i + ?n)) b \<and>
         (\<forall>f \<in> set fs. 7 \<le> length (fdata f) \<and> 0 < sampleRate f \<and> fdata f ! 0 = 0xFF)"
        by blast
      have step: "parseADTS_loop b i = Some (case r of Inl e \<Rightarrow> Inl e
          | Inr fs \<Rightarrow> Inr (\<lparr>fdata = ?d, sampleRate = rate\<rparr> # fs))"
        using True ok at0 atk rate sl r by (subst parseADTS_loop.simps) (simp add: Let_def)
      have "7 \<le> ?n" "i + ?n \<le> len b" using ok by linarith+
      note d = cut_chunk [OF "1.prems" this]
      from step IH d rate ok show ?thesis by (cases r) auto
    qed
  qed
qed


text \<open>C38: an ADTS body is cut losslessly or refused.  \<open>parseADTS\<close> never panics; when it accepts, its
  frames put end to end are the body behind the ID3 tags, byte for byte, there is at least one, and
  every frame carries the sync byte, at least a header, and a known sample rate.\<close>

theorem parseADTS_lossless:
  "\<exists>r. parseADTS body = Some r \<and>
     (case r of
        Inl e \<Rightarrow> True
      | Inr fs \<Rightarrow> fs \<noteq> [] \<and> concat (map fdata fs) = skipID3 body \<and>
          list_all (\<lambda>f. 7 \<le> length (fdata f) \<and> fdata f ! 0 = 0xFF \<and> 0 < sampleRate f) fs)"
proof -
  obtain r where r: "parseADTS_loop (skipID3 body) 0 = Some r"
    "\<And>fs. r = Inr fs \<Longrightarrow> concat (map fdata fs) = skipID3 body \<and>
      (\<forall>f \<in> set fs. 7 \<le> length (fdata f) \<and> 0 < sampleRate f \<and> fdata f ! 0 = 0xFF)"
    using parseADTS_loop_reads [of 0 "skipID3 body"] by auto
  show ?thesis
  proof (cases r)
    case (Inl e)
    with r show ?thesis by (simp add: parseADTS_def)
  next
    case (Inr fs)
    with r show ?thesis by (auto simp: parseADTS_def list_all_iff)
  qed
qed

lemma writeTables_clock [simp]:
  "mpts (snd (writeTables m)) = mpts m" "mptsRem (snd (writeTables m)) = mptsRem m"
  "mhasVideo (snd (writeTables m)) = mhasVideo m"
  by (simp_all add: writeTables_def split: prod.splits)

lemma writePES_clock [simp]:
  "mpts (snd (writePES m f rap)) = mpts m" "mptsRem (snd (writePES m f rap)) = mptsRem m"
  "mhasVideo (snd (writePES m f rap)) = mhasVideo m"
  by (simp_all add: writePES_def split: prod.splits)

text \<open>One frame advances the clock by exactly 1024 samples, the remainder kept below the rate.\<close>

lemma advance_clock_exact:
  assumes "0 < sampleRate f" "0 \<le> mptsRem m"
  shows "mpts (advance_clock m f) * sampleRate f + mptsRem (advance_clock m f)
       = mpts m * sampleRate f + mptsRem m + 92160000"
    "0 \<le> mptsRem (advance_clock m f)" "mptsRem (advance_clock m f) < sampleRate f"
proof -
  let ?r = "sampleRate f"
  let ?m = "mptsRem m + 92160000 mod ?r"
  have d: "92160000 div ?r * ?r + 92160000 mod ?r = 92160000" by (rule div_mult_mod_eq)
  have e: "?m div ?r * ?r + ?m mod ?r = ?m" by (rule div_mult_mod_eq)
  show "mpts (advance_clock m f) * ?r + mptsRem (advance_clock m f) = mpts m * ?r + mptsRem m + 92160000"
    using assms d e by (auto simp: advance_clock_def Let_def aacSamplesPerFrame_def algebra_simps)
  show "0 \<le> mptsRem (advance_clock m f)" "mptsRem (advance_clock m f) < ?r"
    using assms by (auto simp: advance_clock_def Let_def aacSamplesPerFrame_def)
qed

lemma segment_loop_clock:
  assumes "\<forall>f \<in> set fs. sampleRate f = r" "0 < r" "0 \<le> mptsRem m" "mptsRem m < r"
  shows "let m' = snd (segment_loop m i fs) in
    mpts m' * r + mptsRem m' = mpts m * r + mptsRem m + int (length fs) * 92160000 \<and>
    0 \<le> mptsRem m' \<and> mptsRem m' < r"
  using assms
proof (induction fs arbitrary: m i)
  case Nil
  then show ?case by (simp add: Let_def)
next
  case (Cons f fs)
  define m1 where "m1 = snd (if mpts m \<ge> mnextTable m \<and> i > 0
      then (let (t, m') = writeTables m in (t, m'\<lparr>mnextTable := mpts m' + tablePeriod90k\<rparr>))
      else ([], m))"
  define m2 where "m2 = snd (writePES m1 f (i = 0))"
  have "mpts m1 = mpts m" "mptsRem m1 = mptsRem m"
    by (auto simp: m1_def Let_def split: prod.splits) (metis snd_conv writeTables_clock)+
  then have m2: "mpts m2 = mpts m" "mptsRem m2 = mptsRem m" by (simp_all add: m2_def)
  have step: "snd (segment_loop m i (f # fs)) = snd (segment_loop (advance_clock m2 f) (Suc i) fs)"
    by (simp add: m2_def m1_def Let_def split: prod.splits)
  have r: "sampleRate f = r" using Cons.prems(1) by simp
  note a = advance_clock_exact [of f m2]
  have "let m' = snd (segment_loop (advance_clock m2 f) (Suc i) fs) in
    mpts m' * r + mptsRem m' = mpts (advance_clock m2 f) * r + mptsRem (advance_clock m2 f)
      + int (length fs) * 92160000 \<and> 0 \<le> mptsRem m' \<and> mptsRem m' < r"
    by (rule Cons.IH) (use Cons.prems a r m2 in auto)
  then show ?case using step a r m2 Cons.prems by (simp add: Let_def algebra_simps)
qed


lemma advance_clock_hasVideo [simp]: "mhasVideo (advance_clock m f) = mhasVideo m"
  by (simp add: advance_clock_def Let_def)

lemma segment_loop_state:
  "snd (segment_loop m i (f # fs)) = snd (segment_loop (advance_clock (snd (writePES
     (if mpts m \<ge> mnextTable m \<and> i > 0
      then (snd (writeTables m))\<lparr>mnextTable := mpts (snd (writeTables m)) + tablePeriod90k\<rparr> else m)
     f (i = 0))) f) (Suc i) fs)"
  by (simp add: case_prod_beta Let_def)

lemma segment_loop_hasVideo: "mhasVideo (snd (segment_loop m i fs)) = mhasVideo m"
proof (induction fs arbitrary: m i)
  case (Cons f fs)
  then show ?case unfolding segment_loop_state by simp
qed simp

lemma Segment_accepted:
  assumes "parseADTS body = Some (Inr fs)"
  shows "\<exists>out. Segment m body = Some (Inr (out, (snd (segment_loop ((snd (writeTables m))\<lparr>mnextTable :=
    mpts (snd (writeTables m)) + tablePeriod90k\<rparr>) 0 fs))\<lparr>mstarted := True\<rparr>))"
  using assms by (simp add: Segment_def case_prod_beta Let_def)

text \<open>C39: the packed-audio clock does not drift.  When every frame of the body has the sample rate
  \<open>r\<close>, \<open>Segment\<close> moves the clock by the exact duration of the frames rounded down once (and not once
  per frame), and keeps the rest of the division: \<open>n\<close> frames of 1024 samples are \<open>n * 92160000 / r\<close>
  ticks of the 90 kHz clock.\<close>

theorem Segment_clock:
  assumes "parseADTS body = Some (Inr fs)" "Segment m body = Some (Inr (out, m'))"
    and "list_all (\<lambda>f. sampleRate f = r) fs" "0 < r" "0 \<le> mptsRem m" "mptsRem m < r"
  shows "mpts m' = mpts m + (mptsRem m + int (length fs) * 92160000) div r \<and>
    mptsRem m' = (mptsRem m + int (length fs) * 92160000) mod r"
proof -
  define m2 where "m2 = (snd (writeTables m))\<lparr>mnextTable := mpts (snd (writeTables m)) + tablePeriod90k\<rparr>"
  have m2: "mpts m2 = mpts m" "mptsRem m2 = mptsRem m" by (simp_all add: m2_def)
  have m': "mpts m' = mpts (snd (segment_loop m2 0 fs))"
    "mptsRem m' = mptsRem (snd (segment_loop m2 0 fs))"
    using assms(2) Segment_accepted [OF assms(1), of m] by (auto simp: m2_def)
  let ?x = "mptsRem m + int (length fs) * 92160000"
  have "mpts m' * r + mptsRem m' = mpts m * r + ?x" "0 \<le> mptsRem m'" "mptsRem m' < r"
    using segment_loop_clock [of fs r m2 0] assms m2 m' by (simp_all add: list_all_iff Let_def)
  then have x: "?x = mptsRem m' + (mpts m' - mpts m) * r" "0 \<le> mptsRem m'" "mptsRem m' < r"
    by (simp_all add: algebra_simps)
  then have "?x div r = mpts m' - mpts m" "?x mod r = mptsRem m'"
    using assms(4) by simp_all
  then show ?thesis by simp
qed

section \<open>Rolling back\<close>

text \<open>What a caller does with a muxer between \<open>Save\<close> and \<open>Restore\<close>; a refused segment leaves the muxer
  as it is.\<close>

datatype mux_op =
    MTables
  | MVideo bytes int int bool
  | MAudio bytes int
  | MSegment bytes

fun mux_step :: "mux_op \<Rightarrow> Muxer \<Rightarrow> Muxer go" where
  "mux_step MTables m = Some (snd (writeTables m))"
| "mux_step (MVideo annexB pts dts rap) m = Some (snd (WriteVideo m annexB pts dts rap))"
| "mux_step (MAudio adts pts) m = Some (snd (WriteAudio m adts pts))"
| "mux_step (MSegment body) m = do {
     r \<leftarrow> Segment m body;
     Some (case r of Inl e \<Rightarrow> m | Inr (out, m') \<Rightarrow> m') }"

lemma parseADTS_safe: "\<exists>r. parseADTS body = Some r"
  using parseADTS_loop_reads [of 0 "skipID3 body"] by (auto simp: parseADTS_def)

interpretation muxer: safe_system mux_step "\<lambda>e. True" "\<lambda>m. mhasVideo m = hv" for hv
proof (unfold_locales, goal_cases)
  case (1 m e)
  show ?case
  proof (cases e)
    case (MSegment body)
    obtain r where r: "parseADTS body = Some r" using parseADTS_safe by blast
    show ?thesis
    proof (cases r)
      case (Inl a)
      with r MSegment 1 show ?thesis by (simp add: Segment_def)
    next
        case (Inr fs)
      from Segment_accepted [OF r [unfolded Inr], of m] MSegment 1 show ?thesis
        by (auto simp: segment_loop_hasVideo)
    qed
  qed (use 1 in \<open>auto simp: WriteVideo_def WriteAudio_def split: prod.splits\<close>)
qed

text \<open>A conversion that fails half way leaves no trace.  Whatever was written since \<open>Save\<close> (tables,
  video, audio, whole segments, refused ones), nothing panics and \<open>Restore\<close> gives back the muxer as
  it was, every counter, the clock and the table deadline included.\<close>

theorem Restore_rolls_back:
  "\<exists>m'. run mux_step es m = Some m' \<and> Restore m' (Save m) = m"
proof -
  obtain m' where "run mux_step es m = Some m'" "mhasVideo m' = mhasVideo m"
    using muxer.run_safe [of m "mhasVideo m" es] by (auto simp: list_all_iff)
  then show ?thesis by (simp add: Restore_def Save_def)
qed

text \<open>The hypotheses at work.\<close>

lemma writePESFull_packets_witness:
  "unit_packets videoPID 15 True (fst (writePESFull videoPID 15 0xE0 [1, 2, 3] 3600 0 True True)) \<and>
   concat (map payload_of (fst (writePESFull videoPID 15 0xE0 [1, 2, 3] 3600 0 True True)))
   = pes_unit 0xE0 [1, 2, 3] 3600 0"
  using writePESFull_packets [of videoPID 15 "0xE0" "[1, 2, 3]" 3600 0 True True
      "fst (writePESFull videoPID 15 0xE0 [1, 2, 3] 3600 0 True True)"
      "snd (writePESFull videoPID 15 0xE0 [1, 2, 3] 3600 0 True True)"]
  by (simp add: videoPID_def)

lemma WriteVideo_read_back_witness:
  "\<exists>p rest. fst (WriteVideo newAV [0, 0, 1] 3600 0 True) = p @ rest \<and> length p = 188 \<and>
     PID p = Some videoPID \<and> PUSI p = Some True \<and>
     PTS p = Some (Some 3600) \<and> PCR p = Some (Some 0) \<and> RAI p = Some True"
  using WriteVideo_read_back [of newAV "[0, 0, 1]" 3600 0 True
      "fst (WriteVideo newAV [0, 0, 1] 3600 0 True)" "snd (WriteVideo newAV [0, 0, 1] 3600 0 True)"]
  by simp

lemma Segment_clock_witness:
  "let b = [0xFF, 0xF1, 0x50, 0x80, 0x01, 0x1F, 0xFC, 0xAA];
       m' = (case Segment newMuxer b of Some (Inr (out, m)) \<Rightarrow> m | _ \<Rightarrow> newMuxer)
   in parseADTS b = Some (Inr [\<lparr>fdata = b, sampleRate = 44100\<rparr>]) \<and>
     mpts m' = 2089 \<and> mptsRem m' = 35100"
proof -
  let ?b = "[0xFF, 0xF1, 0x50, 0x80, 0x01, 0x1F, 0xFC, 0xAA] :: bytes"
  have p: "parseADTS ?b = Some (Inr [\<lparr>fdata = ?b, sampleRate = 44100\<rparr>])" by code_simp
  obtain out m' where s: "Segment newMuxer ?b = Some (Inr (out, m'))"
    using Segment_accepted [OF p] by blast
  from Segment_clock [OF p s, of 44100] have "mpts m' = 2089" "mptsRem m' = 35100"
    by (simp_all add: newMuxer_def)
  with p s show ?thesis by (simp add: Let_def)
qed

end
