(* ===== verification/Float64.thy ===== *)
theory Float64
  imports Prelude
begin

text \<open>
  The \<open>float64\<close> arithmetic the modelled code does: the ring's idle ratio (\<^verbatim>\<open>internal/tsjoin\<close>) and the
  frame-rate baseline (\<^verbatim>\<open>internal/supervisor\<close>).  Values are finite and in the normal range.
\<close>

text \<open>
  A finite \<open>float64\<close> is a dyadic number: \<open>Dyadic m k\<close> stands for \<open>m / 2 ^ k\<close>.  \<open>round53\<close> rounds a
  natural number to 53 significant bits, ties to even, which is what the conversion of an integer
  and the product of two \<open>float64\<close> do to their exact values.
\<close>

datatype f64 = Dyadic (f64_man: int) (f64_exp: nat)

fun bitlen :: "nat \<Rightarrow> nat" where
  "bitlen n = (if n = 0 then 0 else Suc (bitlen (n div 2)))"

declare bitlen.simps [simp del]

definition round53 :: "nat \<Rightarrow> nat" where
  "round53 n =
     (if bitlen n \<le> 53 then n
      else let s = bitlen n - 53; q = n div 2 ^ s; r = n mod 2 ^ s; half = 2 ^ (s - 1)
           in (if r > half \<or> (r = half \<and> odd q) then Suc q else q) * 2 ^ s)"

text \<open>\<open>int64(float64(need) * ratio)\<close>, truncated toward zero.\<close>

definition f64_scale :: "int \<Rightarrow> f64 \<Rightarrow> int" where
  "f64_scale need r =
     sgn need * sgn (f64_man r) *
     int (round53 (round53 (nat \<bar>need\<bar>) * nat \<bar>f64_man r\<bar>) div 2 ^ f64_exp r)"

definition f64_eq :: "f64 \<Rightarrow> f64 \<Rightarrow> bool" where
  "f64_eq a b \<longleftrightarrow> f64_man a * 2 ^ f64_exp b = f64_man b * 2 ^ f64_exp a"

definition f64_less :: "f64 \<Rightarrow> f64 \<Rightarrow> bool" where
  "f64_less a b \<longleftrightarrow> f64_man a * 2 ^ f64_exp b < f64_man b * 2 ^ f64_exp a"

definition f64_mul :: "f64 \<Rightarrow> f64 \<Rightarrow> f64" where
  "f64_mul a b =
     Dyadic (sgn (f64_man a) * sgn (f64_man b) * int (round53 (nat \<bar>f64_man a\<bar> * nat \<bar>f64_man b\<bar>)))
       (f64_exp a + f64_exp b)"

definition f64_zero :: f64 where "f64_zero = Dyadic 0 0"

lemma f64_less_zero [simp]:
  "f64_less f64_zero a \<longleftrightarrow> 0 < f64_man a" "f64_less a f64_zero \<longleftrightarrow> f64_man a < 0"
  by (simp_all add: f64_less_def f64_zero_def)

end
