(* ===== verification/RingState.thy ===== *)
theory RingState
  imports TsPes "HOL-Library.Signed_Division" Float64
begin

text \<open>
  The ring of \<^verbatim>\<open>internal/tsjoin/tsjoin.go\<close>: its state and the operations that manage what it retains.

  A block (\<open>gop\<close>) holds its bytes twice: \<open>gdata\<close> is the content of the code's slice, and \<open>garr\<close>/\<open>gcap\<close>
  say which backing array the slice lies in (from its start) and how long that array is.  \<open>mem\<close> is the
  memory of the arrays themselves, written by every append, so that recycling an array into a new
  block really overwrites the bytes an old slice of it sees.  That the two views agree, and that a
  pinned reader's slices keep their bytes, are theorems (\<^verbatim>\<open>RingPins\<close>), not assumptions.
  The capacity \<open>append\<close> gives an array it grows is the runtime's choice: it is the argument \<open>G\<close>
  (old capacity, needed length) of the operations that append.
\<close>

section \<open>Constants\<close>

definition ring_PacketSize :: int where "ring_PacketSize = 188"
definition pcrHz :: int where "pcrHz = 90"
definition ptsWrap :: int where "ptsWrap = 2 ^ 33"
definition maxPMTPackets :: int where "maxPMTPackets = 8"
definition maxCadence :: int where "maxCadence = 60 * 90000"
definition maxWrap :: int where "maxWrap = 10 * 60 * 90000"
definition JoinRingBytesPerMS :: int where "JoinRingBytesPerMS = 3000"
definition JoinFreeGOPBufs :: int where "JoinFreeGOPBufs = 4"

section \<open>State\<close>

record gop =
  gid :: int
  gdata :: bytes
  garr :: nat
  gcap :: nat
  gt :: int
  gpts :: int
  gvideo :: bool

record hlsSeg =
  seq :: int
  startID :: int
  endID :: int
  durMS :: int
  disc :: bool

record State =
  lastPAT :: bytes
  lastPMT :: bytes
  pmtPID :: int
  pmtAsm :: SectionAssembler
  pmtPkts :: bytes
  videoPID :: int
  audioPID :: int
  videoType :: byte
  audioPkts :: int
  videoFrames :: int
  gops :: "gop list"
  lastPCR :: int
  pcrPID :: int
  pcrOnPID :: bool
  clockPCR :: int
  clockT :: int
  clockStep :: int
  maxGOP :: int
  ring90 :: int
  maxRing :: int
  pinned :: "int \<rightharpoonup> int"
  freeBufs :: "(nat \<times> nat) list"
  prunedID :: int
  prunedLen :: int
  prebufMS :: int
  hlsTargetMS :: int
  hlsWindow :: int
  nextGOPID :: int
  segs :: "hlsSeg list"
  nextSeq :: int
  segStartID :: int
  segLastPTS :: int
  segSpan :: int
  segDisc :: bool
  discDropped :: int
  hlsStep :: int
  hlsMaxDur :: int
  plCache :: string
  plValid :: bool
  noKeyframeCuts :: int
  gated :: bool
  idleRatio :: f64
  mem :: "nat \<Rightarrow> bytes"
  nextArr :: nat

section \<open>Buffers\<close>

text \<open>A buffer is an array and its capacity; \<open>(0, 0)\<close> is the nil slice, which owns no array.\<close>

definition getBuf :: "State \<Rightarrow> (nat \<times> nat) \<times> State" where
  "getBuf s = (if freeBufs s = [] then ((0, 0), s)
               else (last (freeBufs s), s\<lparr>freeBufs := butlast (freeBufs s)\<rparr>))"

definition putBuf :: "nat \<times> nat \<Rightarrow> State \<Rightarrow> State" where
  "putBuf b s = (if snd b = 0 \<or> len (freeBufs s) \<ge> JoinFreeGOPBufs then s
                 else s\<lparr>freeBufs := freeBufs s @ [b]\<rparr>)"

definition pins :: "State \<Rightarrow> int \<Rightarrow> int" where
  "pins s i = (case pinned s i of None \<Rightarrow> 0 | Some n \<Rightarrow> n)"

definition release :: "gop \<Rightarrow> State \<Rightarrow> State" where
  "release g s =
     (let s = s\<lparr>prunedID := gid g, prunedLen := len (gdata g)\<rparr>
      in if pins s (gid g) > 0 then s else putBuf (garr g, gcap g) s)"

text \<open>\<open>append(data, pkt...)\<close> on a slice at the start of array \<open>fst b\<close>: in place when it fits, else in
  a fresh array, the old bytes copied over.\<close>

definition write_at :: "bytes \<Rightarrow> nat \<Rightarrow> bytes \<Rightarrow> bytes" where
  "write_at m off xs = take off m @ xs @ drop (off + length xs) m"

definition append_slice ::
  "(nat \<Rightarrow> nat \<Rightarrow> nat) \<Rightarrow> nat \<times> nat \<Rightarrow> nat \<Rightarrow> bytes \<Rightarrow> State \<Rightarrow> (nat \<times> nat) \<times> State" where
  "append_slice G b n xs s =
     (let need = n + length xs in
      if need \<le> snd b then (b, s\<lparr>mem := (mem s)(fst b := write_at (mem s (fst b)) n xs)\<rparr>)
      else let a = nextArr s; c = G (snd b) need;
               content = take n (mem s (fst b)) @ xs @ replicate (c - need) 0
           in ((a, c), s\<lparr>mem := (mem s)(a := content), nextArr := Suc a\<rparr>))"

text \<open>Opening a block on a packet and appending a packet to the open block.\<close>

definition open_block :: "(nat \<Rightarrow> nat \<Rightarrow> nat) \<Rightarrow> int \<Rightarrow> bytes \<Rightarrow> int \<Rightarrow> int \<Rightarrow> bool \<Rightarrow> State \<Rightarrow> State" where
  "open_block G i pkt t pts video s =
     (let (b, s) = getBuf s; (b, s) = append_slice G b 0 pkt s
      in s\<lparr>gops := gops s @ [\<lparr>gid = i, gdata = pkt, garr = fst b, gcap = snd b, gt = t,
                              gpts = pts, gvideo = video\<rparr>]\<rparr>)"

definition extend_block :: "(nat \<Rightarrow> nat \<Rightarrow> nat) \<Rightarrow> bytes \<Rightarrow> State \<Rightarrow> State" where
  "extend_block G pkt s =
     (let g = last (gops s);
          (b, s) = append_slice G (garr g, gcap g) (length (gdata g)) pkt s
      in s\<lparr>gops := butlast (gops s) @ [g\<lparr>gdata := gdata g @ pkt, garr := fst b, gcap := snd b\<rparr>]\<rparr>)"

section \<open>Retention\<close>

text \<open>The front of the ring leaves, oldest block first.\<close>

definition drop_front :: "nat \<Rightarrow> State \<Rightarrow> State" where
  "drop_front n s = (fold release (take n (gops s)) s)\<lparr>gops := drop n (gops s)\<rparr>"

definition hlsPrune :: "State \<Rightarrow> State" where
  "hlsPrune s =
     (case (segs s, gops s) of
        ([], _) \<Rightarrow> s
      | (_, []) \<Rightarrow> s
      | (_, g # _) \<Rightarrow>
          (let gone = takeWhile (\<lambda>sg. startID sg < gid g) (segs s) in
           if gone = [] then s
           else s\<lparr>discDropped := discDropped s + len (filter disc gone),
                  segs := drop (length gone) (segs s), plValid := False\<rparr>))"

text \<open>How many blocks are older than the window: a block is kept when it has a time within \<open>r\<close> ticks of
  the newest, and so is every block behind it; the newest always stays.\<close>

fun aged :: "int \<Rightarrow> int \<Rightarrow> gop list \<Rightarrow> nat" where
  "aged newest r (g # h # gs) =
     (if gt g \<ge> 0 \<and> newest - gt g \<le> r then 0 else Suc (aged newest r (h # gs)))"
| "aged newest r _ = 0"

definition prune_age :: "State \<Rightarrow> State" where
  "prune_age s =
     (let newest = gt (last (gops s))
      in if newest \<ge> 0 then drop_front (aged newest (ring90 s) (gops s)) s else s)"

definition ring_bytes :: "gop list \<Rightarrow> int" where
  "ring_bytes gs = (\<Sum>g \<leftarrow> gs. len (gdata g))"

text \<open>The byte backstop, raised to the stream's own measured rate where the ring has a clock.\<close>

definition byte_limit :: "State \<Rightarrow> int" where
  "byte_limit s =
     (let tot = ring_bytes (gops s); gs = gops s in
      if length gs > 1 then
        (let span = (gt (last gs) - gt (hd gs)) sdiv pcrHz in
         if span > 0 \<and> gt (hd gs) \<ge> 0 then
           (let need = ring90 s sdiv pcrHz in
            if need > 0 then max (maxRing s) (tot * need sdiv span) else maxRing s)
         else maxRing s)
      else maxRing s)"

text \<open>How many blocks must go for the bytes to fit, the newest always staying.\<close>

fun excess :: "int \<Rightarrow> int \<Rightarrow> gop list \<Rightarrow> nat" where
  "excess limit tot (g # h # gs) =
     (if tot > limit then Suc (excess limit (tot - len (gdata g)) (h # gs)) else 0)"
| "excess limit tot _ = 0"

definition prune_bytes :: "State \<Rightarrow> State" where
  "prune_bytes s = drop_front (excess (byte_limit s) (ring_bytes (gops s)) (gops s)) s"

definition prune :: "State \<Rightarrow> State go" where
  "prune s =
     (if ring90 s \<le> 0 then
        Some (if length (gops s) > 1 then drop_front (length (gops s) - 1) s else s)
      else if gops s = [] then None
      else Some (hlsPrune (prune_bytes (prune_age s))))"

section \<open>Configuration\<close>

definition recompute :: "State \<Rightarrow> State go" where
  "recompute s =
     (let need = prebufMS s;
          need = (if gated s then f64_scale need (idleRatio s) else need);
          need = (if hlsTargetMS s > 0 \<and> need < 2 * hlsTargetMS s then 2 * hlsTargetMS s else need);
          need = (if need < 0 then 0 else need);
          s = s\<lparr>ring90 := need * pcrHz, maxRing := need * JoinRingBytesPerMS\<rparr>
      in if gops s \<noteq> [] then prune s else Some s)"

definition SetGated :: "bool \<Rightarrow> State \<Rightarrow> State go" where
  "SetGated g s = (if gated s = g then Some s else recompute (s\<lparr>gated := g\<rparr>))"

definition SetIdleRatio :: "f64 \<Rightarrow> State \<Rightarrow> State go" where
  "SetIdleRatio r s =
     (let r = (if f64_man r \<le> 0 then Dyadic 1 1
               else if f64_man r > 2 ^ f64_exp r then Dyadic 1 0 else r)
      in if f64_eq (idleRatio s) r then Some s else recompute (s\<lparr>idleRatio := r\<rparr>))"

definition Configure :: "int \<Rightarrow> int \<Rightarrow> int \<Rightarrow> State \<Rightarrow> State go" where
  "Configure prebuf target window s =
     (let prebuf = (if prebuf < 0 then 0 else prebuf);
          target = (if target < 0 then 0 else target);
          window = (if window < 0 then 0 else window);
          s = (if target \<noteq> hlsTargetMS s then s\<lparr>hlsMaxDur := 0\<rparr> else s)
      in recompute (s\<lparr>prebufMS := prebuf, hlsTargetMS := target, hlsWindow := window,
                     plValid := False\<rparr>))"

definition blank :: "int \<Rightarrow> int \<Rightarrow> State" where
  "blank mg prebuf =
     \<lparr>lastPAT = [], lastPMT = [], pmtPID = -1, pmtAsm = new_assembler, pmtPkts = [],
      videoPID = -1, audioPID = -1, videoType = 0, audioPkts = 0, videoFrames = 0,
      gops = [], lastPCR = -1, pcrPID = -1, pcrOnPID = False,
      clockPCR = -1, clockT = 0, clockStep = 0, maxGOP = mg, ring90 = 0, maxRing = 0,
      pinned = Map.empty, freeBufs = [], prunedID = -1, prunedLen = 0,
      prebufMS = prebuf, hlsTargetMS = 0, hlsWindow = 0, nextGOPID = 0, segs = [], nextSeq = 0,
      segStartID = -1, segLastPTS = -1, segSpan = 0, segDisc = False, discDropped = 0,
      hlsStep = 0, hlsMaxDur = 0, plCache = '''', plValid = False, noKeyframeCuts = 0,
      gated = False, idleRatio = Dyadic 1 1, mem = (\<lambda>_. []), nextArr = 1\<rparr>"

definition New :: "int \<Rightarrow> int \<Rightarrow> State go" where
  "New mg prebuf = recompute (blank mg prebuf)"

section \<open>Pins\<close>

record Pin =
  plo :: int
  phi :: int
  held :: bool

definition no_pin :: Pin where "no_pin = \<lparr>plo = 0, phi = 0, held = False\<rparr>"

definition pin_block :: "int \<Rightarrow> State \<Rightarrow> State" where
  "pin_block i s = s\<lparr>pinned := (pinned s)(i \<mapsto> pins s i + 1)\<rparr>"

definition pin :: "int \<Rightarrow> int \<Rightarrow> State \<Rightarrow> Pin \<times> State" where
  "pin lo hi s = (\<lparr>plo = lo, phi = hi, held = True\<rparr>, fold pin_block [lo..hi] s)"

definition unpin_block :: "int \<Rightarrow> State \<Rightarrow> State" where
  "unpin_block i s =
     (if pins s i > 1 then s\<lparr>pinned := (pinned s)(i \<mapsto> pins s i - 1)\<rparr>
      else s\<lparr>pinned := (pinned s)(i := None)\<rparr>)"

definition Unpin :: "Pin \<Rightarrow> State \<Rightarrow> State" where
  "Unpin p s = (if held p then fold unpin_block [plo p..phi p] s else s)"

section \<open>Reset and reports\<close>

definition Reset :: "State \<Rightarrow> State" where
  "Reset s =
     (let s = s\<lparr>discDropped := discDropped s + len (filter disc (segs s))\<rparr>;
          s = (if gops s \<noteq> [] then s\<lparr>prunedID := gid (last (gops s)),
                                      prunedLen := len (gdata (last (gops s)))\<rparr> else s)
      in s\<lparr>gops := [], segs := [], freeBufs := [], segStartID := -1, segLastPTS := -1, segSpan := 0,
           segDisc := (nextSeq s > 0), hlsStep := 0, hlsMaxDur := 0, plCache := '''',
           plValid := False\<rparr>)"

definition RingStats :: "State \<Rightarrow> int \<times> int \<times> int" where
  "RingStats s =
     (ring_bytes (gops s),
      if length (gops s) > 1 \<and> gt (hd (gops s)) \<ge> 0 \<and> gt (last (gops s)) \<ge> 0
      then (gt (last (gops s)) - gt (hd (gops s))) sdiv pcrHz else 0,
      len (gops s))"

definition Counters :: "State \<Rightarrow> int \<times> int \<times> bool" where
  "Counters s = (audioPkts s, videoFrames s, audioPID s \<ge> 0)"

end
