(* ===== verification/RingUpdate.thy ===== *)
theory RingUpdate
  imports RingState
begin

text \<open>
  The producer's side of \<^verbatim>\<open>internal/tsjoin/tsjoin.go\<close>: the ring clock, the HLS segment view's boundaries,
  the packet readers the ring has of its own, and \<open>Update\<close>, which folds a chunk packet by packet.
\<close>

section \<open>The ring clock\<close>

definition backfill :: "gop \<Rightarrow> gop" where
  "backfill g = (if gt g < 0 then g\<lparr>gt := 0\<rparr> else g)"

text \<open>The forward step of the clock for a PCR step \<open>d\<close>, and the cadence remembered.\<close>

definition clock_step :: "int \<Rightarrow> int \<Rightarrow> int \<Rightarrow> int \<times> int" where
  "clock_step step target d0 =
     (let d = (if d0 < 0 \<and> d0 + ptsWrap \<le> maxWrap then d0 + ptsWrap else d0) in
      if d < 0 then (step, step)
      else if step > 0 \<and> d > 2 * step + target * pcrHz then (step, step)
      else if d \<le> maxCadence then (if d > 0 then (d, d) else (d, step))
      else if step > 0 then (step, step)
      else (d, step))"

definition ringClock :: "State \<Rightarrow> int \<times> State" where
  "ringClock s =
     (if lastPCR s < 0 then (-1, s)
      else if clockPCR s < 0 then
        (0, s\<lparr>clockPCR := lastPCR s, clockT := 0, gops := map backfill (gops s)\<rparr>)
      else
        (let (d, step) = clock_step (clockStep s) (hlsTargetMS s) (lastPCR s - clockPCR s);
             t = clockT s + d
         in (t, s\<lparr>clockStep := step, clockPCR := lastPCR s, clockT := t\<rparr>)))"

section \<open>HLS segment boundaries\<close>

definition closeSegment :: "int \<Rightarrow> int \<Rightarrow> State \<Rightarrow> State" where
  "closeSegment newID dur s =
     (let e = (if gops s \<noteq> [] then gid (last (gops s)) else segStartID s)
      in s\<lparr>segs := segs s @ [\<lparr>seq = nextSeq s, startID = segStartID s, endID = e, durMS = dur,
                               disc = segDisc s\<rparr>],
           segDisc := False, nextSeq := nextSeq s + 1, plValid := False\<rparr>)"

definition hls_step :: "int \<Rightarrow> int" where
  "hls_step d = (if d < 0 \<and> d + ptsWrap \<le> maxWrap then d + ptsWrap else d)"

definition hlsOnKeyframe :: "int \<Rightarrow> int \<Rightarrow> State \<Rightarrow> State" where
  "hlsOnKeyframe newID newPTS s =
     (if hlsTargetMS s \<le> 0 then s
      else if newPTS < 0 then s
      else if segStartID s < 0 \<or> segLastPTS s < 0 then
        s\<lparr>segStartID := newID, segLastPTS := newPTS, segSpan := 0\<rparr>
      else
        (let step = hls_step (newPTS - segLastPTS s);
             jump = (step < 0 \<or> step > maxCadence \<or>
                     (hlsStep s > 0 \<and> step > 2 * hlsStep s + hlsTargetMS s * pcrHz))
         in if jump then
              (let dur = (segSpan s + hlsStep s) sdiv pcrHz;
                   dur = (if dur \<le> 0 then hlsTargetMS s else dur)
               in (closeSegment newID dur s)
                    \<lparr>segDisc := True, segStartID := newID, segLastPTS := newPTS, segSpan := 0\<rparr>)
            else
              (let s = (if step > 0 then s\<lparr>hlsStep := step\<rparr> else s);
                   s = s\<lparr>segLastPTS := newPTS, segSpan := segSpan s + step\<rparr>
               in if segSpan s \<ge> hlsTargetMS s * pcrHz then
                    (closeSegment newID (segSpan s sdiv pcrHz) s)
                      \<lparr>segStartID := newID, segLastPTS := newPTS, segSpan := 0\<rparr>
                  else s)))"

section \<open>Reading packets\<close>

definition packet_pid :: "byte \<Rightarrow> byte \<Rightarrow> int" where
  "packet_pid b1 b2 = push_bit 8 (uint (b1 AND 0x1f)) OR uint b2"

definition readPCR :: "bytes \<Rightarrow> int go" where
  "readPCR pkt = do {
     b6 \<leftarrow> at pkt 6; b7 \<leftarrow> at pkt 7; b8 \<leftarrow> at pkt 8; b9 \<leftarrow> at pkt 9; b10 \<leftarrow> at pkt 10;
     Some (push_bit 25 (uint b6) OR push_bit 17 (uint b7) OR push_bit 9 (uint b8) OR
           push_bit 1 (uint b9) OR drop_bit 7 (uint b10)) }"

function parsePMTPID_loop :: "bytes \<Rightarrow> int \<Rightarrow> int go" where
  "parsePMTPID_loop pkt prog =
     (if prog + 4 \<le> len pkt then do {
        a \<leftarrow> at pkt prog; b \<leftarrow> at pkt (prog + 1);
        c \<leftarrow> at pkt (prog + 2); d \<leftarrow> at pkt (prog + 3);
        if push_bit 8 (uint a) OR uint b \<noteq> 0 then Some (packet_pid c d)
        else parsePMTPID_loop pkt (prog + 4) }
      else Some (-1))"
  by pat_completeness auto
termination
  by (relation "measure (\<lambda>(pkt, i). nat (len pkt - i))") auto

declare parsePMTPID_loop.simps [simp del]

definition parsePMTPID :: "bytes \<Rightarrow> int go" where
  "parsePMTPID pkt = do {
     b3 \<leftarrow> at pkt 3;
     let afc = drop_bit 4 b3 AND 0x3;
     if afc = 2 then Some (-1)
     else do {
       payloadStart \<leftarrow> (if afc = 3 then do { b4 \<leftarrow> at pkt 4; Some (5 + uint b4) } else Some 4);
       if payloadStart \<ge> len pkt then Some (-1)
       else do {
         ptr \<leftarrow> at pkt payloadStart;
         parsePMTPID_loop pkt (payloadStart + 1 + uint ptr + 8) } } }"

definition ring_payloadOffset :: "bytes \<Rightarrow> int go" where
  "ring_payloadOffset pkt = do {
     b3 \<leftarrow> at pkt 3;
     let afc = drop_bit 4 b3 AND 0x3;
     if afc = 2 then Some (-1)
     else if afc = 3 then do { b4 \<leftarrow> at pkt 4; Some (5 + uint b4) }
     else Some 4 }"

definition parsePTS :: "bytes \<Rightarrow> int option go" where
  "parsePTS pkt = do {
     ps \<leftarrow> ring_payloadOffset pkt;
     if ps < 0 \<or> ps + 14 > len pkt then Some None
     else do {
       a \<leftarrow> at pkt ps; b \<leftarrow> at pkt (ps + 1); c \<leftarrow> at pkt (ps + 2);
       if a \<noteq> 0 \<or> b \<noteq> 0 \<or> c \<noteq> 1 then Some None
       else do {
         f \<leftarrow> at pkt (ps + 7);
         if f AND 0x80 = 0 then Some None
         else do {
           let p = ps + 9;
           p0 \<leftarrow> at pkt p; p1 \<leftarrow> at pkt (p + 1); p2 \<leftarrow> at pkt (p + 2);
           p3 \<leftarrow> at pkt (p + 3); p4 \<leftarrow> at pkt (p + 4);
           Some (Some (push_bit 30 (uint (drop_bit 1 p0 AND 0x07)) OR
                       push_bit 22 (uint p1) OR
                       push_bit 15 (uint (drop_bit 1 p2 AND 0x7f)) OR
                       push_bit 7 (uint p3) OR
                       uint (drop_bit 1 p4 AND 0x7f))) } } } }"

definition isAudioStreamType :: "byte \<Rightarrow> bool" where
  "isAudioStreamType t \<longleftrightarrow> t \<in> {0x03, 0x04, 0x0f, 0x11, 0x81, 0x87}"

definition isVideoStreamType :: "byte \<Rightarrow> bool" where
  "isVideoStreamType t \<longleftrightarrow> t \<in> {0x01, 0x02, 0x10, 0x1b, 0x24, 0xea}"

section \<open>Update, one packet\<close>

definition count_packet :: "int \<Rightarrow> bool \<Rightarrow> State \<Rightarrow> State" where
  "count_packet pid pusi s =
     (if \<not> pusi then s
      else if pid = audioPID s then
        (if audioPID s \<ge> 0 then s\<lparr>audioPkts := audioPkts s + 1\<rparr> else s)
      else if pid = videoPID s then
        (if videoPID s \<ge> 0 then s\<lparr>videoFrames := videoFrames s + 1\<rparr> else s)
      else s)"

text \<open>The adaptation field: the stream clock, and the random-access indicator.\<close>

definition read_adaptation :: "bytes \<Rightarrow> int \<Rightarrow> State \<Rightarrow> (bool \<times> State) go" where
  "read_adaptation pkt pid s = do {
     b3 \<leftarrow> at pkt 3;
     let afc = drop_bit 4 b3 AND 0x3;
     b4 \<leftarrow> at pkt 4;
     if (afc = 2 \<or> afc = 3) \<and> b4 > 0 then do {
       flags \<leftarrow> at pkt 5;
       s \<leftarrow> (if flags AND 0x10 \<noteq> 0 \<and> b4 \<ge> 7 \<and> (pid = pcrPID s \<or> \<not> pcrOnPID s) then do {
              pcr \<leftarrow> readPCR pkt;
              Some (s\<lparr>pcrOnPID := (pcrOnPID s \<or> pid = pcrPID s), lastPCR := pcr\<rparr>) }
            else Some s);
       Some (flags AND 0x40 \<noteq> 0, s) }
     else Some (False, s) }"

text \<open>The first video and the first audio stream a table lists: the loop over its entries.\<close>

fun pick_streams :: "ES list \<Rightarrow> int \<Rightarrow> int \<Rightarrow> byte \<Rightarrow> int \<times> int \<times> byte" where
  "pick_streams [] video audio vtype = (video, audio, vtype)"
| "pick_streams (e # es) video audio vtype =
     (let (video, vtype) = (if video < 0 \<and> isVideoStreamType (esType e)
                            then (uint (esPID e), esType e) else (video, vtype));
          audio = (if audio < 0 \<and> isAudioStreamType (esType e) then uint (esPID e) else audio)
      in pick_streams es video audio vtype)"

definition adopt_section :: "bytes \<Rightarrow> State \<Rightarrow> State go" where
  "adopt_section sec s = do {
     (es, ok) \<leftarrow> PMTStreamsSection sec;
     let s = (if ok then
                (let (video, audio, vtype) = pick_streams es (-1) (-1) 0
                 in s\<lparr>videoPID := video, videoType := vtype, audioPID := audio\<rparr>)
              else s);
     m \<leftarrow> ParsePMTSection sec;
     Some (case m of
        None \<Rightarrow> s
      | Some m \<Rightarrow> if uint (PCRPID m) \<noteq> pcrPID s
                  then s\<lparr>pcrPID := uint (PCRPID m), pcrOnPID := False\<rparr> else s) }"

definition stage_pmt :: "bytes \<Rightarrow> bool \<Rightarrow> State \<Rightarrow> State" where
  "stage_pmt pkt pusi s =
     (let pkts = (if pusi then pkt else if pmtPkts s \<noteq> [] then pmtPkts s @ pkt else pmtPkts s);
          pkts = (if len pkts > maxPMTPackets * PacketSize then [] else pkts)
      in s\<lparr>pmtPkts := pkts\<rparr>)"

definition read_tables :: "bytes \<Rightarrow> int \<Rightarrow> bool \<Rightarrow> State \<Rightarrow> State go" where
  "read_tables pkt pid pusi s =
     (if pid = 0 \<and> pusi then do {
        p \<leftarrow> parsePMTPID pkt;
        let s = s\<lparr>lastPAT := pkt\<rparr>;
        Some (if p \<ge> 0 then s\<lparr>pmtPID := p\<rparr> else s) }
      else if pmtPID s \<ge> 0 \<and> pid = pmtPID s then do {
        let s = stage_pmt pkt pusi s;
        (a, sec) \<leftarrow> asm_Feed (pmtAsm s) pkt;
        let s = s\<lparr>pmtAsm := a\<rparr>;
        (case sec of
           None \<Rightarrow> Some s
         | Some sec \<Rightarrow> adopt_section sec (s\<lparr>lastPMT := pmtPkts s, pmtPkts := []\<rparr>)) }
      else Some s)"

text \<open>Storing the packet: a keyframe opens a block, any other packet extends the open one, and a
  provisional or full block is followed by a fresh one.\<close>

definition open_keyframe ::
  "(nat \<Rightarrow> nat \<Rightarrow> nat) \<Rightarrow> bytes \<Rightarrow> int \<Rightarrow> bool \<Rightarrow> State \<Rightarrow> State go" where
  "open_keyframe G pkt pid onVideo s = do {
     let i = nextGOPID s;
     let (t, s) = ringClock (s\<lparr>nextGOPID := i + 1\<rparr>);
     (pts, s) \<leftarrow> (if videoPID s \<ge> 0 \<and> pid = videoPID s then do {
                    p \<leftarrow> parsePTS pkt;
                    Some (case p of None \<Rightarrow> (-1, s) | Some p \<Rightarrow> (p, hlsOnKeyframe i p s)) }
                  else Some (-1, s));
     prune (open_block G i pkt t pts onVideo s) }"

definition open_cut :: "(nat \<Rightarrow> nat \<Rightarrow> nat) \<Rightarrow> bytes \<Rightarrow> State \<Rightarrow> State go" where
  "open_cut G pkt s = do {
     let s = (if gops s \<noteq> [] then s\<lparr>noKeyframeCuts := noKeyframeCuts s + 1\<rparr> else s);
     let i = nextGOPID s;
     let (t, s) = ringClock (s\<lparr>clockStep := 0, nextGOPID := i + 1\<rparr>);
     prune (open_block G i pkt t (-1) False s) }"

definition store_packet ::
  "(nat \<Rightarrow> nat \<Rightarrow> nat) \<Rightarrow> bytes \<Rightarrow> int \<Rightarrow> bool \<Rightarrow> bool \<Rightarrow> State \<Rightarrow> State go" where
  "store_packet G pkt pid onVideo keyframe s =
     (if keyframe then open_keyframe G pkt pid onVideo s
      else if gops s \<noteq> [] \<and> len (gdata (last (gops s))) + ring_PacketSize \<le> maxGOP s
      then Some (extend_block G pkt s)
      else open_cut G pkt s)"

definition update_packet :: "(nat \<Rightarrow> nat \<Rightarrow> nat) \<Rightarrow> bytes \<Rightarrow> State \<Rightarrow> State go" where
  "update_packet G pkt s = do {
     b0 \<leftarrow> at pkt 0;
     if b0 \<noteq> 0x47 then Some s
     else do {
       b1 \<leftarrow> at pkt 1; b2 \<leftarrow> at pkt 2;
       let pid = packet_pid b1 b2;
       let pusi = (b1 AND 0x40 \<noteq> 0);
       let s = count_packet pid pusi s;
       (rap, s) \<leftarrow> read_adaptation pkt pid s;
       let onVideo = (videoPID s \<ge> 0 \<and> pid = videoPID s);
       rap \<leftarrow> (if \<not> rap \<and> pusi \<and> onVideo then StartsKeyframe pkt (videoType s) else Some rap);
       let keyframe = (rap \<and> (onVideo \<or> videoPID s < 0));
       s \<leftarrow> read_tables pkt pid pusi s;
       store_packet G pkt pid onVideo keyframe s } }"

text \<open>The chunk's whole packets; a trailing partial packet is not looked at.\<close>

function packets_of :: "bytes \<Rightarrow> bytes list" where
  "packets_of chunk = (if length chunk < 188 then [] else take 188 chunk # packets_of (drop 188 chunk))"
  by pat_completeness auto
termination
  by (relation "measure length") auto

declare packets_of.simps [simp del]

definition Update :: "(nat \<Rightarrow> nat \<Rightarrow> nat) \<Rightarrow> bytes \<Rightarrow> State \<Rightarrow> State go" where
  "Update G chunk s = run (update_packet G) (packets_of chunk) s"

end
