(* ===== verification/GoFormat.thy ===== *)
theory GoFormat
  imports Prelude
begin

text \<open>
  Decimal rendering as Go's \<open>fmt\<close> does it for \<open>%d\<close>, and the line break the playlists are built with.
\<close>

definition digit :: "nat \<Rightarrow> char" where
  "digit n = char_of (48 + n)"

fun show_nat :: "nat \<Rightarrow> string" where
  "show_nat n = (if n < 10 then [digit n] else show_nat (n div 10) @ [digit (n mod 10)])"

declare show_nat.simps [simp del]

definition show_int :: "int \<Rightarrow> string" where
  "show_int i = (if i < 0 then CHR ''-'' # show_nat (nat (- i)) else show_nat (nat i))"

definition newline :: string where "newline = [char_of (10 :: nat)]"

end
