(* ===== verification/RingRead.thy ===== *)
theory RingRead
  imports RingUpdate GoFormat
begin

text \<open>
  The viewer's side of \<^verbatim>\<open>internal/tsjoin/tsjoin.go\<close>: where a join starts, reading the ring forward by
  cursor, join snapshots, and the HLS segments and playlist cut from the same blocks.

  A part is a slice of a block's array: \<open>parr\<close> and \<open>poff\<close> say where it lies, \<open>pdata\<close> what it holds
  when it is handed out.
\<close>

section \<open>Where a join starts\<close>

definition snapshotStart :: "State \<Rightarrow> int \<Rightarrow> int" where
  "snapshotStart s start =
     (if start < 0 \<or> start \<ge> len (gops s) then start
      else case find (\<lambda>i. gvideo (gops s ! nat i)) ([start..len (gops s) - 1] @ rev [0..start - 1]) of
             Some i \<Rightarrow> i
           | None \<Rightarrow> start)"

text \<open>Walking back from block \<open>i\<close> while the block before it is within \<open>req\<close> ticks of the newest.\<close>

fun walk_back :: "gop list \<Rightarrow> int \<Rightarrow> int \<Rightarrow> nat \<Rightarrow> nat" where
  "walk_back gs newest req 0 = 0"
| "walk_back gs newest req (Suc i) =
     (let p = gt (gs ! i) in if p < 0 \<or> newest - p > req then Suc i else walk_back gs newest req i)"

definition joinIndex :: "State \<Rightarrow> int \<Rightarrow> int" where
  "joinIndex s reqMS =
     (let start = max 0 (len (gops s) - 1);
          start = (if reqMS > 0 \<and> gops s \<noteq> [] then
                     (let newest = gt (last (gops s)) in
                      if newest \<ge> 0
                      then int (walk_back (gops s) newest (reqMS * pcrHz) (length (gops s) - 1))
                      else start)
                   else start)
      in snapshotStart s start)"

datatype Cursor = Cursor (cGOP: int) (cOff: int)

text \<open>Cursors are ordered by block, then by offset.\<close>

instantiation Cursor :: linorder
begin

definition less_eq_Cursor :: "Cursor \<Rightarrow> Cursor \<Rightarrow> bool" where
  "less_eq_Cursor a b \<longleftrightarrow> cGOP a < cGOP b \<or> cGOP a = cGOP b \<and> cOff a \<le> cOff b"

definition less_Cursor :: "Cursor \<Rightarrow> Cursor \<Rightarrow> bool" where
  "less_Cursor a b \<longleftrightarrow> cGOP a < cGOP b \<or> cGOP a = cGOP b \<and> cOff a < cOff b"

instance
  by standard (auto simp: less_eq_Cursor_def less_Cursor_def intro: Cursor.expand)

end

definition ring_head :: "State \<Rightarrow> bytes" where
  "ring_head s = lastPAT s @ lastPMT s"

definition JoinStart :: "State \<Rightarrow> int \<Rightarrow> (bytes \<times> Cursor) go" where
  "JoinStart s reqMS =
     (if gops s = [] then Some (ring_head s, Cursor (nextGOPID s) 0)
      else do {
        let i = joinIndex s reqMS;
        let i = (if i = 0 \<and> len (gops s) > 1 then snapshotStart s 1 else i);
        g \<leftarrow> at (gops s) i;
        Some (ring_head s, Cursor (gid g) 0) })"

section \<open>Reading forward\<close>

record part =
  parr :: nat
  poff :: int
  pdata :: bytes

text \<open>What one pass of the read loop leaves behind: the run's slices, the cursor behind them, the first
  and the last block they point into (\<open>-1\<close> for none), and whether the run reached the live edge.\<close>

type_synonym run_out = "part list \<times> Cursor \<times> int \<times> int \<times> bool"

fun read_loop ::
  "Cursor \<Rightarrow> int \<Rightarrow> gop list \<Rightarrow> int \<Rightarrow> part list \<Rightarrow> Cursor \<Rightarrow> int \<Rightarrow> int \<Rightarrow> run_out go" where
  "read_loop c mx [] n parts next lo hi = Some (parts, next, lo, hi, True)"
| "read_loop c mx (g # gs) n parts next lo hi =
     (let off = (if gid g = cGOP c then cOff c else 0);
          off = (if off > len (gdata g) then len (gdata g) else off)
      in do {
        rem \<leftarrow> slice_from (gdata g) off;
        if n + len rem > mx then do {
          let take_n = (mx - n) sdiv PacketSize * PacketSize;
          if take_n > 0 then do {
            d \<leftarrow> slice_to rem take_n;
            Some (parts @ [\<lparr>parr = garr g, poff = off, pdata = d\<rparr>], Cursor (gid g) (off + take_n),
                  (if lo < 0 then gid g else lo), gid g, False) }
          else Some (parts, Cursor (gid g) (off + take_n), lo, hi, False) }
        else if len rem > 0 then
          read_loop c mx gs (n + len rem) (parts @ [\<lparr>parr = garr g, poff = off, pdata = rem\<rparr>])
            (Cursor (gid g) (len (gdata g))) (if lo < 0 then gid g else lo) (gid g)
        else read_loop c mx gs n parts (Cursor (gid g) (len (gdata g))) lo hi })"

record read_result =
  rparts :: "part list"
  rnext :: Cursor
  atEnd :: bool
  behind :: bool
  rpin :: Pin

definition read_run :: "State \<Rightarrow> Cursor \<Rightarrow> int \<Rightarrow> (read_result \<times> State) go" where
  "read_run s c mx =
     (let i = cGOP c - gid (hd (gops s)) in
      if i \<ge> len (gops s) then
        Some (\<lparr>rparts = [], rnext = c, atEnd = True, behind = False, rpin = no_pin\<rparr>, s)
      else do {
        (parts, next, lo, hi, edge) \<leftarrow>
          read_loop c (if mx < PacketSize then PacketSize else mx) (drop (nat i) (gops s)) 0 [] c (-1) (-1);
        let (p, s) = (if parts \<noteq> [] then pin lo hi s else (no_pin, s));
        Some (\<lparr>rparts = parts, rnext = next, atEnd = edge, behind = False, rpin = p\<rparr>, s) })"

definition ReadFrom :: "State \<Rightarrow> Cursor \<Rightarrow> int \<Rightarrow> (read_result \<times> State) go" where
  "ReadFrom s c mx =
     (if gops s = [] then
        Some (\<lparr>rparts = [], rnext = c, atEnd = True, behind = False, rpin = no_pin\<rparr>, s)
      else
        (let first = gid (hd (gops s)) in
         if cGOP c < first then
           (if cGOP c \<noteq> prunedID s \<or> first \<noteq> prunedID s + 1 \<or> cOff c < prunedLen s then
              Some (\<lparr>rparts = [], rnext = c, atEnd = False, behind = True, rpin = no_pin\<rparr>, s)
            else read_run s (Cursor first 0) mx)
         else read_run s c mx))"

section \<open>Snapshots\<close>

definition whole_part :: "gop \<Rightarrow> part" where
  "whole_part g = \<lparr>parr = garr g, poff = 0, pdata = gdata g\<rparr>"

definition part_bytes :: "part list \<Rightarrow> bytes" where
  "part_bytes ps = concat (map pdata ps)"

definition SnapshotPin :: "State \<Rightarrow> int \<Rightarrow> (bytes \<times> part list \<times> Pin \<times> State) go" where
  "SnapshotPin s reqMS = do {
     let start = joinIndex s reqMS;
     gs \<leftarrow> slice_from (gops s) start;
     let parts = map whole_part gs;
     if parts = [] then Some (ring_head s, parts, no_pin, s)
     else do {
       g \<leftarrow> at (gops s) start;
       let (p, s') = pin (gid g) (gid (last (gops s))) s;
       Some (ring_head s, parts, p, s') } }"

definition Snapshot :: "State \<Rightarrow> int \<Rightarrow> (bytes \<times> State) go" where
  "Snapshot s reqMS = do {
     (head, parts, p, s) \<leftarrow> SnapshotPin s reqMS;
     Some (head @ part_bytes parts, Unpin p s) }"

section \<open>HLS segments\<close>

definition HLSSegmentPin :: "State \<Rightarrow> int \<Rightarrow> (bytes \<times> part list \<times> Pin) option \<times> State" where
  "HLSSegmentPin s n =
     (case find (\<lambda>sg. seq sg = n) (segs s) of
        None \<Rightarrow> (None, s)
      | Some sg \<Rightarrow>
          if gops s = [] \<or> gid (hd (gops s)) > startID sg then (None, s)
          else
            (let gs = filter (\<lambda>g. gid g \<ge> startID sg \<and> gid g \<le> endID sg) (gops s) in
             if gs = [] then (None, s)
             else (let (p, s') = pin (gid (hd gs)) (gid (last gs)) s
                   in (Some (ring_head s, map whole_part gs, p), s'))))"

definition HLSSegment :: "State \<Rightarrow> int \<Rightarrow> bytes option \<times> State" where
  "HLSSegment s n =
     (case HLSSegmentPin s n of
        (None, s) \<Rightarrow> (None, s)
      | (Some (head, parts, p), s) \<Rightarrow> (Some (head @ part_bytes parts), Unpin p s))"

section \<open>The playlist\<close>

text \<open>Decimal rendering: \<open>%.3f\<close> of a duration in milliseconds divided by 1000.  The
  durations are far below \<open>2 ^ 53 / 1000\<close>, where that quotient printed to three places is the exact
  decimal, and its ceiling the exact ceiling.\<close>

definition show_ms :: "int \<Rightarrow> string" where
  "show_ms d =
     (let a = nat \<bar>d\<bar> in
      (if d < 0 then ''-'' else '''') @ show_nat (a div 1000) @ ''.'' @
      [digit (a mod 1000 div 100), digit (a mod 100 div 10), digit (a mod 10)])"

definition ceil_sec :: "int \<Rightarrow> int" where
  "ceil_sec ms = - ((- ms) div 1000)"

definition hls_avail :: "State \<Rightarrow> hlsSeg list" where
  "hls_avail s = (if length (segs s) > 1 then tl (segs s) else segs s)"

text \<open>The segments listed.\<close>

definition hls_listed :: "State \<Rightarrow> hlsSeg list" where
  "hls_listed s =
     (let avail = hls_avail s;
          start = (if hlsWindow s > 0 \<and> len avail > hlsWindow s then len avail - hlsWindow s else 0)
      in drop (nat start) avail)"

definition seg_lines :: "hlsSeg \<Rightarrow> string" where
  "seg_lines sg =
     (if disc sg then ''#EXT-X-DISCONTINUITY'' @ newline else '''') @
     ''#EXTINF:'' @ show_ms (durMS sg) @ '','' @ newline @ show_int (seq sg) @ ''.ts'' @ newline"

text \<open>The target duration published with this list: it only rises.\<close>

definition target_duration :: "State \<Rightarrow> int" where
  "target_duration s =
     (let maxDur = fold (\<lambda>sg m. if durMS sg > m then durMS sg else m) (hls_listed s) 0
      in if ceil_sec maxDur > hlsMaxDur s then ceil_sec maxDur else hlsMaxDur s)"

definition render :: "State \<Rightarrow> string" where
  "render s =
     (let win = hls_listed s;
          discSeq = discDropped s + len (filter disc (take (length (segs s) - length win) (segs s)))
      in ''#EXTM3U'' @ newline @ ''#EXT-X-VERSION:3'' @ newline @
         ''#EXT-X-TARGETDURATION:'' @ show_int (target_duration s) @ newline @
         ''#EXT-X-MEDIA-SEQUENCE:'' @ show_int (seq (hd win)) @ newline @
         (if discSeq > 0
          then ''#EXT-X-DISCONTINUITY-SEQUENCE:'' @ show_int discSeq @ newline else []) @
         concat (map seg_lines win))"

definition HLSPlaylist :: "State \<Rightarrow> string \<times> State" where
  "HLSPlaylist s =
     (if segs s = [] then ([], s)
      else if plValid s then (plCache s, s)
      else (render s, s\<lparr>hlsMaxDur := target_duration s, plCache := render s, plValid := True\<rparr>))"

end
