(* ===== verification/RingLog.thy ===== *)
theory RingLog
  imports Prelude
begin

text \<open>
  The abstract specification of a ring a viewer follows by cursor: a log of numbered blocks that
  grows at its end and is forgotten from its front.  \<open>log_step out L L'\<close> is one thing the ring may do,
  \<open>out\<close> the bytes it publishes by doing it.  The locale \<open>followed_log\<close> is the contract between such a
  ring and a follower: whatever the ring does between two reads, a follower that is not told it
  fell behind receives every published byte exactly once and in order.
\<close>

section \<open>The log\<close>

record block_log =
  blocks :: "(int \<times> bytes) list"
  gone :: int
  gone_len :: int
  next_id :: int

definition log_ok :: "block_log \<Rightarrow> bool" where
  "log_ok L \<longleftrightarrow> -1 \<le> gone L \<and> map fst (blocks L) = [gone L + 1 .. next_id L - 1] \<and>
     gone L < next_id L \<and>
     (\<forall>b \<in> set (blocks L). snd b \<noteq> [] \<and> 188 dvd length (snd b))"

definition log_open :: "bytes \<Rightarrow> block_log \<Rightarrow> block_log" where
  "log_open p L = L\<lparr>blocks := blocks L @ [(next_id L, p)], next_id := next_id L + 1\<rparr>"

definition log_extend :: "bytes \<Rightarrow> block_log \<Rightarrow> block_log" where
  "log_extend p L = L\<lparr>blocks := butlast (blocks L) @ [(fst (last (blocks L)), snd (last (blocks L)) @ p)]\<rparr>"

definition log_drop :: "nat \<Rightarrow> block_log \<Rightarrow> block_log" where
  "log_drop n L =
     (if n = 0 \<or> blocks L = [] then L
      else let b = last (take n (blocks L))
           in L\<lparr>blocks := drop n (blocks L), gone := fst b, gone_len := len (snd b)\<rparr>)"

inductive log_step :: "bytes \<Rightarrow> block_log \<Rightarrow> block_log \<Rightarrow> bool" where
  stay: "log_step [] L L"
| opens: "p \<noteq> [] \<Longrightarrow> 188 dvd length p \<Longrightarrow> log_step p L (log_open p L)"
| extends: "blocks L \<noteq> [] \<Longrightarrow> p \<noteq> [] \<Longrightarrow> 188 dvd length p \<Longrightarrow> log_step p L (log_extend p L)"
| drops: "log_step [] L (log_drop n L)"
| both: "log_step a L L1 \<Longrightarrow> log_step b L1 L2 \<Longrightarrow> log_step (a @ b) L L2"

lemma log_step_append_nil: "log_step a L L1 \<Longrightarrow> log_step [] L1 L2 \<Longrightarrow> log_step a L L2"
  using log_step.both [of a L L1 "[]" L2] by simp

lemma log_step_nil_append: "log_step [] L L1 \<Longrightarrow> log_step b L1 L2 \<Longrightarrow> log_step b L L2"
  using log_step.both [of "[]" L L1 b L2] by simp

section \<open>A cursor into the log\<close>

text \<open>A position is the block and the bytes of it already taken.  \<open>at_or_after\<close>: it names a block the log
  has or had, or the one about to open.  \<open>holds\<close>: everything behind it is still in the log.\<close>

definition block_tail :: "int \<Rightarrow> int \<Rightarrow> int \<times> bytes \<Rightarrow> bytes" where
  "block_tail i off b =
     (if fst b < i then [] else if fst b = i then drop (nat off) (snd b) else snd b)"

definition log_tail :: "block_log \<Rightarrow> int \<Rightarrow> int \<Rightarrow> bytes" where
  "log_tail L i off = concat (map (block_tail i off) (blocks L))"

definition placed :: "block_log \<Rightarrow> int \<Rightarrow> int \<Rightarrow> bool" where
  "placed L i off \<longleftrightarrow> 0 \<le> off \<and>
     (i < next_id L \<or> blocks L = [] \<and> i = next_id L \<and> off = 0) \<and>
     (\<forall>b \<in> set (blocks L). fst b = i \<longrightarrow> off \<le> len (snd b))"

definition holds :: "block_log \<Rightarrow> int \<Rightarrow> int \<Rightarrow> bool" where
  "holds L i off \<longleftrightarrow> gone L < i \<or> i = gone L \<and> gone_len L \<le> off"

lemma log_ok_ids: "log_ok L \<Longrightarrow> b \<in> set (blocks L) \<Longrightarrow> gone L < fst b \<and> fst b < next_id L"
proof -
  assume "log_ok L" "b \<in> set (blocks L)"
  then have "fst b \<in> set [gone L + 1 .. next_id L - 1]" unfolding log_ok_def by (metis in_set_zipE nth_mem set_map image_eqI)
  then show ?thesis by auto
qed

lemma last_upto: "i \<le> j \<Longrightarrow> last [i..j] = j"
  by (simp add: upto_rec2)

lemma log_ok_last:
  assumes "log_ok L" "blocks L \<noteq> []"
  shows "fst (last (blocks L)) = next_id L - 1"
proof -
  have m: "map fst (blocks L) = [gone L + 1 .. next_id L - 1]" using assms(1) by (simp add: log_ok_def)
  have "gone L + 1 \<le> next_id L - 1"
  proof (rule ccontr)
    assume "\<not> ?thesis"
    then have "map fst (blocks L) = []" using m by simp
    then show False using assms(2) by simp
  qed
  moreover have "fst (last (blocks L)) = last (map fst (blocks L))" using assms(2) by (simp add: last_map)
  ultimately show ?thesis using m last_upto by metis
qed

lemma drop_upto: "drop n [i..j] = [i + int n..j]"
proof (induction n arbitrary: i)
  case (Suc n)
  show ?case
  proof (cases "i \<le> j")
    case True
    then have "drop (Suc n) [i..j] = drop n [i + 1..j]" by (simp add: upto_rec1)
    then show ?thesis using Suc by (simp add: algebra_simps)
  qed simp
qed simp

lemma log_ok_step: "log_step out L L' \<Longrightarrow> log_ok L \<Longrightarrow> log_ok L'"
proof (induction rule: log_step.induct)
  case (opens p L)
  then show ?case by (auto simp: log_ok_def log_open_def upto_rec2)
next
  case (extends L p)
  let ?b = "last (blocks L)"
  have "blocks L = butlast (blocks L) @ [?b]" using extends.hyps(1) by simp
  then have "map fst (blocks L) = map fst (butlast (blocks L)) @ [fst ?b]"
    by (metis list.simps(8,9) map_append)
  moreover have "\<forall>b \<in> set (butlast (blocks L)). snd b \<noteq> [] \<and> 188 dvd length (snd b)"
    using extends.prems by (auto simp: log_ok_def dest: in_set_butlastD)
  moreover have "snd ?b \<noteq> [] \<and> 188 dvd length (snd ?b)"
    using extends by (simp add: log_ok_def)
  ultimately show ?case using extends by (auto simp: log_ok_def log_extend_def)
next
  case (drops L n)
  show ?case
  proof (cases "n = 0 \<or> blocks L = []")
    case False
    let ?k = "min n (length (blocks L))"
    have k: "0 < ?k" "take n (blocks L) = take ?k (blocks L)" "drop n (blocks L) = drop ?k (blocks L)"
      using False by (auto simp: min_def)
    have m: "map fst (blocks L) = [gone L + 1 .. next_id L - 1]" using drops by (simp add: log_ok_def)
    have "gone L < next_id L" using drops by (simp add: log_ok_def)
    moreover have "length (blocks L) = nat (next_id L - 1 - gone L)" using arg_cong [OF m, of length] by simp
    ultimately have l: "int (length (blocks L)) = next_id L - 1 - gone L" by simp
    have "fst (last (take ?k (blocks L))) = fst (blocks L ! (?k - 1))"
      using k by (metis False last_conv_nth length_take min.commute min.idem not_gr0 nth_take
          take_eq_Nil diff_less zero_less_one length_greater_0_conv min_less_iff_conj)
    also have "\<dots> = map fst (blocks L) ! (?k - 1)" using k(1) by (auto simp: min_def)
    also have "\<dots> = gone L + int ?k"
      unfolding m using k(1) l by (subst nth_upto) (auto simp: min_def)
    finally have g: "fst (last (take n (blocks L))) = gone L + int ?k" using k(2) by metis
    have "map fst (drop n (blocks L)) = [gone L + 1 + int ?k .. next_id L - 1]"
      using k(3) m by (metis drop_map drop_upto)
    moreover have "int ?k \<le> int (length (blocks L))" by simp
    then have "gone L + int ?k < next_id L" using l by linarith
    moreover have "gone L + 1 + int ?k = gone L + int ?k + 1" by simp
    moreover have "\<forall>b \<in> set (drop n (blocks L)). snd b \<noteq> [] \<and> 188 dvd length (snd b)"
      using drops by (auto simp: log_ok_def dest: in_set_dropD)
    moreover have "-1 \<le> gone L" using drops by (simp add: log_ok_def)
    ultimately show ?thesis using False g by (simp add: log_drop_def Let_def log_ok_def)
  qed (use drops in \<open>auto simp: log_drop_def\<close>)
qed blast+

lemma log_tail_drop:
  assumes "log_ok L" "holds (log_drop n L) i off"
  shows "holds L i off \<and> log_tail (log_drop n L) i off = log_tail L i off"
proof (cases "n = 0 \<or> blocks L = []")
  case True
  with assms show ?thesis by (auto simp: log_drop_def)
next
  case False
  let ?p = "take n (blocks L)"
  let ?b = "last ?p"
  have p: "?p \<noteq> []" using False by simp
  have bin: "?b \<in> set (blocks L)" using p by (metis last_in_set in_set_takeD)
  have h: "fst ?b < i \<or> i = fst ?b \<and> len (snd ?b) \<le> off"
    using assms(2) False by (simp add: log_drop_def Let_def holds_def)
  have "block_tail i off b = []" if b: "b \<in> set ?p" for b
  proof -
    have m: "map fst (blocks L) = [gone L + 1 .. next_id L - 1]" using assms(1) by (simp add: log_ok_def)
    have ln: "length (blocks L) = nat (next_id L - 1 - gone L)" using arg_cong [OF m, of length] by simp
    have id: "fst (blocks L ! k) = gone L + 1 + int k" if "k < length (blocks L)" for k
      using that ln arg_cong [OF m, of "\<lambda>x. x ! k"] by (simp add: nth_upto)
    obtain j where j: "j < length ?p" "b = ?p ! j" using b by (metis in_set_conv_nth)
    have lst: "?b = ?p ! (length ?p - 1)" using p by (rule last_conv_nth)
    show ?thesis
    proof (cases "j = length ?p - 1")
      case True
      then have "b = ?b" using j lst by simp
      then show ?thesis using h by (auto simp: block_tail_def len_def)
    next
      case False
      then have lt: "j < length ?p - 1" using j(1) by linarith
      then have "j < length (blocks L)" "length ?p - 1 < length (blocks L)" using j(1) by auto
      note ids = id [OF this(1)] id [OF this(2)]
      moreover have "length ?p - 1 < n" using p by (cases n) auto
      ultimately have "b = blocks L ! j" "?b = blocks L ! (length ?p - 1)"
        using j unfolding lst by (simp_all only: nth_take)
      then have "fst b = gone L + 1 + int j" "fst ?b = gone L + 1 + int (length ?p - 1)"
        using ids by (simp_all only:)
      then have "fst b < fst ?b" using lt by linarith
      then show ?thesis using h by (auto simp: block_tail_def)
    qed
  qed
  then have "concat (map (block_tail i off) ?p) = []" by auto
  moreover have "log_tail L i off = concat (map (block_tail i off) ?p)
      @ concat (map (block_tail i off) (drop n (blocks L)))"
    by (simp add: log_tail_def flip: concat_append map_append)
  ultimately have "log_tail (log_drop n L) i off = log_tail L i off"
    using False by (simp add: log_tail_def log_drop_def Let_def)
  moreover have "gone L < fst ?b" using log_ok_ids [OF assms(1) bin] by simp
  ultimately show ?thesis using h by (auto simp: holds_def)
qed

lemma log_tail_step:
  "log_step out L L' \<Longrightarrow> log_ok L \<Longrightarrow> placed L i off \<Longrightarrow>
   placed L' i off \<and> (holds L' i off \<longrightarrow> holds L i off \<and> log_tail L' i off = log_tail L i off @ out)"
proof (induction rule: log_step.induct)
  case (stay L)
  then show ?case by simp
next
  case (opens p L)
  have "block_tail i off (next_id L, p) = p"
    using opens by (auto simp: placed_def block_tail_def)
  moreover have "\<forall>b \<in> set (blocks L). fst b < next_id L" using log_ok_ids [OF opens(3)] by blast
  ultimately show ?case using opens by (auto simp: log_open_def holds_def log_tail_def placed_def)
next
  case (extends L p)
  let ?b = "last (blocks L)"
  have sp: "blocks L = butlast (blocks L) @ [?b]" using extends.hyps(1) by simp
  have nx: "fst ?b = next_id L - 1" by (rule log_ok_last [OF extends(4,1)])
  have i: "i \<le> fst ?b" and off: "fst ?b = i \<Longrightarrow> off \<le> len (snd ?b)"
    using extends nx by (auto simp: placed_def)
  then have t: "block_tail i off (fst ?b, snd ?b @ p) = block_tail i off ?b @ p"
    using extends by (auto simp: block_tail_def placed_def len_def nat_le_iff)
  have "placed (log_extend p L) i off"
  proof -
    have "off \<le> len (snd ?b) + len p" if "fst ?b = i"
      using off [OF that] by (smt (verit) len_simps(4))
    then show ?thesis using extends by (auto simp: placed_def log_extend_def dest: in_set_butlastD)
  qed
  moreover have "log_tail (log_extend p L) i off = log_tail L i off @ p"
    using t arg_cong [OF sp, of "\<lambda>x. concat (map (block_tail i off) x)"]
    by (simp add: log_tail_def log_extend_def)
  ultimately show ?case by (simp add: holds_def log_extend_def)
next
  case (drops L n)
  have "placed (log_drop n L) i off"
    using drops by (auto simp: placed_def log_drop_def Let_def dest: in_set_dropD)
  then show ?case using log_tail_drop [OF drops(1)] by auto
next
  case (both a L L1 b L2)
  then show ?case using log_ok_step [of a L L1] by auto
qed

section \<open>The contract with a follower\<close>

text \<open>
  \<open>step e s\<close> is anything that may happen to the ring between two reads; \<open>out e s\<close> is what it publishes.
  \<open>read s c m\<close> is the follower's own read: the bytes it gets, and the cursor and state behind them, or
  \<open>None\<close> where it is told that it fell behind.
\<close>

fun follow_run ::
  "('e \<Rightarrow> 's \<Rightarrow> 's go) \<Rightarrow> ('e \<Rightarrow> 's \<Rightarrow> bytes) \<Rightarrow>
   ('s \<Rightarrow> 'c \<Rightarrow> int \<Rightarrow> ((bytes \<times> 'c) option \<times> 's) go) \<Rightarrow> ('e + int) list \<Rightarrow> 's \<Rightarrow> 'c \<Rightarrow>
   (bytes \<times> bytes \<times> 'c option \<times> 's) go" where
  "follow_run step out read [] s c = Some ([], [], Some c, s)"
| "follow_run step out read (Inl e # es) s c = do {
     s' \<leftarrow> step e s;
     (got, pub, c', s'') \<leftarrow> follow_run step out read es s' c;
     Some (got, out e s @ pub, c', s'') }"
| "follow_run step out read (Inr m # es) s c = do {
     (r, s') \<leftarrow> read s c m;
     (case r of
        None \<Rightarrow> Some ([], [], None, s')
      | Some (d, c') \<Rightarrow> do {
          (got, pub, c'', s'') \<leftarrow> follow_run step out read es s' c';
          Some (d @ got, pub, c'', s'') }) }"

locale followed_log =
  fixes step :: "'e \<Rightarrow> 's \<Rightarrow> 's go"
    and out :: "'e \<Rightarrow> 's \<Rightarrow> bytes"
    and ok :: "'e \<Rightarrow> bool"
    and inv :: "'s \<Rightarrow> bool"
    and read :: "'s \<Rightarrow> 'c \<Rightarrow> int \<Rightarrow> ((bytes \<times> 'c) option \<times> 's) go"
    and log :: "'s \<Rightarrow> block_log"
    and pos :: "'c \<Rightarrow> int \<times> int"
  assumes step_ok: "inv s \<Longrightarrow> ok e \<Longrightarrow> \<exists>s'. step e s = Some s' \<and> inv s' \<and> log_step (out e s) (log s) (log s')"
    and inv_log: "inv s \<Longrightarrow> log_ok (log s)"
    and read_ok: "inv s \<Longrightarrow> placed (log s) (fst (pos c)) (snd (pos c)) \<Longrightarrow> \<exists>r s'. read s c m = Some (r, s') \<and>
      inv s' \<and> log s' = log s \<and>
      (case r of None \<Rightarrow> \<not> holds (log s) (fst (pos c)) (snd (pos c))
       | Some (d, c') \<Rightarrow>
           (holds (log s) (fst (pos c)) (snd (pos c)) \<longrightarrow>
             log_tail (log s) (fst (pos c)) (snd (pos c)) = d @ log_tail (log s) (fst (pos c')) (snd (pos c'))) \<and>
           (\<not> holds (log s) (fst (pos c)) (snd (pos c)) \<longrightarrow> d = [] \<and> c' = c) \<and>
           placed (log s) (fst (pos c')) (snd (pos c')) \<and>
           (holds (log s) (fst (pos c)) (snd (pos c)) \<longrightarrow> holds (log s) (fst (pos c')) (snd (pos c'))))"
begin

definition tail_of :: "'s \<Rightarrow> 'c \<Rightarrow> bytes" where
  "tail_of s c = log_tail (log s) (fst (pos c)) (snd (pos c))"

definition kept :: "'s \<Rightarrow> 'c \<Rightarrow> bool" where
  "kept s c = holds (log s) (fst (pos c)) (snd (pos c))"

definition at_ring :: "'s \<Rightarrow> 'c \<Rightarrow> bool" where
  "at_ring s c = placed (log s) (fst (pos c)) (snd (pos c))"

lemma step_tail:
  assumes "inv s" "ok e" "at_ring s c"
  shows "\<exists>s'. step e s = Some s' \<and> inv s' \<and> at_ring s' c \<and>
    (kept s' c \<longrightarrow> kept s c \<and> tail_of s' c = tail_of s c @ out e s)"
proof -
  obtain s' where s': "step e s = Some s'" "inv s'" "log_step (out e s) (log s) (log s')"
    using step_ok [OF assms(1,2)] by blast
  with log_tail_step [OF s'(3) inv_log [OF assms(1)]] assms(3) show ?thesis
    by (auto simp: at_ring_def kept_def tail_of_def)
qed

lemma read_tail:
  assumes "inv s" "at_ring s c"
  shows "\<exists>r s'. read s c m = Some (r, s') \<and> inv s' \<and>
    (case r of None \<Rightarrow> \<not> kept s c
     | Some (d, c') \<Rightarrow> at_ring s' c' \<and> (kept s c \<longrightarrow> kept s' c' \<and> tail_of s c = d @ tail_of s' c') \<and>
         (\<not> kept s c \<longrightarrow> d = [] \<and> \<not> kept s' c'))"
  using read_ok [OF assms(1), of c m] assms(2) unfolding at_ring_def kept_def tail_of_def
  by (fastforce split: option.splits)

theorem follower_gap_free:
  assumes "inv s" "at_ring s c" "list_all (case_sum ok (\<lambda>m. True)) es"
  shows "\<exists>got pub c' s'. follow_run step out read es s c = Some (got, pub, c', s') \<and> inv s' \<and>
    (if kept s c then prefix got (tail_of s c @ pub) else got = []) \<and>
    (case c' of None \<Rightarrow> True
     | Some c' \<Rightarrow> at_ring s' c' \<and> (kept s' c' \<longrightarrow> kept s c \<and> got @ tail_of s' c' = tail_of s c @ pub))"
  using assms
proof (induction es arbitrary: s c)
  case Nil
  then show ?case by simp
next
  case (Cons x es)
  show ?case
  proof (cases x)
    case (Inl e)
    then have "ok e" using Cons.prems by simp
    then obtain s1 where s1: "step e s = Some s1" "inv s1" "at_ring s1 c"
      "kept s1 c \<longrightarrow> kept s c \<and> tail_of s1 c = tail_of s c @ out e s"
      using step_tail [of s e c] Cons.prems by blast
    obtain got pub c' s' where r: "follow_run step out read es s1 c = Some (got, pub, c', s')" "inv s'"
      "if kept s1 c then prefix got (tail_of s1 c @ pub) else got = []"
      "case c' of None \<Rightarrow> True | Some c' \<Rightarrow> at_ring s' c' \<and>
         (kept s' c' \<longrightarrow> kept s1 c \<and> got @ tail_of s' c' = tail_of s1 c @ pub)"
      using Cons.IH [of s1 c] s1 Cons.prems by auto
    have "if kept s c then prefix got (tail_of s c @ out e s @ pub) else got = []"
      using r(3) s1(4) by (auto split: if_splits)
    moreover have "case c' of None \<Rightarrow> True | Some c' \<Rightarrow> at_ring s' c' \<and>
         (kept s' c' \<longrightarrow> kept s c \<and> got @ tail_of s' c' = tail_of s c @ out e s @ pub)"
      using r(4) s1(4) by (auto split: option.splits)
    ultimately show ?thesis using Inl s1 r by simp
  next
    case (Inr m)
    obtain r s1 where r: "read s c m = Some (r, s1)" "inv s1"
      "case r of None \<Rightarrow> \<not> kept s c
     | Some (d, c') \<Rightarrow> at_ring s1 c' \<and> (kept s c \<longrightarrow> kept s1 c' \<and> tail_of s c = d @ tail_of s1 c') \<and>
         (\<not> kept s c \<longrightarrow> d = [] \<and> \<not> kept s1 c')"
      using read_tail [of s c m] Cons.prems by blast
    show ?thesis
    proof (cases r)
      case None
      with r Inr show ?thesis by simp
    next
      case (Some dc)
      obtain d c1 where dc: "dc = (d, c1)" by (cases dc)
      obtain got pub c' s' where f: "follow_run step out read es s1 c1 = Some (got, pub, c', s')" "inv s'"
        "if kept s1 c1 then prefix got (tail_of s1 c1 @ pub) else got = []"
        "case c' of None \<Rightarrow> True | Some c' \<Rightarrow> at_ring s' c' \<and>
           (kept s' c' \<longrightarrow> kept s1 c1 \<and> got @ tail_of s' c' = tail_of s1 c1 @ pub)"
        using Cons.IH [of s1 c1] r Some dc Cons.prems by auto
      have "if kept s c then prefix (d @ got) (tail_of s c @ pub) else d @ got = []"
        using f(3) r(3) Some dc by auto
      moreover have "case c' of None \<Rightarrow> True | Some c' \<Rightarrow> at_ring s' c' \<and>
           (kept s' c' \<longrightarrow> kept s c \<and> (d @ got) @ tail_of s' c' = tail_of s c @ pub)"
        using f(4) r(3) Some dc by (auto split: option.splits)
      ultimately show ?thesis using Inr r Some dc f by simp
    qed
  qed
qed

end

end
