(* ===== verification/RingRefine.thy ===== *)
theory RingRefine
  imports RingRead RingLog
begin

text \<open>
  The ring refines the block log of \<^verbatim>\<open>RingLog\<close>: every operation of the code is a step of the log that
  publishes exactly the packets it accepted, and a read by cursor is a read of the log's tail.
\<close>

definition as_log :: "State \<Rightarrow> block_log" where
  "as_log s = \<lparr>blocks = map (\<lambda>g. (gid g, gdata g)) (gops s), gone = prunedID s,
            gone_len = prunedLen s, next_id = nextGOPID s\<rparr>"

text \<open>Code that touches neither blocks nor ids leaves the log as it is.\<close>

lemma as_log_cong:
  "map (\<lambda>g. (gid g, gdata g)) (gops s') = map (\<lambda>g. (gid g, gdata g)) (gops s) \<Longrightarrow>
   prunedID s' = prunedID s \<Longrightarrow> prunedLen s' = prunedLen s \<Longrightarrow> nextGOPID s' = nextGOPID s \<Longrightarrow>
   as_log s' = as_log s"
  by (simp add: as_log_def)

section \<open>Retention\<close>

lemma putBuf_eq: "\<exists>fb. putBuf b s = s\<lparr>freeBufs := fb\<rparr>"
  by (cases "snd b = 0 \<or> len (freeBufs s) \<ge> JoinFreeGOPBufs")
    (auto simp: putBuf_def intro: exI [where x = "freeBufs s"])

lemma release_eq:
  "\<exists>fb. release g s = s\<lparr>prunedID := gid g, prunedLen := len (gdata g), freeBufs := fb\<rparr>"
proof -
  let ?s = "s\<lparr>prunedID := gid g, prunedLen := len (gdata g)\<rparr>"
  obtain fb where "putBuf (garr g, gcap g) ?s = ?s\<lparr>freeBufs := fb\<rparr>" using putBuf_eq by blast
  then show ?thesis
    by (cases "pins ?s (gid g) > 0") (auto simp: release_def Let_def intro: exI [where x = "freeBufs s"])
qed

lemma fold_release_eq:
  "gs \<noteq> [] \<Longrightarrow> \<exists>fb. fold release gs s =
     s\<lparr>prunedID := gid (last gs), prunedLen := len (gdata (last gs)), freeBufs := fb\<rparr>"
proof (induction gs arbitrary: s)
  case (Cons g gs)
  obtain fb where r: "release g s = s\<lparr>prunedID := gid g, prunedLen := len (gdata g), freeBufs := fb\<rparr>"
    using release_eq by blast
  show ?case
  proof (cases "gs = []")
    case True
    with r show ?thesis by auto
  next
    case False
    with Cons.IH [OF False, of "release g s"] r show ?thesis by auto
  qed
qed simp

lemma drop_front_eq:
  "\<exists>i l fb. drop_front n s = s\<lparr>prunedID := i, prunedLen := l, freeBufs := fb, gops := drop n (gops s)\<rparr> \<and>
     (if n = 0 \<or> gops s = [] then i = prunedID s \<and> l = prunedLen s \<and> fb = freeBufs s
      else i = gid (last (take n (gops s))) \<and> l = len (gdata (last (take n (gops s)))))"
proof (cases "n = 0 \<or> gops s = []")
  case True
  then have "drop_front n s = s\<lparr>gops := drop n (gops s)\<rparr>" by (auto simp: drop_front_def)
  with True show ?thesis
    by (intro exI [of _ "prunedID s"] exI [of _ "prunedLen s"] exI [of _ "freeBufs s"]) simp
next
  case False
  then have "take n (gops s) \<noteq> []" by simp
  from fold_release_eq [OF this, of s] False show ?thesis by (auto simp: drop_front_def)
qed

lemma as_log_drop_front: "as_log (drop_front n s) = log_drop n (as_log s)"
proof -
  obtain i l fb where d: "drop_front n s =
      s\<lparr>prunedID := i, prunedLen := l, freeBufs := fb, gops := drop n (gops s)\<rparr>"
    "if n = 0 \<or> gops s = [] then i = prunedID s \<and> l = prunedLen s \<and> fb = freeBufs s
      else i = gid (last (take n (gops s))) \<and> l = len (gdata (last (take n (gops s))))"
    using drop_front_eq by blast
  show ?thesis
  proof (cases "n = 0 \<or> gops s = []")
    case True
    with d show ?thesis by (auto simp: as_log_def log_drop_def)
  next
    case False
    then have "last (map (\<lambda>g. (gid g, gdata g)) (take n (gops s))) =
        (gid (last (take n (gops s))), gdata (last (take n (gops s))))"
      by (subst last_map) auto
    with d False show ?thesis by (simp add: as_log_def log_drop_def Let_def take_map drop_map)
  qed
qed

lemma hlsPrune_as_log [simp]: "as_log (hlsPrune s) = as_log s"
  by (simp add: hlsPrune_def as_log_def Let_def split: list.splits)

lemma prune_step:
  assumes "prune s = Some s'"
  shows "log_step [] (as_log s) (as_log s')"
proof -
  have d: "log_step [] (as_log s) (as_log (drop_front n s))" for n s
    by (simp add: as_log_drop_front log_step.drops)
  have "log_step [] (as_log s) (as_log (prune_age s))" for s
    using d log_step.stay by (simp add: prune_age_def Let_def)
  moreover have "log_step [] (as_log s) (as_log (prune_bytes s))" for s
    using d by (simp add: prune_bytes_def)
  ultimately have "log_step [] (as_log s) (as_log (hlsPrune (prune_bytes (prune_age s))))"
    using log_step_append_nil by fastforce
  then show ?thesis using assms d log_step.stay by (auto simp: prune_def split: if_splits)
qed

lemma prune_safe: "gops s \<noteq> [] \<Longrightarrow> \<exists>s'. prune s = Some s'"
  by (simp add: prune_def)

lemma recompute_step: "recompute s = Some s' \<Longrightarrow> log_step [] (as_log s) (as_log s')"
  using prune_step [of _ s'] log_step.stay
  by (fastforce simp: recompute_def Let_def as_log_def split: if_splits)

lemma recompute_safe: "\<exists>s'. recompute s = Some s'"
  by (simp add: recompute_def Let_def prune_def)

lemma as_log_config [simp]:
  "as_log (s\<lparr>gated := g\<rparr>) = as_log s" "as_log (s\<lparr>idleRatio := r\<rparr>) = as_log s" "as_log (s\<lparr>hlsMaxDur := i\<rparr>) = as_log s"
  "as_log (s\<lparr>prebufMS := p, hlsTargetMS := t, hlsWindow := w, plValid := v\<rparr>) = as_log s"
  by (simp_all add: as_log_def)

lemma SetGated_step: "SetGated g s = Some s' \<Longrightarrow> log_step [] (as_log s) (as_log s')"
  using recompute_step [of "s\<lparr>gated := g\<rparr>" s'] log_step.stay by (auto simp: SetGated_def split: if_splits)

lemma SetIdleRatio_step: "SetIdleRatio r s = Some s' \<Longrightarrow> log_step [] (as_log s) (as_log s')"
  using recompute_step [of "s\<lparr>idleRatio := x\<rparr>" s' for x] log_step.stay
  by (auto simp: SetIdleRatio_def Let_def split: if_splits)

lemma Configure_step: "Configure p t w s = Some s' \<Longrightarrow> log_step [] (as_log s) (as_log s')"
  unfolding Configure_def Let_def by (drule recompute_step) (simp split: if_splits)

lemma as_log_gops_len: "length (blocks (as_log s)) = length (gops s)"
  by (simp add: as_log_def)

lemma Reset_step: "log_step [] (as_log s) (as_log (Reset s))"
proof -
  have "as_log (Reset s) = log_drop (length (gops s)) (as_log s)"
    by (auto simp: Reset_def Let_def as_log_def log_drop_def last_map)
  then show ?thesis by (simp add: log_step.drops)
qed

section \<open>Storing packets\<close>

lemma append_slice_eq:
  "\<exists>b m a. append_slice G b0 n xs s = (b, s\<lparr>mem := m, nextArr := a\<rparr>)"
proof (cases "n + length xs \<le> snd b0")
  case True
  then show ?thesis
    by (intro exI [of _ b0] exI [of _ "(mem s)(fst b0 := write_at (mem s (fst b0)) n xs)"]
        exI [of _ "nextArr s"]) (simp add: append_slice_def Let_def)
next
  case False
  then show ?thesis by (auto simp: append_slice_def Let_def)
qed

lemma getBuf_eq: "\<exists>b fb. getBuf s = (b, s\<lparr>freeBufs := fb\<rparr>)"
proof (cases "freeBufs s = []")
  case True
  then show ?thesis by (intro exI [of _ "(0, 0)"] exI [of _ "freeBufs s"]) (simp add: getBuf_def)
qed (auto simp: getBuf_def)

lemma open_block_eq:
  "\<exists>b fb m a. open_block G i pkt t pts v s = s\<lparr>freeBufs := fb, mem := m, nextArr := a,
     gops := gops s @ [\<lparr>gid = i, gdata = pkt, garr = fst b, gcap = snd b, gt = t, gpts = pts,
                        gvideo = v\<rparr>]\<rparr>"
proof -
  obtain b fb where g: "getBuf s = (b, s\<lparr>freeBufs := fb\<rparr>)" using getBuf_eq by blast
  obtain b' m a where "append_slice G b 0 pkt (s\<lparr>freeBufs := fb\<rparr>) =
      (b', s\<lparr>freeBufs := fb, mem := m, nextArr := a\<rparr>)"
    using append_slice_eq [of G b 0 pkt "s\<lparr>freeBufs := fb\<rparr>"] by blast
  with g show ?thesis unfolding open_block_def Let_def
    by (intro exI [of _ b'] exI [of _ fb] exI [of _ m] exI [of _ a]) simp
qed

lemma extend_block_eq:
  "\<exists>b m a. extend_block G pkt s = s\<lparr>mem := m, nextArr := a,
     gops := butlast (gops s) @ [(last (gops s))\<lparr>gdata := gdata (last (gops s)) @ pkt,
       garr := fst b, gcap := snd b\<rparr>]\<rparr>"
proof -
  let ?g = "last (gops s)"
  obtain b m a where "append_slice G (garr ?g, gcap ?g) (length (gdata ?g)) pkt s =
      (b, s\<lparr>mem := m, nextArr := a\<rparr>)"
    using append_slice_eq by blast
  then show ?thesis by (auto simp: extend_block_def Let_def)
qed

lemma as_log_open_block:
  "as_log (open_block G (nextGOPID s) pkt t pts v (s\<lparr>nextGOPID := nextGOPID s + 1\<rparr>)) = log_open pkt (as_log s)"
  using open_block_eq [of G "nextGOPID s" pkt t pts v "s\<lparr>nextGOPID := nextGOPID s + 1\<rparr>"]
  by (auto simp: as_log_def log_open_def)

lemma as_log_extend_block: "gops s \<noteq> [] \<Longrightarrow> as_log (extend_block G pkt s) = log_extend pkt (as_log s)"
  using extend_block_eq [of G pkt s]
  by (auto simp: as_log_def log_extend_def last_map map_butlast)

lemma ringClock_eq:
  "\<exists>t c k st gs. ringClock s = (t, s\<lparr>clockPCR := c, clockT := k, clockStep := st, gops := gs\<rparr>) \<and>
     map (\<lambda>g. (gid g, gdata g)) gs = map (\<lambda>g. (gid g, gdata g)) (gops s)"
proof -
  have "(\<lambda>g. (gid g, gdata g)) \<circ> backfill = (\<lambda>g. (gid g, gdata g))"
    by (auto simp: backfill_def)
  then have b: "map (\<lambda>g. (gid g, gdata g)) (map backfill (gops s)) = map (\<lambda>g. (gid g, gdata g)) (gops s)"
    by simp
  show ?thesis
  proof (cases "lastPCR s < 0 \<or> \<not> clockPCR s < 0")
    case True
    show ?thesis
    proof (cases "lastPCR s < 0")
      case True
      then show ?thesis
        by (intro exI [of _ "-1"] exI [of _ "clockPCR s"] exI [of _ "clockT s"] exI [of _ "clockStep s"]
            exI [of _ "gops s"]) (simp add: ringClock_def)
    next
      case False
      obtain d st where "clock_step (clockStep s) (hlsTargetMS s) (lastPCR s - clockPCR s) = (d, st)"
        by (metis prod.exhaust)
      with False \<open>lastPCR s < 0 \<or> \<not> clockPCR s < 0\<close> show ?thesis
        by (intro exI [of _ "clockT s + d"] exI [of _ "lastPCR s"] exI [of _ "clockT s + d"] exI [of _ st]
            exI [of _ "gops s"]) (simp add: ringClock_def Let_def)
    qed
  next
    case False
    with b show ?thesis
      by (intro exI [of _ 0] exI [of _ "lastPCR s"] exI [of _ 0] exI [of _ "clockStep s"]
          exI [of _ "map backfill (gops s)"]) (simp add: ringClock_def del: map_map)
  qed
qed

lemma closeSegment_frame [simp]:
  "gops (closeSegment i d s) = gops s"
  "prunedID (closeSegment i d s) = prunedID s"
  "prunedLen (closeSegment i d s) = prunedLen s"
  "nextGOPID (closeSegment i d s) = nextGOPID s"
  "pinned (closeSegment i d s) = pinned s"
  "freeBufs (closeSegment i d s) = freeBufs s"
  "mem (closeSegment i d s) = mem s"
  "nextArr (closeSegment i d s) = nextArr s"
  "lastPCR (closeSegment i d s) = lastPCR s"
  "clockPCR (closeSegment i d s) = clockPCR s"
  "clockT (closeSegment i d s) = clockT s"
  "clockStep (closeSegment i d s) = clockStep s"
  "hlsTargetMS (closeSegment i d s) = hlsTargetMS s"
  "ring90 (closeSegment i d s) = ring90 s"
  "maxRing (closeSegment i d s) = maxRing s"
  "maxGOP (closeSegment i d s) = maxGOP s"
  "videoPID (closeSegment i d s) = videoPID s"
  by (simp_all add: closeSegment_def Let_def)

lemma hlsOnKeyframe_frame [simp]:
  "gops (hlsOnKeyframe i p s) = gops s"
  "prunedID (hlsOnKeyframe i p s) = prunedID s"
  "prunedLen (hlsOnKeyframe i p s) = prunedLen s"
  "nextGOPID (hlsOnKeyframe i p s) = nextGOPID s"
  "pinned (hlsOnKeyframe i p s) = pinned s"
  "freeBufs (hlsOnKeyframe i p s) = freeBufs s"
  "mem (hlsOnKeyframe i p s) = mem s"
  "nextArr (hlsOnKeyframe i p s) = nextArr s"
  "lastPCR (hlsOnKeyframe i p s) = lastPCR s"
  "clockPCR (hlsOnKeyframe i p s) = clockPCR s"
  "clockT (hlsOnKeyframe i p s) = clockT s"
  "clockStep (hlsOnKeyframe i p s) = clockStep s"
  "hlsTargetMS (hlsOnKeyframe i p s) = hlsTargetMS s"
  "ring90 (hlsOnKeyframe i p s) = ring90 s"
  "maxRing (hlsOnKeyframe i p s) = maxRing s"
  "maxGOP (hlsOnKeyframe i p s) = maxGOP s"
  "videoPID (hlsOnKeyframe i p s) = videoPID s"
  by (simp_all add: hlsOnKeyframe_def Let_def)

lemma hlsOnKeyframe_as_log [simp]: "as_log (hlsOnKeyframe i p s) = as_log s"
  by (simp add: as_log_def)

lemma open_keyframe_step:
  assumes "open_keyframe G pkt pid v s = Some s'" "pkt \<noteq> []" "188 dvd length pkt"
  shows "log_step pkt (as_log s) (as_log s')"
proof -
  let ?s = "s\<lparr>nextGOPID := nextGOPID s + 1\<rparr>"
  obtain t c k st gs where r: "ringClock ?s = (t, ?s\<lparr>clockPCR := c, clockT := k, clockStep := st, gops := gs\<rparr>)"
    "map (\<lambda>g. (gid g, gdata g)) gs = map (\<lambda>g. (gid g, gdata g)) (gops ?s)"
    using ringClock_eq by blast
  let ?r = "?s\<lparr>clockPCR := c, clockT := k, clockStep := st, gops := gs\<rparr>"
  obtain p s1 where p: "s1 = ?r \<or> (\<exists>q. s1 = hlsOnKeyframe (nextGOPID s) q ?r)"
    "prune (open_block G (nextGOPID s) pkt t p v s1) = Some s'"
    using assms(1) r
    by (auto simp: open_keyframe_def Let_def split: Option.bind_splits option.splits if_splits)
  then have n: "nextGOPID s1 = nextGOPID s + 1" "as_log s1 = (as_log s)\<lparr>next_id := nextGOPID s + 1\<rparr>"
    using r(2) by (auto simp: as_log_def)
  obtain b fb m a where "open_block G (nextGOPID s) pkt t p v s1 = s1\<lparr>freeBufs := fb, mem := m,
      nextArr := a, gops := gops s1 @ [\<lparr>gid = nextGOPID s, gdata = pkt, garr = fst b, gcap = snd b,
        gt = t, gpts = p, gvideo = v\<rparr>]\<rparr>"
    using open_block_eq by blast
  then have "as_log (open_block G (nextGOPID s) pkt t p v s1) = log_open pkt (as_log s)"
    using n by (simp add: as_log_def log_open_def)
  then show ?thesis
    using log_step_append_nil [OF log_step.opens [OF assms(2,3)]] prune_step [OF p(2)] by metis
qed

lemma open_cut_step:
  assumes "open_cut G pkt s = Some s'" "pkt \<noteq> []" "188 dvd length pkt"
  shows "log_step pkt (as_log s) (as_log s')"
proof -
  obtain c where c: "open_cut G pkt s = (let s1 = s\<lparr>noKeyframeCuts := c\<rparr>;
      (t, s2) = ringClock (s1\<lparr>clockStep := 0, nextGOPID := nextGOPID s + 1\<rparr>) in
      prune (open_block G (nextGOPID s) pkt t (-1) False s2))"
    by (cases "gops s = []") (auto simp: open_cut_def Let_def intro: that [of "noKeyframeCuts s"])
  let ?s = "s\<lparr>noKeyframeCuts := c, clockStep := 0, nextGOPID := nextGOPID s + 1\<rparr>"
  obtain t c k st gs where r: "ringClock ?s = (t, ?s\<lparr>clockPCR := c, clockT := k, clockStep := st, gops := gs\<rparr>)"
    "map (\<lambda>g. (gid g, gdata g)) gs = map (\<lambda>g. (gid g, gdata g)) (gops ?s)"
    using ringClock_eq by blast
  let ?r = "?s\<lparr>clockPCR := c, clockT := k, clockStep := st, gops := gs\<rparr>"
  have p: "prune (open_block G (nextGOPID s) pkt t (-1) False ?r) = Some s'"
    using assms(1) c r by simp
  have n: "as_log ?r = (as_log s)\<lparr>next_id := nextGOPID s + 1\<rparr>" "nextGOPID ?r = nextGOPID s + 1"
    using r(2) by (auto simp: as_log_def)
  obtain b fb m a where "open_block G (nextGOPID s) pkt t (-1) False ?r = ?r\<lparr>freeBufs := fb, mem := m,
      nextArr := a, gops := gops ?r @ [\<lparr>gid = nextGOPID s, gdata = pkt, garr = fst b, gcap = snd b,
        gt = t, gpts = -1, gvideo = False\<rparr>]\<rparr>"
    using open_block_eq by blast
  then have "as_log (open_block G (nextGOPID s) pkt t (-1) False ?r) = log_open pkt (as_log s)"
    using n r(2) by (simp add: as_log_def log_open_def)
  then show ?thesis
    using log_step_append_nil [OF log_step.opens [OF assms(2,3)]] prune_step [OF p] by metis
qed

lemma store_packet_step:
  assumes "store_packet G pkt pid v k s = Some s'" "pkt \<noteq> []" "188 dvd length pkt"
  shows "log_step pkt (as_log s) (as_log s')"
  using assms open_keyframe_step [OF _ assms(2,3)] open_cut_step [OF _ assms(2,3)]
    log_step.extends [OF _ assms(2,3), of "as_log s"] as_log_extend_block [of s G pkt]
  by (auto simp: store_packet_def as_log_def split: if_splits)

section \<open>The packet readers leave the log alone\<close>

lemma count_packet_as_log [simp]: "as_log (count_packet pid pusi s) = as_log s"
  by (simp add: count_packet_def as_log_def)

lemma read_adaptation_as_log: "read_adaptation pkt pid s = Some (r, s') \<Longrightarrow> as_log s' = as_log s"
  by (auto simp: read_adaptation_def Let_def as_log_def split: Option.bind_splits if_splits)

lemma adopt_section_as_log: "adopt_section sec s = Some s' \<Longrightarrow> as_log s' = as_log s"
  by (auto simp: adopt_section_def Let_def as_log_def split: Option.bind_splits if_splits prod.splits option.splits)

lemma read_tables_as_log: "read_tables pkt pid pusi s = Some s' \<Longrightarrow> as_log s' = as_log s"
  by (auto simp: read_tables_def Let_def split: Option.bind_splits if_splits prod.splits option.splits
      dest!: adopt_section_as_log) (simp_all add: as_log_def stage_pmt_def Let_def)

section \<open>Update\<close>

text \<open>The bytes of a chunk the ring takes: its whole packets that carry the sync byte.\<close>

definition accepted :: "bytes \<Rightarrow> bytes" where
  "accepted chunk = concat (filter (\<lambda>p. p ! 0 = 0x47) (packets_of chunk))"

lemma packets_of_188: "p \<in> set (packets_of chunk) \<Longrightarrow> length p = 188"
proof (induction chunk rule: packets_of.induct)
  case (1 chunk)
  then show ?case by (subst (asm) (2) packets_of.simps) (auto split: if_splits)
qed

lemma update_packet_step:
  assumes "update_packet G pkt s = Some s'" "length pkt = 188"
  shows "log_step (if pkt ! 0 = 0x47 then pkt else []) (as_log s) (as_log s')"
proof (cases "pkt ! 0 = 0x47")
  case False
  then show ?thesis using assms log_step.stay by (auto simp: update_packet_def at_def split: if_splits)
next
  case True
  have "pkt \<noteq> []" "188 dvd length pkt" using assms(2) by auto
  note st = store_packet_step [OF _ this]
  from True assms show ?thesis
    by (auto simp: update_packet_def at_def Let_def split: Option.bind_splits if_splits
        dest!: read_adaptation_as_log read_tables_as_log st)
qed

lemma Update_step:
  assumes "Update G chunk s = Some s'"
  shows "log_step (accepted chunk) (as_log s) (as_log s')"
proof -
  have "log_step (concat (filter (\<lambda>p. p ! 0 = 0x47) ps)) (as_log s) (as_log s')"
    if "run (update_packet G) ps s = Some s'" "\<forall>p \<in> set ps. length p = 188" for ps s
    using that
  proof (induction ps arbitrary: s)
    case Nil
    then show ?case using log_step.stay by simp
  next
    case (Cons p ps)
    then obtain s1 where s1: "update_packet G p s = Some s1" "run (update_packet G) ps s1 = Some s'"
      by (auto split: Option.bind_splits)
    from log_step.both [OF update_packet_step [OF s1(1)] Cons.IH [OF s1(2)]] Cons.prems
    show ?case by (auto split: if_splits)
  qed
  then show ?thesis using assms packets_of_188 by (auto simp: Update_def accepted_def)
qed

end
