(* ===== verification/RingFollow.thy ===== *)
theory RingFollow
  imports RingRefine
begin

text \<open>
  No operation of the ring panics, a read by cursor is a read of the log's tail, and the ring
  provides the contract \<open>followed_log\<close>: a viewer reading by cursor, with any operations in between,
  gets the published packets once, in order and without a gap, or is told that it fell behind.
\<close>

section \<open>No operation panics\<close>

lemma readPCR_safe [go_safe]: "11 \<le> len pkt \<Longrightarrow> \<exists>p. readPCR pkt = Some p"
  by (simp add: readPCR_def go_simps)

lemma parsePMTPID_loop_safe [go_safe]: "0 \<le> i \<Longrightarrow> \<exists>p. parsePMTPID_loop pkt i = Some p"
proof (induction pkt i rule: parsePMTPID_loop.induct)
  case (1 pkt i)
  then show ?case by (cases "i + 4 \<le> len pkt"; subst parsePMTPID_loop.simps) (auto simp: go_simps)
qed

lemma parsePMTPID_safe [go_safe]:
  assumes "5 \<le> len pkt"
  shows "\<exists>p. parsePMTPID pkt = Some p"
  using assms parsePMTPID_loop_safe [of _ pkt] by (auto simp: parsePMTPID_def go_simps Let_def)

lemma parsePTS_safe [go_safe]: "5 \<le> len pkt \<Longrightarrow> \<exists>p. parsePTS pkt = Some p"
  by (auto simp: parsePTS_def ring_payloadOffset_def go_simps Let_def)

lemma read_adaptation_safe: "11 \<le> len pkt \<Longrightarrow> \<exists>r s'. read_adaptation pkt pid s = Some (r, s')"
  using readPCR_safe [of pkt] by (auto simp: read_adaptation_def go_simps Let_def)

lemma adopt_section_safe: "\<exists>s'. adopt_section sec s = Some s'"
proof -
  obtain es k m where "PMTStreamsSection sec = Some (es, k)" "ParsePMTSection sec = Some m"
    using PMTStreamsSection_safe [of sec] ParsePMTSection_safe [of sec] by auto
  then show ?thesis by (auto simp: adopt_section_def Let_def split: prod.splits option.splits)
qed

lemma read_tables_safe:
  assumes "5 \<le> len pkt"
  shows "\<exists>s'. read_tables pkt pid pusi s = Some s'"
proof -
  obtain p where p: "parsePMTPID pkt = Some p" using parsePMTPID_safe [OF assms] by blast
  obtain a sec where f: "asm_Feed (pmtAsm (stage_pmt pkt pusi s)) pkt = Some (a, sec)"
    using asm_Feed_safe [of pkt "pmtAsm (stage_pmt pkt pusi s)"] assms by auto
  show ?thesis
    using p f adopt_section_safe by (auto simp: read_tables_def Let_def split: option.splits)
qed

lemma open_block_nonempty: "gops (open_block G i pkt t pts v s) \<noteq> []"
  using open_block_eq [of G i pkt t pts v s] by auto

lemma store_packet_safe:
  assumes "5 \<le> len pkt"
  shows "\<exists>s'. store_packet G pkt pid v k s = Some s'"
proof -
  obtain p where p: "parsePTS pkt = Some p" using parsePTS_safe [OF assms] by blast
  have pr: "\<exists>s'. prune (open_block G i pkt t pts v s) = Some s'" for i t pts v s
    using prune_safe open_block_nonempty by blast
  have "\<exists>s'. open_keyframe G pkt pid v s = Some s'"
    using p pr by (auto simp: open_keyframe_def Let_def split: prod.splits option.splits)
  moreover have "\<exists>s'. open_cut G pkt s = Some s'"
    using pr by (auto simp: open_cut_def Let_def split: prod.splits)
  ultimately show ?thesis by (simp add: store_packet_def)
qed

lemma update_packet_safe:
  assumes "length pkt = 188"
  shows "\<exists>s'. update_packet G pkt s = Some s'"
proof -
  have l: "len pkt = 188" using assms by (simp add: len_def)
  let ?pid = "packet_pid (pkt ! 1) (pkt ! 2)" and ?pusi = "pkt ! 1 AND 0x40 \<noteq> 0"
  obtain r s1 where a: "read_adaptation pkt ?pid (count_packet ?pid ?pusi s) = Some (r, s1)"
    using read_adaptation_safe [of pkt] l by fastforce
  obtain k where k: "StartsKeyframe pkt (videoType s1) = Some k"
    using StartsKeyframe_safe [of pkt] l by fastforce
  obtain s2 where t: "read_tables pkt ?pid ?pusi s1 = Some s2"
    using read_tables_safe [of pkt] l by fastforce
  have "\<exists>s'. store_packet G pkt ?pid v kf s2 = Some s'" for v kf
    using store_packet_safe [of pkt] l by simp
  with a k t l show ?thesis by (auto simp: update_packet_def go_simps Let_def)
qed

lemma Update_safe: "\<exists>s'. Update G chunk s = Some s'"
proof -
  have "\<exists>s'. run (update_packet G) ps s = Some s'" if "\<forall>p \<in> set ps. length p = 188" for ps s
    using that
  proof (induction ps arbitrary: s)
    case (Cons p ps)
    then obtain s1 where "update_packet G p s = Some s1" using update_packet_safe by fastforce
    with Cons show ?case by auto
  qed simp
  then show ?thesis using packets_of_188 by (simp add: Update_def)
qed

section \<open>Reading forward\<close>

abbreviation tail_in :: "Cursor \<Rightarrow> gop list \<Rightarrow> bytes" where
  "tail_in c gs \<equiv> concat (map (\<lambda>g. block_tail (cGOP c) (cOff c) (gid g, gdata g)) gs)"

lemma part_bytes_append [simp]: "part_bytes (ps @ qs) = part_bytes ps @ part_bytes qs"
  by (simp add: part_bytes_def)

lemma cut_length:
  assumes "0 \<le> x"
  shows "0 \<le> x sdiv PacketSize * PacketSize" "x sdiv PacketSize * PacketSize \<le> x"
    "x < x sdiv PacketSize * PacketSize + 188"
proof -
  have e: "x sdiv 188 = x div 188" using assms by (simp add: signed_divide_int_def sgn_if)
  have "x div 188 * 188 + x mod 188 = x" "0 \<le> x mod 188" "x mod 188 < 188" "0 \<le> x div 188"
    using assms by simp_all
  then show "0 \<le> x sdiv PacketSize * PacketSize" "x sdiv PacketSize * PacketSize \<le> x"
    "x < x sdiv PacketSize * PacketSize + 188"
    using assms unfolding PacketSize_def e by linarith+
qed

lemma tail_in_later: "\<forall>g \<in> set gs. cGOP c < gid g \<Longrightarrow> tail_in c gs = concat (map gdata gs)"
  by (induction gs) (auto simp: block_tail_def)

lemma read_loop_reads:
  assumes "0 \<le> n" "n \<le> mx" "0 \<le> cOff c" "\<forall>g \<in> set gs. cGOP c \<le> gid g"
    and "sorted_wrt (<) (map gid gs)"
  shows "\<exists>ps next' lo' hi' edge. read_loop c mx gs n parts next lo hi = Some (parts @ ps, next', lo', hi', edge) \<and>
    tail_in c gs = part_bytes ps @ tail_in next' gs \<and>
    (if gs = [] then next' = next
     else \<exists>g \<in> set gs. gid g = cGOP next' \<and> 0 \<le> cOff next' \<and> cOff next' \<le> len (gdata g)) \<and>
    n + len (part_bytes ps) \<le> mx \<and>
    (if edge then tail_in next' gs = [] else mx < n + len (part_bytes ps) + 188)"
  using assms
proof (induction gs arbitrary: n parts "next" lo hi)
  case Nil
  then show ?case by (auto simp: part_bytes_def)
next
  case (Cons g gs)
  define o1 where "o1 = (if gid g = cGOP c then cOff c else 0)"
  define off where "off = (if o1 > len (gdata g) then len (gdata g) else o1)"
  have off: "0 \<le> off" "off \<le> len (gdata g)" using Cons.prems(3) by (auto simp: off_def o1_def)
  let ?rem = "drop (nat off) (gdata g)"
  have rem: "slice_from (gdata g) off = Some ?rem" "len ?rem = len (gdata g) - off"
    using off by (auto simp: go_simps len_drop)
  have bt: "block_tail (cGOP c) (cOff c) (gid g, gdata g) = ?rem"
    using Cons.prems(3,4) by (auto simp: block_tail_def off_def o1_def len_def)
  have later: "\<forall>h \<in> set gs. cGOP c < gid h" "\<forall>h \<in> set gs. gid g < gid h"
    using Cons.prems(4,5) by force+
  show ?case
  proof (cases "n + len ?rem > mx")
    case True
    define k where "k = (mx - n) sdiv PacketSize * PacketSize"
    have k: "0 \<le> k" "k \<le> mx - n" "mx - n < k + 188"
      using cut_length [of "mx - n"] Cons.prems(2) by (simp_all add: k_def)
    then have kr: "k \<le> len ?rem" using True by linarith
    let ?next = "Cursor (gid g) (off + k)"
    have bt': "block_tail (gid g) (off + k) (gid g, gdata g) = drop (nat k) ?rem"
      using off k by (simp add: block_tail_def nat_add_distrib add.commute)
    have tl: "tail_in ?next gs = tail_in c gs" using tail_in_later [of gs c] tail_in_later [of gs ?next] later by simp
    show ?thesis
    proof (cases "k > 0")
      case kpos: True
      have "read_loop c mx (g # gs) n parts next lo hi = Some (parts @ [\<lparr>parr = garr g, poff = off,
          pdata = take (nat k) ?rem\<rparr>], ?next, (if lo < 0 then gid g else lo), gid g, False)"
        using True kpos kr rem(1) by (simp add: off_def [symmetric] o1_def [symmetric] Let_def
            k_def [symmetric] go_simps)
      then show ?thesis using bt bt' tl k kr off rem(2)
        by - (rule exI [of _ "[\<lparr>parr = garr g, poff = off, pdata = take (nat k) ?rem\<rparr>]"], rule exI [of _ ?next],
            rule exI [of _ "if lo < 0 then gid g else lo"], rule exI [of _ "gid g"], rule exI [of _ False],
            auto simp: part_bytes_def len_take simp del: read_loop.simps drop_drop split: if_splits)
    next
      case False
      then have k0: "k = 0" using k by simp
      have "read_loop c mx (g # gs) n parts next lo hi = Some (parts @ [], ?next, lo, hi, False)"
        using True False rem(1) by (simp add: off_def [symmetric] o1_def [symmetric] Let_def
            k_def [symmetric])
      then show ?thesis using bt bt' tl k k0 off Cons.prems(2)
        by - (rule exI [of _ "[]"], rule exI [of _ ?next], rule exI [of _ lo], rule exI [of _ hi],
            rule exI [of _ False],
            auto simp: part_bytes_def simp del: read_loop.simps)
    qed
  next
    case False
    let ?next = "Cursor (gid g) (len (gdata g))"
    define new where "new = (if len ?rem > 0 then [\<lparr>parr = garr g, poff = off, pdata = ?rem\<rparr>] else [])"
    have nb: "part_bytes new = ?rem" by (auto simp: new_def part_bytes_def len_def)
    obtain lo1 hi1 where step: "read_loop c mx (g # gs) n parts next lo hi =
        read_loop c mx gs (n + len ?rem) (parts @ new) ?next lo1 hi1"
      using False rem(1) by (cases "len ?rem > 0")
        (auto simp: new_def off_def [symmetric] o1_def [symmetric] Let_def len_gt_0)
    obtain ps next' lo' hi' edge where IH:
      "read_loop c mx gs (n + len ?rem) (parts @ new) ?next lo1 hi1 =
         Some ((parts @ new) @ ps, next', lo', hi', edge)"
      "tail_in c gs = part_bytes ps @ tail_in next' gs"
      "if gs = [] then next' = ?next
       else \<exists>h \<in> set gs. gid h = cGOP next' \<and> 0 \<le> cOff next' \<and> cOff next' \<le> len (gdata h)"
      "n + len ?rem + len (part_bytes ps) \<le> mx"
      "if edge then tail_in next' gs = [] else mx < n + len ?rem + len (part_bytes ps) + 188"
      using Cons.IH [of "n + len ?rem" "parts @ new" ?next lo1 hi1] Cons.prems False by auto
    have "block_tail (cGOP next') (cOff next') (gid g, gdata g) = []"
      using IH(3) later by (auto simp: block_tail_def len_def split: if_splits)
    then have tl: "tail_in next' (g # gs) = tail_in next' gs" by simp
    have ln: "len (part_bytes (new @ ps)) = len ?rem + len (part_bytes ps)" using nb by simp
    have tc: "tail_in c (g # gs) = part_bytes (new @ ps) @ tail_in next' gs"
      using bt IH(2) nb by simp
    have nx: "\<exists>h \<in> set (g # gs). gid h = cGOP next' \<and> 0 \<le> cOff next' \<and> cOff next' \<le> len (gdata h)"
      using IH(3) by (auto split: if_splits)
    have "read_loop c mx (g # gs) n parts next lo hi = Some (parts @ (new @ ps), next', lo', hi', edge)"
      unfolding step IH(1) by simp
    then show ?thesis using tl ln tc nx IH(4,5)
      by - (rule exI [of _ "new @ ps"], rule exI [of _ next'], rule exI [of _ lo'],
          rule exI [of _ hi'], rule exI [of _ edge],
          cases edge, simp_all add: add.assoc del: read_loop.simps part_bytes_append list.map concat.simps)
  qed
qed

section \<open>A read of the ring is a read of the log\<close>

text \<open>The viewer's read: \<open>None\<close> where it is told it fell behind.\<close>

definition ring_read :: "State \<Rightarrow> Cursor \<Rightarrow> int \<Rightarrow> ((bytes \<times> Cursor) option \<times> State) go" where
  "ring_read s c mx = do {
     (r, s') \<leftarrow> ReadFrom s c mx;
     Some (if behind r then None else Some (part_bytes (rparts r), rnext r), s') }"

definition cursor_pos :: "Cursor \<Rightarrow> int \<times> int" where
  "cursor_pos c = (cGOP c, cOff c)"

lemma pin_block_as_log [simp]: "as_log (pin_block i s) = as_log s" "gops (pin_block i s) = gops s"
  by (simp_all add: pin_block_def as_log_def)

lemma fold_pin_block [simp]: "as_log (fold pin_block is s) = as_log s" "gops (fold pin_block is s) = gops s"
  by (induction "is" arbitrary: s) simp_all

lemma pin_as_log [simp]: "as_log (snd (pin lo hi s)) = as_log s" "gops (snd (pin lo hi s)) = gops s"
  by (simp_all add: pin_def)

lemma unpin_block_as_log [simp]: "as_log (unpin_block i s) = as_log s"
  by (simp add: unpin_block_def as_log_def)

lemma fold_unpin_block [simp]: "as_log (fold unpin_block is s) = as_log s"
  by (induction "is" arbitrary: s) simp_all

lemma Unpin_as_log [simp]: "as_log (Unpin p s) = as_log s"
  by (simp add: Unpin_def)

lemma gops_ids:
  assumes "log_ok (as_log s)"
  shows "map gid (gops s) = [prunedID s + 1 .. nextGOPID s - 1]"
    "int (length (gops s)) = nextGOPID s - 1 - prunedID s"
    "sorted_wrt (<) (map gid (gops s))"
proof -
  show m: "map gid (gops s) = [prunedID s + 1 .. nextGOPID s - 1]"
    using assms by (simp add: log_ok_def as_log_def o_def)
  have "length (gops s) = nat (nextGOPID s - 1 - prunedID s)" using arg_cong [OF m, of length] by simp
  moreover have "prunedID s < nextGOPID s" using assms by (simp add: log_ok_def as_log_def)
  ultimately show "int (length (gops s)) = nextGOPID s - 1 - prunedID s" by simp
  show "sorted_wrt (<) (map gid (gops s))" unfolding m by simp
qed

lemma gops_id_nth:
  assumes "log_ok (as_log s)" "k < length (gops s)"
  shows "gid (gops s ! k) = prunedID s + 1 + int k"
  using assms(2) gops_ids(2) [OF assms(1)] arg_cong [OF gops_ids(1) [OF assms(1)], of "\<lambda>x. x ! k"]
  by (simp add: nth_upto)

lemma log_tail_gops: "log_tail (as_log s) i off = tail_in (Cursor i off) (gops s)"
  by (simp add: log_tail_def as_log_def o_def)

text \<open>A run from a cursor whose block is in the ring.\<close>

lemma read_run_reads:
  assumes ok: "log_ok (as_log s)" and ne: "gops s \<noteq> []"
    and c: "prunedID s < cGOP c" "cGOP c < nextGOPID s" "0 \<le> cOff c"
  shows "\<exists>r s'. read_run s c mx = Some (r, s') \<and> as_log s' = as_log s \<and> \<not> behind r \<and>
    tail_in c (gops s) = part_bytes (rparts r) @ tail_in (rnext r) (gops s) \<and>
    (\<exists>g \<in> set (gops s). gid g = cGOP (rnext r) \<and> 0 \<le> cOff (rnext r) \<and> cOff (rnext r) \<le> len (gdata g)) \<and>
    len (part_bytes (rparts r)) \<le> max mx 188 \<and>
    (if atEnd r then tail_in (rnext r) (gops s) = [] else max mx 188 < len (part_bytes (rparts r)) + 188)"
proof -
  have hd: "gid (hd (gops s)) = prunedID s + 1"
    using gops_id_nth [OF ok, of 0] ne by (simp add: hd_conv_nth)
  define k where "k = nat (cGOP c - gid (hd (gops s)))"
  have k: "int k = cGOP c - prunedID s - 1" using c hd by (simp add: k_def)
  then have kl: "k < length (gops s)" using gops_ids(2) [OF ok] c by linarith
  let ?gs = "drop k (gops s)"
  have ge: "\<forall>g \<in> set ?gs. cGOP c \<le> gid g"
  proof
    fix g assume "g \<in> set ?gs"
    then obtain j where j: "j < length ?gs" "g = ?gs ! j" by (metis in_set_conv_nth)
    then have "g = gops s ! (k + j)" "k + j < length (gops s)" using kl by auto
    then have "gid g = prunedID s + 1 + int (k + j)" using gops_id_nth [OF ok] by blast
    then show "cGOP c \<le> gid g" using k by simp
  qed
  have lt: "\<forall>g \<in> set (take k (gops s)). gid g < cGOP c"
  proof
    fix g assume "g \<in> set (take k (gops s))"
    then obtain j where j: "j < k" "g = gops s ! j" using kl by (auto simp: in_set_conv_nth)
    then show "gid g < cGOP c" using gops_id_nth [OF ok, of j] kl k by simp
  qed
  have early: "tail_in d (gops s) = tail_in d ?gs" if "\<forall>g \<in> set (take k (gops s)). gid g < cGOP d" for d
  proof -
    have "tail_in d (take k (gops s)) = []" using that by (auto simp: block_tail_def)
    moreover have "tail_in d (gops s) = tail_in d (take k (gops s)) @ tail_in d ?gs"
      by (simp flip: concat_append map_append)
    ultimately show ?thesis by simp
  qed
  have srt: "sorted_wrt (<) (map gid ?gs)"
    using gops_ids(3) [OF ok] by (simp add: sorted_wrt_drop flip: drop_map)
  define m where "m = (if mx < PacketSize then PacketSize else mx)"
  have m: "m = max mx 188" by (simp add: m_def PacketSize_def)
  then have m0: "0 \<le> m" by simp
  obtain ps next' lo hi edge where r: "read_loop c m ?gs 0 [] c (-1) (-1) = Some (ps, next', lo, hi, edge)"
    "tail_in c ?gs = part_bytes ps @ tail_in next' ?gs"
    "if ?gs = [] then next' = c
     else \<exists>g \<in> set ?gs. gid g = cGOP next' \<and> 0 \<le> cOff next' \<and> cOff next' \<le> len (gdata g)"
    "len (part_bytes ps) \<le> m"
    "if edge then tail_in next' ?gs = [] else m < len (part_bytes ps) + 188"
    using read_loop_reads [of 0 m c ?gs "[]" c "-1" "-1", OF order_refl m0 c(3) ge srt]
    unfolding append_Nil add_0 by blast
  have ne': "?gs \<noteq> []" using kl by simp
  then obtain g where g: "g \<in> set ?gs" "gid g = cGOP next'" "0 \<le> cOff next'" "cOff next' \<le> len (gdata g)"
    using r(3) by auto
  then have "\<forall>h \<in> set (take k (gops s)). gid h < cGOP next'" using ge lt by fastforce
  note tn = early [OF this]
  have i: "\<not> cGOP c - gid (hd (gops s)) \<ge> len (gops s)"
    using kl k hd by (simp add: len_def)
  have run: "read_run s c mx = Some (\<lparr>rparts = ps, rnext = next', atEnd = edge, behind = False,
      rpin = fst (if ps \<noteq> [] then pin lo hi s else (no_pin, s))\<rparr>,
      snd (if ps \<noteq> [] then pin lo hi s else (no_pin, s)))"
    using i r(1) unfolding read_run_def Let_def k_def [symmetric] m_def [symmetric]
    by (simp add: case_prod_beta)
  have "g \<in> set (gops s)" using g(1) by (rule in_set_dropD)
  then show ?thesis unfolding run
    using g r early [OF lt] tn m by (auto split: if_splits)
qed

lemma log_tail_gone: "log_ok L \<Longrightarrow> log_tail L (gone L) off = log_tail L (gone L + 1) 0"
proof -
  assume "log_ok L"
  then have "\<forall>b \<in> set (blocks L). gone L < fst b" using log_ok_ids by blast
  then show ?thesis unfolding log_tail_def
    by (intro arg_cong [of _ _ concat] map_cong refl) (fastforce simp: block_tail_def)
qed

lemma ReadFrom_reads:
  assumes ok: "log_ok (as_log s)" and at: "placed (as_log s) (cGOP c) (cOff c)"
  shows "\<exists>r s'. ReadFrom s c mx = Some (r, s') \<and> as_log s' = as_log s \<and>
    (behind r \<longleftrightarrow> gops s \<noteq> [] \<and> \<not> holds (as_log s) (cGOP c) (cOff c)) \<and>
    (if holds (as_log s) (cGOP c) (cOff c) then
       holds (as_log s) (cGOP (rnext r)) (cOff (rnext r)) \<and> placed (as_log s) (cGOP (rnext r)) (cOff (rnext r)) \<and>
       log_tail (as_log s) (cGOP c) (cOff c) =
         part_bytes (rparts r) @ log_tail (as_log s) (cGOP (rnext r)) (cOff (rnext r)) \<and>
       len (part_bytes (rparts r)) \<le> max mx 188 \<and>
       (if atEnd r then log_tail (as_log s) (cGOP (rnext r)) (cOff (rnext r)) = []
        else max mx 188 < len (part_bytes (rparts r)) + 188)
     else rparts r = [] \<and> rnext r = c)"
proof -
  have pos: "0 \<le> cOff c" using at by (simp add: placed_def)
  let ?L = "as_log s"
  have inside: ?thesis if ne: "gops s \<noteq> []" and d: "prunedID s < cGOP d" "cGOP d < nextGOPID s" "0 \<le> cOff d"
    and run: "ReadFrom s c mx = read_run s d mx" and h: "holds ?L (cGOP c) (cOff c)"
    and tl: "log_tail ?L (cGOP c) (cOff c) = log_tail ?L (cGOP d) (cOff d)" for d
  proof -
    obtain r s' g where r: "read_run s d mx = Some (r, s')" "as_log s' = ?L" "\<not> behind r"
      "tail_in d (gops s) = part_bytes (rparts r) @ tail_in (rnext r) (gops s)"
      "g \<in> set (gops s)" "gid g = cGOP (rnext r)" "0 \<le> cOff (rnext r)" "cOff (rnext r) \<le> len (gdata g)"
      "len (part_bytes (rparts r)) \<le> max mx 188"
      "if atEnd r then tail_in (rnext r) (gops s) = [] else max mx 188 < len (part_bytes (rparts r)) + 188"
      using read_run_reads [OF ok ne d, of mx] by blast
    have "(gid g, gdata g) \<in> set (blocks ?L)" using r(5) by (auto simp: as_log_def)
    from log_ok_ids [OF ok this] have g: "prunedID s < gid g" "gid g < nextGOPID s" by (simp_all add: as_log_def)
    have "gdata x = gdata g" if "x \<in> set (gops s)" "gid x = gid g" for x
    proof -
      have "distinct (map gid (gops s))" unfolding gops_ids(1) [OF ok] by simp
      then have "x = g" using that r(5) by (auto simp: distinct_map inj_on_def)
      then show ?thesis by simp
    qed
    then have "placed ?L (cGOP (rnext r)) (cOff (rnext r))"
      using r(6-8) g by (auto simp: placed_def as_log_def)
    moreover have "holds ?L (cGOP (rnext r)) (cOff (rnext r))" using r(6) g by (simp add: holds_def as_log_def)
    ultimately show ?thesis using r h run tl by (auto simp: log_tail_gops)
  qed
  show ?thesis
  proof (cases "gops s = []")
    case True
    have "log_tail ?L i off = []" for i off using True by (simp add: log_tail_gops)
    with True at show ?thesis by (auto simp: ReadFrom_def part_bytes_def)
  next
    case ne: False
    have hd: "gid (hd (gops s)) = prunedID s + 1"
      using gops_id_nth [OF ok, of 0] ne by (simp add: hd_conv_nth)
    have lt: "cGOP c < nextGOPID s" using at ne by (auto simp: placed_def as_log_def)
    have nx: "prunedID s + 1 < nextGOPID s" using gops_ids(2) [OF ok] ne by (cases "gops s") auto
    show ?thesis
    proof (cases "holds ?L (cGOP c) (cOff c)")
      case False
      then have "cGOP c < gid (hd (gops s))" "cGOP c \<noteq> prunedID s \<or> cOff c < prunedLen s"
        using hd by (auto simp: holds_def as_log_def)
      with False ne show ?thesis by (auto simp: ReadFrom_def)
    next
      case h: True
      show ?thesis
      proof (cases "prunedID s < cGOP c")
        case True
        then have "ReadFrom s c mx = read_run s c mx" using ne hd by (simp add: ReadFrom_def)
        from inside [OF ne True lt pos this h refl] show ?thesis .
      next
        case False
        then have g: "cGOP c = prunedID s" "prunedLen s \<le> cOff c" using h by (auto simp: holds_def as_log_def)
        then have run: "ReadFrom s c mx = read_run s (Cursor (prunedID s + 1) 0) mx"
          using ne hd by (simp add: ReadFrom_def)
        have "log_tail ?L (cGOP c) (cOff c) = log_tail ?L (prunedID s + 1) 0"
          using log_tail_gone [OF ok, of "cOff c"] g by (simp add: as_log_def)
        from inside [OF ne _ _ _ run h] this nx show ?thesis by simp
      qed
    qed
  qed
qed

section \<open>The contract\<close>

text \<open>What may happen to a ring between two reads of a viewer.\<close>

datatype ring_op =
    OpUpdate bytes
  | OpGate bool
  | OpIdleRatio f64
  | OpConfigure int int int
  | OpReset
  | OpRead Cursor int
  | OpSnapshot int
  | OpSegment int
  | OpPlaylist
  | OpUnpin Pin

fun ring_step :: "(nat \<Rightarrow> nat \<Rightarrow> nat) \<Rightarrow> ring_op \<Rightarrow> State \<Rightarrow> State go" where
  "ring_step G (OpUpdate chunk) s = Update G chunk s"
| "ring_step G (OpGate g) s = SetGated g s"
| "ring_step G (OpIdleRatio r) s = SetIdleRatio r s"
| "ring_step G (OpConfigure p t w) s = Configure p t w s"
| "ring_step G OpReset s = Some (Reset s)"
| "ring_step G (OpRead c m) s = do { (r, s') \<leftarrow> ReadFrom s c m; Some s' }"
| "ring_step G (OpSnapshot ms) s = do { (h, ps, p, s') \<leftarrow> SnapshotPin s ms; Some s' }"
| "ring_step G (OpSegment n) s = Some (snd (HLSSegmentPin s n))"
| "ring_step G OpPlaylist s = Some (snd (HLSPlaylist s))"
| "ring_step G (OpUnpin p) s = Some (Unpin p s)"

fun ring_out :: "ring_op \<Rightarrow> bytes" where
  "ring_out (OpUpdate chunk) = accepted chunk"
| "ring_out _ = []"

text \<open>An operation that reads uses a cursor the ring has given out.\<close>

definition op_ok :: "ring_op \<Rightarrow> bool" where
  "op_ok e = (case e of OpRead c m \<Rightarrow> 0 \<le> cOff c | _ \<Rightarrow> True)"

lemma ReadFrom_safe:
  assumes "log_ok (as_log s)" "0 \<le> cOff c"
  shows "\<exists>r s'. ReadFrom s c mx = Some (r, s') \<and> as_log s' = as_log s"
proof (cases "gops s = []")
  case True
  then show ?thesis by (simp add: ReadFrom_def)
next
  case ne: False
  have hd: "gid (hd (gops s)) = prunedID s + 1"
    using gops_id_nth [OF assms(1), of 0] ne by (simp add: hd_conv_nth)
  have nx: "prunedID s + 1 < nextGOPID s" using gops_ids(2) [OF assms(1)] ne by (cases "gops s") auto
  have run: "\<exists>r s'. read_run s d mx = Some (r, s') \<and> as_log s' = as_log s"
    if "prunedID s < cGOP d" "0 \<le> cOff d" for d
  proof (cases "cGOP d < nextGOPID s")
    case True
    with read_run_reads [OF assms(1) ne, of d mx] that show ?thesis by blast
  next
    case False
    then have "cGOP d - gid (hd (gops s)) \<ge> len (gops s)"
      using hd gops_ids(2) [OF assms(1)] by (simp add: len_def)
    then show ?thesis by (simp add: read_run_def)
  qed
  show ?thesis
    using run [of c] run [of "Cursor (prunedID s + 1) 0"] assms(2) ne hd
    by (cases "prunedID s < cGOP c") (auto simp: ReadFrom_def Let_def)
qed

lemma snapshotStart_range:
  assumes "0 \<le> i" "i < len (gops s)"
  shows "0 \<le> snapshotStart s i \<and> snapshotStart s i < len (gops s)"
proof (cases "find (\<lambda>i. gvideo (gops s ! nat i)) ([i..len (gops s) - 1] @ rev [0..i - 1])")
  case None
  with assms show ?thesis by (simp add: snapshotStart_def)
next
  case (Some j)
  then have "j \<in> set ([i..len (gops s) - 1] @ rev [0..i - 1])"
    by (metis find_Some_iff nth_mem)
  then have "0 \<le> j \<and> j < len (gops s)" using assms by auto
  with Some assms show ?thesis by (simp add: snapshotStart_def)
qed

lemma walk_back_le: "walk_back gs newest req n \<le> n"
  by (induction n) (auto simp: Let_def)

lemma joinIndex_range:
  "gops s \<noteq> [] \<Longrightarrow> 0 \<le> joinIndex s ms \<and> joinIndex s ms < len (gops s)"
  "gops s = [] \<Longrightarrow> joinIndex s ms = 0"
proof -
  assume ne: "gops s \<noteq> []"
  then have "0 < length (gops s)" by simp
  moreover have "walk_back (gops s) n r (length (gops s) - 1) \<le> length (gops s) - 1" for n r
    by (rule walk_back_le)
  ultimately have "walk_back (gops s) n r (length (gops s) - 1) < length (gops s)" for n r
    by (meson diff_less le_less_trans zero_less_one)
  then have w: "int (walk_back (gops s) n r (length (gops s) - 1)) < len (gops s)" for n r
    by (simp add: len_def)
  show "0 \<le> joinIndex s ms \<and> joinIndex s ms < len (gops s)"
    unfolding joinIndex_def Let_def
    by (rule snapshotStart_range) (use w ne in \<open>auto simp: len_def\<close>)
qed (simp add: joinIndex_def snapshotStart_def)

lemma SnapshotPin_safe:
  "\<exists>h ps p s'. SnapshotPin s ms = Some (h, ps, p, s') \<and> as_log s' = as_log s"
proof (cases "gops s = []")
  case True
  then show ?thesis using joinIndex_range(2) [of s ms] by (simp add: SnapshotPin_def slice_from_def)
next
  case False
  note r = joinIndex_range(1) [OF False, of ms]
  then have "drop (nat (joinIndex s ms)) (gops s) \<noteq> []" by (auto simp: len_def)
  with r have "SnapshotPin s ms = Some (ring_head s, map whole_part (drop (nat (joinIndex s ms)) (gops s)),
      pin (gid (gops s ! nat (joinIndex s ms))) (gid (last (gops s))) s)"
    by (simp add: SnapshotPin_def go_simps Let_def case_prod_beta)
  then show ?thesis using pin_as_log(1) by (metis prod.collapse)
qed

lemma HLSSegmentPin_as_log [simp]: "as_log (snd (HLSSegmentPin s n)) = as_log s"
  by (auto simp: HLSSegmentPin_def Let_def case_prod_beta split: option.splits)

lemma HLSPlaylist_as_log [simp]: "as_log (snd (HLSPlaylist s)) = as_log s"
  by (simp add: HLSPlaylist_def Let_def as_log_def)

lemma SetGated_safe: "\<exists>s'. SetGated g s = Some s'"
  using recompute_safe by (simp add: SetGated_def)

lemma SetIdleRatio_safe: "\<exists>s'. SetIdleRatio r s = Some s'"
  using recompute_safe by (auto simp: SetIdleRatio_def Let_def)

lemma Configure_safe: "\<exists>s'. Configure p t w s = Some s'"
  using recompute_safe by (auto simp: Configure_def Let_def)

lemma ring_step_refines:
  assumes "log_ok (as_log s)" "op_ok e"
  shows "\<exists>s'. ring_step G e s = Some s' \<and> log_ok (as_log s') \<and> log_step (ring_out e) (as_log s) (as_log s')"
proof -
  have "\<exists>s'. ring_step G e s = Some s' \<and> log_step (ring_out e) (as_log s) (as_log s')"
  proof (cases e)
    case (OpUpdate x)
    then show ?thesis using Update_safe [of G x s] Update_step [of G x s] by auto
  next
    case (OpGate x)
    then show ?thesis using SetGated_safe [of x s] SetGated_step [of x s] by auto
  next
    case (OpIdleRatio x)
    then show ?thesis using SetIdleRatio_safe [of x s] SetIdleRatio_step [of x s] by auto
  next
    case (OpConfigure p t w)
    then show ?thesis using Configure_safe [of p t w s] Configure_step [of p t w s] by auto
  next
    case OpReset
    then show ?thesis using Reset_step by simp
  next
    case (OpRead c m)
    then have "0 \<le> cOff c" using assms(2) by (simp add: op_ok_def)
    then obtain r s' where "ReadFrom s c m = Some (r, s')" "as_log s' = as_log s"
      using ReadFrom_safe [OF assms(1)] by blast
    then show ?thesis using OpRead log_step.stay [of "as_log s"] by simp
  next
    case (OpSnapshot ms)
    then obtain h ps p s' where "SnapshotPin s ms = Some (h, ps, p, s')" "as_log s' = as_log s"
      using SnapshotPin_safe by blast
    then show ?thesis using OpSnapshot log_step.stay [of "as_log s"] by simp
  qed (use log_step.stay in simp_all)
  then show ?thesis using log_ok_step [OF _ assms(1)] by blast
qed

interpretation ring: followed_log "ring_step G" "\<lambda>e s. ring_out e" op_ok "\<lambda>s. log_ok (as_log s)"
  ring_read as_log cursor_pos for G
proof (unfold_locales, goal_cases)
  case (1 s e)
  then show ?case using ring_step_refines by blast
next
  case (2 s)
  then show ?case .
next
  case (3 s c m)
  then have "placed (as_log s) (cGOP c) (cOff c)" by (simp add: cursor_pos_def)
  from ReadFrom_reads [OF 3(1) this, of m] obtain r s' where r: "ReadFrom s c m = Some (r, s')"
    "as_log s' = as_log s" "behind r \<longleftrightarrow> gops s \<noteq> [] \<and> \<not> holds (as_log s) (cGOP c) (cOff c)"
    "if holds (as_log s) (cGOP c) (cOff c) then
       holds (as_log s) (cGOP (rnext r)) (cOff (rnext r)) \<and> placed (as_log s) (cGOP (rnext r)) (cOff (rnext r)) \<and>
       log_tail (as_log s) (cGOP c) (cOff c) =
         part_bytes (rparts r) @ log_tail (as_log s) (cGOP (rnext r)) (cOff (rnext r)) \<and>
       len (part_bytes (rparts r)) \<le> max m 188 \<and>
       (if atEnd r then log_tail (as_log s) (cGOP (rnext r)) (cOff (rnext r)) = []
        else max m 188 < len (part_bytes (rparts r)) + 188)
     else rparts r = [] \<and> rnext r = c"
    by blast
  then show ?case
    using 3 by (auto simp: ring_read_def cursor_pos_def part_bytes_def split: if_splits)
qed

end
