(* ===== verification/RingProps.thy ===== *)
theory RingProps
  imports RingFollow
begin

text \<open>
  What the ring promises its viewers: a join starts where a decoder can, every published packet is
  read once and in order or the viewer is told it fell behind, and no operation panics.
\<close>

lemma New_log_ok: "New mg prebuf = Some s \<Longrightarrow> log_ok (as_log s) \<and> gops s = []"
  by (auto simp: New_def recompute_def blank_def Let_def as_log_def log_ok_def)

interpretation ring_ops: safe_system "ring_step G" op_ok "\<lambda>s. log_ok (as_log s)" for G
  by unfold_locales (use ring_step_refines in blast)

lemma JoinStart_placed:
  assumes "log_ok (as_log s)"
  shows "\<exists>c. JoinStart s ms = Some (ring_head s, c) \<and> cOff c = 0 \<and>
    placed (as_log s) (cGOP c) (cOff c) \<and> holds (as_log s) (cGOP c) (cOff c)"
proof (cases "gops s = []")
  case True
  then show ?thesis using assms
    by (auto simp: JoinStart_def placed_def holds_def as_log_def log_ok_def)
next
  case False
  define j where "j = (if joinIndex s ms = 0 \<and> len (gops s) > 1 then snapshotStart s 1 else joinIndex s ms)"
  have j: "0 \<le> j" "j < len (gops s)"
    using joinIndex_range(1) [OF False, of ms] snapshotStart_range [of 1 s] by (auto simp: j_def)
  let ?g = "gops s ! nat j"
  have g: "?g \<in> set (gops s)" using j by (simp add: len_def)
  then have "(gid ?g, gdata ?g) \<in> set (blocks (as_log s))" by (auto simp: as_log_def)
  from log_ok_ids [OF assms this] have "prunedID s < gid ?g" "gid ?g < nextGOPID s"
    by (simp_all add: as_log_def)
  moreover have "JoinStart s ms = Some (ring_head s, Cursor (gid ?g) 0)"
    using False j unfolding JoinStart_def j_def [symmetric] Let_def by (simp add: go_simps)
  ultimately show ?thesis by (auto simp: placed_def holds_def as_log_def)
qed

text \<open>C1: a viewer's stream has no gap and no repetition.  From any ring the daemon can have (\<open>New\<close>, then
  any operations), a viewer that joins and then reads by cursor, with any operations of the
  producer, the configuration and other viewers in between, receives a prefix of its history
  followed by everything accepted from the source since; while it is not told that it fell behind,
  what it has received and what it can still read are together exactly that.\<close>

theorem join_follow_gap_free:
  assumes "New mg prebuf = Some s0" "list_all op_ok pre" "run (ring_step G) pre s0 = Some s"
    and "JoinStart s ms = Some (h, c)" "list_all (case_sum op_ok (\<lambda>m. True)) es"
  shows "\<exists>got pub c' s'. follow_run (ring_step G) (\<lambda>e s. ring_out e) ring_read es s c = Some (got, pub, c', s') \<and>
    prefix got (log_tail (as_log s) (cGOP c) (cOff c) @ pub) \<and>
    (case c' of None \<Rightarrow> True
     | Some d \<Rightarrow> holds (as_log s') (cGOP d) (cOff d) \<longrightarrow>
         got @ log_tail (as_log s') (cGOP d) (cOff d) = log_tail (as_log s) (cGOP c) (cOff c) @ pub)"
proof -
  have ok: "log_ok (as_log s)"
    using ring_ops.run_preserves [OF _ assms(2,3)] New_log_ok [OF assms(1)] by blast
  from JoinStart_placed [OF ok, of ms] assms(4)
  have "ring.at_ring s c" "ring.kept s c"
    by (auto simp: ring.at_ring_def ring.kept_def cursor_pos_def)
  from ring.follower_gap_free [OF ok this(1) assms(5), of G] this(2) show ?thesis
    by (fastforce simp: ring.tail_of_def ring.kept_def cursor_pos_def split: option.splits)
qed

text \<open>C11: one read by cursor is exact.  \<open>ReadFrom\<close> never panics and leaves the ring's bytes alone; a viewer
  whose place is still held gets the next bytes of what is left for it, at most \<open>max\<close> of them (one
  packet at least), and the cursor behind them; the run stops short of the live edge only when less
  than a packet of room is left, and reports the edge only when nothing is left.  A viewer whose
  place is gone is told \<open>behind\<close> and gets nothing.\<close>

theorem ReadFrom_exact:
  assumes "log_ok (as_log s)" "placed (as_log s) (cGOP c) (cOff c)"
  shows "\<exists>r s'. ReadFrom s c mx = Some (r, s') \<and> as_log s' = as_log s \<and>
    (behind r \<longleftrightarrow> gops s \<noteq> [] \<and> \<not> holds (as_log s) (cGOP c) (cOff c)) \<and>
    (if holds (as_log s) (cGOP c) (cOff c) then
       log_tail (as_log s) (cGOP c) (cOff c) =
         part_bytes (rparts r) @ log_tail (as_log s) (cGOP (rnext r)) (cOff (rnext r)) \<and>
       len (part_bytes (rparts r)) \<le> max mx 188 \<and>
       (if atEnd r then log_tail (as_log s) (cGOP (rnext r)) (cOff (rnext r)) = []
        else max mx 188 < len (part_bytes (rparts r)) + 188)
     else rparts r = [] \<and> rnext r = c)"
  using ReadFrom_reads [OF assms, of mx] by (auto split: if_splits)

text \<open>C7: the ring implements the block log.  Every operation of the ring (chunks from the producer, reads,
  snapshots, segments, pins, reconfiguration, the viewer gate, reset) returns without a panic, keeps
  the block ids consecutive and the blocks whole packets, and is a step of the abstract log that
  publishes the accepted packets of an \<open>Update\<close> and nothing otherwise: history leaves from the front
  only, whole blocks at a time, and no byte in the ring ever changes.\<close>

theorem ring_implements_log:
  assumes "log_ok (as_log s)" "op_ok e"
  shows "\<exists>s'. ring_step G e s = Some s' \<and> log_ok (as_log s') \<and> log_step (ring_out e) (as_log s) (as_log s')"
  using ring_step_refines [OF assms] .

section \<open>Where a join starts\<close>

lemma snapshotStart_video:
  assumes "0 \<le> i" "i < len (gops s)" "\<exists>g \<in> set (gops s). gvideo g"
  shows "gvideo (gops s ! nat (snapshotStart s i))"
proof -
  let ?js = "[i..len (gops s) - 1] @ rev [0..i - 1]"
  obtain k where k: "k < length (gops s)" "gvideo (gops s ! k)"
    using assms(3) by (auto simp: in_set_conv_nth)
  then have "int k \<in> set ?js" using assms(1) by (auto simp: len_def)
  moreover have "gvideo (gops s ! nat (int k))" using k by simp
  ultimately have "find (\<lambda>i. gvideo (gops s ! nat i)) ?js \<noteq> None"
    unfolding find_None_iff by blast
  then obtain j where j: "find (\<lambda>i. gvideo (gops s ! nat i)) ?js = Some j" by blast
  then have "gvideo (gops s ! nat j)" by (metis (mono_tags, lifting) find_Some_iff)
  then show ?thesis using j assms(1,2) by (simp add: snapshotStart_def)
qed

text \<open>C12: a viewer starts on a picture.  When the ring holds a block that opens on a video random-access
  point, \<open>JoinStart\<close> places the viewer at the first byte of such a block, and \<open>Snapshot\<close> begins its
  history with one, whatever prebuffer was asked for.\<close>

theorem join_starts_on_video:
  assumes "\<exists>g \<in> set (gops s). gvideo g"
  shows "(\<exists>g \<in> set (gops s). gvideo g \<and> JoinStart s ms = Some (ring_head s, Cursor (gid g) 0)) \<and>
    (\<exists>gs g gs' s'. gops s = gs @ g # gs' \<and> gvideo g \<and>
       Snapshot s ms = Some (ring_head s @ concat (map gdata (g # gs')), s'))"
proof -
  from assms have ne: "gops s \<noteq> []" by auto
  have ji: "gvideo (gops s ! nat (joinIndex s ms))"
  proof -
    have "\<exists>i. joinIndex s ms = snapshotStart s i \<and> 0 \<le> i \<and> i < len (gops s)"
    proof -
      have "int (walk_back (gops s) n r (length (gops s) - 1)) < len (gops s)" for n r
        using walk_back_le [of "gops s" n r "length (gops s) - 1"] ne
        by (simp add: len_def Suc_le_eq flip: length_greater_0_conv)
      then show ?thesis unfolding joinIndex_def Let_def
        by (intro exI conjI refl) (use ne in \<open>auto simp: len_def\<close>)
    qed
    then show ?thesis using snapshotStart_video [OF _ _ assms] by metis
  qed
  note jr = joinIndex_range(1) [OF ne, of ms]
  define j where "j = (if joinIndex s ms = 0 \<and> len (gops s) > 1 then snapshotStart s 1 else joinIndex s ms)"
  have j: "0 \<le> j" "j < len (gops s)" "gvideo (gops s ! nat j)"
    using jr ji snapshotStart_range [of 1 s] snapshotStart_video [of 1 s] assms by (auto simp: j_def)
  have "JoinStart s ms = Some (ring_head s, Cursor (gid (gops s ! nat j)) 0)"
    using ne j unfolding JoinStart_def j_def [symmetric] Let_def by (simp add: go_simps)
  moreover have "gops s ! nat j \<in> set (gops s)" using j by (simp add: len_def)
  ultimately have join: "\<exists>g \<in> set (gops s). gvideo g \<and> JoinStart s ms = Some (ring_head s, Cursor (gid g) 0)"
    using j(3) by blast
  let ?k = "nat (joinIndex s ms)"
  have k: "?k < length (gops s)" using jr by (simp add: len_def nat_less_iff)
  then have sp: "gops s = take ?k (gops s) @ gops s ! ?k # drop (Suc ?k) (gops s)"
    by (simp add: id_take_nth_drop)
  have "SnapshotPin s ms = Some (ring_head s, map whole_part (drop ?k (gops s)),
      pin (gid (gops s ! ?k)) (gid (last (gops s))) s)"
    using jr k by (simp add: SnapshotPin_def go_simps Let_def case_prod_beta)
  then obtain s' where "Snapshot s ms = Some (ring_head s @ part_bytes (map whole_part (drop ?k (gops s))), s')"
    by (auto simp: Snapshot_def case_prod_beta)
  moreover have pb: "part_bytes (map whole_part gs) = concat (map gdata gs)" for gs
    by (simp add: part_bytes_def whole_part_def o_def)
  moreover have "drop ?k (gops s) = gops s ! ?k # drop (Suc ?k) (gops s)"
    using k by (simp add: Cons_nth_drop_Suc)
  ultimately have "Snapshot s ms = Some (ring_head s @
      concat (map gdata (gops s ! ?k # drop (Suc ?k) (gops s))), s')" by (simp only: pb)
  with sp ji join show ?thesis by blast
qed

section \<open>The hypotheses at work\<close>

text \<open>A fresh ring, and a ring of two blocks, of which the second opens on a video keyframe.\<close>

lemma New_fresh: "New 1000 0 = Some (blank 1000 0)"
  by (simp add: New_def recompute_def blank_def)

definition example_ring :: State where
  "example_ring = (blank 1000 0)\<lparr>gops :=
     [\<lparr>gid = 0, gdata = replicate 188 0x47, garr = 1, gcap = 188, gt = 0, gpts = -1, gvideo = False\<rparr>,
      \<lparr>gid = 1, gdata = replicate 376 0x47, garr = 2, gcap = 376, gt = 9000, gpts = 9000, gvideo = True\<rparr>],
     nextGOPID := 2, nextArr := 3\<rparr>"

lemma example_ring_ok: "log_ok (as_log example_ring)"
  by (simp add: example_ring_def blank_def as_log_def log_ok_def upto_rec1)

lemma join_follow_gap_free_witness:
  "let p = 0x47 # replicate 187 0 in
   \<exists>got pub c' s'. follow_run (ring_step (\<lambda>c n. n)) (\<lambda>e s. ring_out e) ring_read
     [Inl (OpUpdate p), Inr 1000, Inl OpReset, Inr 1000] (blank 1000 0) (Cursor 0 0) = Some (got, pub, c', s') \<and>
     prefix got pub"
  unfolding Let_def
  using join_follow_gap_free [of 1000 0 "blank 1000 0" "[]" "\<lambda>c n. n" "blank 1000 0" 0 "[]" "Cursor 0 0"
      "[Inl (OpUpdate (0x47 # replicate 187 0)), Inr 1000, Inl OpReset, Inr 1000]", OF New_fresh]
  by (fastforce simp: JoinStart_def blank_def ring_head_def op_ok_def log_tail_def as_log_def)

lemma ReadFrom_exact_witness:
  "\<exists>r s'. ReadFrom example_ring (Cursor 0 0) 400 = Some (r, s') \<and> \<not> behind r \<and> \<not> atEnd r \<and>
     part_bytes (rparts r) = replicate 376 0x47 \<and> rnext r = Cursor 1 188"
proof -
  have "placed (as_log example_ring) (cGOP (Cursor 0 0)) (cOff (Cursor 0 0))"
    "holds (as_log example_ring) (cGOP (Cursor 0 0)) (cOff (Cursor 0 0))"
    by (simp_all add: example_ring_def blank_def as_log_def placed_def holds_def)
  with ReadFrom_exact [OF example_ring_ok, of "Cursor 0 0" 400]
  obtain r s' where r: "ReadFrom example_ring (Cursor 0 0) 400 = Some (r, s')" "\<not> behind r" by auto
  have "part_bytes (rparts r) = replicate 376 0x47" "rnext r = Cursor 1 188" "\<not> atEnd r"
    using r(1) by (auto simp: ReadFrom_def read_run_def example_ring_def blank_def PacketSize_def
        len_def slice_from_def slice_to_def pin_def part_bytes_def replicate_add [symmetric]
        numeral_eq_Suc signed_divide_int_def)
  with r show ?thesis by blast
qed

lemma ring_implements_log_witness:
  "\<exists>s'. ring_step (\<lambda>c n. n) (OpUpdate (0x47 # replicate 187 0)) example_ring = Some s' \<and>
     log_ok (as_log s') \<and>
     log_step (accepted (0x47 # replicate 187 0)) (as_log example_ring) (as_log s')"
  using ring_implements_log [OF example_ring_ok, of "OpUpdate (0x47 # replicate 187 0)" "\<lambda>c n. n"]
  by (simp add: op_ok_def)

lemma join_starts_on_video_witness:
  "\<exists>s'. JoinStart example_ring 0 = Some ([], Cursor 1 0) \<and>
     Snapshot example_ring 0 = Some (replicate 376 0x47, s')"
  using join_starts_on_video [of example_ring 0]
  by (auto simp: example_ring_def blank_def ring_head_def Cons_eq_append_conv append_eq_Cons_conv)

end
