(* ===== verification/RingTime.thy ===== *)
theory RingTime
  imports RingProps
begin

text \<open>
  The ring clock and what the ring retains: block times never run backwards whatever the source's
  PCR does, ordinary steps are measured exactly (the 33-bit wrap included), a jump cannot age the
  ring, and the window and the byte backstop bound what is held.
\<close>

section \<open>One clock step\<close>

lemma clock_step_nonneg:
  assumes "0 \<le> step" "0 \<le> target"
  shows "0 \<le> fst (clock_step step target d) \<and> 0 \<le> snd (clock_step step target d)"
  using assms by (auto simp: clock_step_def Let_def)

text \<open>C30: a jump of the source's clock cannot age the ring.  Once a cadence is known, whatever PCR comes
  next (a restart near zero, a splice in either direction, an hour's freeze), the ring clock moves
  forward by no more than the steps the cadence explains, and a cadence stays known.\<close>

theorem clock_jump_bounded:
  assumes "0 < clockStep s" "0 \<le> hlsTargetMS s" "0 \<le> lastPCR s" "0 \<le> clockPCR s"
  shows "case ringClock s of (t, s') \<Rightarrow>
    clockT s \<le> t \<and> t \<le> clockT s + (2 * clockStep s + hlsTargetMS s * pcrHz) \<and> 0 < clockStep s' \<and>
    t \<le> clockT s + max (clockStep s) maxCadence \<and> gops s' = gops s \<and> clockT s' = t"
proof -
  have t: "0 \<le> hlsTargetMS s * pcrHz" using assms(2) by (simp add: pcrHz_def)
  show ?thesis using assms t by (auto simp: ringClock_def clock_step_def Let_def)
qed

text \<open>Time that passes is measured exactly.  When the PCR moves on by \<open>d\<close> ticks modulo the 33-bit
  counter, and \<open>d\<close> is a step the known cadence explains (or none is known yet), the ring clock moves on
  by exactly \<open>d\<close>, across the wrap as anywhere else.\<close>

theorem clock_measures_time:
  assumes "0 \<le> clockPCR s" "clockPCR s < ptsWrap" "lastPCR s = (clockPCR s + d) mod ptsWrap"
    and "0 \<le> d" "d \<le> maxCadence"
    and "clockStep s = 0 \<or> 0 < clockStep s \<and> d \<le> 2 * clockStep s + hlsTargetMS s * pcrHz"
  shows "fst (ringClock s) = clockT s + d"
proof -
  have dw: "d < ptsWrap" using assms(5) by (simp add: maxCadence_def ptsWrap_def)
  have nn: "0 \<le> lastPCR s" using assms(3) by (simp add: ptsWrap_def)
  have "lastPCR s - clockPCR s = (if clockPCR s + d < ptsWrap then d else d - ptsWrap)"
  proof (cases "clockPCR s + d < ptsWrap")
    case True
    then show ?thesis using assms(1,3,4) by (simp add: mod_pos_pos_trivial)
  next
    case False
    then have "(clockPCR s + d) mod ptsWrap = clockPCR s + d - ptsWrap"
      using assms(2) dw minus_mod_self2 [of "clockPCR s + d" ptsWrap]
        mod_pos_pos_trivial [of "clockPCR s + d - ptsWrap" ptsWrap] by simp
    with False assms(3) show ?thesis by simp
  qed
  then have "(let x = lastPCR s - clockPCR s in if x < 0 \<and> x + ptsWrap \<le> maxWrap then x + ptsWrap else x) = d"
    using assms(4,5) dw by (auto simp: Let_def maxCadence_def maxWrap_def)
  then have "fst (clock_step (clockStep s) (hlsTargetMS s) (lastPCR s - clockPCR s)) = d"
    using assms(4-6) by (auto simp: clock_step_def Let_def)
  then show ?thesis using nn assms(1) by (simp add: ringClock_def case_prod_beta Let_def)
qed

section \<open>Invariants\<close>

definition time_ok :: "State \<Rightarrow> bool" where
  "time_ok s \<longleftrightarrow> 0 \<le> clockStep s \<and> 0 \<le> clockT s \<and> 0 \<le> hlsTargetMS s \<and>
     (clockPCR s < 0 \<longrightarrow> (\<forall>g \<in> set (gops s). gt g = -1)) \<and>
     (0 \<le> clockPCR s \<longrightarrow> 0 \<le> lastPCR s \<and> sorted (map gt (gops s)) \<and>
        (\<forall>g \<in> set (gops s). 0 \<le> gt g \<and> gt g \<le> clockT s))"

definition window_ok :: "State \<Rightarrow> bool" where
  "window_ok s \<longleftrightarrow> (ring90 s \<le> 0 \<longrightarrow> length (gops s) \<le> 1) \<and>
     (\<forall>g \<in> set (gops s). 0 \<le> gt g \<longrightarrow> gt (last (gops s)) - gt g \<le> max 0 (ring90 s))"

definition small_blocks :: "State \<Rightarrow> bool" where
  "small_blocks s \<longleftrightarrow> (\<forall>g \<in> set (gops s). 188 \<le> len (gdata g) \<and> len (gdata g) \<le> max (maxGOP s) 188)"

definition size_ok :: "State \<Rightarrow> bool" where
  "size_ok s \<longleftrightarrow> (clockPCR s < 0 \<longrightarrow> length (gops s) \<le> 1 \<or> ring_bytes (butlast (gops s)) + 188 \<le> maxRing s)"

definition retention_ok :: "State \<Rightarrow> bool" where
  "retention_ok s \<longleftrightarrow> time_ok s \<and> window_ok s \<and> small_blocks s \<and> size_ok s"

lemmas retention_defs [inv_simps] = retention_ok_def time_ok_def window_ok_def small_blocks_def size_ok_def

section \<open>Pruning restores the bounds\<close>

lemma aged_less: "gs \<noteq> [] \<Longrightarrow> aged n r gs < length gs"
  by (induction n r gs rule: aged.induct) auto

lemma aged_front:
  "gs \<noteq> [] \<Longrightarrow> length (drop (aged n r gs) gs) \<le> 1 \<or>
    (let h = hd (drop (aged n r gs) gs) in 0 \<le> gt h \<and> n - gt h \<le> r)"
  by (induction n r gs rule: aged.induct) auto

lemma excess_less: "gs \<noteq> [] \<Longrightarrow> excess l t gs < length gs"
  by (induction l t gs rule: excess.induct) auto

lemma excess_bound:
  "gs \<noteq> [] \<Longrightarrow> t = ring_bytes gs \<Longrightarrow> length (drop (excess l t gs) gs) \<le> 1 \<or>
    ring_bytes (drop (excess l t gs) gs) \<le> l"
  by (induction l t gs rule: excess.induct) (auto simp: ring_bytes_def)

lemma drop_front_frame:
  "gops (drop_front n s) = drop n (gops s)"
  "ring90 (drop_front n s) = ring90 s" "maxRing (drop_front n s) = maxRing s"
  "maxGOP (drop_front n s) = maxGOP s" "lastPCR (drop_front n s) = lastPCR s"
  "clockPCR (drop_front n s) = clockPCR s" "clockT (drop_front n s) = clockT s"
  "clockStep (drop_front n s) = clockStep s" "hlsTargetMS (drop_front n s) = hlsTargetMS s"
  "segs (drop_front n s) = segs s" "pinned (drop_front n s) = pinned s"
  "nextGOPID (drop_front n s) = nextGOPID s" "mem (drop_front n s) = mem s"
  "nextArr (drop_front n s) = nextArr s"
  using drop_front_eq [of n s] by auto

lemma hlsPrune_frame [simp]:
  "gops (hlsPrune s) = gops s" "ring90 (hlsPrune s) = ring90 s" "maxRing (hlsPrune s) = maxRing s"
  "maxGOP (hlsPrune s) = maxGOP s" "lastPCR (hlsPrune s) = lastPCR s" "clockPCR (hlsPrune s) = clockPCR s"
  "clockT (hlsPrune s) = clockT s" "clockStep (hlsPrune s) = clockStep s"
  "hlsTargetMS (hlsPrune s) = hlsTargetMS s" "pinned (hlsPrune s) = pinned s"
  "nextGOPID (hlsPrune s) = nextGOPID s" "mem (hlsPrune s) = mem s" "nextArr (hlsPrune s) = nextArr s"
  "freeBufs (hlsPrune s) = freeBufs s" "prunedID (hlsPrune s) = prunedID s"
  by (simp_all add: hlsPrune_def Let_def split: list.splits)

text \<open>What \<open>prune\<close> leaves is the end of the ring, within the window and the backstop.\<close>

lemma prune_result:
  assumes "prune s = Some s'" "gops s \<noteq> []"
  shows "\<exists>n < length (gops s). gops s' = drop n (gops s) \<and>
    ring90 s' = ring90 s \<and> maxRing s' = maxRing s \<and> maxGOP s' = maxGOP s \<and> lastPCR s' = lastPCR s \<and>
    clockPCR s' = clockPCR s \<and> clockT s' = clockT s \<and> clockStep s' = clockStep s \<and>
    hlsTargetMS s' = hlsTargetMS s \<and>
    (ring90 s \<le> 0 \<longrightarrow> length (gops s') = 1) \<and>
    (0 < ring90 s \<and> 0 \<le> gt (last (gops s)) \<longrightarrow> length (gops s') = 1 \<or>
       (\<exists>m \<le> n. let h = gops s ! m in 0 \<le> gt h \<and> gt (last (gops s)) - gt h \<le> ring90 s)) \<and>
    (0 < ring90 s \<and> gt (last (gops s)) < 0 \<and> (\<forall>g \<in> set (gops s). gt g < 0) \<longrightarrow>
       length (gops s') = 1 \<or> ring_bytes (gops s') \<le> maxRing s)"
proof (cases "ring90 s \<le> 0")
  case True
  then have s': "s' = (if length (gops s) > 1 then drop_front (length (gops s) - 1) s else s)"
    using assms(1) by (simp add: prune_def)
  have l: "0 < length (gops s)" using assms(2) by simp
  have "gops s' = drop (length (gops s) - 1) (gops s)"
    using s' l by (cases "length (gops s) > 1") (auto simp: drop_front_frame)
  moreover have "length (gops s) > 1 \<or> length (gops s) = 1" using l by linarith
  ultimately show ?thesis using s' True
    by (intro exI [of _ "length (gops s) - 1"]) (auto simp: drop_front_frame)
next
  case False
  define a where "a = (if 0 \<le> gt (last (gops s)) then aged (gt (last (gops s))) (ring90 s) (gops s) else 0)"
  have al: "a < length (gops s)" using assms(2) aged_less by (auto simp: a_def)
  define s1 where "s1 = prune_age s"
  have s1: "s1 = (if 0 \<le> gt (last (gops s)) then drop_front a s else s)"
    by (simp add: s1_def prune_age_def a_def Let_def)
  then have g1: "gops s1 = drop a (gops s)" by (auto simp: drop_front_frame a_def)
  then have ne1: "gops s1 \<noteq> []" using al by simp
  define b where "b = excess (byte_limit s1) (ring_bytes (gops s1)) (gops s1)"
  have bl: "b < length (gops s1)" using excess_less [OF ne1] by (simp add: b_def)
  have s': "s' = hlsPrune (drop_front b s1)"
    using assms False by (simp add: prune_def s1_def b_def prune_bytes_def)
  have g': "gops s' = drop b (gops s1)" by (simp add: s' drop_front_frame)
  then have gs: "gops s' = drop (a + b) (gops s)" by (simp add: g1 add.commute)
  have nl: "a + b < length (gops s)" using al bl g1 by simp
  have frames: "ring90 s' = ring90 s" "maxRing s' = maxRing s" "maxGOP s' = maxGOP s" "lastPCR s' = lastPCR s"
    "clockPCR s' = clockPCR s" "clockT s' = clockT s" "clockStep s' = clockStep s" "hlsTargetMS s' = hlsTargetMS s"
    using s1 by (auto simp: s' drop_front_frame)
  have age: "length (gops s') = 1 \<or> (\<exists>m \<le> a + b. let h = gops s ! m in 0 \<le> gt h \<and> gt (last (gops s)) - gt h \<le> ring90 s)"
    if "0 \<le> gt (last (gops s))"
  proof -
    from aged_front [OF assms(2), of "gt (last (gops s))" "ring90 s"] that
    consider "length (gops s1) \<le> 1" | "let h = hd (gops s1) in 0 \<le> gt h \<and> gt (last (gops s)) - gt h \<le> ring90 s"
      by (auto simp: g1 a_def)
    then show ?thesis
    proof cases
      case 1
      then have "length (gops s') = 1" using nl gs g1 bl g' by simp
      then show ?thesis ..
    next
      case 2
      then show ?thesis using al g1 by (intro disjI2 exI [of _ a]) (auto simp: hd_drop_conv_nth)
    qed
  qed
  have bytes: "length (gops s') = 1 \<or> ring_bytes (gops s') \<le> maxRing s"
    if "gt (last (gops s)) < 0" "\<forall>g \<in> set (gops s). gt g < 0"
  proof -
    have "gt (hd (gops s1)) < 0" using that(2) ne1 g1 by (metis hd_in_set in_set_dropD)
    then have "byte_limit s1 = maxRing s1" by (simp add: byte_limit_def Let_def)
    moreover have "maxRing s1 = maxRing s" using s1 by (simp add: drop_front_frame)
    ultimately show ?thesis using excess_bound [OF ne1 refl, of "byte_limit s1"] g' bl
      by (auto simp: b_def)
  qed
  show ?thesis using gs nl frames age bytes False
    by (intro exI [of _ "a + b"]) auto
qed

lemma ring_bytes_append [simp]: "ring_bytes (gs @ hs) = ring_bytes gs + ring_bytes hs"
  by (simp add: ring_bytes_def)

lemma prune_retention:
  assumes "prune s = Some s'" "gops s \<noteq> []" "time_ok s" "small_blocks s"
  shows "retention_ok s'"
proof -
  obtain n where n: "n < length (gops s)" "gops s' = drop n (gops s)" "ring90 s' = ring90 s"
    "maxRing s' = maxRing s" "maxGOP s' = maxGOP s" "lastPCR s' = lastPCR s" "clockPCR s' = clockPCR s"
    "clockT s' = clockT s" "clockStep s' = clockStep s" "hlsTargetMS s' = hlsTargetMS s"
    "ring90 s \<le> 0 \<longrightarrow> length (gops s') = 1"
    "0 < ring90 s \<and> 0 \<le> gt (last (gops s)) \<longrightarrow> length (gops s') = 1 \<or>
       (\<exists>m \<le> n. let h = gops s ! m in 0 \<le> gt h \<and> gt (last (gops s)) - gt h \<le> ring90 s)"
    "0 < ring90 s \<and> gt (last (gops s)) < 0 \<and> (\<forall>g \<in> set (gops s). gt g < 0) \<longrightarrow>
       length (gops s') = 1 \<or> ring_bytes (gops s') \<le> maxRing s"
    using prune_result [OF assms(1,2)] by blast
  have sub: "set (gops s') \<subseteq> set (gops s)" using n(2) set_drop_subset by metis
  have ne: "gops s' \<noteq> []" using n(1,2) by simp
  have last: "last (gops s') = last (gops s)" using n(1,2) by simp
  have time: "time_ok s'"
    using assms(3) sub unfolding time_ok_def n(6-10)
    by (auto simp: n(2) drop_map [symmetric] sorted_wrt_drop)
  have small: "small_blocks s'" using assms(4) sub by (auto simp: small_blocks_def n(5))
  have window: "window_ok s'"
  proof -
    have "gt (last (gops s')) - gt g \<le> max 0 (ring90 s)" if g: "g \<in> set (gops s')" "0 \<le> gt g" for g
    proof (cases "length (gops s') = 1")
      case True
      then have "g = last (gops s')" using g(1) by (cases "gops s'") auto
      then show ?thesis by simp
    next
      case False
      have pos: "0 < ring90 s" using False n(11) by fastforce
      have c: "0 \<le> clockPCR s" using assms(3) g sub by (force simp: time_ok_def)
      then have srt: "sorted (map gt (gops s))" and lt: "0 \<le> gt (last (gops s))"
        using assms(2,3) by (auto simp: time_ok_def)
      obtain m where m: "m \<le> n" "gt (last (gops s)) - gt (gops s ! m) \<le> ring90 s"
        using n(12) pos lt False by (auto simp: Let_def)
      obtain j where j: "n \<le> j" "j < length (gops s)" "g = gops s ! j"
      proof -
        obtain i where "i < length (drop n (gops s))" "g = drop n (gops s) ! i"
          using g(1) n(2) by (metis in_set_conv_nth)
        then show thesis using that [of "n + i"] n(1) by auto
      qed
      have "map gt (gops s) ! m \<le> map gt (gops s) ! j"
        using srt m(1) j(1,2) by (intro sorted_nth_mono) auto
      then have "gt (gops s ! m) \<le> gt g" using j m(1) by simp
      then show ?thesis using m(2) last by simp
    qed
    then show ?thesis using n(3,11) by (auto simp: window_ok_def)
  qed
  have size: "size_ok s'"
  proof (cases "clockPCR s < 0 \<and> length (gops s') > 1")
    case False
    then show ?thesis using n(7) by (auto simp: size_ok_def)
  next
    case True
    then have "ring90 s > 0" using n(11) by fastforce
    moreover have "\<forall>g \<in> set (gops s). gt g < 0" using True assms(3) by (auto simp: time_ok_def)
    moreover from this have "gt (last (gops s)) < 0" using assms(2) by simp
    ultimately have "ring_bytes (gops s') \<le> maxRing s" using n(13) True by auto
    moreover have "ring_bytes (gops s') = ring_bytes (butlast (gops s')) + len (gdata (last (gops s')))"
      using arg_cong [OF append_butlast_last_id [OF ne], of ring_bytes]
      by (simp only: ring_bytes_append) (simp add: ring_bytes_def)
    moreover have "188 \<le> len (gdata (last (gops s')))" using small ne by (simp add: small_blocks_def)
    ultimately show ?thesis by (simp add: size_ok_def n(4))
  qed
  from time window small size show ?thesis by (simp add: retention_ok_def)
qed

section \<open>The clock keeps times in order\<close>

lemma ringClock_time:
  assumes "time_ok s" "ringClock s = (t, s')"
  shows "time_ok s' \<and> (clockPCR s' < 0 \<longrightarrow> t = -1) \<and> (0 \<le> clockPCR s' \<longrightarrow> t = clockT s' \<and> 0 \<le> lastPCR s')"
proof (cases "lastPCR s < 0")
  case True
  then show ?thesis using assms by (auto simp: ringClock_def time_ok_def)
next
  case pcr: False
  show ?thesis
  proof (cases "clockPCR s < 0")
    case True
    have "sorted (map (gt \<circ> backfill) gs)" if "\<forall>g \<in> set gs. gt g = -1" for gs
    proof -
      have "map (gt \<circ> backfill) gs = replicate (length gs) 0"
        using that by (induction gs) (auto simp: backfill_def)
      then show ?thesis by simp
    qed
    with True pcr assms show ?thesis
      by (auto simp: ringClock_def time_ok_def backfill_def)
  next
    case False
    obtain d st where d: "clock_step (clockStep s) (hlsTargetMS s) (lastPCR s - clockPCR s) = (d, st)"
      by (metis prod.exhaust)
    then have "0 \<le> d" "0 \<le> st"
      using clock_step_nonneg [of "clockStep s" "hlsTargetMS s" "lastPCR s - clockPCR s"] assms(1)
      by (auto simp: time_ok_def)
    with d False pcr assms show ?thesis
      by (fastforce simp: ringClock_def time_ok_def Let_def)
  qed
qed

lemma ringClock_blocks:
  assumes "ringClock s = (t, s')"
  shows "map gdata (gops s') = map gdata (gops s)" "maxGOP s' = maxGOP s" "nextGOPID s' = nextGOPID s"
    "segs s' = segs s" "hlsTargetMS s' = hlsTargetMS s" "videoPID s' = videoPID s"
  using assms by (auto simp: ringClock_def backfill_def Let_def split: if_splits prod.splits)

lemma open_block_frame [simp]:
  "lastPCR (open_block G i pkt t p v s) = lastPCR s" "clockPCR (open_block G i pkt t p v s) = clockPCR s"
  "clockT (open_block G i pkt t p v s) = clockT s" "clockStep (open_block G i pkt t p v s) = clockStep s"
  "hlsTargetMS (open_block G i pkt t p v s) = hlsTargetMS s" "maxGOP (open_block G i pkt t p v s) = maxGOP s"
  "ring90 (open_block G i pkt t p v s) = ring90 s" "maxRing (open_block G i pkt t p v s) = maxRing s"
  "segs (open_block G i pkt t p v s) = segs s" "pinned (open_block G i pkt t p v s) = pinned s"
  using open_block_eq [of G i pkt t p v s] by auto

lemma open_block_gops:
  "\<exists>a c. gops (open_block G i pkt t p v s) = gops s @ [\<lparr>gid = i, gdata = pkt, garr = a, gcap = c,
     gt = t, gpts = p, gvideo = v\<rparr>]"
  using open_block_eq [of G i pkt t p v s] by auto

lemma open_block_time:
  assumes "time_ok s" "small_blocks s" "length pkt = 188"
    and "clockPCR s < 0 \<longrightarrow> t = -1" "0 \<le> clockPCR s \<longrightarrow> t = clockT s"
  shows "time_ok (open_block G i pkt t p v s)" "small_blocks (open_block G i pkt t p v s)"
proof -
  obtain a c where g: "gops (open_block G i pkt t p v s) = gops s @ [\<lparr>gid = i, gdata = pkt, garr = a,
      gcap = c, gt = t, gpts = p, gvideo = v\<rparr>]"
    using open_block_gops by blast
  show "time_ok (open_block G i pkt t p v s)"
    using assms(1,4,5) unfolding time_ok_def g by (auto simp: sorted_append)
  show "small_blocks (open_block G i pkt t p v s)"
    using assms(2,3) unfolding small_blocks_def g by (auto simp: len_def)
qed

lemma time_ok_cong:
  "gops s' = gops s \<Longrightarrow> lastPCR s' = lastPCR s \<Longrightarrow> clockPCR s' = clockPCR s \<Longrightarrow> clockT s' = clockT s \<Longrightarrow>
   clockStep s' = clockStep s \<Longrightarrow> hlsTargetMS s' = hlsTargetMS s \<Longrightarrow> time_ok s' = time_ok s"
  by (simp add: time_ok_def)

lemma retention_cong:
  "gops s' = gops s \<Longrightarrow> lastPCR s' = lastPCR s \<Longrightarrow> clockPCR s' = clockPCR s \<Longrightarrow> clockT s' = clockT s \<Longrightarrow>
   clockStep s' = clockStep s \<Longrightarrow> hlsTargetMS s' = hlsTargetMS s \<Longrightarrow> ring90 s' = ring90 s \<Longrightarrow>
   maxRing s' = maxRing s \<Longrightarrow> maxGOP s' = maxGOP s \<Longrightarrow> retention_ok s' = retention_ok s"
  by (simp add: inv_simps)

section \<open>Every operation keeps the bounds\<close>

lemma opened_retention:
  assumes "time_ok s" "small_blocks s" "length pkt = 188" "clockPCR s < 0 \<longrightarrow> t = -1"
    "0 \<le> clockPCR s \<longrightarrow> t = clockT s" "prune (open_block G i pkt t p v s) = Some s'"
  shows "retention_ok s'"
  using prune_retention [OF assms(6) open_block_nonempty] open_block_time [OF assms(1-5)] by blast

lemma small_blocks_alt:
  "small_blocks s \<longleftrightarrow> (\<forall>d \<in> set (map gdata (gops s)). 188 \<le> len d \<and> len d \<le> max (maxGOP s) 188)"
  by (simp add: small_blocks_def)

lemma open_keyframe_retention:
  assumes "retention_ok s" "length pkt = 188" "open_keyframe G pkt pid v s = Some s'"
  shows "retention_ok s'"
proof -
  let ?s = "s\<lparr>nextGOPID := nextGOPID s + 1\<rparr>"
  have "time_ok ?s" "small_blocks ?s" using assms(1) by (auto simp: inv_simps)
  moreover obtain t s1 where r: "ringClock ?s = (t, s1)" by (metis prod.exhaust)
  ultimately have s1: "time_ok s1" "clockPCR s1 < 0 \<longrightarrow> t = -1" "0 \<le> clockPCR s1 \<longrightarrow> t = clockT s1" "small_blocks s1"
    using ringClock_time [of ?s t s1] ringClock_blocks [OF r] by (auto simp: small_blocks_alt)
  obtain p s2 where p: "s2 = s1 \<or> (\<exists>q. s2 = hlsOnKeyframe (nextGOPID s) q s1)"
    "prune (open_block G (nextGOPID s) pkt t p v s2) = Some s'"
    using assms(3) r
    by (auto simp: open_keyframe_def Let_def split: Option.bind_splits option.splits if_splits)
  then have "time_ok s2 = time_ok s1" "small_blocks s2 = small_blocks s1" "clockPCR s2 = clockPCR s1" "clockT s2 = clockT s1"
    by (auto simp: time_ok_def small_blocks_def)
  with opened_retention [OF _ _ assms(2) _ _ p(2)] s1 show ?thesis by simp
qed

lemma open_cut_retention:
  assumes "retention_ok s" "length pkt = 188" "open_cut G pkt s = Some s'"
  shows "retention_ok s'"
proof -
  obtain c where c: "open_cut G pkt s = (let s1 = s\<lparr>noKeyframeCuts := c\<rparr>;
      (t, s2) = ringClock (s1\<lparr>clockStep := 0, nextGOPID := nextGOPID s + 1\<rparr>) in
      prune (open_block G (nextGOPID s) pkt t (-1) False s2))"
    by (cases "gops s = []") (auto simp: open_cut_def Let_def intro: that [of "noKeyframeCuts s"])
  let ?s = "s\<lparr>noKeyframeCuts := c, clockStep := 0, nextGOPID := nextGOPID s + 1\<rparr>"
  have "time_ok ?s" "small_blocks ?s" using assms(1) by (auto simp: inv_simps)
  moreover obtain t s1 where r: "ringClock ?s = (t, s1)" by (metis prod.exhaust)
  ultimately have s1: "time_ok s1" "clockPCR s1 < 0 \<longrightarrow> t = -1" "0 \<le> clockPCR s1 \<longrightarrow> t = clockT s1" "small_blocks s1"
    using ringClock_time [of ?s t s1] ringClock_blocks [OF r] by (auto simp: small_blocks_alt)
  have "prune (open_block G (nextGOPID s) pkt t (-1) False s1) = Some s'" using assms(3) c r by simp
  with opened_retention [OF s1(1,4) assms(2) s1(2,3)] show ?thesis by blast
qed

lemma extend_retention:
  assumes "retention_ok s" "length pkt = 188" "gops s \<noteq> []"
    "len (gdata (last (gops s))) + ring_PacketSize \<le> maxGOP s"
  shows "retention_ok (extend_block G pkt s)"
proof -
  let ?g = "last (gops s)"
  obtain b m a where e: "extend_block G pkt s = s\<lparr>mem := m, nextArr := a, gops := butlast (gops s) @
      [?g\<lparr>gdata := gdata ?g @ pkt, garr := fst b, gcap := snd b\<rparr>]\<rparr>"
    using extend_block_eq by blast
  have sp: "gops s = butlast (gops s) @ [?g]" using assms(3) by simp
  have times: "map gt (gops (extend_block G pkt s)) = map gt (gops s)"
    using arg_cong [OF sp, of "map gt"] by (simp add: e)
  have tset: "gt ` set (gops (extend_block G pkt s)) = gt ` set (gops s)"
    using times by (metis set_map)
  have "time_ok (extend_block G pkt s)"
  proof -
    have t: "time_ok s' \<longleftrightarrow> 0 \<le> clockStep s' \<and> 0 \<le> clockT s' \<and> 0 \<le> hlsTargetMS s' \<and>
        (clockPCR s' < 0 \<longrightarrow> (\<forall>t \<in> gt ` set (gops s'). t = -1)) \<and>
        (0 \<le> clockPCR s' \<longrightarrow> 0 \<le> lastPCR s' \<and> sorted (map gt (gops s')) \<and>
          (\<forall>t \<in> gt ` set (gops s'). 0 \<le> t \<and> t \<le> clockT s'))" for s'
      by (auto simp: time_ok_def)
    have "time_ok s" using assms(1) by (simp add: retention_ok_def)
    then show ?thesis unfolding t tset times by (simp add: e)
  qed
  moreover have "window_ok (extend_block G pkt s)"
    using assms(1,3) unfolding inv_simps by (auto simp: e dest: in_set_butlastD)
  moreover have "small_blocks (extend_block G pkt s)"
    using assms unfolding inv_simps by (auto simp: e len_def ring_PacketSize_def dest: in_set_butlastD)
  moreover have "size_ok (extend_block G pkt s)"
    using assms(1) unfolding inv_simps by (auto simp: e)
  ultimately show ?thesis by (simp add: retention_ok_def)
qed

lemma store_packet_cases:
  assumes "store_packet G pkt pid v k s = Some s'"
  obtains "open_keyframe G pkt pid v s = Some s'" | "open_cut G pkt s = Some s'"
  | "s' = extend_block G pkt s" "gops s \<noteq> []" "len (gdata (last (gops s))) + ring_PacketSize \<le> maxGOP s"
  using assms unfolding store_packet_def by (metis option.inject)

lemma store_packet_retention:
  assumes "retention_ok s" "length pkt = 188" "store_packet G pkt pid v k s = Some s'"
  shows "retention_ok s'"
  using assms(3)
proof (cases rule: store_packet_cases)
  case 1
  then show ?thesis by (rule open_keyframe_retention [OF assms(1,2)])
next
  case 2
  then show ?thesis by (rule open_cut_retention [OF assms(1,2)])
next
  case 3
  then show ?thesis using extend_retention [OF assms(1,2)] by simp
qed

lemma readPCR_nonneg: "readPCR pkt = Some p \<Longrightarrow> 0 \<le> p"
  by (auto simp: readPCR_def or_nonnegative_int_iff split: Option.bind_splits)

text \<open>The fields the packet readers leave alone.\<close>

definition kept_fields where
  "kept_fields s = (gops s, clockPCR s, clockT s, clockStep s, hlsTargetMS s, ring90 s, maxRing s, maxGOP s,
    segs s, nextSeq s, segStartID s, nextGOPID s, pinned s, freeBufs s, mem s, nextArr s,
    prunedID s, plValid s, plCache s, hlsMaxDur s, segLastPTS s, segSpan s, hlsStep s,
    hlsWindow s, discDropped s, segDisc s)"

lemma kept_fields_update [simp]:
  "kept_fields (s\<lparr>lastPAT := x0\<rparr>) = kept_fields s"
  "kept_fields (s\<lparr>lastPMT := x1\<rparr>) = kept_fields s"
  "kept_fields (s\<lparr>pmtPID := x2\<rparr>) = kept_fields s"
  "kept_fields (s\<lparr>pmtAsm := x3\<rparr>) = kept_fields s"
  "kept_fields (s\<lparr>pmtPkts := x4\<rparr>) = kept_fields s"
  "kept_fields (s\<lparr>videoPID := x5\<rparr>) = kept_fields s"
  "kept_fields (s\<lparr>videoType := x6\<rparr>) = kept_fields s"
  "kept_fields (s\<lparr>audioPID := x7\<rparr>) = kept_fields s"
  "kept_fields (s\<lparr>pcrPID := x8\<rparr>) = kept_fields s"
  "kept_fields (s\<lparr>pcrOnPID := x9\<rparr>) = kept_fields s"
  "kept_fields (s\<lparr>lastPCR := x10\<rparr>) = kept_fields s"
  "kept_fields (s\<lparr>audioPkts := x11\<rparr>) = kept_fields s"
  "kept_fields (s\<lparr>videoFrames := x12\<rparr>) = kept_fields s"
  by (simp_all add: kept_fields_def)

lemma kept_fields_same:
  assumes "kept_fields s' = kept_fields s"
  shows "gops s' = gops s" "clockPCR s' = clockPCR s" "clockT s' = clockT s" "clockStep s' = clockStep
    s" "hlsTargetMS s' = hlsTargetMS s" "ring90 s' = ring90 s" "maxRing s' = maxRing s" "maxGOP s' =
    maxGOP s" "segs s' = segs s" "nextSeq s' = nextSeq s" "segStartID s' = segStartID s" "nextGOPID
    s' = nextGOPID s" "pinned s' = pinned s" "freeBufs s' = freeBufs s" "mem s' = mem s" "nextArr s'
    = nextArr s" "prunedID s' = prunedID s" "plValid s' = plValid s" "plCache s' = plCache s"
    "hlsMaxDur s' = hlsMaxDur s" "segLastPTS s' = segLastPTS s" "segSpan s' = segSpan s" "hlsStep s'
    = hlsStep s" "hlsWindow s' = hlsWindow s" "discDropped s' = discDropped s" "segDisc s' = segDisc
    s"
  using assms by (simp_all add: kept_fields_def)

lemma count_packet_kept [simp]:
  "kept_fields (count_packet pid pusi s) = kept_fields s" "lastPCR (count_packet pid pusi s) = lastPCR s"
  by (simp_all add: count_packet_def)

lemma read_adaptation_kept:
  assumes "read_adaptation pkt pid s = Some (r, s')"
  shows "kept_fields s' = kept_fields s \<and> (lastPCR s' = lastPCR s \<or> 0 \<le> lastPCR s')"
  using assms
  by (auto simp: read_adaptation_def Let_def dest: readPCR_nonneg split: Option.bind_splits if_splits)

lemma adopt_section_kept:
  assumes "adopt_section sec s = Some s'"
  shows "kept_fields s' = kept_fields s \<and> lastPCR s' = lastPCR s"
proof -
  obtain es ok where es: "PMTStreamsSection sec = Some (es, ok)" using PMTStreamsSection_safe [of sec] by auto
  obtain m where m: "ParsePMTSection sec = Some m" using ParsePMTSection_safe [of sec] by auto
  obtain v a t where v: "pick_streams es (-1) (-1) 0 = (v, a, t)" by (metis prod_cases3)
  show ?thesis
    using assms unfolding adopt_section_def es m
    by (cases ok; cases m; simp add: v Let_def split: if_splits) auto
qed

lemma stage_pmt_kept [simp]:
  "kept_fields (stage_pmt pkt pusi s) = kept_fields s" "lastPCR (stage_pmt pkt pusi s) = lastPCR s"
  by (simp_all add: stage_pmt_def Let_def)

lemma read_tables_kept:
  assumes "read_tables pkt pid pusi s = Some s'"
  shows "kept_fields s' = kept_fields s \<and> lastPCR s' = lastPCR s"
proof (cases "pid = 0 \<and> pusi")
  case True
  then show ?thesis using assms
    by (cases "parsePMTPID pkt") (simp_all add: read_tables_def Let_def split: if_splits, auto)
next
  case pat: False
  show ?thesis
  proof (cases "pmtPID s \<ge> 0 \<and> pid = pmtPID s")
    case True
    let ?s = "stage_pmt pkt pusi s"
    have rt: "do { (a, sec) \<leftarrow> asm_Feed (pmtAsm ?s) pkt;
        let s = ?s\<lparr>pmtAsm := a\<rparr>;
        (case sec of None \<Rightarrow> Some s
         | Some sec \<Rightarrow> adopt_section sec (s\<lparr>lastPMT := pmtPkts s, pmtPkts := []\<rparr>)) } = Some s'"
      using assms unfolding read_tables_def if_not_P [OF pat] if_P [OF True] Let_def .
    then obtain a sec where f: "asm_Feed (pmtAsm ?s) pkt = Some (a, sec)"
      by (cases "asm_Feed (pmtAsm ?s) pkt") auto
    show ?thesis
    proof (cases sec)
      case None
      with rt f have "?s\<lparr>pmtAsm := a\<rparr> = s'" by simp
      then show ?thesis by auto
    next
      case (Some x)
      with rt f have "adopt_section x (?s\<lparr>pmtAsm := a, lastPMT := pmtPkts ?s, pmtPkts := []\<rparr>) = Some s'"
        by simp
      from adopt_section_kept [OF this] show ?thesis by simp
    qed
  next
    case False
    with assms pat have "s' = s" by (simp add: read_tables_def)
    then show ?thesis by simp
  qed
qed

text \<open>What a packet does before it is stored.\<close>

lemma update_packet_reads:
  assumes "update_packet G pkt s = Some s'" "pkt ! 0 = 0x47"
  shows "\<exists>s1 pid v k. kept_fields s1 = kept_fields s \<and> (lastPCR s1 = lastPCR s \<or> 0 \<le> lastPCR s1) \<and>
    store_packet G pkt pid v k s1 = Some s'"
proof -
  from assms(1) obtain b1 b2 where b: "at pkt 0 = Some (pkt ! 0)" "at pkt 1 = Some b1" "at pkt 2 = Some b2"
    using assms(2) by (auto simp: update_packet_def at_def split: Option.bind_splits if_splits)
  let ?pid = "packet_pid b1 b2" and ?u = "b1 AND 0x40 \<noteq> 0"
  let ?c = "count_packet ?pid ?u s"
  obtain r s1 where a: "read_adaptation pkt ?pid ?c = Some (r, s1)"
    using assms b by (auto simp: update_packet_def Let_def split: Option.bind_splits)
  obtain s2 v k where t: "read_tables pkt ?pid ?u s1 = Some s2" "store_packet G pkt ?pid v k s2 = Some s'"
    using assms b a by (auto simp: update_packet_def Let_def split: Option.bind_splits)
  from read_adaptation_kept [OF a] read_tables_kept [OF t(1)] t(2) show ?thesis by fastforce
qed

lemma retention_kept:
  assumes "kept_fields s' = kept_fields s" "lastPCR s' = lastPCR s \<or> 0 \<le> lastPCR s'" "retention_ok s"
  shows "retention_ok s'"
  using assms(2,3) unfolding inv_simps kept_fields_same [OF assms(1)] by auto

lemma update_packet_retention:
  assumes "retention_ok s" "length pkt = 188" "update_packet G pkt s = Some s'"
  shows "retention_ok s'"
proof (cases "pkt ! 0 = 0x47")
  case False
  then have "s' = s" using assms(2,3) by (simp add: update_packet_def at_def len_def)
  then show ?thesis using assms(1) by simp
next
  case True
  from update_packet_reads [OF assms(3) this] show ?thesis
    using retention_kept [OF _ _ assms(1)] store_packet_retention [OF _ assms(2)] by blast
qed

lemma Update_retention:
  assumes "retention_ok s" "Update G chunk s = Some s'"
  shows "retention_ok s'"
proof -
  have "retention_ok s'" if "run (update_packet G) ps s = Some s'" "\<forall>p \<in> set ps. length p = 188" "retention_ok s" for ps s
    using that
    by (induction ps arbitrary: s) (auto split: Option.bind_splits intro: update_packet_retention)
  then show ?thesis using assms packets_of_188 by (auto simp: Update_def)
qed

lemma recompute_retention:
  assumes "time_ok s" "small_blocks s" "recompute s = Some s'"
  shows "retention_ok s'"
proof -
  obtain r m where s': "(if gops s \<noteq> [] then prune (s\<lparr>ring90 := r, maxRing := m\<rparr>) else Some (s\<lparr>ring90 := r, maxRing := m\<rparr>)) = Some s'"
    using assms(3) by (auto simp: recompute_def Let_def split: if_splits)
  have "time_ok (s\<lparr>ring90 := r, maxRing := m\<rparr>)" "small_blocks (s\<lparr>ring90 := r, maxRing := m\<rparr>)"
    using assms(1,2) by (auto simp: time_ok_def small_blocks_def)
  then show ?thesis
    using s' prune_retention [of "s\<lparr>ring90 := r, maxRing := m\<rparr>" s']
    by (auto simp: inv_simps split: if_splits)
qed

lemma SetGated_retention:
  assumes "retention_ok s" "SetGated g s = Some s'"
  shows "retention_ok s'"
proof -
  from assms(2) consider "s' = s" | "recompute (s\<lparr>gated := g\<rparr>) = Some s'"
    unfolding SetGated_def by (metis option.inject)
  then show ?thesis
  proof cases
    case 2
    show ?thesis by (rule recompute_retention [OF _ _ 2]) (use assms(1) in \<open>auto simp: inv_simps\<close>)
  qed (use assms(1) in simp)
qed

lemma SetIdleRatio_retention:
  assumes "retention_ok s" "SetIdleRatio r s = Some s'"
  shows "retention_ok s'"
proof -
  from assms(2) consider "s' = s" | q where "recompute (s\<lparr>idleRatio := q\<rparr>) = Some s'"
    unfolding SetIdleRatio_def Let_def by (metis option.inject)
  then show ?thesis
  proof cases
    case (2 q)
    show ?thesis by (rule recompute_retention [OF _ _ 2]) (use assms(1) in \<open>auto simp: inv_simps\<close>)
  qed (use assms(1) in simp)
qed

lemma Configure_retention:
  assumes "retention_ok s" "Configure p t w s = Some s'"
  shows "retention_ok s'"
proof -
  obtain s1 where s1: "recompute s1 = Some s'" "gops s1 = gops s" "clockStep s1 = clockStep s" "clockT s1 = clockT s"
    "clockPCR s1 = clockPCR s" "lastPCR s1 = lastPCR s" "maxGOP s1 = maxGOP s" "0 \<le> hlsTargetMS s1"
    using assms(2) unfolding Configure_def Let_def by (rule that) simp_all
  show ?thesis
    by (rule recompute_retention [OF _ _ s1(1)])
      (use assms(1) s1(2-8) in \<open>simp_all add: retention_ok_def time_ok_def small_blocks_def\<close>)
qed

lemma Reset_retention: "retention_ok s \<Longrightarrow> retention_ok (Reset s)"
  by (auto simp: Reset_def Let_def inv_simps)

lemma fold_pin_frame [simp]:
  "ring90 (fold pin_block is s) = ring90 s" "maxRing (fold pin_block is s) = maxRing s"
  "maxGOP (fold pin_block is s) = maxGOP s" "lastPCR (fold pin_block is s) = lastPCR s"
  "clockPCR (fold pin_block is s) = clockPCR s" "clockT (fold pin_block is s) = clockT s"
  "clockStep (fold pin_block is s) = clockStep s" "hlsTargetMS (fold pin_block is s) = hlsTargetMS s"
  by (induction "is" arbitrary: s) (simp_all add: pin_block_def)

lemma fold_unpin_frame [simp]:
  "gops (fold unpin_block is s) = gops s"
  "ring90 (fold unpin_block is s) = ring90 s" "maxRing (fold unpin_block is s) = maxRing s"
  "maxGOP (fold unpin_block is s) = maxGOP s" "lastPCR (fold unpin_block is s) = lastPCR s"
  "clockPCR (fold unpin_block is s) = clockPCR s" "clockT (fold unpin_block is s) = clockT s"
  "clockStep (fold unpin_block is s) = clockStep s" "hlsTargetMS (fold unpin_block is s) = hlsTargetMS s"
  by (induction "is" arbitrary: s) (simp_all add: unpin_block_def)

lemma pin_retention [simp]: "retention_ok (snd (pin lo hi s)) = retention_ok s"
  by (rule retention_cong) (simp_all add: pin_def)

lemma Unpin_retention [simp]: "retention_ok (Unpin p s) = retention_ok s"
  by (rule retention_cong) (simp_all add: Unpin_def)

text \<open>A read, a snapshot or a segment changes the pins only.\<close>

lemma read_run_state:
  assumes "read_run s c mx = Some (r, s')"
  shows "s' = s \<or> (\<exists>lo hi. s' = snd (pin lo hi s))"
proof (cases "cGOP c - gid (hd (gops s)) \<ge> len (gops s)")
  case True
  then show ?thesis using assms by (simp add: read_run_def)
next
  case False
  with assms obtain out where "read_loop c (if mx < PacketSize then PacketSize else mx)
      (drop (nat (cGOP c - gid (hd (gops s)))) (gops s)) 0 [] c (-1) (-1) = Some out"
    by (auto simp: read_run_def Let_def split: Option.bind_splits)
  moreover obtain parts d lo hi edge where "out = (parts, d, lo, hi, edge)" by (metis prod.exhaust)
  ultimately have "s' = snd (if parts \<noteq> [] then pin lo hi s else (no_pin, s))"
    using assms False by (auto simp: read_run_def Let_def case_prod_beta)
  then show ?thesis by (cases "parts = []") auto
qed

lemma ReadFrom_state: "ReadFrom s c mx = Some (r, s') \<Longrightarrow> s' = s \<or> (\<exists>lo hi. s' = snd (pin lo hi s))"
  by (auto simp: ReadFrom_def Let_def split: if_splits dest: read_run_state)

lemma SnapshotPin_state:
  assumes "SnapshotPin s ms = Some (h, ps, p, s')"
  shows "s' = s \<or> (\<exists>lo hi. s' = snd (pin lo hi s))"
proof -
  obtain gs where gs: "slice_from (gops s) (joinIndex s ms) = Some gs"
    using assms by (auto simp: SnapshotPin_def Let_def split: Option.bind_splits)
  show ?thesis
  proof (cases "gs = []")
    case True
    with gs assms show ?thesis by (simp add: SnapshotPin_def)
  next
    case False
    with gs assms obtain g :: gop where "pin (gid g) (gid (last (gops s))) s = (p, s')"
      by (auto simp: SnapshotPin_def Let_def case_prod_beta split: Option.bind_splits)
    then have "s' = snd (pin (gid g) (gid (last (gops s))) s)" by (metis snd_conv)
    then show ?thesis by blast
  qed
qed

lemma HLSSegmentPin_state:
  "snd (HLSSegmentPin s n) = s \<or> (\<exists>lo hi. snd (HLSSegmentPin s n) = snd (pin lo hi s))"
  by (auto simp: HLSSegmentPin_def Let_def case_prod_beta split: option.splits)

lemma HLSPlaylist_retention [simp]: "retention_ok (snd (HLSPlaylist s)) = retention_ok s"
  by (rule retention_cong) (simp_all add: HLSPlaylist_def Let_def)

lemma ring_step_retention:
  assumes "retention_ok s" "ring_step G e s = Some s'"
  shows "retention_ok s'"
proof (cases e)
  case (OpRead c m)
  with assms(2) obtain r where "ReadFrom s c m = Some (r, s')" by (auto split: Option.bind_splits)
  from ReadFrom_state [OF this] assms(1) show ?thesis by auto
next
  case (OpSnapshot ms)
  with assms(2) obtain h ps p where "SnapshotPin s ms = Some (h, ps, p, s')" by (auto split: Option.bind_splits)
  from SnapshotPin_state [OF this] assms(1) show ?thesis by auto
next
  case (OpSegment n)
  with assms(2) have "s' = snd (HLSSegmentPin s n)" by simp
  with HLSSegmentPin_state [of s n] assms(1) show ?thesis by auto
next
  case (OpUpdate x)
  with assms(2) show ?thesis using Update_retention [OF assms(1)] by simp
next
  case (OpGate x)
  with assms(2) show ?thesis using SetGated_retention [OF assms(1)] by simp
next
  case (OpIdleRatio x)
  with assms(2) show ?thesis using SetIdleRatio_retention [OF assms(1)] by simp
next
  case (OpConfigure x y z)
  with assms(2) show ?thesis using Configure_retention [OF assms(1)] by simp
next
  case OpReset
  with assms(2) have "s' = Reset s" by simp
  then show ?thesis using Reset_retention [OF assms(1)] by simp
next
  case OpPlaylist
  with assms(2) have "s' = snd (HLSPlaylist s)" by simp
  then show ?thesis using assms(1) by simp
next
  case (OpUnpin x)
  with assms(2) have "s' = Unpin x s" by simp
  then show ?thesis using assms(1) by simp
qed

interpretation ring_held: safe_system "ring_step G" op_ok "\<lambda>s. log_ok (as_log s) \<and> retention_ok s" for G
  by unfold_locales (use ring_step_refines ring_step_retention in blast)

lemma New_retention: "New mg prebuf = Some s \<Longrightarrow> retention_ok s"
  by (auto simp: New_def recompute_def blank_def Let_def inv_simps)

text \<open>C10: what the ring holds is bounded, and in time order.  In any state the daemon can reach, block
  times never decrease from the oldest block to the newest; with no history configured the ring is
  one block; every block with a time is within the configured window of the newest; no block is
  longer than the cap; and a stream that has shown no usable clock is held to the byte backstop plus
  one open block.\<close>

theorem ring_retention:
  assumes "New mg prebuf = Some s0" "list_all op_ok es" "run (ring_step G) es s0 = Some s"
  shows "sorted (map gt (gops s)) \<and>
    (ring90 s \<le> 0 \<longrightarrow> length (gops s) \<le> 1) \<and>
    list_all (\<lambda>g. 0 \<le> gt g \<longrightarrow> gt (last (gops s)) - gt g \<le> max 0 (ring90 s)) (gops s) \<and>
    list_all (\<lambda>g. len (gdata g) \<le> max (maxGOP s) 188) (gops s) \<and>
    (clockPCR s < 0 \<longrightarrow> length (gops s) \<le> 1 \<or> ring_bytes (gops s) \<le> maxRing s + max (maxGOP s) 188 - 188)"
proof -
  have ok: "retention_ok s"
    using ring_held.run_preserves [OF _ assms(2,3)] New_log_ok [OF assms(1)] New_retention [OF assms(1)] by blast
  have srt: "sorted (map gt (gops s))"
  proof (cases "clockPCR s < 0")
    case True
    then have "map gt (gops s) = replicate (length (gops s)) (-1)"
      using ok by (auto simp: inv_simps list_eq_iff_nth_eq)
    then show ?thesis by simp
  qed (use ok in \<open>simp add: inv_simps\<close>)
  have bytes: "ring_bytes (gops s) \<le> maxRing s + max (maxGOP s) 188 - 188"
    if "clockPCR s < 0" "\<not> length (gops s) \<le> 1"
  proof -
    have ne: "gops s \<noteq> []" using that(2) by auto
    have "ring_bytes (butlast (gops s)) + 188 \<le> maxRing s" using ok that by (auto simp: inv_simps)
    moreover have "ring_bytes (gops s) = ring_bytes (butlast (gops s)) + len (gdata (last (gops s)))"
      using arg_cong [OF append_butlast_last_id [OF ne], of ring_bytes]
      by (simp only: ring_bytes_append) (simp add: ring_bytes_def)
    moreover have "len (gdata (last (gops s))) \<le> max (maxGOP s) 188" using ok ne by (simp add: inv_simps)
    ultimately show ?thesis by linarith
  qed
  show ?thesis using ok srt bytes by (auto simp: inv_simps list_all_iff)
qed

section \<open>The hypotheses at work\<close>

lemma clock_jump_bounded_witness:
  "let s = (blank 1000 0)\<lparr>clockStep := 180000, clockPCR := 5000000, lastPCR := 17, clockT := 900000\<rparr>
   in case ringClock s of (t, s') \<Rightarrow> 900000 \<le> t \<and> t \<le> 900000 + 360000 \<and> 0 < clockStep s'"
  using clock_jump_bounded [of "(blank 1000 0)\<lparr>clockStep := 180000, clockPCR := 5000000, lastPCR := 17,
      clockT := 900000\<rparr>"]
  by (simp add: blank_def split: prod.splits)

lemma clock_measures_time_witness:
  "fst (ringClock ((blank 1000 0)\<lparr>clockPCR := ptsWrap - 1000, lastPCR := 89000, clockT := 5\<rparr>)) = 90005"
  using clock_measures_time [of "(blank 1000 0)\<lparr>clockPCR := ptsWrap - 1000, lastPCR := 89000, clockT := 5\<rparr>" 90000]
  by (simp add: blank_def ptsWrap_def maxCadence_def)

lemma ring_retention_witness:
  "\<exists>s. run (ring_step (\<lambda>c n. n)) [OpUpdate (0x47 # replicate 187 0), OpReset] (blank 1000 0) = Some s \<and>
     sorted (map gt (gops s)) \<and> length (gops s) \<le> 1"
proof -
  obtain s where s: "run (ring_step (\<lambda>c n. n)) [OpUpdate (0x47 # replicate 187 0), OpReset] (blank 1000 0) = Some s"
    using ring_ops.run_safe [of "blank 1000 0" "[OpUpdate (0x47 # replicate 187 0), OpReset]" "\<lambda>c n. n"]
      New_log_ok [OF New_fresh] by (auto simp: op_ok_def)
  have "gops s = []" using s by (auto simp: Reset_def Let_def split: Option.bind_splits)
  with s ring_retention [OF New_fresh _ s] show ?thesis by (simp add: op_ok_def)
qed

end
