(* ===== verification/RingPins.thy ===== *)
theory RingPins
  imports RingTime
begin

text \<open>
  The ring's buffers: block arrays are recycled through a free list while readers hold slices into
  them.  The invariant here is that no two live buffers share an array and that a block's slice
  reads back its bytes; a slice a reader has pinned keeps its bytes until the reader unpins it,
  whatever the producer, the configuration and the other readers do meanwhile.
\<close>

section \<open>Buffers that do not alias\<close>

definition grows :: "(nat \<Rightarrow> nat \<Rightarrow> nat) \<Rightarrow> bool" where
  "grows G \<longleftrightarrow> (\<forall>c n. n \<le> G c n)"

definition buf_ok :: "(nat \<Rightarrow> bytes) \<Rightarrow> nat \<Rightarrow> nat \<times> nat \<Rightarrow> bool" where
  "buf_ok m n b \<longleftrightarrow> fst b < n \<and> length (m (fst b)) = snd b \<and> 0 < snd b"

definition blk_ok :: "(nat \<Rightarrow> bytes) \<Rightarrow> nat \<Rightarrow> gop \<Rightarrow> bool" where
  "blk_ok m n g \<longleftrightarrow> buf_ok m n (garr g, gcap g) \<and> length (gdata g) \<le> gcap g \<and>
     take (length (gdata g)) (m (garr g)) = gdata g"

definition bufs_ok :: "gop list \<Rightarrow> (nat \<times> nat) list \<Rightarrow> (nat \<Rightarrow> bytes) \<Rightarrow> nat \<Rightarrow> bool" where
  "bufs_ok gs fb m n \<longleftrightarrow> distinct (map garr gs) \<and> distinct (map fst fb) \<and>
     (\<forall>g \<in> set gs. \<forall>b \<in> set fb. garr g \<noteq> fst b) \<and>
     (\<forall>g \<in> set gs. blk_ok m n g) \<and> (\<forall>b \<in> set fb. buf_ok m n b)"

definition mem_ok :: "State \<Rightarrow> bool" where
  "mem_ok s \<longleftrightarrow> bufs_ok (gops s) (freeBufs s) (mem s) (nextArr s)"

text \<open>What a part's slice reads from memory, and when its bytes are out of the writers' reach: no free
  buffer is its array, and a block in its array is block \<open>i\<close>, beyond whose bytes it does not reach.\<close>

definition slice_bytes :: "State \<Rightarrow> part \<Rightarrow> bytes" where
  "slice_bytes s p = take (length (pdata p)) (drop (nat (poff p)) (mem s (parr p)))"

definition part_ok :: "gop list \<Rightarrow> (nat \<times> nat) list \<Rightarrow> (nat \<Rightarrow> bytes) \<Rightarrow> nat \<Rightarrow> int \<Rightarrow> part \<Rightarrow> bool" where
  "part_ok gs fb m n i p \<longleftrightarrow> parr p < n \<and> parr p \<notin> fst ` set fb \<and>
     (\<forall>g \<in> set gs. garr g = parr p \<longrightarrow> gid g = i \<and> nat (poff p) + length (pdata p) \<le> length (gdata g)) \<and>
     take (length (pdata p)) (drop (nat (poff p)) (m (parr p))) = pdata p"

definition safe_part :: "State \<Rightarrow> int \<Rightarrow> part \<Rightarrow> bool" where
  "safe_part s i p \<longleftrightarrow> part_ok (gops s) (freeBufs s) (mem s) (nextArr s) i p"

lemma safe_part_bytes: "safe_part s i p \<Longrightarrow> slice_bytes s p = pdata p"
  by (simp add: safe_part_def part_ok_def slice_bytes_def)

section \<open>Releasing blocks\<close>

lemma pins_cong: "pinned s' = pinned s \<Longrightarrow> pins s' = pins s"
  by (simp add: pins_def fun_eq_iff)

lemma release_frame [simp]:
  "mem (release g s) = mem s" "nextArr (release g s) = nextArr s" "pinned (release g s) = pinned s"
  "pins (release g s) = pins s" "gops (release g s) = gops s"
proof -
  obtain fb where r: "release g s = s\<lparr>prunedID := gid g, prunedLen := len (gdata g), freeBufs := fb\<rparr>"
    using release_eq by blast
  show "mem (release g s) = mem s" "nextArr (release g s) = nextArr s" "pinned (release g s) = pinned s"
    "pins (release g s) = pins s" "gops (release g s) = gops s"
    by (simp_all add: r pins_def fun_eq_iff)
qed

lemma fold_release_frame [simp]:
  "mem (fold release gs s) = mem s" "nextArr (fold release gs s) = nextArr s"
  "pinned (fold release gs s) = pinned s" "pins (fold release gs s) = pins s"
  by (induction gs arbitrary: s) simp_all

lemma release_freeBufs:
  "freeBufs (release g s) = freeBufs s \<or>
   (freeBufs (release g s) = freeBufs s @ [(garr g, gcap g)] \<and> pins s (gid g) \<le> 0)"
  by (auto simp: release_def putBuf_def Let_def pins_def)

lemma release_bufs:
  assumes "bufs_ok (g # gs) (freeBufs s) m n"
  shows "bufs_ok gs (freeBufs (release g s)) m n"
  using release_freeBufs [of g s]
proof
  assume "freeBufs (release g s) = freeBufs s"
  then show ?thesis using assms by (simp add: bufs_ok_def)
next
  assume f: "freeBufs (release g s) = freeBufs s @ [(garr g, gcap g)] \<and> pins s (gid g) \<le> 0"
  have "\<forall>b \<in> set (freeBufs s). garr g \<noteq> fst b" using assms by (simp add: bufs_ok_def)
  then have "garr g \<notin> fst ` set (freeBufs s)" by blast
  moreover have "garr g \<notin> garr ` set gs" using assms by (simp add: bufs_ok_def)
  then have "\<forall>h \<in> set gs. garr h \<noteq> garr g" by (metis imageI)
  moreover have "buf_ok m n (garr g, gcap g)"
    using assms by (simp add: bufs_ok_def blk_ok_def)
  ultimately show ?thesis using assms f unfolding bufs_ok_def by simp
qed

lemma release_part:
  assumes "part_ok (g # gs) (freeBufs s) m n i p" "0 < pins s i"
  shows "part_ok gs (freeBufs (release g s)) m n i p"
proof -
  have "garr g = parr p \<longrightarrow> 0 < pins s (gid g)" using assms by (auto simp: part_ok_def)
  then show ?thesis using release_freeBufs [of g s] assms(1) by (auto simp: part_ok_def)
qed

lemma fold_release_bufs:
  "bufs_ok (ds @ gs) (freeBufs s) m n \<Longrightarrow> bufs_ok gs (freeBufs (fold release ds s)) m n"
  by (induction ds arbitrary: s) (auto dest: release_bufs)

lemma fold_release_part:
  "part_ok (ds @ gs) (freeBufs s) m n i p \<Longrightarrow> 0 < pins s i \<Longrightarrow>
   part_ok gs (freeBufs (fold release ds s)) m n i p"
  by (induction ds arbitrary: s) (auto dest: release_part)

lemma drop_front_mem:
  "mem_ok s \<Longrightarrow> mem_ok (drop_front k s)"
  "safe_part s i p \<Longrightarrow> 0 < pins s i \<Longrightarrow> safe_part (drop_front k s) i p"
  "pins (drop_front k s) = pins s"
  using fold_release_bufs [of "take k (gops s)" "drop k (gops s)" s "mem s" "nextArr s"]
    fold_release_part [of "take k (gops s)" "drop k (gops s)" s "mem s" "nextArr s" i p]
  by (simp_all add: mem_ok_def safe_part_def drop_front_def)
    (rule pins_cong, simp)

section \<open>Appending\<close>

lemma append_in_place:
  assumes "n + length xs \<le> snd b" "length (mem s (fst b)) = snd b"
  shows "append_slice G b n xs s = (b, s\<lparr>mem := (mem s)(fst b := write_at (mem s (fst b)) n xs)\<rparr>)"
    "length (write_at (mem s (fst b)) n xs) = snd b"
    "take (n + length xs) (write_at (mem s (fst b)) n xs) = take n (mem s (fst b)) @ xs"
    "k + l \<le> n \<Longrightarrow> take l (drop k (write_at (mem s (fst b)) n xs)) = take l (drop k (mem s (fst b)))"
proof -
  show "append_slice G b n xs s = (b, s\<lparr>mem := (mem s)(fst b := write_at (mem s (fst b)) n xs)\<rparr>)"
    using assms(1) by (simp add: append_slice_def Let_def)
  show "length (write_at (mem s (fst b)) n xs) = snd b" using assms by (simp add: write_at_def)
  show "take (n + length xs) (write_at (mem s (fst b)) n xs) = take n (mem s (fst b)) @ xs"
    using assms by (simp add: write_at_def)
  show "take l (drop k (write_at (mem s (fst b)) n xs)) = take l (drop k (mem s (fst b)))" if "k + l \<le> n"
    using assms that by (simp add: write_at_def take_drop min_def)
qed

lemma append_fresh:
  assumes "snd b < n + length xs" "n \<le> length (mem s (fst b))" "grows G"
  shows "\<exists>c content. append_slice G b n xs s = ((nextArr s, c), s\<lparr>mem := (mem s)(nextArr s := content),
      nextArr := Suc (nextArr s)\<rparr>) \<and> length content = c \<and> n + length xs \<le> c \<and>
      take (n + length xs) content = take n (mem s (fst b)) @ xs"
proof -
  have "n + length xs \<le> G (snd b) (n + length xs)" using assms(3) by (simp add: grows_def)
  then show ?thesis using assms(1,2)
    by (intro exI [of _ "G (snd b) (n + length xs)"]
        exI [of _ "take n (mem s (fst b)) @ xs @ replicate (G (snd b) (n + length xs) - (n + length xs)) 0"])
      (simp add: append_slice_def Let_def)
qed

lemma blk_ok_other: "a \<noteq> garr g \<Longrightarrow> blk_ok (m(a := x)) n g = blk_ok m n g"
  by (simp add: blk_ok_def buf_ok_def)

lemma buf_ok_other: "a \<noteq> fst b \<Longrightarrow> buf_ok (m(a := x)) n b = buf_ok m n b"
  by (simp add: buf_ok_def)

lemma buf_ok_mono: "buf_ok m n b \<Longrightarrow> n \<le> n' \<Longrightarrow> buf_ok m n' b"
  by (simp add: buf_ok_def)

lemma blk_ok_mono: "blk_ok m n g \<Longrightarrow> n \<le> n' \<Longrightarrow> blk_ok m n' g"
  by (auto simp: blk_ok_def intro: buf_ok_mono)

lemma blks_ok_write:
  assumes "\<forall>g \<in> S. blk_ok m n g" "\<forall>g \<in> S. garr g \<noteq> a" "n \<le> n'"
  shows "\<forall>g \<in> S. blk_ok (m(a := x)) n' g"
proof
  fix g assume g: "g \<in> S"
  have "blk_ok (m(a := x)) n' g = blk_ok m n' g" by (rule blk_ok_other) (use assms(2) g in metis)
  then show "blk_ok (m(a := x)) n' g" using assms(1,3) g blk_ok_mono by blast
qed

lemma free_ok_write:
  assumes "\<forall>b \<in> S. buf_ok m n b" "\<forall>b \<in> S. fst b \<noteq> a" "n \<le> n'"
  shows "\<forall>b \<in> S. buf_ok (m(a := x)) n' b"
proof
  fix b assume b: "b \<in> S"
  have "buf_ok (m(a := x)) n' b = buf_ok m n' b" by (rule buf_ok_other) (use assms(2) b in metis)
  then show "buf_ok (m(a := x)) n' b" using assms(1,3) b buf_ok_mono by blast
qed

text \<open>A block opens in a recycled buffer or in a fresh array.\<close>

lemma open_block_mem:
  assumes "mem_ok s" "grows G" "0 < length pkt"
  shows "mem_ok (open_block G j pkt t q v s)"
    "safe_part s i p \<Longrightarrow> safe_part (open_block G j pkt t q v s) i p"
    "pins (open_block G j pkt t q v s) = pins s"
proof -
  obtain b s1 where g: "getBuf s = (b, s1)" by (metis prod.exhaust)
  have s1: "gops s1 = gops s" "mem s1 = mem s" "nextArr s1 = nextArr s" "pinned s1 = pinned s"
    "(b = (0, 0) \<and> freeBufs s1 = freeBufs s) \<or> (freeBufs s = freeBufs s1 @ [b])"
    using g by (auto simp: getBuf_def split: if_splits)
  let ?N = "\<lambda>a c. \<lparr>gid = j, gdata = pkt, garr = a, gcap = c, gt = t, gpts = q, gvideo = v\<rparr>"
  have ok: "bufs_ok (gops s) (freeBufs s) (mem s) (nextArr s)" using assms(1) by (simp add: mem_ok_def)
  have "mem_ok (open_block G j pkt t q v s) \<and>
    (safe_part s i p \<longrightarrow> safe_part (open_block G j pkt t q v s) i p) \<and>
    pins (open_block G j pkt t q v s) = pins s"
  proof (cases "length pkt \<le> snd b")
    case True
    then have "b \<noteq> (0, 0)" using assms(3) by auto
    then have fb: "freeBufs s = freeBufs s1 @ [b]" using s1(5) by blast
    have b: "fst b < nextArr s" "length (mem s (fst b)) = snd b" "0 < snd b"
      "\<forall>g \<in> set (gops s). garr g \<noteq> fst b"
      using ok fb by (auto simp: bufs_ok_def buf_ok_def)
    have "fst b \<notin> fst ` set (freeBufs s1)" using ok fb by (simp add: bufs_ok_def)
    then have b5: "\<forall>c \<in> set (freeBufs s1). fst c \<noteq> fst b" by (metis imageI)
    have w: "append_slice G b 0 pkt s1 = (b, s1\<lparr>mem := (mem s1)(fst b := write_at (mem s1 (fst b)) 0 pkt)\<rparr>)"
      using True by (simp add: append_slice_def)
    let ?m = "(mem s)(fst b := write_at (mem s (fst b)) 0 pkt)"
    have w2: "length (write_at (mem s (fst b)) 0 pkt) = snd b" "take (length pkt) (write_at (mem s (fst b)) 0 pkt) = pkt"
      using append_in_place(2,3) [of 0 pkt b s] True b(2) by simp_all
    have o: "open_block G j pkt t q v s = s1\<lparr>mem := ?m, gops := gops s @ [?N (fst b) (snd b)]\<rparr>"
      using g w s1 by (simp add: open_block_def)
    have "blk_ok ?m (nextArr s) (?N (fst b) (snd b))"
      using w2 True b by (simp add: blk_ok_def buf_ok_def)
    moreover have "\<forall>g \<in> set (gops s). blk_ok ?m (nextArr s) g"
      by (rule blks_ok_write) (use ok b(4) in \<open>auto simp: bufs_ok_def\<close>)
    moreover have "\<forall>c \<in> set (freeBufs s1). buf_ok ?m (nextArr s) c"
      by (rule free_ok_write) (use ok b5 fb in \<open>auto simp: bufs_ok_def\<close>)
    moreover have "distinct (map garr (gops s @ [?N (fst b) (snd b)]))" "distinct (map fst (freeBufs s1))"
      "\<forall>g \<in> set (gops s @ [?N (fst b) (snd b)]). \<forall>c \<in> set (freeBufs s1). garr g \<noteq> fst c"
      using ok fb b(4) b5 by (auto simp: bufs_ok_def)
    ultimately have "mem_ok (open_block G j pkt t q v s)" using s1 by (simp add: o mem_ok_def bufs_ok_def)
    moreover have "safe_part (open_block G j pkt t q v s) i p" if "safe_part s i p"
      using that fb s1 by (simp add: safe_part_def part_ok_def o)
    ultimately show ?thesis using s1 by (simp add: o pins_def fun_eq_iff)
  next
    case False
    obtain c content where w: "append_slice G b 0 pkt s1 = ((nextArr s1, c), s1\<lparr>mem := (mem s1)(nextArr s1 := content),
      nextArr := Suc (nextArr s1)\<rparr>)" "length content = c" "length pkt \<le> c" "take (length pkt) content = pkt"
      using append_fresh [of b 0 pkt s1 G] False assms(2) by auto
    let ?a = "nextArr s"
    let ?m = "(mem s)(?a := content)"
    have o: "open_block G j pkt t q v s = s1\<lparr>mem := ?m, nextArr := Suc ?a, gops := gops s @ [?N ?a c]\<rparr>"
      using g w(1) s1 by (simp add: open_block_def)
    have sub: "set (freeBufs s1) \<subseteq> set (freeBufs s)" "distinct (map fst (freeBufs s)) \<longrightarrow> distinct (map fst (freeBufs s1))"
      using s1(5) by auto
    have lt: "\<forall>g \<in> set (gops s). garr g < ?a" "\<forall>b \<in> set (freeBufs s). fst b < ?a"
      using ok by (auto simp: bufs_ok_def blk_ok_def buf_ok_def)
    have na: "\<forall>g \<in> set (gops s). garr g \<noteq> ?a" "\<forall>b \<in> set (freeBufs s1). fst b \<noteq> ?a"
      using lt sub(1) by (metis less_irrefl) (metis lt(2) sub(1) less_irrefl subsetD)
    have "0 < c" using w(3) assms(3) by linarith
    then have "blk_ok ?m (Suc ?a) (?N ?a c)" using w by (simp add: blk_ok_def buf_ok_def)
    moreover have "\<forall>g \<in> set (gops s). blk_ok ?m (Suc ?a) g"
      by (rule blks_ok_write [where n = ?a]) (use ok na(1) in \<open>auto simp: bufs_ok_def\<close>)
    moreover have "\<forall>c \<in> set (freeBufs s1). buf_ok ?m (Suc ?a) c"
      by (rule free_ok_write [where n = ?a]) (use ok na(2) sub(1) in \<open>auto simp: bufs_ok_def\<close>)
    moreover have "distinct (map garr (gops s @ [?N ?a c]))" "distinct (map fst (freeBufs s1))"
      "\<forall>g \<in> set (gops s @ [?N ?a c]). \<forall>b \<in> set (freeBufs s1). garr g \<noteq> fst b"
    proof -
      have "\<forall>g \<in> set (gops s). \<forall>b \<in> set (freeBufs s1). garr g \<noteq> fst b"
        using ok sub(1) unfolding bufs_ok_def by blast
      moreover have "\<forall>b \<in> set (freeBufs s1). ?a \<noteq> fst b" using na(2) by metis
      ultimately show "\<forall>g \<in> set (gops s @ [?N ?a c]). \<forall>b \<in> set (freeBufs s1). garr g \<noteq> fst b" by simp
      have "?a \<notin> garr ` set (gops s)" using na(1) by auto
      then show "distinct (map garr (gops s @ [?N ?a c]))" using ok by (simp add: bufs_ok_def)
      show "distinct (map fst (freeBufs s1))" using ok sub(2) by (simp add: bufs_ok_def)
    qed
    ultimately have "mem_ok (open_block G j pkt t q v s)" using s1 by (simp add: o mem_ok_def bufs_ok_def)
    moreover have "safe_part (open_block G j pkt t q v s) i p" if "safe_part s i p"
      using that sub(1) s1 by (auto simp: safe_part_def part_ok_def o)
    ultimately show ?thesis using s1 by (simp add: o pins_def fun_eq_iff)
  qed
  then show "mem_ok (open_block G j pkt t q v s)"
    "safe_part s i p \<Longrightarrow> safe_part (open_block G j pkt t q v s) i p"
    "pins (open_block G j pkt t q v s) = pins s" by blast+
qed

text \<open>The open block grows in place or moves to a fresh array; an old slice of it keeps its bytes.\<close>

lemma extend_block_mem:
  assumes "mem_ok s" "grows G" "gops s \<noteq> []" "0 < length pkt"
  shows "mem_ok (extend_block G pkt s)"
    "safe_part s i p \<Longrightarrow> safe_part (extend_block G pkt s) i p"
    "pins (extend_block G pkt s) = pins s"
proof -
  let ?g = "last (gops s)" and ?bs = "butlast (gops s)"
  have sp: "gops s = ?bs @ [?g]" using assms(3) by simp
  have ok: "bufs_ok (?bs @ [?g]) (freeBufs s) (mem s) (nextArr s)" using assms(1) sp by (simp add: mem_ok_def)
  have g: "garr ?g < nextArr s" "length (mem s (garr ?g)) = gcap ?g" "0 < gcap ?g" "length (gdata ?g) \<le> gcap ?g"
    "take (length (gdata ?g)) (mem s (garr ?g)) = gdata ?g"
    using ok by (simp_all add: bufs_ok_def blk_ok_def buf_ok_def)
  have other: "garr h \<noteq> garr ?g" "garr h < nextArr s" if "h \<in> set ?bs" for h
  proof -
    have "garr ?g \<notin> garr ` set ?bs" using ok by (simp add: bufs_ok_def)
    then show "garr h \<noteq> garr ?g" using that by (metis imageI)
    show "garr h < nextArr s" using ok that by (simp add: bufs_ok_def blk_ok_def buf_ok_def)
  qed
  have free: "fst b \<noteq> garr ?g" "fst b < nextArr s" if "b \<in> set (freeBufs s)" for b
    using ok that by (auto simp: bufs_ok_def buf_ok_def)
  have part: "parr p < nextArr s \<and> parr p \<notin> fst ` set (freeBufs s) \<and>
      (\<forall>h \<in> set ?bs. garr h = parr p \<longrightarrow> gid h = i \<and> nat (poff p) + length (pdata p) \<le> length (gdata h)) \<and>
      (garr ?g = parr p \<longrightarrow> gid ?g = i \<and> nat (poff p) + length (pdata p) \<le> length (gdata ?g)) \<and>
      take (length (pdata p)) (drop (nat (poff p)) (mem s (parr p))) = pdata p" if "safe_part s i p"
    using that sp unfolding safe_part_def part_ok_def by (metis Un_iff list.set_intros(1) set_append)
  let ?g' = "\<lambda>a c. ?g\<lparr>gdata := gdata ?g @ pkt, garr := a, gcap := c\<rparr>"
  have "mem_ok (extend_block G pkt s) \<and>
    (safe_part s i p \<longrightarrow> safe_part (extend_block G pkt s) i p) \<and>
    pins (extend_block G pkt s) = pins s"
  proof (cases "length (gdata ?g) + length pkt \<le> gcap ?g")
    case True
    let ?w = "write_at (mem s (garr ?g)) (length (gdata ?g)) pkt"
    let ?m = "(mem s)(garr ?g := ?w)"
    note w = append_in_place [of "length (gdata ?g)" pkt "(garr ?g, gcap ?g)" s, simplified, OF True g(2)]
    have o: "extend_block G pkt s = s\<lparr>mem := ?m, gops := ?bs @ [?g' (garr ?g) (gcap ?g)]\<rparr>"
      using w(1) [of G] by (simp add: extend_block_def Let_def)
    have "blk_ok ?m (nextArr s) (?g' (garr ?g) (gcap ?g))"
      using w(2,3) g True by (simp add: blk_ok_def buf_ok_def)
    moreover have "\<forall>h \<in> set ?bs. blk_ok ?m (nextArr s) h"
      by (rule blks_ok_write) (use ok other(1) in \<open>auto simp: bufs_ok_def\<close>)
    moreover have "\<forall>b \<in> set (freeBufs s). buf_ok ?m (nextArr s) b"
      by (rule free_ok_write) (use ok free(1) in \<open>auto simp: bufs_ok_def\<close>)
    ultimately have "mem_ok (extend_block G pkt s)"
      using ok by (auto simp: o mem_ok_def bufs_ok_def)
    moreover have "safe_part (extend_block G pkt s) i p" if "safe_part s i p"
    proof (cases "parr p = garr ?g")
      case True
      note q = part [OF that, unfolded True]
      have "take (length (pdata p)) (drop (nat (poff p)) ?w) = pdata p"
        using w(4) [of "nat (poff p)" "length (pdata p)"] q by simp
      moreover have "\<forall>b \<in> set (freeBufs s). garr ?g \<noteq> fst b" using free(1) by metis
      ultimately show ?thesis using q by (auto simp: safe_part_def part_ok_def o True)
    next
      case False
      then show ?thesis using part [OF that] unfolding safe_part_def part_ok_def o by simp
    qed
    moreover have "pins (extend_block G pkt s) = pins s" by (rule pins_cong) (simp add: o)
    ultimately show ?thesis by blast
  next
    case False
    let ?a = "nextArr s"
    obtain c content where w: "append_slice G (garr ?g, gcap ?g) (length (gdata ?g)) pkt s =
        ((?a, c), s\<lparr>mem := (mem s)(?a := content), nextArr := Suc ?a\<rparr>)" "length content = c"
      "length (gdata ?g) + length pkt \<le> c"
      "take (length (gdata ?g) + length pkt) content = gdata ?g @ pkt"
      using append_fresh [of "(garr ?g, gcap ?g)" "length (gdata ?g)" pkt s G] False assms(2) g by auto
    let ?m = "(mem s)(?a := content)"
    have na: "\<forall>h \<in> set ?bs. garr h \<noteq> ?a" "\<forall>b \<in> set (freeBufs s). fst b \<noteq> ?a"
      using other(2) free(2) by (metis less_irrefl)+
    have o: "extend_block G pkt s = s\<lparr>mem := ?m, nextArr := Suc ?a, gops := ?bs @ [?g' ?a c]\<rparr>"
      using w(1) by (simp add: extend_block_def Let_def)
    have "0 < c" using w(3) assms(4) by linarith
    then have "blk_ok ?m (Suc ?a) (?g' ?a c)" using w by (simp add: blk_ok_def buf_ok_def)
    moreover have "\<forall>h \<in> set ?bs. blk_ok ?m (Suc ?a) h"
      by (rule blks_ok_write [where n = ?a]) (use ok na(1) in \<open>auto simp: bufs_ok_def\<close>)
    moreover have "\<forall>b \<in> set (freeBufs s). buf_ok ?m (Suc ?a) b"
      by (rule free_ok_write [where n = ?a]) (use ok na(2) in \<open>auto simp: bufs_ok_def\<close>)
    ultimately have "mem_ok (extend_block G pkt s)"
      using ok na by (auto simp: o mem_ok_def bufs_ok_def)
    moreover have "safe_part (extend_block G pkt s) i p" if "safe_part s i p"
      using part [OF that] by (auto simp: safe_part_def part_ok_def o)
    moreover have "pins (extend_block G pkt s) = pins s" by (rule pins_cong) (simp add: o)
    ultimately show ?thesis by blast
  qed
  then show "mem_ok (extend_block G pkt s)"
    "safe_part s i p \<Longrightarrow> safe_part (extend_block G pkt s) i p"
    "pins (extend_block G pkt s) = pins s" by blast+
qed

section \<open>The operations\<close>

text \<open>What an operation that neither pins nor unpins does to memory and to a pinned part.\<close>

definition keeps_mem :: "State \<Rightarrow> State \<Rightarrow> bool" where
  "keeps_mem s s' \<longleftrightarrow> pins s' = pins s \<and> (mem_ok s \<longrightarrow> mem_ok s') \<and>
     (\<forall>i p. mem_ok s \<and> 0 < pins s i \<and> safe_part s i p \<longrightarrow> safe_part s' i p)"

lemma keeps_mem_refl: "keeps_mem s s"
  by (simp add: keeps_mem_def)

lemma keeps_mem_trans: "keeps_mem s t \<Longrightarrow> keeps_mem t u \<Longrightarrow> keeps_mem s u"
  by (simp add: keeps_mem_def)

lemma keeps_mem_cong:
  assumes "map (\<lambda>g. (gid g, gdata g, garr g, gcap g)) (gops s') = map (\<lambda>g. (gid g, gdata g, garr g, gcap g)) (gops s)"
    "freeBufs s' = freeBufs s" "mem s' = mem s" "nextArr s' = nextArr s" "pinned s' = pinned s"
  shows "keeps_mem s s'"
proof -
  let ?k = "\<lambda>g. (gid g, gdata g, garr g, gcap g)"
  have ball: "(\<forall>g \<in> set (gops s'). P (?k g)) = (\<forall>g \<in> set (gops s). P (?k g))" for P
    using arg_cong [OF assms(1), of "\<lambda>x. \<forall>k \<in> set x. P k"] by simp
  have "map garr (gops s') = map garr (gops s)"
    using arg_cong [OF assms(1), of "map (\<lambda>(a, b, c, d). c)"] by (simp add: o_def)
  moreover have "(\<forall>g \<in> set (gops s'). blk_ok m n g) = (\<forall>g \<in> set (gops s). blk_ok m n g)" for m n
    using ball [of "\<lambda>(i, d, a, c). buf_ok m n (a, c) \<and> length d \<le> c \<and> take (length d) (m a) = d"]
    by (simp add: blk_ok_def)
  moreover have "(\<forall>g \<in> set (gops s'). \<forall>b \<in> X. garr g \<noteq> fst b) = (\<forall>g \<in> set (gops s). \<forall>b \<in> X. garr g \<noteq> fst b)"
    for X :: "(nat \<times> nat) set"
    using ball [of "\<lambda>(i, d, a, c). \<forall>b \<in> X. a \<noteq> fst b"] by simp
  ultimately have "mem_ok s' = mem_ok s" by (simp add: mem_ok_def bufs_ok_def assms(2-4))
  moreover have "safe_part s' i p = safe_part s i p" for i p
    using ball [of "\<lambda>(j, d, a, c). a = parr p \<longrightarrow> j = i \<and> nat (poff p) + length (pdata p) \<le> length d"]
    by (simp add: safe_part_def part_ok_def assms(2-4))
  ultimately show ?thesis using pins_cong [OF assms(5)] by (simp add: keeps_mem_def)
qed

lemma drop_front_keeps: "keeps_mem s (drop_front n s)"
  unfolding keeps_mem_def by (intro conjI impI allI; (elim conjE)?; rule drop_front_mem; assumption?)

lemma open_block_keeps:
  assumes "grows G" "0 < length pkt"
  shows "keeps_mem s (open_block G j pkt t q v s)"
proof -
  have "pins (open_block G j pkt t q v s) = pins s" by (rule pins_cong) simp
  then show ?thesis unfolding keeps_mem_def using open_block_mem(1,2) [OF _ assms] by blast
qed

lemma extend_block_keeps:
  assumes "grows G" "0 < length pkt" "gops s \<noteq> []"
  shows "keeps_mem s (extend_block G pkt s)"
proof -
  obtain b m a where "extend_block G pkt s = s\<lparr>mem := m, nextArr := a,
     gops := butlast (gops s) @ [(last (gops s))\<lparr>gdata := gdata (last (gops s)) @ pkt,
       garr := fst b, gcap := snd b\<rparr>]\<rparr>"
    using extend_block_eq by blast
  then have "pins (extend_block G pkt s) = pins s" by (intro pins_cong) simp
  then show ?thesis unfolding keeps_mem_def using extend_block_mem(1,2) [OF _ assms(1,3,2)] by blast
qed

end
