(* ===== verification/RingSafety.thy ===== *)
theory RingSafety
  imports RingPins
begin

text \<open>
  Pins at work: every operation of the ring preserves the buffer invariant and the bytes of pinned
  slices; the pin counts are exactly the outstanding pins; so whatever a viewer was handed stays
  intact until the viewer gives its pin back.
\<close>

section \<open>Every operation keeps memory and pinned parts\<close>

lemma hlsPrune_keeps: "keeps_mem s (hlsPrune s)"
  by (rule keeps_mem_cong) simp_all

lemma prune_age_keeps: "keeps_mem s (prune_age s)"
  using drop_front_keeps keeps_mem_refl by (simp add: prune_age_def Let_def)

lemma prune_bytes_keeps: "keeps_mem s (prune_bytes s)"
  using drop_front_keeps by (simp add: prune_bytes_def)

lemma prune_keeps:
  assumes "prune s = Some s'"
  shows "keeps_mem s s'"
proof -
  have "keeps_mem s (hlsPrune (prune_bytes (prune_age s)))"
    using keeps_mem_trans [OF keeps_mem_trans [OF prune_age_keeps prune_bytes_keeps] hlsPrune_keeps] .
  then show ?thesis
    using assms drop_front_keeps keeps_mem_refl by (auto simp: prune_def split: if_splits)
qed

lemma ringClock_keeps:
  assumes "ringClock s = (t, s')"
  shows "keeps_mem s s'"
proof (rule keeps_mem_cong)
  have "map (\<lambda>g. (gid g, gdata g, garr g, gcap g)) (map backfill gs) =
      map (\<lambda>g. (gid g, gdata g, garr g, gcap g)) gs" for gs
    by (simp add: backfill_def)
  then show "map (\<lambda>g. (gid g, gdata g, garr g, gcap g)) (gops s') =
      map (\<lambda>g. (gid g, gdata g, garr g, gcap g)) (gops s)"
    using assms by (auto simp: ringClock_def Let_def simp del: map_map split: if_splits prod.splits)
qed (use assms in \<open>auto simp: ringClock_def Let_def split: if_splits prod.splits\<close>)

lemma hlsOnKeyframe_keeps: "keeps_mem s (hlsOnKeyframe i p s)"
  by (rule keeps_mem_cong) simp_all

lemma kept_fields_keeps:
  assumes "kept_fields s' = kept_fields s"
  shows "keeps_mem s s'"
  by (rule keeps_mem_cong) (simp_all only: kept_fields_same [OF assms])

lemma open_keyframe_keeps:
  assumes "grows G" "0 < length pkt" "open_keyframe G pkt pid v s = Some s'"
  shows "keeps_mem s s'"
proof -
  let ?s = "s\<lparr>nextGOPID := nextGOPID s + 1\<rparr>"
  have k0: "keeps_mem s ?s" by (rule keeps_mem_cong) simp_all
  obtain t s1 where r: "ringClock ?s = (t, s1)" by (metis prod.exhaust)
  obtain p s2 where p: "s2 = s1 \<or> (\<exists>q. s2 = hlsOnKeyframe (nextGOPID s) q s1)"
    "prune (open_block G (nextGOPID s) pkt t p v s2) = Some s'"
    using assms(3) r
    by (auto simp: open_keyframe_def Let_def split: Option.bind_splits option.splits if_splits)
  have "keeps_mem s1 s2" using p(1) hlsOnKeyframe_keeps keeps_mem_refl by blast
  note k2 = keeps_mem_trans [OF keeps_mem_trans [OF k0 ringClock_keeps [OF r]] this]
  show ?thesis
    by (rule keeps_mem_trans [OF keeps_mem_trans [OF k2 open_block_keeps [OF assms(1,2)]] prune_keeps [OF p(2)]])
qed

lemma open_cut_keeps:
  assumes "grows G" "0 < length pkt" "open_cut G pkt s = Some s'"
  shows "keeps_mem s s'"
proof -
  obtain c where c: "open_cut G pkt s = (let s1 = s\<lparr>noKeyframeCuts := c\<rparr>;
      (t, s2) = ringClock (s1\<lparr>clockStep := 0, nextGOPID := nextGOPID s + 1\<rparr>) in
      prune (open_block G (nextGOPID s) pkt t (-1) False s2))"
    by (cases "gops s = []") (auto simp: open_cut_def Let_def intro: that [of "noKeyframeCuts s"])
  let ?s = "s\<lparr>noKeyframeCuts := c, clockStep := 0, nextGOPID := nextGOPID s + 1\<rparr>"
  have k0: "keeps_mem s ?s" by (rule keeps_mem_cong) simp_all
  obtain t s1 where r: "ringClock ?s = (t, s1)" by (metis prod.exhaust)
  have p: "prune (open_block G (nextGOPID s) pkt t (-1) False s1) = Some s'" using assms(3) c r by simp
  show ?thesis
    by (rule keeps_mem_trans [OF keeps_mem_trans [OF keeps_mem_trans [OF k0 ringClock_keeps [OF r]]
        open_block_keeps [OF assms(1,2)]] prune_keeps [OF p]])
qed

lemma store_packet_keeps:
  assumes "grows G" "0 < length pkt" "store_packet G pkt pid v k s = Some s'"
  shows "keeps_mem s s'"
  using assms(3)
proof (cases rule: store_packet_cases)
  case 1
  then show ?thesis by (rule open_keyframe_keeps [OF assms(1,2)])
next
  case 2
  then show ?thesis by (rule open_cut_keeps [OF assms(1,2)])
next
  case 3
  then show ?thesis using extend_block_keeps [OF assms(1,2)] by simp
qed

lemma update_packet_keeps:
  assumes "grows G" "length pkt = 188" "update_packet G pkt s = Some s'"
  shows "keeps_mem s s'"
proof (cases "pkt ! 0 = 0x47")
  case False
  then have "s' = s" using assms(2,3) by (simp add: update_packet_def at_def len_def)
  then show ?thesis using keeps_mem_refl by simp
next
  case True
  have "0 < length pkt" using assms(2) by simp
  from update_packet_reads [OF assms(3) True] show ?thesis
    using kept_fields_keeps store_packet_keeps [OF assms(1) \<open>0 < length pkt\<close>] keeps_mem_trans by blast
qed

lemma Update_keeps:
  assumes "grows G" "Update G chunk s = Some s'"
  shows "keeps_mem s s'"
proof -
  have "keeps_mem s s'" if "run (update_packet G) ps s = Some s'" "\<forall>p \<in> set ps. length p = 188" for ps s
    using that
  proof (induction ps arbitrary: s)
    case Nil
    then show ?case using keeps_mem_refl by simp
  next
    case (Cons p ps)
    then obtain s1 where s1: "update_packet G p s = Some s1" "run (update_packet G) ps s1 = Some s'"
      by (auto split: Option.bind_splits)
    have "length p = 188" using Cons.prems by simp
    from keeps_mem_trans [OF update_packet_keeps [OF assms(1) this s1(1)] Cons.IH [OF s1(2)]] Cons.prems
    show ?case by simp
  qed
  then show ?thesis using assms(2) packets_of_188 by (auto simp: Update_def)
qed

lemma recompute_keeps:
  assumes "recompute s = Some s'"
  shows "keeps_mem s s'"
proof -
  obtain r m where s': "(if gops s \<noteq> [] then prune (s\<lparr>ring90 := r, maxRing := m\<rparr>) else Some (s\<lparr>ring90 := r, maxRing := m\<rparr>)) = Some s'"
    using assms by (auto simp: recompute_def Let_def split: if_splits)
  have "keeps_mem s (s\<lparr>ring90 := r, maxRing := m\<rparr>)" by (rule keeps_mem_cong) simp_all
  then show ?thesis using s' prune_keeps keeps_mem_trans by (metis option.inject)
qed

lemma SetGated_keeps: "SetGated g s = Some s' \<Longrightarrow> keeps_mem s s'"
proof -
  assume a: "SetGated g s = Some s'"
  have "keeps_mem s (s\<lparr>gated := g\<rparr>)" by (rule keeps_mem_cong) simp_all
  with a show ?thesis unfolding SetGated_def using recompute_keeps keeps_mem_trans keeps_mem_refl
    by (metis option.inject)
qed

lemma SetIdleRatio_keeps: "SetIdleRatio r s = Some s' \<Longrightarrow> keeps_mem s s'"
proof -
  assume a: "SetIdleRatio r s = Some s'"
  have "keeps_mem s (s\<lparr>idleRatio := q\<rparr>)" for q by (rule keeps_mem_cong) simp_all
  with a show ?thesis unfolding SetIdleRatio_def Let_def using recompute_keeps keeps_mem_trans keeps_mem_refl
    by (metis option.inject)
qed

lemma Configure_keeps: "Configure p t w s = Some s' \<Longrightarrow> keeps_mem s s'"
proof -
  assume a: "Configure p t w s = Some s'"
  obtain s1 where s1: "recompute s1 = Some s'" "gops s1 = gops s" "freeBufs s1 = freeBufs s" "mem s1 = mem s"
    "nextArr s1 = nextArr s" "pinned s1 = pinned s"
    using a unfolding Configure_def Let_def by (rule that) simp_all
  have "keeps_mem s s1" by (rule keeps_mem_cong) (simp_all add: s1)
  then show ?thesis using recompute_keeps [OF s1(1)] keeps_mem_trans by blast
qed

lemma Reset_keeps: "keeps_mem s (Reset s)"
proof -
  have "pins (Reset s) = pins s" by (rule pins_cong) (simp add: Reset_def Let_def)
  then show ?thesis
    by (auto simp: keeps_mem_def Reset_def Let_def mem_ok_def bufs_ok_def safe_part_def part_ok_def)
qed

lemma HLSPlaylist_keeps: "keeps_mem s (snd (HLSPlaylist s))"
  by (rule keeps_mem_cong) (simp_all add: HLSPlaylist_def Let_def)

section \<open>Counting pins\<close>

lemma pins_pin_block: "pins (pin_block j s) i = pins s i + (if i = j then 1 else 0)"
  by (simp add: pin_block_def pins_def)

lemma pins_fold_pin: "pins (fold pin_block is s) i = pins s i + int (count_list is i)"
  by (induction "is" arbitrary: s) (simp_all add: pins_pin_block)

lemma count_distinct: "distinct xs \<Longrightarrow> count_list xs x = (if x \<in> set xs then 1 else 0)"
  by (induction xs) auto

lemma count_upto: "count_list [lo..hi] i = (if lo \<le> i \<and> i \<le> hi then 1 else 0)"
  by (simp add: count_distinct)

lemma pins_pin: "pins (snd (pin lo hi s)) i = pins s i + (if lo \<le> i \<and> i \<le> hi then 1 else 0)"
  by (simp add: pin_def pins_fold_pin count_upto)

lemma pins_unpin_block:
  "1 \<le> pins s j \<Longrightarrow> pins (unpin_block j s) i = pins s i - (if i = j then 1 else 0)"
  by (auto simp: unpin_block_def pins_def split: option.splits)

lemma pins_fold_unpin:
  "distinct is \<Longrightarrow> \<forall>j \<in> set is. 1 \<le> pins s j \<Longrightarrow>
   pins (fold unpin_block is s) i = pins s i - (if i \<in> set is then 1 else 0)"
proof (induction "is" arbitrary: s)
  case (Cons j js)
  have p: "pins (unpin_block j s) k = pins s k - (if k = j then 1 else 0)" for k
    using Cons.prems by (simp add: pins_unpin_block)
  then have "\<forall>k \<in> set js. 1 \<le> pins (unpin_block j s) k" using Cons.prems by auto
  with Cons p show ?case by auto
qed simp

definition covers :: "int \<Rightarrow> Pin \<Rightarrow> bool" where
  "covers i p \<longleftrightarrow> held p \<and> plo p \<le> i \<and> i \<le> phi p"

definition counted :: "State \<Rightarrow> Pin list \<Rightarrow> bool" where
  "counted s ps \<longleftrightarrow> (\<forall>i. pins s i = int (length (filter (covers i) ps)))"

lemma counted_pin: "counted s ps \<Longrightarrow> counted (snd (pin lo hi s)) (fst (pin lo hi s) # ps)"
  by (simp add: counted_def pins_pin covers_def) (simp add: pin_def)

lemma length_filter_remove1:
  "p \<in> set ps \<Longrightarrow> length (filter P ps) = length (filter P (remove1 p ps)) + (if P p then 1 else 0)"
  by (induction ps) auto

lemma counted_unpin:
  assumes "counted s ps" "p \<in> set ps"
  shows "counted (Unpin p s) (remove1 p ps)"
proof (cases "held p")
  case False
  then have "\<not> covers i p" for i by (simp add: covers_def)
  with False assms length_filter_remove1 [OF assms(2)] show ?thesis
    by (simp add: counted_def Unpin_def)
next
  case True
  have one: "1 \<le> pins s i" if "i \<in> set [plo p..phi p]" for i
  proof -
    have "covers i p" using that True by (simp add: covers_def)
    then have "filter (covers i) ps \<noteq> []" using assms(2) by (auto simp: filter_empty_conv)
    then have "1 \<le> length (filter (covers i) ps)" by (simp add: Suc_le_eq)
    then show ?thesis using assms(1) by (simp add: counted_def)
  qed
  then have "pins (Unpin p s) i = pins s i - (if covers i p then 1 else 0)" for i
    using True pins_fold_unpin [of "[plo p..phi p]" s i] by (simp add: Unpin_def covers_def)
  then show ?thesis using assms(1) length_filter_remove1 [OF assms(2)] by (auto simp: counted_def)
qed

section \<open>What a read hands out\<close>

definition part_of :: "gop \<Rightarrow> part \<Rightarrow> bool" where
  "part_of g p \<longleftrightarrow> parr p = garr g \<and> 0 \<le> poff p \<and> nat (poff p) + length (pdata p) \<le> length (gdata g) \<and>
     pdata p = take (length (pdata p)) (drop (nat (poff p)) (gdata g))"

text \<open>A slice of a block's bytes is safe: it reads back from memory, and only its block is in its array.\<close>

lemma part_of_safe:
  assumes "mem_ok s" "g \<in> set (gops s)" "part_of g p"
  shows "safe_part s (gid g) p"
proof -
  have ok: "bufs_ok (gops s) (freeBufs s) (mem s) (nextArr s)" using assms(1) by (simp add: mem_ok_def)
  have b: "garr g < nextArr s" "take (length (gdata g)) (mem s (garr g)) = gdata g"
    using ok assms(2) by (auto simp: bufs_ok_def blk_ok_def buf_ok_def)
  have "\<forall>b \<in> set (freeBufs s). garr g \<noteq> fst b" using ok assms(2) by (simp add: bufs_ok_def)
  then have fr: "parr p \<notin> fst ` set (freeBufs s)" using assms(3) by (auto simp: part_of_def)
  have un: "h = g" if "h \<in> set (gops s)" "garr h = parr p" for h
    using ok assms(2,3) that by (auto simp: bufs_ok_def distinct_map inj_on_def part_of_def)
  have "pdata p = take (length (pdata p)) (drop (nat (poff p)) (take (length (gdata g)) (mem s (garr g))))"
    using assms(3) b(2) by (simp add: part_of_def)
  also have "\<dots> = take (length (pdata p)) (drop (nat (poff p)) (mem s (garr g)))"
  proof -
    have "length (pdata p) \<le> length (gdata g) - nat (poff p)" using assms(3) unfolding part_of_def by linarith
    then show ?thesis by (simp add: drop_take min_def)
  qed
  finally show ?thesis
    using assms(3) b(1) fr un by (auto simp: safe_part_def part_ok_def part_of_def)
qed

lemma read_loop_parts:
  assumes "read_loop c mx gs n parts next lo hi = Some (ps, next', lo', hi', edge)" "0 \<le> cOff c"
    and "\<forall>g \<in> set gs. 0 \<le> gid g" "sorted_wrt (<) (map gid gs)"
    and "parts \<noteq> [] \<longrightarrow> 0 \<le> lo \<and> (\<forall>g \<in> set gs. hi < gid g) \<and> lo \<le> hi" "parts = [] \<longrightarrow> lo < 0"
  shows "\<exists>qs. ps = parts @ qs \<and> (parts \<noteq> [] \<longrightarrow> lo' = lo \<and> hi \<le> hi') \<and>
    (\<forall>p \<in> set qs. \<exists>g \<in> set gs. part_of g p \<and> lo' \<le> gid g \<and> gid g \<le> hi') \<and> (ps \<noteq> [] \<longrightarrow> 0 \<le> lo' \<and> lo' \<le> hi')"
  using assms
proof (induction gs arbitrary: n parts "next" lo hi)
  case Nil
  then show ?case by auto
next
  case (Cons g gs)
  define o1 where "o1 = (if gid g = cGOP c then cOff c else 0)"
  define off where "off = (if o1 > len (gdata g) then len (gdata g) else o1)"
  have off: "0 \<le> off" "off \<le> len (gdata g)" using Cons.prems(2) by (auto simp: off_def o1_def)
  let ?rem = "drop (nat off) (gdata g)"
  have rem: "slice_from (gdata g) off = Some ?rem" using off by (auto simp: go_simps)
  have part: "part_of g \<lparr>parr = garr g, poff = off, pdata = take k ?rem\<rparr>" for k
    using off by (auto simp: part_of_def len_def min_def)
  have later: "\<forall>h \<in> set gs. gid g < gid h" using Cons.prems(4) by auto
  have g0: "0 \<le> gid g" using Cons.prems(3) by simp
  show ?case
  proof (cases "n + len ?rem > mx")
    case True
    define k where "k = (mx - n) sdiv PacketSize * PacketSize"
    show ?thesis
    proof (cases "k > 0")
      case kpos: True
      then obtain d where d: "slice_to ?rem k = Some d" "ps = parts @ [\<lparr>parr = garr g, poff = off, pdata = d\<rparr>]"
        "lo' = (if lo < 0 then gid g else lo)" "hi' = gid g"
        using Cons.prems(1) True rem
        by (auto simp: off_def [symmetric] o1_def [symmetric] Let_def k_def [symmetric] split: Option.bind_splits)
      then have "d = take (nat k) ?rem" by (auto simp: slice_to_def split: if_splits)
      then show ?thesis using d part [of "nat k"] g0 Cons.prems(5,6)
        by (intro exI [of _ "[\<lparr>parr = garr g, poff = off, pdata = d\<rparr>]"])
          (cases "parts = []"; force)
    next
      case False
      then have "ps = parts" "lo' = lo" "hi' = hi"
        using Cons.prems(1) True rem
        by (auto simp: off_def [symmetric] o1_def [symmetric] Let_def k_def [symmetric])
      then show ?thesis using Cons.prems(5,6) by auto
    qed
  next
    case False
    show ?thesis
    proof (cases "len ?rem > 0")
      case pos: True
      let ?p = "\<lparr>parr = garr g, poff = off, pdata = ?rem\<rparr>"
      let ?lo = "if lo < 0 then gid g else lo"
      have r: "read_loop c mx gs (n + len ?rem) (parts @ [?p]) (Cursor (gid g) (len (gdata g))) ?lo (gid g)
          = Some (ps, next', lo', hi', edge)"
        using Cons.prems(1) False pos rem by (simp add: off_def [symmetric] o1_def [symmetric] Let_def)
      have lo: "0 \<le> ?lo" "?lo \<le> gid g" using g0 Cons.prems(5,6) by (cases "parts = []"; force)+
      obtain qs where qs: "ps = (parts @ [?p]) @ qs" "lo' = ?lo" "gid g \<le> hi'"
        "\<forall>p \<in> set qs. \<exists>h \<in> set gs. part_of h p \<and> lo' \<le> gid h \<and> gid h \<le> hi'" "0 \<le> lo'" "lo' \<le> hi'"
        using Cons.IH [OF r Cons.prems(2)] Cons.prems(3,4) later lo by auto
      have pp: "part_of g ?p" using part [of "length ?rem"] by simp
      show ?thesis
        using qs pp lo Cons.prems(5,6) by (intro exI [of _ "?p # qs"]) (cases "parts = []"; force)
    next
      case zero: False
      have r: "read_loop c mx gs n parts (Cursor (gid g) (len (gdata g))) lo hi = Some (ps, next', lo', hi', edge)"
        using Cons.prems(1) False zero rem by (simp add: off_def [symmetric] o1_def [symmetric] Let_def)
      obtain qs where "ps = parts @ qs" "parts \<noteq> [] \<longrightarrow> lo' = lo \<and> hi \<le> hi'"
        "\<forall>p \<in> set qs. \<exists>h \<in> set gs. part_of h p \<and> lo' \<le> gid h \<and> gid h \<le> hi'" "ps \<noteq> [] \<longrightarrow> 0 \<le> lo' \<and> lo' \<le> hi'"
        using Cons.IH [OF r Cons.prems(2)] Cons.prems(3-6) by auto
      then show ?thesis by (intro exI [of _ qs]) auto
    qed
  qed
qed

end
