(* ===== verification/RingPinned.thy ===== *)
theory RingPinned
  imports RingSafety
begin

text \<open>
  The theorem the pins exist for: what a viewer was handed (by a read, a join snapshot or an HLS
  segment) stays intact in memory until it is given back.
\<close>

section \<open>Operations that hand out slices\<close>

fun hand_out :: "ring_op \<Rightarrow> State \<Rightarrow> (part list \<times> Pin \<times> State) go" where
  "hand_out (OpRead c m) s = do { (r, s') \<leftarrow> ReadFrom s c m; Some (rparts r, rpin r, s') }"
| "hand_out (OpSnapshot ms) s = do { (h, parts, p, s') \<leftarrow> SnapshotPin s ms; Some (parts, p, s') }"
| "hand_out (OpSegment n) s =
     Some (case HLSSegmentPin s n of
             (None, s') \<Rightarrow> ([], no_pin, s')
           | (Some (h, parts, p), s') \<Rightarrow> (parts, p, s'))"
| "hand_out _ s = None"

definition hands_out :: "ring_op \<Rightarrow> bool" where
  "hands_out e \<longleftrightarrow> (case e of OpRead c m \<Rightarrow> True | OpSnapshot ms \<Rightarrow> True | OpSegment n \<Rightarrow> True | _ \<Rightarrow> False)"

text \<open>The ring together with the pins its readers hold: a reader gives back a pin it took, once.\<close>

definition pin_step :: "(nat \<Rightarrow> nat \<Rightarrow> nat) \<Rightarrow> ring_op \<Rightarrow> State \<times> Pin list \<Rightarrow> (State \<times> Pin list) go" where
  "pin_step G e sp = (case sp of (s, ps) \<Rightarrow>
     if hands_out e then do {
       (parts, p, s') \<leftarrow> hand_out e s;
       Some (s', if held p then p # ps else ps) }
     else (case e of
             OpUnpin p \<Rightarrow> Some (if p \<in> set ps then (Unpin p s, remove1 p ps) else (s, ps))
           | _ \<Rightarrow> do { s' \<leftarrow> ring_step G e s; Some (s', ps) }))"

lemma pin_mem_frame [simp]:
  "gops (snd (pin lo hi s)) = gops s" "freeBufs (snd (pin lo hi s)) = freeBufs s"
  "mem (snd (pin lo hi s)) = mem s" "nextArr (snd (pin lo hi s)) = nextArr s"
proof -
  have f: "gops (fold pin_block is s) = gops s \<and> freeBufs (fold pin_block is s) = freeBufs s \<and>
      mem (fold pin_block is s) = mem s \<and> nextArr (fold pin_block is s) = nextArr s" for "is" s
    by (induction "is" arbitrary: s) (simp_all add: pin_block_def)
  show "gops (snd (pin lo hi s)) = gops s" "freeBufs (snd (pin lo hi s)) = freeBufs s"
    "mem (snd (pin lo hi s)) = mem s" "nextArr (snd (pin lo hi s)) = nextArr s"
    using f by (simp_all add: pin_def)
qed

lemma Unpin_mem_frame [simp]:
  "gops (Unpin p s) = gops s" "freeBufs (Unpin p s) = freeBufs s"
  "mem (Unpin p s) = mem s" "nextArr (Unpin p s) = nextArr s"
proof -
  have f: "gops (fold unpin_block is s) = gops s \<and> freeBufs (fold unpin_block is s) = freeBufs s \<and>
      mem (fold unpin_block is s) = mem s \<and> nextArr (fold unpin_block is s) = nextArr s" for "is" s
    by (induction "is" arbitrary: s) (simp_all add: unpin_block_def)
  show "gops (Unpin p s) = gops s" "freeBufs (Unpin p s) = freeBufs s"
    "mem (Unpin p s) = mem s" "nextArr (Unpin p s) = nextArr s"
    using f by (simp_all add: Unpin_def)
qed

lemma pin_mem [simp]: "mem_ok (snd (pin lo hi s)) = mem_ok s" "safe_part (snd (pin lo hi s)) i p = safe_part s i p"
  by (simp_all add: mem_ok_def safe_part_def)

lemma Unpin_mem [simp]: "mem_ok (Unpin q s) = mem_ok s" "safe_part (Unpin q s) i p = safe_part s i p"
  by (simp_all add: mem_ok_def safe_part_def)

lemma whole_part_of: "part_of g (whole_part g)"
  by (simp add: part_of_def whole_part_def)

lemma gids_nonneg:
  assumes "log_ok (as_log s)" "g \<in> set (gops s)"
  shows "0 \<le> gid g"
proof -
  have "(gid g, gdata g) \<in> set (blocks (as_log s))" using assms(2) by (auto simp: as_log_def)
  from log_ok_ids [OF assms(1) this] assms(1) show ?thesis by (simp add: log_ok_def)
qed

text \<open>What is handed out lies in blocks of the ring, which are the blocks pinned.\<close>

definition handed :: "State \<Rightarrow> part list \<Rightarrow> Pin \<Rightarrow> State \<Rightarrow> bool" where
  "handed s parts p s1 \<longleftrightarrow> (\<not> held p \<and> parts = [] \<and> s1 = s) \<or>
     (\<exists>lo hi. p = fst (pin lo hi s) \<and> s1 = snd (pin lo hi s) \<and>
       (\<forall>q \<in> set parts. \<exists>g \<in> set (gops s). part_of g q \<and> lo \<le> gid g \<and> gid g \<le> hi))"

lemma no_pin_held [simp]: "\<not> held no_pin"
  by (simp add: no_pin_def)

lemma read_run_handed:
  assumes "read_run s c mx = Some (r, s1)" "log_ok (as_log s)" "0 \<le> cOff c"
  shows "handed s (rparts r) (rpin r) s1"
proof (cases "cGOP c - gid (hd (gops s)) \<ge> len (gops s)")
  case True
  then show ?thesis using assms(1) by (auto simp: read_run_def handed_def)
next
  case False
  let ?gs = "drop (nat (cGOP c - gid (hd (gops s)))) (gops s)"
  let ?m = "if mx < PacketSize then PacketSize else mx"
  from False assms(1) obtain out where "read_loop c ?m ?gs 0 [] c (-1) (-1) = Some out"
    by (auto simp: read_run_def Let_def split: Option.bind_splits)
  moreover obtain parts d lo hi edge where "out = (parts, d, lo, hi, edge)" by (metis prod.exhaust)
  ultimately have l: "read_loop c ?m ?gs 0 [] c (-1) (-1) = Some (parts, d, lo, hi, edge)" by simp
  have sub: "set ?gs \<subseteq> set (gops s)" by (rule set_drop_subset)
  have srt: "sorted_wrt (<) (map gid ?gs)"
    using gops_ids(3) [OF assms(2)] by (simp add: sorted_wrt_drop flip: drop_map)
  have nn: "\<forall>g \<in> set ?gs. 0 \<le> gid g" using gids_nonneg [OF assms(2)] sub by blast
  from read_loop_parts [OF l assms(3) nn srt]
  have q: "\<forall>p \<in> set parts. \<exists>g \<in> set ?gs. part_of g p \<and> lo \<le> gid g \<and> gid g \<le> hi" by auto
  have r: "rparts r = parts" "rpin r = fst (if parts \<noteq> [] then pin lo hi s else (no_pin, s))"
    "s1 = snd (if parts \<noteq> [] then pin lo hi s else (no_pin, s))"
    using assms(1) False l by (auto simp: read_run_def Let_def case_prod_beta)
  show ?thesis
  proof (cases "parts = []")
    case True
    with r show ?thesis by (simp add: handed_def)
  next
    case False
    with r q sub show ?thesis unfolding handed_def by (intro disjI2 exI [of _ lo] exI [of _ hi]) auto
  qed
qed

lemma sorted_ids_range:
  "sorted_wrt (<) (map gid gs) \<Longrightarrow> g \<in> set gs \<Longrightarrow> gid (hd gs) \<le> gid g \<and> gid g \<le> gid (last gs)"
  by (induction gs) (auto simp: less_imp_le)

lemma hand_out_handed:
  assumes "hand_out e s = Some (parts, p, s1)" "log_ok (as_log s)" "op_ok e"
  shows "handed s parts p s1"
proof (cases e)
  case (OpRead c m)
  then obtain r where r: "ReadFrom s c m = Some (r, s1)" "parts = rparts r" "p = rpin r"
    using assms(1) by (auto split: Option.bind_splits)
  have "0 \<le> cOff c" using assms(3) OpRead by (simp add: op_ok_def)
  then show ?thesis
    using r read_run_handed [OF _ assms(2), of c m r s1]
      read_run_handed [OF _ assms(2), of "Cursor (gid (hd (gops s))) 0" m r s1]
    by (auto simp: ReadFrom_def Let_def handed_def split: if_splits)
next
  case (OpSnapshot ms)
  then obtain h where r: "SnapshotPin s ms = Some (h, parts, p, s1)"
    using assms(1) by (auto split: Option.bind_splits)
  show ?thesis
  proof (cases "gops s = []")
    case True
    then show ?thesis using r joinIndex_range(2) [of s ms]
      by (auto simp: SnapshotPin_def slice_from_def handed_def)
  next
    case False
    let ?k = "nat (joinIndex s ms)"
    note jr = joinIndex_range(1) [OF False, of ms]
    have k: "?k < length (gops s)" using jr by (simp add: len_def nat_less_iff)
    have eq: "SnapshotPin s ms = Some (ring_head s, map whole_part (drop ?k (gops s)),
        pin (gid (gops s ! ?k)) (gid (last (gops s))) s)"
      using jr k by (simp add: SnapshotPin_def go_simps Let_def case_prod_beta)
    have ids: "gid (gops s ! j) = prunedID s + 1 + int j" if "j < length (gops s)" for j
      by (rule gops_id_nth [OF assms(2) that])
    have "\<exists>g \<in> set (gops s). part_of g q \<and> gid (gops s ! ?k) \<le> gid g \<and> gid g \<le> gid (last (gops s))"
      if q: "q \<in> set (map whole_part (drop ?k (gops s)))" for q
    proof -
      obtain j where "j < length (drop ?k (gops s))" "q = whole_part (drop ?k (gops s) ! j)"
        using q by (auto simp: in_set_conv_nth)
      then have j: "?k + j < length (gops s)" "q = whole_part (gops s ! (?k + j))" using k by auto
      have "gid (last (gops s)) = gid (gops s ! (length (gops s) - 1))" using False by (simp add: last_conv_nth)
      then have "gid (gops s ! (?k + j)) \<le> gid (last (gops s))"
        using ids [OF j(1)] ids [of "length (gops s) - 1"] j(1) by auto
      moreover have "gid (gops s ! ?k) \<le> gid (gops s ! (?k + j))" using ids [OF j(1)] ids [OF k] by simp
      ultimately show ?thesis using j whole_part_of by (intro bexI [of _ "gops s ! (?k + j)"]) auto
    qed
    then show ?thesis using r eq unfolding handed_def
      by (intro disjI2 exI [of _ "gid (gops s ! ?k)"] exI [of _ "gid (last (gops s))"]) auto
  qed
next
  case (OpSegment n)
  show ?thesis
  proof (cases "fst (HLSSegmentPin s n)")
    case None
    then show ?thesis using assms(1) OpSegment HLSSegmentPin_state [of s n]
      by (auto simp: handed_def HLSSegmentPin_def Let_def case_prod_beta split: option.splits prod.splits if_splits)
  next
    case (Some x)
    obtain sg where sg: "find (\<lambda>sg. seq sg = n) (segs s) = Some sg"
      using Some by (auto simp: HLSSegmentPin_def split: option.splits)
    let ?gs = "filter (\<lambda>g. gid g \<ge> startID sg \<and> gid g \<le> endID sg) (gops s)"
    have c: "\<not> (gops s = [] \<or> gid (hd (gops s)) > startID sg)" "?gs \<noteq> []"
      using Some sg by (auto simp: HLSSegmentPin_def Let_def split: if_splits)
    have eq: "parts = map whole_part ?gs" "p = fst (pin (gid (hd ?gs)) (gid (last ?gs)) s)"
      "s1 = snd (pin (gid (hd ?gs)) (gid (last ?gs)) s)"
      using assms(1) OpSegment sg c by (auto simp: HLSSegmentPin_def Let_def case_prod_beta)
    have srt: "sorted_wrt (<) (map gid ?gs)"
      using gops_ids(3) [OF assms(2)] by (simp add: sorted_wrt_map sorted_wrt_filter)
    note rng = sorted_ids_range [OF srt]
    have "\<exists>g \<in> set (gops s). part_of g q \<and> gid (hd ?gs) \<le> gid g \<and> gid g \<le> gid (last ?gs)"
      if q: "q \<in> set (map whole_part ?gs)" for q
    proof -
      obtain g where g: "g \<in> set ?gs" "q = whole_part g" using q by auto
      then have "g \<in> set (gops s)" by simp
      moreover have "part_of g q" unfolding g(2) by (rule whole_part_of)
      ultimately show ?thesis using rng [OF g(1)] by blast
    qed
    then show ?thesis unfolding handed_def eq by blast
  qed
qed (use assms(1) in simp_all)

section \<open>Pins protect\<close>

lemma pins_covered:
  assumes "counted s ps" "p \<in> set ps" "covers i p"
  shows "0 < pins s i"
proof -
  have "filter (covers i) ps \<noteq> []" using assms(2,3) by (auto simp: filter_empty_conv)
  then show ?thesis using assms(1) by (simp add: counted_def)
qed

lemma counted_perm: "counted s ps \<Longrightarrow> (\<And>i. length (filter (covers i) ps) = length (filter (covers i) qs)) \<Longrightarrow> counted s qs"
  by (simp add: counted_def)

lemma ring_step_keeps:
  assumes "grows G" "\<not> hands_out e" "\<forall>p. e \<noteq> OpUnpin p" "ring_step G e s = Some s'"
  shows "keeps_mem s s'"
  using assms
  by (cases e) (auto simp: hands_out_def intro: Update_keeps SetGated_keeps SetIdleRatio_keeps Configure_keeps
      Reset_keeps HLSPlaylist_keeps)

lemma ring_step_hand_out:
  assumes "hands_out e" "hand_out e s = Some (parts, p, s')"
  shows "ring_step G e s = Some s'"
  using assms
  by (cases e) (auto simp: hands_out_def split: Option.bind_splits prod.splits option.splits)

text \<open>One step with the pins counted: our own pins \<open>us\<close> are not given back, so the parts they cover
  stay safe.\<close>

lemma pin_step_safe:
  assumes "grows G" "pin_step G e (s, ps) = Some (s', ps')" "op_ok e" "log_ok (as_log s)" "mem_ok s"
    "counted s (us @ ps)"
  shows "log_ok (as_log s') \<and> mem_ok s' \<and> counted s' (us @ ps') \<and>
    (\<forall>u \<in> set us. \<forall>i q. covers i u \<and> safe_part s i q \<longrightarrow> safe_part s' i q)"
proof (cases "hands_out e")
  case True
  then obtain parts p where h: "hand_out e s = Some (parts, p, s')" "ps' = (if held p then p # ps else ps)"
    using assms(2) by (auto simp: pin_step_def split: Option.bind_splits)
  have "log_ok (as_log s')"
    using ring_step_refines [OF assms(4,3), of G] ring_step_hand_out [OF True h(1), of G] by auto
  moreover from hand_out_handed [OF h(1) assms(4,3)]
  have "mem_ok s' \<and> counted s' (us @ ps') \<and> (\<forall>i q. safe_part s i q \<longrightarrow> safe_part s' i q)"
    unfolding handed_def
  proof
    assume "\<not> held p \<and> parts = [] \<and> s' = s"
    with h assms(5,6) show ?thesis by simp
  next
    assume "\<exists>lo hi. p = fst (pin lo hi s) \<and> s' = snd (pin lo hi s) \<and>
       (\<forall>q \<in> set parts. \<exists>g \<in> set (gops s). part_of g q \<and> lo \<le> gid g \<and> gid g \<le> hi)"
    then obtain lo hi where p: "p = fst (pin lo hi s)" "s' = snd (pin lo hi s)" by blast
    then have "held p" by (simp add: pin_def)
    moreover have "counted s' (p # us @ ps)" using counted_pin [OF assms(6), of lo hi] p by simp
    then have "counted s' (us @ p # ps)" by (rule counted_perm) simp
    ultimately show ?thesis using p h(2) assms(5) by simp
  qed
  ultimately show ?thesis by blast
next
  case nh: False
  show ?thesis
  proof (cases "\<exists>p. e = OpUnpin p")
    case True
    then obtain p where e: "e = OpUnpin p" by blast
    then have st: "(s', ps') = (if p \<in> set ps then (Unpin p s, remove1 p ps) else (s, ps))"
      using assms(2) nh by (simp add: pin_step_def)
    show ?thesis
    proof (cases "p \<in> set ps")
      case False
      with st assms show ?thesis by simp
    next
      case True
      have "counted (Unpin p s) (remove1 p (us @ ps))" using counted_unpin [OF assms(6)] True by simp
      moreover have "length (filter P (remove1 p (us @ ps))) = length (filter P (us @ remove1 p ps))" for P
        using length_filter_remove1 [of p "us @ ps" P] length_filter_remove1 [OF True, of P] True by simp
      ultimately have "counted (Unpin p s) (us @ remove1 p ps)" by (rule counted_perm)
      with st True assms(4,5) show ?thesis by simp
    qed
  next
    case False
    then have st: "ring_step G e s = Some s'" "ps' = ps"
      using assms(2) nh by (cases e; auto simp: pin_step_def hands_out_def split: Option.bind_splits)+
    have k: "keeps_mem s s'" using ring_step_keeps [OF assms(1) nh _ st(1)] False by blast
    have "log_ok (as_log s')" using ring_step_refines [OF assms(4,3), of G] st(1) by auto
    moreover have "mem_ok s'" "counted s' (us @ ps')"
      using k assms(5,6) st(2) by (simp_all add: keeps_mem_def counted_def)
    moreover have "safe_part s' i q" if "u \<in> set us" "covers i u" "safe_part s i q" for u i q
    proof -
      have "0 < pins s i" using pins_covered [OF assms(6), of u i] that by simp
      then show ?thesis using k assms(5) that(3) by (simp add: keeps_mem_def)
    qed
    ultimately show ?thesis by blast
  qed
qed

lemma pin_run_safe:
  assumes "grows G"
  shows "run (pin_step G) es (s, ps) = Some (s', ps') \<Longrightarrow> list_all op_ok es \<Longrightarrow> log_ok (as_log s) \<Longrightarrow>
    mem_ok s \<Longrightarrow> counted s (us @ ps) \<Longrightarrow>
    log_ok (as_log s') \<and> mem_ok s' \<and> counted s' (us @ ps') \<and>
    (\<forall>u \<in> set us. \<forall>i q. covers i u \<and> safe_part s i q \<longrightarrow> safe_part s' i q)"
proof (induction es arbitrary: s ps)
  case Nil
  then show ?case by simp
next
  case (Cons e es)
  then obtain s1 ps1 where st: "pin_step G e (s, ps) = Some (s1, ps1)" "run (pin_step G) es (s1, ps1) = Some (s', ps')"
    by (auto split: Option.bind_splits)
  have "op_ok e" using Cons.prems by simp
  note a = pin_step_safe [OF assms st(1) this Cons.prems(3-5)]
  note b = Cons.IH [OF st(2)]
  show ?case using a b Cons.prems(2) by auto
qed

lemma New_mem:
  assumes "New mg prebuf = Some s"
  shows "mem_ok s" "counted s []"
  using assms
  by (auto simp: New_def recompute_def blank_def Let_def mem_ok_def bufs_ok_def counted_def pins_def)

text \<open>What is handed out under a pin reads the same for as long as the pin is held.\<close>

lemma handed_intact:
  assumes "grows G" "log_ok (as_log s)" "mem_ok s" "counted s ps" "op_ok e" "hand_out e s = Some (parts, p, s1)"
    and "list_all op_ok es" "run (pin_step G) es (s1, ps) = Some (s2, ps2)"
  shows "(\<forall>q \<in> set parts. slice_bytes s2 q = pdata q) \<and> mem_ok s2 \<and> counted s2 (if held p then p # ps2 else ps2)"
proof -
  have ho: "hands_out e" using assms(6) by (cases e) (simp_all add: hands_out_def)
  have l1: "log_ok (as_log s1)"
    using ring_step_refines [OF assms(2,5), of G] ring_step_hand_out [OF ho assms(6), of G] by auto
  from hand_out_handed [OF assms(6,2,5)] show ?thesis
    unfolding handed_def
  proof
    assume "\<not> held p \<and> parts = [] \<and> s1 = s"
    then show ?thesis using pin_run_safe [OF assms(1,8,7) l1, of "[]"] assms(3,4) by simp
  next
    assume "\<exists>lo hi. p = fst (pin lo hi s) \<and> s1 = snd (pin lo hi s) \<and>
       (\<forall>q \<in> set parts. \<exists>g \<in> set (gops s). part_of g q \<and> lo \<le> gid g \<and> gid g \<le> hi)"
    then obtain lo hi where h: "p = fst (pin lo hi s)" "s1 = snd (pin lo hi s)"
      "\<forall>q \<in> set parts. \<exists>g \<in> set (gops s). part_of g q \<and> lo \<le> gid g \<and> gid g \<le> hi" by blast
    have c: "counted s1 ([p] @ ps)" using counted_pin [OF assms(4), of lo hi] h by simp
    have m: "mem_ok s1" using assms(3) h by simp
    have hp: "held p" using h(1) by (simp add: pin_def)
    note fin = pin_run_safe [OF assms(1,8,7) l1 m c]
    have "slice_bytes s2 q = pdata q" if q: "q \<in> set parts" for q
    proof -
      obtain g where g: "g \<in> set (gops s)" "part_of g q" "lo \<le> gid g" "gid g \<le> hi" using h(3) q by blast
      have "safe_part s1 (gid g) q" using part_of_safe [OF assms(3) g(1,2)] h(2) by simp
      moreover have "covers (gid g) p" using g(3,4) h(1) by (simp add: covers_def pin_def)
      ultimately have "safe_part s2 (gid g) q" using fin by simp
      then show ?thesis by (rule safe_part_bytes)
    qed
    then show ?thesis using fin hp by simp
  qed
qed

text \<open>C2: what a viewer was handed stays intact.  In any state the daemon can reach, with any other
  readers holding pins, let an operation hand out slices of the ring's own buffers under a pin;
  then whatever happens while that pin is held (the producer filling, cutting and recycling blocks,
  reconfiguration, a reset, other viewers reading and giving back), each slice still reads the
  bytes it was handed out with, and every block of the ring still reads back its own: recycling
  never rewrites bytes under a reader, nor mixes two blocks.\<close>

theorem pinned_slices_intact:
  assumes "grows G" "New mg prebuf = Some s0" "list_all op_ok pre" "run (pin_step G) pre (s0, []) = Some (s, ps)"
    and "op_ok e" "hand_out e s = Some (parts, p, s1)"
    and "list_all op_ok es" "run (pin_step G) es (s1, ps) = Some (s2, ps2)"
  shows "list_all (\<lambda>q. slice_bytes s2 q = pdata q) parts \<and>
    list_all (\<lambda>g. take (length (gdata g)) (mem s2 (garr g)) = gdata g) (gops s2)"
proof -
  have inv: "log_ok (as_log s)" "mem_ok s" "counted s ps"
    using pin_run_safe [OF assms(1,4,3), of "[]"] New_log_ok [OF assms(2)] New_mem [OF assms(2)] by auto
  from handed_intact [OF assms(1) inv assms(5-8)] show ?thesis
    by (simp add: mem_ok_def bufs_ok_def blk_ok_def list_all_iff)
qed

text \<open>The hypotheses at work: a viewer holds the first block's bytes while the ring is reset and filled
  again.\<close>

lemma pinned_slices_intact_witness:
  "\<exists>s ps parts p s1 s2 ps2.
     run (pin_step (\<lambda>c n. n)) [OpUpdate (0x47 # replicate 187 7)] (blank 1000 0, []) = Some (s, ps) \<and>
     hand_out (OpRead (Cursor 0 0) 1000) s = Some (parts, p, s1) \<and>
     run (pin_step (\<lambda>c n. n)) [OpReset, OpUpdate (0x47 # replicate 187 9)] (s1, ps) = Some (s2, ps2) \<and>
     list_all (\<lambda>q. slice_bytes s2 q = pdata q) parts"
proof -
  let ?G = "\<lambda>c n :: nat. n"
  let ?p = "0x47 # replicate 187 7 :: bytes" and ?q = "0x47 # replicate 187 9 :: bytes"
  have upd: "\<exists>s'. pin_step ?G (OpUpdate d) (s, ps) = Some (s', ps)" for d s ps
    using Update_safe [of ?G d s] by (auto simp: pin_step_def hands_out_def)
  obtain s where s: "run (pin_step ?G) [OpUpdate ?p] (blank 1000 0, []) = Some (s, [])"
    using upd [of ?p "blank 1000 0" "[]"] by auto
  have "log_ok (as_log s)"
    using pin_run_safe [of ?G "[OpUpdate ?p]" "blank 1000 0" "[]" s "[]" "[]"] s New_log_ok [OF New_fresh]
      New_mem [OF New_fresh] by (simp add: grows_def op_ok_def)
  then obtain r s1 where r: "ReadFrom s (Cursor 0 0) 1000 = Some (r, s1)"
    using ReadFrom_safe [of s "Cursor 0 0" 1000] by auto
  then have h: "hand_out (OpRead (Cursor 0 0) 1000) s = Some (rparts r, rpin r, s1)" by simp
  obtain s2 where s2: "run (pin_step ?G) [OpReset, OpUpdate ?q] (s1, []) = Some (s2, [])"
    using upd [of ?q "Reset s1" "[]"] by (auto simp: pin_step_def hands_out_def)
  have "list_all (\<lambda>q. slice_bytes s2 q = pdata q) (rparts r)"
    using pinned_slices_intact [of ?G 1000 0 "blank 1000 0" "[OpUpdate ?p]" s "[]" "OpRead (Cursor 0 0) 1000"
        "rparts r" "rpin r" s1 "[OpReset, OpUpdate ?q]" s2 "[]"] New_fresh s h s2
    by (simp add: grows_def op_ok_def)
  with s h s2 show ?thesis by blast
qed

end
