(* ===== verification/RingHls.thy ===== *)
theory RingHls
  imports RingPinned
begin

text \<open>
  The HLS view over the ring: a listed segment can be fetched and is whole, sequence numbers and
  ranges are in order, the cached playlist is always the one that would be rendered now, and the
  published target duration covers every listed segment and only rises.
\<close>

section \<open>Invariant\<close>

definition segs_ordered :: "State \<Rightarrow> bool" where
  "segs_ordered s \<longleftrightarrow>
     (\<forall>sg \<in> set (segs s). 0 \<le> startID sg \<and> startID sg \<le> endID sg \<and> endID sg < nextGOPID s) \<and>
     sorted_wrt (\<lambda>a b. endID a < startID b) (segs s) \<and>
     map seq (segs s) = [nextSeq s - len (segs s) .. nextSeq s - 1] \<and>
     (0 \<le> segStartID s \<longrightarrow> segStartID s < nextGOPID s \<and> (\<forall>sg \<in> set (segs s). endID sg < segStartID s))"

definition segs_ok :: "State \<Rightarrow> bool" where
  "segs_ok s \<longleftrightarrow> segs_ordered s \<and> (gops s = [] \<longrightarrow> segs s = [] \<and> segStartID s < 0)"

definition served_ok :: "State \<Rightarrow> bool" where
  "served_ok s \<longleftrightarrow> (0 < hlsTargetMS s \<longrightarrow> 0 < ring90 s \<and> (\<forall>sg \<in> set (segs s). prunedID s < startID sg))"

definition cache_ok :: "State \<Rightarrow> bool" where
  "cache_ok s \<longleftrightarrow> (plValid s \<and> segs s \<noteq> [] \<longrightarrow> plCache s = render s \<and> hlsMaxDur s = target_duration s)"

definition hls_ok :: "State \<Rightarrow> bool" where
  "hls_ok s \<longleftrightarrow> segs_ok s \<and> served_ok s \<and> cache_ok s"

text \<open>What the playlist is rendered from.\<close>

lemma hls_listed_cong:
  "segs s' = segs s \<Longrightarrow> hlsWindow s' = hlsWindow s \<Longrightarrow> hls_listed s' = hls_listed s"
  by (simp add: hls_listed_def hls_avail_def Let_def)

lemma target_duration_cong:
  "segs s' = segs s \<Longrightarrow> hlsWindow s' = hlsWindow s \<Longrightarrow> hlsMaxDur s' = hlsMaxDur s \<Longrightarrow>
   target_duration s' = target_duration s"
  using hls_listed_cong [of s' s] by (simp add: target_duration_def Let_def)

lemma render_cong:
  "segs s' = segs s \<Longrightarrow> hlsWindow s' = hlsWindow s \<Longrightarrow> hlsMaxDur s' = hlsMaxDur s \<Longrightarrow>
   discDropped s' = discDropped s \<Longrightarrow> render s' = render s"
  using hls_listed_cong [of s' s] target_duration_cong [of s' s] by (simp add: render_def Let_def)

lemma cache_cong:
  assumes "segs s' = segs s" "hlsWindow s' = hlsWindow s" "hlsMaxDur s' = hlsMaxDur s"
    "discDropped s' = discDropped s" "plValid s' = plValid s" "plCache s' = plCache s"
  shows "cache_ok s' = cache_ok s"
  using render_cong [OF assms(1-4)] target_duration_cong [OF assms(1-3)] assms by (simp add: cache_ok_def)

lemma cache_stale: "\<not> plValid s \<Longrightarrow> cache_ok s"
  by (simp add: cache_ok_def)

section \<open>Pruning\<close>

lemma hlsPrune_segs:
  "\<exists>k. segs (hlsPrune s) = drop k (segs s) \<and> (k = 0 \<or> \<not> plValid (hlsPrune s)) \<and>
     (k = 0 \<longrightarrow> plValid (hlsPrune s) = plValid s \<and> discDropped (hlsPrune s) = discDropped s) \<and>
     (gops s \<noteq> [] \<longrightarrow> drop k (segs s) = [] \<or> gid (hd (gops s)) \<le> startID (hd (drop k (segs s))))"
proof (cases "segs s = [] \<or> gops s = []")
  case True
  then show ?thesis by (intro exI [of _ 0]) (auto simp: hlsPrune_def split: list.splits)
next
  case False
  then obtain g gs where g: "gops s = g # gs" by (cases "gops s") auto
  let ?P = "\<lambda>sg. startID sg < gid g"
  let ?k = "length (takeWhile ?P (segs s))"
  have d: "drop ?k (segs s) = dropWhile ?P (segs s)" by (simp add: dropWhile_eq_drop)
  have h: "dropWhile ?P (segs s) = [] \<or> gid g \<le> startID (hd (dropWhile ?P (segs s)))"
    using hd_dropWhile [of ?P "segs s"] by force
  show ?thesis
    using False g d h by (intro exI [of _ ?k]) (auto simp: hlsPrune_def Let_def split: list.splits)
qed

lemma hlsPrune_hls_frame [simp]:
  "nextSeq (hlsPrune s) = nextSeq s" "segStartID (hlsPrune s) = segStartID s"
  "hlsWindow (hlsPrune s) = hlsWindow s" "hlsMaxDur (hlsPrune s) = hlsMaxDur s"
  "plCache (hlsPrune s) = plCache s" "segLastPTS (hlsPrune s) = segLastPTS s"
  by (simp_all add: hlsPrune_def Let_def split: list.splits)

lemma drop_front_hls_frame [simp]:
  "segs (drop_front n s) = segs s" "nextSeq (drop_front n s) = nextSeq s"
  "segStartID (drop_front n s) = segStartID s" "hlsWindow (drop_front n s) = hlsWindow s"
  "hlsMaxDur (drop_front n s) = hlsMaxDur s" "plCache (drop_front n s) = plCache s"
  "plValid (drop_front n s) = plValid s" "discDropped (drop_front n s) = discDropped s"
  "nextGOPID (drop_front n s) = nextGOPID s" "hlsTargetMS (drop_front n s) = hlsTargetMS s"
  "ring90 (drop_front n s) = ring90 s" "gops (drop_front n s) = drop n (gops s)"
  "segLastPTS (drop_front n s) = segLastPTS s"
  using drop_front_eq [of n s] by auto

lemma segs_ok_drop:
  assumes "segs_ok s" "segs s' = drop k (segs s)" "nextGOPID s' = nextGOPID s" "nextSeq s' = nextSeq s"
    "segStartID s' = segStartID s" "gops s' = [] \<longrightarrow> gops s = []"
  shows "segs_ok s'"
proof -
  have "map seq (drop k (segs s)) = [nextSeq s - len (segs s) + int k .. nextSeq s - 1]"
    using assms(1) by (simp add: segs_ok_def segs_ordered_def drop_upto flip: drop_map)
  also have "\<dots> = [nextSeq s - len (drop k (segs s)) .. nextSeq s - 1]"
  proof (cases "k \<le> length (segs s)")
    case True
    then show ?thesis by (simp add: len_def of_nat_diff algebra_simps)
  next
    case False
    then show ?thesis by (simp add: len_def)
  qed
  finally have "map seq (drop k (segs s)) = [nextSeq s - len (drop k (segs s)) .. nextSeq s - 1]" .
  moreover have "set (drop k (segs s)) \<subseteq> set (segs s)" by (rule set_drop_subset)
  moreover have "sorted_wrt (\<lambda>a b. endID a < startID b) (drop k (segs s))"
    using assms(1) by (simp add: segs_ok_def segs_ordered_def sorted_wrt_drop)
  ultimately show ?thesis using assms unfolding segs_ok_def segs_ordered_def by (auto simp: subset_iff)
qed

text \<open>After a prune every listed segment starts in the ring.\<close>

lemma prune_hls:
  assumes "prune s = Some s'" "gops s \<noteq> []" "segs_ok s" "cache_ok s" "log_ok (as_log s)"
    "0 < hlsTargetMS s \<longrightarrow> 0 < ring90 s"
  shows "hls_ok s'"
proof (cases "ring90 s \<le> 0")
  case True
  define n where "n = (if length (gops s) > 1 then length (gops s) - 1 else 0)"
  have s': "s' = (if length (gops s) > 1 then drop_front n s else s)"
    using assms(1) True by (auto simp: prune_def n_def split: if_splits)
  have ne: "gops s' \<noteq> []" using s' assms(2) by (auto simp: n_def)
  have "segs_ok s'" by (rule segs_ok_drop [where k = 0 and s = s]) (use assms(3) ne s' in auto)
  moreover have "cache_ok s' = cache_ok s" by (rule cache_cong) (simp_all add: s')
  moreover have "hlsTargetMS s' = hlsTargetMS s" "ring90 s' = ring90 s" by (simp_all add: s')
  ultimately show ?thesis using assms(4,6) True by (simp add: hls_ok_def served_ok_def)
next
  case False
  define t where "t = prune_bytes (prune_age s)"
  have s': "s' = hlsPrune t" using assms(1,2) False by (simp add: prune_def t_def)
  obtain a where a: "prune_age s = drop_front a s" "a < length (gops s)"
  proof (cases "0 \<le> gt (last (gops s))")
    case True
    then show ?thesis using that aged_less [OF assms(2)] by (simp add: prune_age_def Let_def)
  next
    case False
    then show ?thesis using that [of 0] assms(2) by (simp add: prune_age_def Let_def drop_front_def)
  qed
  have "gops (prune_age s) \<noteq> []" using a by simp
  then have less: "excess l n (gops (prune_age s)) < length (gops (prune_age s))" for l n
    by (rule excess_less)
  obtain b where b: "t = drop_front b (drop_front a s)" "b < length (gops (drop_front a s))"
    using less unfolding t_def prune_bytes_def a(1) by blast
  have frames: "segs t = segs s" "nextGOPID t = nextGOPID s" "nextSeq t = nextSeq s" "segStartID t = segStartID s"
    "hlsWindow t = hlsWindow s" "hlsMaxDur t = hlsMaxDur s" "plCache t = plCache s" "plValid t = plValid s"
    "discDropped t = discDropped s" "hlsTargetMS t = hlsTargetMS s" "ring90 t = ring90 s"
    by (simp_all add: b(1))
  have ne: "gops t \<noteq> []" using b by simp
  have "log_step [] (as_log s) (as_log t)"
    using log_step_nil_append [OF log_step.drops log_step.drops] by (simp add: b(1) as_log_drop_front)
  then have lok: "log_ok (as_log t)" using log_ok_step assms(5) by blast
  obtain k where k: "segs s' = drop k (segs t)" "k = 0 \<or> \<not> plValid s'"
    "k = 0 \<longrightarrow> plValid s' = plValid t \<and> discDropped s' = discDropped t"
    "drop k (segs t) = [] \<or> gid (hd (gops t)) \<le> startID (hd (drop k (segs t)))"
    using hlsPrune_segs [of t] ne s' by blast
  have so: "segs_ok s'"
    by (rule segs_ok_drop [where k = k and s = s]) (use assms(2,3) k(1) frames s' ne in auto)
  have "cache_ok s'"
  proof (cases "k = 0")
    case True
    have "cache_ok s' = cache_ok s" by (rule cache_cong) (use True k frames s' in auto)
    then show ?thesis using assms(4) by simp
  next
    case False
    then show ?thesis using k(2) cache_stale by blast
  qed
  moreover have "prunedID s' < startID sg" if sg: "sg \<in> set (segs s')" for sg
  proof -
    have hd: "gid (hd (gops t)) = prunedID t + 1"
      using gops_id_nth [OF lok, of 0] ne by (simp add: hd_conv_nth)
    have "startID (hd (segs s')) \<le> startID sg"
      using so sg unfolding segs_ok_def segs_ordered_def by (cases "segs s'") force+
    moreover have "gid (hd (gops t)) \<le> startID (hd (segs s'))" using k(1,4) sg by auto
    ultimately show ?thesis using hd s' by simp
  qed
  ultimately show ?thesis using so assms(6) frames s' False by (simp add: hls_ok_def served_ok_def)
qed

section \<open>A keyframe at a segment boundary\<close>

lemma closeSegment_ordered:
  assumes "segs_ordered s" "0 \<le> segStartID s" "gops s \<noteq> []" "gid (last (gops s)) = i - 1"
    "segStartID s < i" "nextGOPID s = i + 1"
  shows "segs_ordered ((closeSegment i d s)\<lparr>segStartID := i\<rparr>)"
proof -
  have "map seq (segs s) @ [nextSeq s] = [nextSeq s - len (segs s) .. nextSeq s]"
    using assms(1) by (simp add: segs_ordered_def upto_rec2 [of _ "nextSeq s"] len_def)
  then show ?thesis
    using assms by (auto simp: segs_ordered_def closeSegment_def Let_def len_def sorted_wrt_append)
qed

lemma segs_ordered_cong:
  "segs s' = segs s \<Longrightarrow> nextSeq s' = nextSeq s \<Longrightarrow> segStartID s' = segStartID s \<Longrightarrow> nextGOPID s' = nextGOPID s \<Longrightarrow>
   segs_ordered s' = segs_ordered s"
  by (simp add: segs_ordered_def)

lemma closeSegment_stale [simp]: "\<not> plValid (closeSegment i d s)"
  by (simp add: closeSegment_def Let_def)

lemma hlsOnKeyframe_hls:
  assumes "segs_ordered s" "0 \<le> segStartID s \<longrightarrow> gops s \<noteq> [] \<and> gid (last (gops s)) = i - 1 \<and> segStartID s < i"
    "nextGOPID s = i + 1" "cache_ok s" "0 \<le> i" "\<forall>sg \<in> set (segs s). endID sg < i"
  shows "segs_ordered (hlsOnKeyframe i p s)" "cache_ok (hlsOnKeyframe i p s)"
proof -
  note cong = segs_ordered_cong [THEN iffD2, OF _ _ _ _ closeSegment_ordered]
  have st: "segs_ordered (s\<lparr>segStartID := i, segLastPTS := p, segSpan := 0\<rparr>)"
    using assms by (auto simp: segs_ordered_def)
  show "segs_ordered (hlsOnKeyframe i p s)"
  proof (cases "hlsTargetMS s \<le> 0 \<or> p < 0 \<or> segStartID s < 0 \<or> segLastPTS s < 0")
    case True
    then show ?thesis using assms(1) st by (auto simp: hlsOnKeyframe_def)
  next
    case False
    have c: "segs_ordered ((closeSegment i d t)\<lparr>segDisc := b, segStartID := i, segLastPTS := p, segSpan := 0\<rparr>)"
      "segs_ordered ((closeSegment i d t)\<lparr>segStartID := i, segLastPTS := p, segSpan := 0\<rparr>)"
      if "segs t = segs s" "nextSeq t = nextSeq s" "segStartID t = segStartID s" "nextGOPID t = nextGOPID s"
        "gops t = gops s" for d t b
    proof -
      have "segs_ordered t" using segs_ordered_cong [of t s] that assms(1) by simp
      then have "segs_ordered ((closeSegment i d t)\<lparr>segStartID := i\<rparr>)"
        using closeSegment_ordered [of t i d] that assms False by simp
      then show "segs_ordered ((closeSegment i d t)\<lparr>segDisc := b, segStartID := i, segLastPTS := p, segSpan := 0\<rparr>)"
        "segs_ordered ((closeSegment i d t)\<lparr>segStartID := i, segLastPTS := p, segSpan := 0\<rparr>)"
        by (simp_all add: segs_ordered_def)
    qed
    have k: "segs_ordered t" if "segs t = segs s" "nextSeq t = nextSeq s" "segStartID t = segStartID s"
      "nextGOPID t = nextGOPID s" for t
      using segs_ordered_cong [of t s] that assms(1) by simp
    show ?thesis using False by (simp add: hlsOnKeyframe_def Let_def c k)
  qed
  have k: "cache_ok t" if "segs t = segs s" "hlsWindow t = hlsWindow s" "hlsMaxDur t = hlsMaxDur s"
    "discDropped t = discDropped s" "plValid t = plValid s" "plCache t = plCache s" for t
    using cache_cong [of t s] that assms(4) by simp
  show "cache_ok (hlsOnKeyframe i p s)"
    by (simp add: hlsOnKeyframe_def Let_def k cache_stale)
qed

section \<open>Every operation keeps the view\<close>

definition hls_view where
  "hls_view s = (segs s, nextSeq s, segStartID s, nextGOPID s, hlsWindow s, hlsMaxDur s, discDropped s,
     plValid s, plCache s, hlsTargetMS s, ring90 s, prunedID s, gops s = [])"

lemma hls_ok_cong:
  assumes "hls_view s' = hls_view s"
  shows "hls_ok s' = hls_ok s"
proof -
  have "cache_ok s' = cache_ok s" by (rule cache_cong) (use assms in \<open>simp_all add: hls_view_def\<close>)
  then show ?thesis
    using assms by (simp add: hls_view_def hls_ok_def segs_ok_def segs_ordered_def served_ok_def)
qed

lemma opened_hls:
  assumes "prune (open_block G i pkt t p v s) = Some s'" "segs_ordered s" "cache_ok s"
    "log_ok (as_log (open_block G i pkt t p v s))" "0 < hlsTargetMS s \<longrightarrow> 0 < ring90 s"
  shows "hls_ok s'"
proof -
  let ?o = "open_block G i pkt t p v s"
  obtain b fb m a where o: "?o = s\<lparr>freeBufs := fb, mem := m, nextArr := a, gops := gops s @ [\<lparr>gid = i, gdata = pkt,
      garr = fst b, gcap = snd b, gt = t, gpts = p, gvideo = v\<rparr>]\<rparr>"
    using open_block_eq by blast
  have "segs_ok ?o" using assms(2) by (simp add: o segs_ok_def segs_ordered_def)
  moreover have "cache_ok ?o = cache_ok s" by (rule cache_cong) (simp_all add: o)
  ultimately show ?thesis using prune_hls [OF assms(1)] assms(3-5) by (simp add: o)
qed

lemma last_gid:
  assumes "log_ok (as_log s)" "gops s \<noteq> []"
  shows "gid (last (gops s)) = nextGOPID s - 1"
  using log_ok_last [OF assms(1)] assms(2) by (simp add: as_log_def last_map)

lemma open_keyframe_hls:
  assumes "open_keyframe G pkt pid v s = Some s'" "hls_ok s" "log_ok (as_log s)" "pkt \<noteq> []" "188 dvd length pkt"
  shows "hls_ok s'"
proof -
  let ?s = "s\<lparr>nextGOPID := nextGOPID s + 1\<rparr>"
  obtain t c k st gs where r: "ringClock ?s = (t, ?s\<lparr>clockPCR := c, clockT := k, clockStep := st, gops := gs\<rparr>)"
    "map (\<lambda>g. (gid g, gdata g)) gs = map (\<lambda>g. (gid g, gdata g)) (gops ?s)"
    using ringClock_eq by blast
  let ?r = "?s\<lparr>clockPCR := c, clockT := k, clockStep := st, gops := gs\<rparr>"
  obtain p s1 where p: "s1 = ?r \<or> (\<exists>q. s1 = hlsOnKeyframe (nextGOPID s) q ?r)"
    "prune (open_block G (nextGOPID s) pkt t p v s1) = Some s'"
    using assms(1) r
    by (auto simp: open_keyframe_def Let_def split: Option.bind_splits option.splits if_splits)
  have gs: "map gid gs = map gid (gops s)" using arg_cong [OF r(2), of "map fst"] by (simp add: comp_def)
  then have e: "gs = [] \<longleftrightarrow> gops s = []" by (metis map_is_Nil_conv)
  have lst: "gops s \<noteq> [] \<Longrightarrow> gid (last gs) = nextGOPID s - 1"
    using last_gid [OF assms(3)] gs e by (metis last_map)
  have n0: "0 \<le> nextGOPID s" using assms(3) by (simp add: log_ok_def as_log_def)
  have so: "segs_ordered ?r" using assms(2) by (auto simp: hls_ok_def segs_ok_def segs_ordered_def)
  have co: "cache_ok ?r" using cache_cong [of ?r s] assms(2) by (simp add: hls_ok_def)
  have kf: "segs_ordered (hlsOnKeyframe (nextGOPID s) q ?r)" "cache_ok (hlsOnKeyframe (nextGOPID s) q ?r)" for q
    using hlsOnKeyframe_hls [OF so, of "nextGOPID s" q] co lst e n0 assms(2)
    by (auto simp: hls_ok_def segs_ok_def segs_ordered_def)
  have s1: "segs_ordered s1" "cache_ok s1" "hlsTargetMS s1 = hlsTargetMS s" "ring90 s1 = ring90 s"
    using p(1) so co kf by auto
  have n: "nextGOPID s1 = nextGOPID s + 1" "as_log s1 = (as_log s)\<lparr>next_id := nextGOPID s + 1\<rparr>"
    using p(1) r(2) by (auto simp: as_log_def)
  obtain b fb m a where "open_block G (nextGOPID s) pkt t p v s1 = s1\<lparr>freeBufs := fb, mem := m,
      nextArr := a, gops := gops s1 @ [\<lparr>gid = nextGOPID s, gdata = pkt, garr = fst b, gcap = snd b,
        gt = t, gpts = p, gvideo = v\<rparr>]\<rparr>"
    using open_block_eq by blast
  then have "as_log (open_block G (nextGOPID s) pkt t p v s1) = log_open pkt (as_log s)"
    using n by (simp add: as_log_def log_open_def)
  then have "log_ok (as_log (open_block G (nextGOPID s) pkt t p v s1))"
    using log_ok_step [OF log_step.opens [OF assms(4,5)] assms(3)] by simp
  from opened_hls [OF p(2) s1(1,2) this] s1(3,4) assms(2) show ?thesis by (simp add: hls_ok_def served_ok_def)
qed

lemma open_cut_hls:
  assumes "open_cut G pkt s = Some s'" "hls_ok s" "log_ok (as_log s)" "pkt \<noteq> []" "188 dvd length pkt"
  shows "hls_ok s'"
proof -
  obtain c where c: "open_cut G pkt s = (let s1 = s\<lparr>noKeyframeCuts := c\<rparr>;
      (t, s2) = ringClock (s1\<lparr>clockStep := 0, nextGOPID := nextGOPID s + 1\<rparr>) in
      prune (open_block G (nextGOPID s) pkt t (-1) False s2))"
    by (cases "gops s = []") (auto simp: open_cut_def Let_def intro: that [of "noKeyframeCuts s"])
  let ?s = "s\<lparr>noKeyframeCuts := c, clockStep := 0, nextGOPID := nextGOPID s + 1\<rparr>"
  obtain t d k st gs where r: "ringClock ?s = (t, ?s\<lparr>clockPCR := d, clockT := k, clockStep := st, gops := gs\<rparr>)"
    "map (\<lambda>g. (gid g, gdata g)) gs = map (\<lambda>g. (gid g, gdata g)) (gops ?s)"
    using ringClock_eq by blast
  let ?r = "?s\<lparr>clockPCR := d, clockT := k, clockStep := st, gops := gs\<rparr>"
  have p: "prune (open_block G (nextGOPID s) pkt t (-1) False ?r) = Some s'"
    using assms(1) c r by simp
  have so: "segs_ordered ?r" using assms(2) by (auto simp: hls_ok_def segs_ok_def segs_ordered_def)
  have co: "cache_ok ?r" using cache_cong [of ?r s] assms(2) by (simp add: hls_ok_def)
  obtain b fb m a where "open_block G (nextGOPID s) pkt t (-1) False ?r = ?r\<lparr>freeBufs := fb, mem := m,
      nextArr := a, gops := gops ?r @ [\<lparr>gid = nextGOPID s, gdata = pkt, garr = fst b, gcap = snd b,
        gt = t, gpts = -1, gvideo = False\<rparr>]\<rparr>"
    using open_block_eq by blast
  then have "as_log (open_block G (nextGOPID s) pkt t (-1) False ?r) = log_open pkt (as_log s)"
    using r(2) by (simp add: as_log_def log_open_def)
  then have "log_ok (as_log (open_block G (nextGOPID s) pkt t (-1) False ?r))"
    using log_ok_step [OF log_step.opens [OF assms(4,5)] assms(3)] by simp
  from opened_hls [OF p so co this] assms(2) show ?thesis by (simp add: hls_ok_def served_ok_def)
qed

lemma extend_block_hls:
  assumes "gops s \<noteq> []"
  shows "hls_ok (extend_block G pkt s) = hls_ok s"
proof -
  obtain b m a where e: "extend_block G pkt s = s\<lparr>mem := m, nextArr := a,
     gops := butlast (gops s) @ [(last (gops s))\<lparr>gdata := gdata (last (gops s)) @ pkt,
       garr := fst b, gcap := snd b\<rparr>]\<rparr>"
    using extend_block_eq by blast
  show ?thesis by (rule hls_ok_cong) (use assms in \<open>simp add: hls_view_def e\<close>)
qed

lemma store_packet_hls:
  assumes "store_packet G pkt pid v k s = Some s'" "hls_ok s" "log_ok (as_log s)" "pkt \<noteq> []" "188 dvd length pkt"
  shows "hls_ok s'"
  using assms open_keyframe_hls open_cut_hls extend_block_hls
  by (auto simp: store_packet_def split: if_splits)

lemma kept_fields_hls: "kept_fields s' = kept_fields s \<Longrightarrow> hls_ok s' = hls_ok s"
  by (rule hls_ok_cong) (simp add: hls_view_def kept_fields_def)

lemma kept_fields_log: "kept_fields s' = kept_fields s \<Longrightarrow> as_log s' = as_log s \<Longrightarrow> log_ok (as_log s') = log_ok (as_log s)"
  by simp

lemma update_packet_hls:
  assumes "hls_ok s" "log_ok (as_log s)" "length pkt = 188" "update_packet G pkt s = Some s'"
  shows "hls_ok s' \<and> log_ok (as_log s')"
proof (cases "pkt ! 0 = 0x47")
  case False
  then have "s' = s" using assms(3,4) by (simp add: update_packet_def at_def len_def)
  then show ?thesis using assms(1,2) by simp
next
  case True
  have "pkt \<noteq> []" "188 dvd length pkt" using assms(3) by auto
  obtain s1 pid v k where u: "kept_fields s1 = kept_fields s" "store_packet G pkt pid v k s1 = Some s'"
    using update_packet_reads [OF assms(4) True] by blast
  have "prunedID s1 = prunedID s" "gops s1 = gops s" "nextGOPID s1 = nextGOPID s"
    using kept_fields_same [OF u(1)] by blast+
  then have l: "log_ok (as_log s1)" using assms(2) by (simp add: as_log_def log_ok_def)
  have "hls_ok s1" using kept_fields_hls [OF u(1)] assms(1) by simp
  from store_packet_hls [OF u(2) this l \<open>pkt \<noteq> []\<close> \<open>188 dvd length pkt\<close>]
    log_ok_step [OF store_packet_step [OF u(2) \<open>pkt \<noteq> []\<close> \<open>188 dvd length pkt\<close>] l]
  show ?thesis ..
qed

lemma Update_hls:
  assumes "hls_ok s" "log_ok (as_log s)" "Update G chunk s = Some s'"
  shows "hls_ok s'"
proof -
  have "hls_ok s' \<and> log_ok (as_log s')" if "run (update_packet G) ps s = Some s'" "\<forall>p \<in> set ps. length p = 188"
    "hls_ok s" "log_ok (as_log s)" for ps s
    using that
    by (induction ps arbitrary: s) (auto split: Option.bind_splits dest: update_packet_hls)
  then show ?thesis using assms packets_of_188 by (auto simp: Update_def)
qed

lemma recompute_hls:
  assumes "recompute s = Some s'" "segs_ok s" "cache_ok s" "log_ok (as_log s)"
  shows "hls_ok s'"
proof -
  define n0 where "n0 = (if gated s then f64_scale (prebufMS s) (idleRatio s) else prebufMS s)"
  define n1 where "n1 = (if 0 < hlsTargetMS s \<and> n0 < 2 * hlsTargetMS s then 2 * hlsTargetMS s else n0)"
  define n where "n = (if n1 < 0 then 0 else n1)"
  have n: "0 < hlsTargetMS s \<longrightarrow> 0 < n"
    "(if gops s \<noteq> [] then prune (s\<lparr>ring90 := n * pcrHz, maxRing := n * JoinRingBytesPerMS\<rparr>)
      else Some (s\<lparr>ring90 := n * pcrHz, maxRing := n * JoinRingBytesPerMS\<rparr>)) = Some s'"
    using assms(1) by (auto simp: recompute_def Let_def n_def n1_def n0_def)
  let ?s = "s\<lparr>ring90 := n * pcrHz, maxRing := n * JoinRingBytesPerMS\<rparr>"
  have so: "segs_ok ?s" using assms(2) by (simp add: segs_ok_def segs_ordered_def)
  have co: "cache_ok ?s" using cache_cong [of ?s s] assms(3) by simp
  have lo: "log_ok (as_log ?s)" using assms(4) by (simp add: as_log_def)
  have r: "0 < hlsTargetMS ?s \<longrightarrow> 0 < ring90 ?s" using n(1) by (simp add: pcrHz_def)
  show ?thesis
  proof (cases "gops s = []")
    case True
    then have "segs s = []" using assms(2) by (simp add: segs_ok_def)
    then show ?thesis using True n(2) so co r by (auto simp: hls_ok_def served_ok_def)
  next
    case False
    then show ?thesis using prune_hls [OF _ _ so co lo r] n(2) by simp
  qed
qed

lemma SetGated_hls:
  assumes "SetGated g s = Some s'" "hls_ok s" "log_ok (as_log s)"
  shows "hls_ok s'"
proof (cases "gated s = g")
  case False
  let ?s = "s\<lparr>gated := g\<rparr>"
  from False have r: "recompute ?s = Some s'" using assms(1) by (simp add: SetGated_def)
  have c: "cache_ok ?s = cache_ok s" by (rule cache_cong) simp_all
  show ?thesis
    by (rule recompute_hls [OF r]) (use assms(2,3) c in \<open>simp_all add: hls_ok_def segs_ok_def segs_ordered_def\<close>)
qed (use assms in \<open>simp add: SetGated_def\<close>)

lemma SetIdleRatio_hls:
  assumes "SetIdleRatio r s = Some s'" "hls_ok s" "log_ok (as_log s)"
  shows "hls_ok s'"
proof -
  from assms(1) consider "s' = s" | q where "recompute (s\<lparr>idleRatio := q\<rparr>) = Some s'"
    unfolding SetIdleRatio_def Let_def by (metis option.inject)
  then show ?thesis
  proof cases
    case (2 q)
    have c: "cache_ok (s\<lparr>idleRatio := q\<rparr>) = cache_ok s" by (rule cache_cong) simp_all
    show ?thesis
      by (rule recompute_hls [OF 2]) (use assms(2,3) c in \<open>simp_all add: hls_ok_def segs_ok_def segs_ordered_def\<close>)
  qed (use assms(2) in simp)
qed

lemma Configure_hls:
  assumes "Configure p t w s = Some s'" "hls_ok s" "log_ok (as_log s)"
  shows "hls_ok s'"
proof -
  obtain s1 where s1: "recompute s1 = Some s'" "gops s1 = gops s" "segs s1 = segs s" "nextSeq s1 = nextSeq s"
    "segStartID s1 = segStartID s" "nextGOPID s1 = nextGOPID s" "prunedID s1 = prunedID s" "\<not> plValid s1"
    using assms(1) unfolding Configure_def Let_def by (rule that) simp_all
  show ?thesis
    by (rule recompute_hls [OF s1(1) _ cache_stale [OF s1(8)]])
      (use assms(2,3) s1(2-7) in \<open>simp_all add: hls_ok_def segs_ok_def segs_ordered_def as_log_def log_ok_def\<close>)
qed

lemma Reset_hls: "hls_ok s \<Longrightarrow> hls_ok (Reset s)"
  by (auto simp: Reset_def Let_def hls_ok_def segs_ok_def segs_ordered_def served_ok_def cache_ok_def)

lemma New_hls:
  assumes "New mg prebuf = Some s"
  shows "hls_ok s"
proof -
  have "segs_ok (blank mg prebuf)" "cache_ok (blank mg prebuf)"
    by (simp_all add: segs_ok_def segs_ordered_def cache_ok_def blank_def)
  moreover have "log_ok (as_log (blank mg prebuf))" by (simp add: log_ok_def as_log_def blank_def)
  ultimately show ?thesis using recompute_hls assms by (simp add: New_def)
qed

lemma pin_hls [simp]: "hls_ok (snd (pin lo hi s)) = hls_ok s"
proof -
  have "hls_view (fold pin_block is s) = hls_view s" for "is"
    by (induction "is" arbitrary: s) (simp_all add: pin_block_def hls_view_def)
  then show ?thesis by (intro hls_ok_cong) (simp add: pin_def)
qed

lemma Unpin_hls [simp]: "hls_ok (Unpin p s) = hls_ok s"
proof -
  have "hls_view (fold unpin_block is s) = hls_view s" for "is"
    by (induction "is" arbitrary: s) (simp_all add: unpin_block_def hls_view_def)
  then show ?thesis by (intro hls_ok_cong) (simp add: Unpin_def)
qed

section \<open>The playlist\<close>

lemma ceil_sec_mono: "x \<le> y \<Longrightarrow> ceil_sec x \<le> ceil_sec y"
  by (simp add: ceil_sec_def zdiv_mono1)

lemma ceil_sec_bound: "d \<le> 1000 * ceil_sec d"
  unfolding ceil_sec_def using div_mult_mod_eq [of "- d" 1000] pos_mod_sign [of 1000 "- d"] by linarith

lemma fold_max_bound:
  "m \<le> fold (\<lambda>sg m. if durMS sg > m then durMS sg else m) sgs m \<and>
   (\<forall>sg \<in> set sgs. durMS sg \<le> fold (\<lambda>sg m. if durMS sg > m then durMS sg else m) sgs m)"
proof (induction sgs arbitrary: m)
  case (Cons sg sgs)
  show ?case using Cons.IH [of "durMS sg"] Cons.IH [of m] by (auto simp: not_less)
qed simp

lemma target_duration_covers:
  assumes "sg \<in> set (hls_listed s)"
  shows "durMS sg \<le> 1000 * target_duration s"
proof -
  define m where "m = fold (\<lambda>sg m. if durMS sg > m then durMS sg else m) (hls_listed s) 0"
  have "durMS sg \<le> m" using fold_max_bound [where sgs = "hls_listed s" and m = 0] assms by (simp add: m_def)
  moreover have "ceil_sec m \<le> target_duration s" by (simp add: target_duration_def m_def Let_def)
  moreover have "m \<le> 1000 * ceil_sec m" by (rule ceil_sec_bound)
  ultimately show ?thesis by linarith
qed

lemma target_duration_rises: "hlsMaxDur s \<le> target_duration s"
  by (simp add: target_duration_def Let_def)

text \<open>Rendering again after publishing gives the same text.\<close>

lemma render_published:
  assumes "segs s' = segs s" "hlsWindow s' = hlsWindow s" "discDropped s' = discDropped s"
    "hlsMaxDur s' = target_duration s"
  shows "render s' = render s" "target_duration s' = target_duration s"
proof -
  note w = hls_listed_cong [OF assms(1,2)]
  show t: "target_duration s' = target_duration s"
    unfolding target_duration_def Let_def w assms(4) by simp
  show "render s' = render s" unfolding render_def Let_def w assms(1,3) t by simp
qed

lemma HLSPlaylist_hls:
  assumes "hls_ok s"
  shows "hls_ok (snd (HLSPlaylist s))"
proof -
  let ?s = "s\<lparr>hlsMaxDur := target_duration s, plCache := render s, plValid := True\<rparr>"
  have "cache_ok ?s" using render_published [of ?s s] by (simp add: cache_ok_def)
  then have "hls_ok ?s" using assms by (simp add: hls_ok_def segs_ok_def segs_ordered_def served_ok_def)
  then show ?thesis using assms by (simp add: HLSPlaylist_def)
qed

lemma HLSPlaylist_fresh:
  assumes "hls_ok s" "segs s \<noteq> []"
  shows "fst (HLSPlaylist s) = render s" "hlsMaxDur (snd (HLSPlaylist s)) = target_duration s"
  using assms by (auto simp: HLSPlaylist_def hls_ok_def cache_ok_def)

section \<open>All operations together\<close>

lemma ring_step_hls:
  assumes "hls_ok s" "log_ok (as_log s)" "ring_step G e s = Some s'"
  shows "hls_ok s'"
proof (cases e)
  case (OpRead c m)
  with assms(3) obtain r where "ReadFrom s c m = Some (r, s')" by (auto split: Option.bind_splits)
  from ReadFrom_state [OF this] assms(1) show ?thesis by auto
next
  case (OpSnapshot ms)
  with assms(3) obtain h ps p where "SnapshotPin s ms = Some (h, ps, p, s')" by (auto split: Option.bind_splits)
  from SnapshotPin_state [OF this] assms(1) show ?thesis by auto
next
  case (OpSegment n)
  with assms(3) have "s' = snd (HLSSegmentPin s n)" by simp
  with HLSSegmentPin_state [of s n] assms(1) show ?thesis by auto
next
  case (OpUpdate x)
  with assms(3) show ?thesis using Update_hls [OF assms(1,2)] by simp
next
  case (OpGate x)
  with assms(3) show ?thesis using SetGated_hls [OF _ assms(1,2)] by simp
next
  case (OpIdleRatio x)
  with assms(3) show ?thesis using SetIdleRatio_hls [OF _ assms(1,2)] by simp
next
  case (OpConfigure x y z)
  with assms(3) show ?thesis using Configure_hls [OF _ assms(1,2)] by simp
next
  case OpReset
  with assms(3) have "s' = Reset s" by simp
  then show ?thesis using Reset_hls [OF assms(1)] by simp
next
  case OpPlaylist
  with assms(3) have "s' = snd (HLSPlaylist s)" by simp
  then show ?thesis using HLSPlaylist_hls [OF assms(1)] by simp
next
  case (OpUnpin x)
  with assms(3) have "s' = Unpin x s" by simp
  then show ?thesis using assms(1) by simp
qed

interpretation ring_hls: safe_system "ring_step G" op_ok "\<lambda>s. log_ok (as_log s) \<and> hls_ok s" for G
  by unfold_locales (use ring_step_refines ring_step_hls in blast)

lemma reached_hls:
  assumes "New mg prebuf = Some s0" "list_all op_ok es" "run (ring_step G) es s0 = Some s"
  shows "log_ok (as_log s)" "hls_ok s"
  using ring_hls.run_preserves [OF _ assms(2,3)] New_log_ok [OF assms(1)] New_hls [OF assms(1)] by auto

section \<open>Serving a segment\<close>

lemma find_seq:
  assumes "map seq sgs = [a..b]" "sg \<in> set sgs"
  shows "find (\<lambda>x. seq x = seq sg) sgs = Some sg"
proof -
  have d: "distinct (map seq sgs)" using assms(1) by simp
  then show ?thesis using assms(2)
    by (induction sgs) (auto simp: find_None_iff)
qed

lemma filter_upto:
  "filter (\<lambda>i. lo \<le> i \<and> i \<le> hi) [a..b] = [max lo a..min hi b]"
proof (induction "nat (b - a + 1)" arbitrary: a)
  case (Suc n)
  then have "a \<le> b" by simp
  then have "[a..b] = a # [a + 1..b]" by (simp add: upto_rec1)
  moreover have "filter (\<lambda>i. lo \<le> i \<and> i \<le> hi) [a + 1..b] = [max lo (a + 1)..min hi b]"
    using Suc by simp
  moreover have "a < lo \<Longrightarrow> max lo (a + 1) = lo" "\<not> a < lo \<Longrightarrow> max lo (a + 1) = a + 1" by auto
  ultimately show ?case using \<open>a \<le> b\<close>
    by (cases "a < lo") (auto simp: min_def upto_rec1 max_def)
qed simp

lemma segment_blocks:
  assumes "log_ok (as_log s)" "prunedID s < lo" "lo \<le> hi" "hi < nextGOPID s"
  shows "map gid (filter (\<lambda>g. gid g \<ge> lo \<and> gid g \<le> hi) (gops s)) = [lo..hi]"
proof -
  have "map gid (gops s) = [prunedID s + 1..nextGOPID s - 1]"
    using assms(1) by (simp add: log_ok_def as_log_def comp_def)
  then have "map gid (filter (\<lambda>g. gid g \<ge> lo \<and> gid g \<le> hi) (gops s)) =
      filter (\<lambda>i. lo \<le> i \<and> i \<le> hi) [prunedID s + 1..nextGOPID s - 1]"
    by (metis (no_types, lifting) filter_map comp_def filter_cong)
  then show ?thesis using assms(2-4) by (simp add: filter_upto max_absorb1 min_absorb2)
qed

lemma segment_served:
  assumes "log_ok (as_log s)" "hls_ok s" "0 < hlsTargetMS s" "sg \<in> set (segs s)"
  shows "fst (HLSSegment s (seq sg)) =
      Some (ring_head s @ concat (map gdata (filter (\<lambda>g. startID sg \<le> gid g \<and> gid g \<le> endID sg) (gops s))))"
proof -
  let ?gs = "filter (\<lambda>g. startID sg \<le> gid g \<and> gid g \<le> endID sg) (gops s)"
  have b: "prunedID s < startID sg" "startID sg \<le> endID sg" "endID sg < nextGOPID s"
    using assms(2-4) by (auto simp: hls_ok_def served_ok_def segs_ok_def segs_ordered_def)
  have f: "find (\<lambda>x. seq x = seq sg) (segs s) = Some sg"
    using find_seq assms(2,4) by (auto simp: hls_ok_def segs_ok_def segs_ordered_def)
  have m: "map gid ?gs = [startID sg..endID sg]" by (rule segment_blocks [OF assms(1) b])
  then have ne: "?gs \<noteq> []" using b(2) by auto
  then have g: "gops s \<noteq> []" by auto
  then have "gid (hd (gops s)) = prunedID s + 1"
    using gops_id_nth [OF assms(1), of 0] by (simp add: hd_conv_nth)
  then have h: "\<not> gid (hd (gops s)) > startID sg" using b(1) by simp
  obtain q s1 where "pin (gid (hd ?gs)) (gid (last ?gs)) s = (q, s1)" by fastforce
  then have "HLSSegmentPin s (seq sg) = (Some (ring_head s, map whole_part ?gs, q), s1)"
    using f g h ne by (simp add: HLSSegmentPin_def)
  moreover have "part_bytes (map whole_part ?gs) = concat (map gdata ?gs)"
    by (simp add: part_bytes_def whole_part_def comp_def)
  ultimately show ?thesis by (simp add: HLSSegment_def)
qed

end
