(* ===== verification/RingHlsProps.thy ===== *)
theory RingHlsProps
  imports RingHls
begin

text \<open>
  What an HLS client can rely on, in every state the ring of \<^verbatim>\<open>internal/tsjoin/tsjoin.go\<close> reaches: a listed
  segment can be fetched whole, and the playlist served is the one of the segments held now.
\<close>

lemma hls_listed_suffix: "segs s \<noteq> [] \<Longrightarrow> suffix (hls_listed s) (segs s) \<and> hls_listed s \<noteq> []"
proof -
  assume "segs s \<noteq> []"
  then have a: "suffix (hls_avail s) (segs s)" "hls_avail s \<noteq> []"
    by (auto simp: hls_avail_def suffix_tl simp flip: length_greater_0_conv)
  have "suffix (drop n (hls_avail s)) (segs s)" for n
    using a(1) suffix_drop suffix_order.trans by blast
  with a(2) show ?thesis by (auto simp: hls_listed_def Let_def len_def)
qed

text \<open>C8: a listed HLS segment is always there.  In every state the ring can reach while HLS is
  enabled, whatever was published, read, reconfigured or reset before, fetching any segment of the
  list by its sequence number succeeds and returns the table header followed by exactly the blocks of
  the segment's range, first to last, none missing and none from outside; sequence numbers are
  consecutive and the ranges follow one another without overlap.\<close>

theorem listed_segments_fetchable:
  assumes "New mg prebuf = Some s0" "list_all op_ok es" "run (ring_step G) es s0 = Some s"
    and "0 < hlsTargetMS s" "sg \<in> set (segs s)"
  shows "(\<exists>gs. fst (HLSSegment s (seq sg)) = Some (ring_head s @ concat (map gdata gs)) \<and>
       map gid gs = [startID sg..endID sg] \<and> gs \<noteq> [] \<and> set gs \<subseteq> set (gops s)) \<and>
    map seq (segs s) = [nextSeq s - len (segs s)..nextSeq s - 1] \<and>
    sorted_wrt (\<lambda>a b. endID a < startID b) (segs s)"
proof -
  note inv = reached_hls [OF assms(1-3)]
  have b: "prunedID s < startID sg" "startID sg \<le> endID sg" "endID sg < nextGOPID s"
    using inv(2) assms(4,5) by (auto simp: hls_ok_def served_ok_def segs_ok_def segs_ordered_def)
  let ?gs = "filter (\<lambda>g. startID sg \<le> gid g \<and> gid g \<le> endID sg) (gops s)"
  have m: "map gid ?gs = [startID sg..endID sg]" by (rule segment_blocks [OF inv(1) b])
  then have "?gs \<noteq> []" using b(2) by auto
  then have "\<exists>gs. fst (HLSSegment s (seq sg)) = Some (ring_head s @ concat (map gdata gs)) \<and>
      map gid gs = [startID sg..endID sg] \<and> gs \<noteq> [] \<and> set gs \<subseteq> set (gops s)"
    by (intro exI [of _ ?gs]) (simp add: segment_served [OF inv assms(4,5)] m)
  then show ?thesis using inv(2) by (simp add: hls_ok_def segs_ok_def segs_ordered_def)
qed


section \<open>The hypotheses at work\<close>

text \<open>A channel whose tables declare one H.264 stream, and three keyframes of it 11.65 s apart.\<close>

definition pad_packet :: "bytes \<Rightarrow> bytes" where
  "pad_packet xs = xs @ replicate (188 - length xs) 0xff"

definition pat_example :: bytes where
  "pat_example = pad_packet
     [0x47, 0x40, 0, 0x10, 0, 0, 0xb0, 13, 0, 1, 0xc1, 0, 0, 0, 1, 0xe1, 0, 0, 0, 0, 0]"

definition pmt_example :: bytes where
  "pmt_example = pad_packet [0x47, 0x41, 0, 0x10, 0, 2, 0xb0, 18, 0, 1, 0xc1, 0, 0, 0xe1, 1, 0xf0, 0,
     0x1b, 0xe1, 1, 0xf0, 0, 0, 0, 0, 0]"

definition key_example :: "byte \<Rightarrow> bytes" where
  "key_example t = pad_packet
     [0x47, 0x41, 1, 0x30, 1, 0x40, 0, 0, 1, 0xe0, 0, 0, 0x80, 0x80, 5, 0x21, 0, t, 0, 1]"

definition hls_example :: "ring_op list" where
  "hls_example = OpConfigure 0 100 0 #
     map OpUpdate [pat_example, pmt_example, key_example 1, key_example 0x41, key_example 0x81]"

lemma hls_example_run:
  "map_option (\<lambda>s. (segs s, hlsTargetMS s)) (run (ring_step (\<lambda>c n. n)) hls_example (blank 10000 0)) =
   Some ([\<lparr>seq = 0, startID = 1, endID = 1, durMS = 11650, disc = False\<rparr>,
          \<lparr>seq = 1, startID = 2, endID = 2, durMS = 11650, disc = False\<rparr>], 100)"
  by code_simp

lemma hls_example_ok: "list_all op_ok hls_example" "New 10000 0 = Some (blank 10000 0)"
  by (simp_all add: hls_example_def op_ok_def New_def recompute_def blank_def)

lemma listed_segments_fetchable_witness:
  "\<exists>s (g :: gop). run (ring_step (\<lambda>c n. n)) hls_example (blank 10000 0) = Some s \<and>
     fst (HLSSegment s 1) = Some (ring_head s @ gdata g) \<and> gid g = 2"
proof -
  obtain s where s: "run (ring_step (\<lambda>c n. n)) hls_example (blank 10000 0) = Some s" "0 < hlsTargetMS s"
    "\<lparr>seq = 1, startID = 2, endID = 2, durMS = 11650, disc = False\<rparr> \<in> set (segs s)"
    using hls_example_run by auto
  from listed_segments_fetchable [OF hls_example_ok(2,1) s] s(1) show ?thesis by auto
qed


end
