(* ===== verification/Hub.thy ===== *)
theory Hub
  imports RingProps RingPinned
begin

text \<open>
  Model of \<^verbatim>\<open>internal/hub/hub.go\<close>: the per-stream fan-out point.  Every method runs under the hub's mutex,
  so each is one step; \<open>Snapshot\<close> and \<open>HLSSegment\<close> copy with the lock released and are two steps
  each, the capture and \<open>copyPinned\<close>.  A wake channel is a number; \<open>shut\<close> lists the channels closed
  so far, and closing one twice is a panic as it is in Go.
\<close>

section \<open>State\<close>

record Hub =
  hjoin :: State
  wake :: nat
  closed :: bool
  armed :: bool
  chans :: nat
  shut :: "nat list"

record Burst =
  bHead :: bytes
  bParts :: "part list"
  bHub :: bool
  bPin :: Pin
  bDone :: bool

definition no_burst :: Burst where
  "no_burst = \<lparr>bHead = [], bParts = [], bHub = False, bPin = no_pin, bDone = False\<rparr>"

definition hub_New :: "int \<Rightarrow> int \<Rightarrow> Hub go" where
  "hub_New mg prebuf = do {
     s \<leftarrow> New mg prebuf;
     Some \<lparr>hjoin = s, wake = 0, closed = False, armed = False, chans = 1, shut = []\<rparr> }"

section \<open>Channels\<close>

definition close_chan :: "nat \<Rightarrow> Hub \<Rightarrow> Hub go" where
  "close_chan c h = (if c \<in> set (shut h) then None else Some (h\<lparr>shut := c # shut h\<rparr>))"

definition signalWake :: "Hub \<Rightarrow> Hub go" where
  "signalWake h = do {
     h \<leftarrow> close_chan (wake h) h;
     Some (h\<lparr>wake := chans h, chans := chans h + 1\<rparr>) }"

section \<open>Bursts\<close>

definition Burst_Len :: "Burst \<Rightarrow> int" where
  "Burst_Len b = fold (\<lambda>p n. n + len (pdata p)) (bParts b) (len (bHead b))"

definition Burst_Bytes :: "Burst \<Rightarrow> bytes" where
  "Burst_Bytes b = bHead b @ part_bytes (bParts b)"

definition Release :: "Burst \<Rightarrow> Hub \<Rightarrow> Burst \<times> Hub" where
  "Release b h =
     (if bDone b then (b, h)
      else (b\<lparr>bDone := True\<rparr>, if \<not> bHub b then h else h\<lparr>hjoin := Unpin (bPin b) (hjoin h)\<rparr>))"

section \<open>Operations\<close>

definition Publish :: "(nat \<Rightarrow> nat \<Rightarrow> nat) \<Rightarrow> bytes \<Rightarrow> Hub \<Rightarrow> Hub go" where
  "Publish G chunk h =
     (if closed h then Some h
      else do {
        s \<leftarrow> Update G chunk (hjoin h);
        let h = h\<lparr>hjoin := s\<rparr>;
        if len chunk > 0 \<and> armed h then do { h \<leftarrow> signalWake h; Some (h\<lparr>armed := False\<rparr>) }
        else Some h })"

record followed =
  fBurst :: Burst
  fNext :: Cursor
  fAtEnd :: bool
  fWake :: "nat option"
  fBehind :: bool
  fEnded :: bool

definition Follow :: "Cursor \<Rightarrow> int \<Rightarrow> Hub \<Rightarrow> (followed \<times> Hub) go" where
  "Follow c mx h =
     (if closed h then
        Some (\<lparr>fBurst = no_burst, fNext = c, fAtEnd = False, fWake = None, fBehind = False, fEnded = True\<rparr>, h)
      else do {
        (r, s) \<leftarrow> ReadFrom (hjoin h) c mx;
        let h = h\<lparr>hjoin := s\<rparr>;
        if behind r then
          Some (\<lparr>fBurst = no_burst, fNext = c, fAtEnd = False, fWake = None, fBehind = True, fEnded = False\<rparr>, h)
        else do {
          let b = no_burst\<lparr>bParts := rparts r, bPin := rpin r\<rparr>;
          let b = (if rparts r \<noteq> [] then b\<lparr>bHub := True\<rparr> else b);
          let (w, h) = (if atEnd r then (Some (wake h), h\<lparr>armed := True\<rparr>) else (None, h));
          Some (\<lparr>fBurst = b, fNext = rnext r, fAtEnd = atEnd r, fWake = w, fBehind = False, fEnded = False\<rparr>, h) } })"

definition Join :: "int \<Rightarrow> Hub \<Rightarrow> (bytes \<times> Cursor) go" where
  "Join ms h = JoinStart (hjoin h) ms"

text \<open>The two halves of \<open>Snapshot\<close> and \<open>HLSSegment\<close>: the capture under the lock, and the copy of the
  pinned buffers as they read when it is made.\<close>

definition hub_capture :: "int \<Rightarrow> Hub \<Rightarrow> (bytes \<times> part list \<times> Pin \<times> Hub) go" where
  "hub_capture ms h = do {
     (head, parts, p, s) \<leftarrow> SnapshotPin (hjoin h) ms;
     Some (head, parts, p, h\<lparr>hjoin := s\<rparr>) }"

definition hub_capture_segment :: "int \<Rightarrow> Hub \<Rightarrow> (bytes \<times> part list \<times> Pin) option \<times> Hub" where
  "hub_capture_segment n h =
     (case HLSSegmentPin (hjoin h) n of (r, s) \<Rightarrow> (r, h\<lparr>hjoin := s\<rparr>))"

definition copyPinned :: "bytes \<Rightarrow> part list \<Rightarrow> Pin \<Rightarrow> Hub \<Rightarrow> bytes \<times> Hub" where
  "copyPinned head parts p h =
     (fold (\<lambda>q out. out @ slice_bytes (hjoin h) q) parts head, h\<lparr>hjoin := Unpin p (hjoin h)\<rparr>)"

definition hub_Snapshot :: "int \<Rightarrow> Hub \<Rightarrow> (bytes \<times> Hub) go" where
  "hub_Snapshot ms h = do { (head, parts, p, h) \<leftarrow> hub_capture ms h; Some (copyPinned head parts p h) }"

definition hub_HLSSegment :: "int \<Rightarrow> Hub \<Rightarrow> bytes option \<times> Hub" where
  "hub_HLSSegment n h =
     (case hub_capture_segment n h of
        (None, h) \<Rightarrow> (None, h)
      | (Some (head, parts, p), h) \<Rightarrow> (case copyPinned head parts p h of (out, h) \<Rightarrow> (Some out, h)))"

definition hub_Configure :: "int \<Rightarrow> int \<Rightarrow> int \<Rightarrow> Hub \<Rightarrow> Hub go" where
  "hub_Configure p t w h = do { s \<leftarrow> Configure p t w (hjoin h); Some (h\<lparr>hjoin := s\<rparr>) }"

definition Flush :: "Hub \<Rightarrow> Hub" where
  "Flush h = h\<lparr>hjoin := Reset (hjoin h)\<rparr>"

definition hub_SetGated :: "bool \<Rightarrow> Hub \<Rightarrow> Hub go" where
  "hub_SetGated g h = do { s \<leftarrow> SetGated g (hjoin h); Some (h\<lparr>hjoin := s\<rparr>) }"

definition hub_SetIdleRatio :: "f64 \<Rightarrow> Hub \<Rightarrow> Hub go" where
  "hub_SetIdleRatio r h = do { s \<leftarrow> SetIdleRatio r (hjoin h); Some (h\<lparr>hjoin := s\<rparr>) }"

definition hub_HLSPlaylist :: "Hub \<Rightarrow> string \<times> Hub" where
  "hub_HLSPlaylist h = (case HLSPlaylist (hjoin h) of (pl, s) \<Rightarrow> (pl, h\<lparr>hjoin := s\<rparr>))"

definition hub_Counters :: "Hub \<Rightarrow> int \<times> int \<times> bool" where
  "hub_Counters h = Counters (hjoin h)"

definition hub_NoKeyframeCuts :: "Hub \<Rightarrow> int" where
  "hub_NoKeyframeCuts h = noKeyframeCuts (hjoin h)"

definition hub_RingStats :: "Hub \<Rightarrow> int \<times> int \<times> int" where
  "hub_RingStats h = RingStats (hjoin h)"

definition CloseAll :: "Hub \<Rightarrow> Hub go" where
  "CloseAll h = (if closed h then Some h else close_chan (wake h) (h\<lparr>closed := True\<rparr>))"

section \<open>The hub as a system\<close>

datatype hub_op =
    HPublish bytes
  | HFollow Cursor int
  | HJoin int
  | HRelease Burst
  | HCapture int
  | HCaptureSegment int
  | HUnpin Pin
  | HConfigure int int int
  | HFlush
  | HGate bool
  | HIdleRatio f64
  | HPlaylist
  | HCloseAll

fun hub_step :: "(nat \<Rightarrow> nat \<Rightarrow> nat) \<Rightarrow> hub_op \<Rightarrow> Hub \<Rightarrow> Hub go" where
  "hub_step G (HPublish chunk) h = Publish G chunk h"
| "hub_step G (HFollow c m) h = do { (f, h') \<leftarrow> Follow c m h; Some h' }"
| "hub_step G (HJoin ms) h = do { r \<leftarrow> Join ms h; Some h }"
| "hub_step G (HRelease b) h = Some (snd (Release b h))"
| "hub_step G (HCapture ms) h = do { (head, ps, p, h') \<leftarrow> hub_capture ms h; Some h' }"
| "hub_step G (HCaptureSegment n) h = Some (snd (hub_capture_segment n h))"
| "hub_step G (HUnpin p) h = Some (snd (copyPinned [] [] p h))"
| "hub_step G (HConfigure p t w) h = hub_Configure p t w h"
| "hub_step G HFlush h = Some (Flush h)"
| "hub_step G (HGate g) h = hub_SetGated g h"
| "hub_step G (HIdleRatio r) h = hub_SetIdleRatio r h"
| "hub_step G HPlaylist h = Some (snd (hub_HLSPlaylist h))"
| "hub_step G HCloseAll h = CloseAll h"

definition hub_op_ok :: "hub_op \<Rightarrow> bool" where
  "hub_op_ok e = (case e of HFollow c m \<Rightarrow> 0 \<le> cOff c | _ \<Rightarrow> True)"

text \<open>The ring operation a hub operation comes to, and what it publishes.\<close>

fun ring_of :: "hub_op \<Rightarrow> Hub \<Rightarrow> ring_op list" where
  "ring_of (HPublish chunk) h = (if closed h then [] else [OpUpdate chunk])"
| "ring_of (HFollow c m) h = (if closed h then [] else [OpRead c m])"
| "ring_of (HJoin ms) h = []"
| "ring_of (HRelease b) h = (if bDone b \<or> \<not> bHub b then [] else [OpUnpin (bPin b)])"
| "ring_of (HCapture ms) h = [OpSnapshot ms]"
| "ring_of (HCaptureSegment n) h = [OpSegment n]"
| "ring_of (HUnpin p) h = [OpUnpin p]"
| "ring_of (HConfigure p t w) h = [OpConfigure p t w]"
| "ring_of HFlush h = [OpReset]"
| "ring_of (HGate g) h = [OpGate g]"
| "ring_of (HIdleRatio r) h = [OpIdleRatio r]"
| "ring_of HPlaylist h = [OpPlaylist]"
| "ring_of HCloseAll h = []"

fun hub_out :: "hub_op \<Rightarrow> Hub \<Rightarrow> bytes" where
  "hub_out (HPublish chunk) h = (if closed h then [] else accepted chunk)"
| "hub_out _ h = []"

definition chan_ok :: "Hub \<Rightarrow> bool" where
  "chan_ok h \<longleftrightarrow> insert (wake h) (set (shut h)) = {..<chans h} \<and>
     (wake h \<in> set (shut h) \<longleftrightarrow> closed h) \<and> distinct (shut h)"

lemma chan_ok_frame [simp]:
  "chan_ok (h\<lparr>hjoin := s\<rparr>) = chan_ok h" "chan_ok (h\<lparr>armed := a\<rparr>) = chan_ok h"
  "chan_ok (h\<lparr>hjoin := s, armed := a\<rparr>) = chan_ok h"
  by (simp_all add: chan_ok_def)

definition hub_inv :: "Hub \<Rightarrow> bool" where
  "hub_inv h \<longleftrightarrow> log_ok (as_log (hjoin h)) \<and> chan_ok h"

lemma signalWake_ok:
  "chan_ok h \<Longrightarrow> \<not> closed h \<Longrightarrow>
   signalWake h = Some (h\<lparr>shut := wake h # shut h, wake := chans h, chans := chans h + 1\<rparr>)"
  by (simp add: signalWake_def close_chan_def chan_ok_def)

lemma JoinStart_safe: "log_ok (as_log s) \<Longrightarrow> \<exists>r. JoinStart s ms = Some r"
  using JoinStart_placed [of s ms] by blast

lemma len_pos [simp]: "0 < len xs \<longleftrightarrow> xs \<noteq> []"
  by (simp add: len_def)

text \<open>No operation panics, and each is its ring operation on the ring.\<close>

lemma hub_step_refines:
  assumes "hub_inv h" "hub_op_ok e"
  shows "\<exists>h'. hub_step G e h = Some h' \<and> hub_inv h' \<and>
    run (ring_step G) (ring_of e h) (hjoin h) = Some (hjoin h')"
proof -
  have ok: "log_ok (as_log (hjoin h))" and ch: "chan_ok h" using assms(1) by (simp_all add: hub_inv_def)
  have ro: "list_all op_ok (ring_of e h)" using assms(2) by (cases e) (auto simp: op_ok_def hub_op_ok_def)
  obtain s' where s': "run (ring_step G) (ring_of e h) (hjoin h) = Some s'" "log_ok (as_log s')"
    using ring_ops.run_safe [OF ok ro] by blast
  have "\<exists>h'. hub_step G e h = Some h' \<and> chan_ok h' \<and> hjoin h' = s'"
  proof (cases e)
    case (HPublish x)
    have w: "chan_ok (h\<lparr>hjoin := s, shut := wake h # shut h, wake := chans h, chans := chans h + 1, armed := a\<rparr>)"
      if "\<not> closed h" for s a
      using ch that by (auto simp: chan_ok_def lessThan_Suc)
    show ?thesis
    proof (cases "closed h")
      case True
      then show ?thesis using HPublish s' ch by (simp add: Publish_def)
    next
      case False
      have "Update G x (hjoin h) = Some s'" using HPublish False s'(1) by (simp split: Option.bind_splits)
      then show ?thesis using HPublish False ch w [OF False, where s = s' and a = False]
        by (cases "x \<noteq> [] \<and> armed h") (auto simp: Publish_def Let_def signalWake_ok)
    qed
  next
    case (HFollow c m)
    then show ?thesis using s' ch
      by (cases "closed h") (auto simp: Follow_def Let_def split: Option.bind_splits)
  next
    case (HJoin ms)
    then show ?thesis using JoinStart_safe [OF ok, of ms] s' ch by (auto simp: Join_def)
  next
    case HCloseAll
    have "wake h \<in> {..<chans h}" using ch unfolding chan_ok_def by blast
    then have "chan_ok (h\<lparr>closed := True, shut := wake h # shut h\<rparr>)" if "\<not> closed h"
      using ch that by (simp add: chan_ok_def insert_absorb)
    moreover have "wake h \<notin> set (shut h)" if "\<not> closed h" using ch that by (simp add: chan_ok_def)
    ultimately show ?thesis using HCloseAll s' ch by (cases "closed h") (simp_all add: CloseAll_def close_chan_def)
  qed (use s' ch in \<open>auto simp: Release_def hub_capture_def hub_capture_segment_def copyPinned_def
      hub_Configure_def Flush_def hub_SetGated_def hub_SetIdleRatio_def hub_HLSPlaylist_def case_prod_beta
      split: Option.bind_splits\<close>)
  then show ?thesis using s' by (auto simp: hub_inv_def)
qed

end
