(* ===== verification/HubProps.thy ===== *)
theory HubProps
  imports Hub
begin

text \<open>
  What the hub promises on top of the ring: it never panics (nor closes a channel twice), a viewer parked at
  the live edge is never left asleep with something to read, a closed hub stays closed, a viewer's
  stream through the hub has no gap, and a capture copied with the lock released reads what was
  captured.
\<close>

interpretation hubs: safe_system "hub_step G" hub_op_ok hub_inv for G
  by unfold_locales (use hub_step_refines in blast)

lemma hub_New_inv: "hub_New mg prebuf = Some h \<Longrightarrow> hub_inv h"
  using New_log_ok by (auto simp: hub_New_def hub_inv_def chan_ok_def lessThan_Suc split: Option.bind_splits)

section \<open>Through the hub\<close>

definition hub_log :: "Hub \<Rightarrow> block_log" where
  "hub_log h = as_log (hjoin h)"

text \<open>A viewer's read: \<open>None\<close> where it is told it fell behind; nothing where the stream ended.\<close>

definition hub_read :: "Hub \<Rightarrow> Cursor \<Rightarrow> int \<Rightarrow> ((bytes \<times> Cursor) option \<times> Hub) go" where
  "hub_read h c m = do {
     (f, h') \<leftarrow> Follow c m h;
     Some (if fBehind f then None else Some (Burst_Bytes (fBurst f), fNext f), h') }"

lemma hub_step_log:
  assumes "hub_inv h" "hub_op_ok e"
  shows "\<exists>h'. hub_step G e h = Some h' \<and> hub_inv h' \<and> log_step (hub_out e h) (hub_log h) (hub_log h')"
proof -
  obtain h' where h': "hub_step G e h = Some h'" "hub_inv h'"
    "run (ring_step G) (ring_of e h) (hjoin h) = Some (hjoin h')"
    using hub_step_refines [OF assms] by blast
  have ok: "log_ok (as_log (hjoin h))" using assms(1) by (simp add: hub_inv_def)
  have "ring_of e h = [] \<and> hub_out e h = [] \<or>
      (\<exists>x. ring_of e h = [x] \<and> hub_out e h = ring_out x \<and> op_ok x)"
    using assms(2) by (cases e) (auto simp: op_ok_def hub_op_ok_def)
  then consider "ring_of e h = []" "hub_out e h = []"
    | x where "ring_of e h = [x]" "hub_out e h = ring_out x" "op_ok x" by blast
  then have "log_step (hub_out e h) (hub_log h) (hub_log h')"
  proof cases
    case 1
    then show ?thesis using h'(3) log_step.stay by (simp add: hub_log_def)
  next
    case (2 x)
    then show ?thesis using h'(3) ring_step_refines [OF ok 2(3), of G] by (auto simp: hub_log_def)
  qed
  with h' show ?thesis by blast
qed

text \<open>A place behind which the log has nothing.\<close>

definition edge :: "block_log \<Rightarrow> int \<Rightarrow> int \<Rightarrow> bool" where
  "edge L i off \<longleftrightarrow> placed L i off \<and> (blocks L = [] \<or> holds L i off) \<and>
     (\<forall>b \<in> set (blocks L). fst b < i \<or> fst b = i \<and> len (snd b) \<le> off)"

lemma edge_step:
  "log_step out L L' \<Longrightarrow> out = [] \<Longrightarrow> log_ok L \<Longrightarrow> edge L i off \<Longrightarrow> edge L' i off"
proof (induction rule: log_step.induct)
  case (drops L n)
  show ?case
  proof (cases "n = 0 \<or> blocks L = []")
    case True
    with drops show ?thesis by (auto simp: log_drop_def)
  next
    case False
    let ?b = "last (take n (blocks L))"
    have "?b \<in> set (blocks L)" using False by (metis last_in_set in_set_takeD take_eq_Nil)
    then have "fst ?b < i \<or> fst ?b = i \<and> len (snd ?b) \<le> off" using drops by (auto simp: edge_def)
    then have "holds (log_drop n L) i off" using False by (auto simp: log_drop_def Let_def holds_def)
    moreover have "placed (log_drop n L) i off"
      using drops log_tail_step [OF log_step.drops, of L i off n] by (simp add: edge_def)
    ultimately show ?thesis using drops False
      by (auto simp: edge_def log_drop_def Let_def dest: in_set_dropD)
  qed
next
  case (both a L L1 b L2)
  then show ?case using log_ok_step [of a L L1] by auto
qed auto

lemma edge_tail: "edge L i off \<Longrightarrow> log_tail L i off = []"
  by (fastforce simp: edge_def log_tail_def block_tail_def len_def)

lemma edge_if:
  assumes "log_ok L" "placed L i off" "blocks L = [] \<or> holds L i off" "log_tail L i off = []"
  shows "edge L i off"
proof -
  have "fst b < i \<or> fst b = i \<and> len (snd b) \<le> off" if b: "b \<in> set (blocks L)" for b
  proof -
    have "block_tail i off b = []" using assms(4) b by (simp add: log_tail_def)
    moreover have "snd b \<noteq> []" using assms(1) b by (simp add: log_ok_def)
    ultimately show ?thesis using assms(2) b
      by (auto simp: block_tail_def placed_def len_def split: if_splits)
  qed
  with assms show ?thesis by (simp add: edge_def)
qed

text \<open>The three outcomes of a \<open>Follow\<close>: the stream ended, a run of bytes, a place that is gone.\<close>

definition held_place :: "Hub \<Rightarrow> Cursor \<Rightarrow> bool" where
  "held_place h c \<longleftrightarrow> gops (hjoin h) = [] \<or> holds (hub_log h) (cGOP c) (cOff c)"

definition place_tail :: "Hub \<Rightarrow> Cursor \<Rightarrow> bytes" where
  "place_tail h c = log_tail (hub_log h) (cGOP c) (cOff c)"

lemma Follow_ended:
  "closed h \<Longrightarrow> Follow c m h = Some (\<lparr>fBurst = no_burst, fNext = c, fAtEnd = False, fWake = None,
     fBehind = False, fEnded = True\<rparr>, h)"
  by (simp add: Follow_def)

lemma Burst_Bytes_simps [simp]:
  "Burst_Bytes (no_burst\<lparr>bParts := ps, bPin := q\<rparr>) = part_bytes ps"
  "Burst_Bytes (no_burst\<lparr>bParts := ps, bPin := q, bHub := True\<rparr>) = part_bytes ps"
  "Burst_Bytes no_burst = []"
  by (simp_all add: Burst_Bytes_def no_burst_def part_bytes_def)

lemma Follow_run:
  assumes "hub_inv h" "placed (hub_log h) (cGOP c) (cOff c)" "\<not> closed h" "held_place h c"
  shows "\<exists>f h'. Follow c m h = Some (f, h') \<and> hub_inv h' \<and> hub_log h' = hub_log h \<and>
    closed h' = closed h \<and> shut h' = shut h \<and> wake h' = wake h \<and> \<not> fEnded f \<and> \<not> fBehind f \<and>
    placed (hub_log h) (cGOP (fNext f)) (cOff (fNext f)) \<and> held_place h (fNext f) \<and>
    (holds (hub_log h) (cGOP c) (cOff c) \<longrightarrow> holds (hub_log h) (cGOP (fNext f)) (cOff (fNext f))) \<and>
    (\<not> holds (hub_log h) (cGOP c) (cOff c) \<longrightarrow> fNext f = c) \<and>
    place_tail h c = Burst_Bytes (fBurst f) @ place_tail h (fNext f) \<and>
    (if fAtEnd f then place_tail h (fNext f) = [] \<and> fWake f = Some (wake h) \<and> armed h'
     else max m 188 < len (Burst_Bytes (fBurst f)) + 188 \<and> fWake f = None)"
proof -
  have ok: "log_ok (as_log (hjoin h))" using assms(1) by (simp add: hub_inv_def)
  have tl: "gops (hjoin h) = [] \<Longrightarrow> place_tail h d = []" for d
    by (simp add: place_tail_def hub_log_def log_tail_gops)
  from ReadFrom_reads [OF ok, of c m] assms(2) obtain r s' where r: "ReadFrom (hjoin h) c m = Some (r, s')"
    "as_log s' = as_log (hjoin h)" "behind r \<longleftrightarrow> gops (hjoin h) \<noteq> [] \<and> \<not> holds (as_log (hjoin h)) (cGOP c) (cOff c)"
    "if holds (as_log (hjoin h)) (cGOP c) (cOff c) then
       holds (as_log (hjoin h)) (cGOP (rnext r)) (cOff (rnext r)) \<and> placed (as_log (hjoin h)) (cGOP (rnext r)) (cOff (rnext r)) \<and>
       log_tail (as_log (hjoin h)) (cGOP c) (cOff c) =
         part_bytes (rparts r) @ log_tail (as_log (hjoin h)) (cGOP (rnext r)) (cOff (rnext r)) \<and>
       len (part_bytes (rparts r)) \<le> max m 188 \<and>
       (if atEnd r then log_tail (as_log (hjoin h)) (cGOP (rnext r)) (cOff (rnext r)) = []
        else max m 188 < len (part_bytes (rparts r)) + 188)
     else rparts r = [] \<and> rnext r = c"
    unfolding hub_log_def by blast
  have nb: "\<not> behind r" using r(3) assms(4) by (auto simp: held_place_def hub_log_def)
  have e: "gops (hjoin h) = [] \<Longrightarrow> atEnd r" using r(1) by (auto simp: ReadFrom_def)
  have k: "placed (hub_log h) (cGOP (rnext r)) (cOff (rnext r)) \<and> held_place h (rnext r) \<and>
    (holds (hub_log h) (cGOP c) (cOff c) \<longrightarrow> holds (hub_log h) (cGOP (rnext r)) (cOff (rnext r))) \<and>
    (\<not> holds (hub_log h) (cGOP c) (cOff c) \<longrightarrow> rnext r = c) \<and>
    place_tail h c = part_bytes (rparts r) @ place_tail h (rnext r) \<and>
    (if atEnd r then place_tail h (rnext r) = [] else max m 188 < len (part_bytes (rparts r)) + 188)"
  proof (cases "holds (hub_log h) (cGOP c) (cOff c)")
    case True
    then show ?thesis using r(4) by (simp add: hub_log_def held_place_def place_tail_def split: if_splits)
  next
    case False
    then have "gops (hjoin h) = []" using assms(4) by (simp add: held_place_def)
    then show ?thesis using False r(4) assms(2,4) tl e by (simp add: hub_log_def part_bytes_def)
  qed
  have inv: "hub_inv (h\<lparr>hjoin := s'\<rparr>)" "hub_inv (h\<lparr>hjoin := s', armed := True\<rparr>)"
    "hub_log (h\<lparr>hjoin := s'\<rparr>) = hub_log h" "hub_log (h\<lparr>hjoin := s', armed := True\<rparr>) = hub_log h"
    using assms(1) r(2) by (simp_all add: hub_inv_def chan_ok_def hub_log_def)
  define b where "b = (if rparts r \<noteq> [] then no_burst\<lparr>bParts := rparts r, bPin := rpin r, bHub := True\<rparr>
    else no_burst\<lparr>bParts := rparts r, bPin := rpin r\<rparr>)"
  have bb: "Burst_Bytes b = part_bytes (rparts r)" by (simp add: b_def)
  have F: "Follow c m h = Some (\<lparr>fBurst = b, fNext = rnext r, fAtEnd = atEnd r,
      fWake = (if atEnd r then Some (wake h) else None), fBehind = False, fEnded = False\<rparr>,
      if atEnd r then h\<lparr>hjoin := s', armed := True\<rparr> else h\<lparr>hjoin := s'\<rparr>)"
    using assms(3) r(1) nb by (simp add: Follow_def Let_def b_def)
  show ?thesis unfolding F using k inv bb by (cases "atEnd r") simp_all
qed

lemma Follow_behind:
  assumes "hub_inv h" "placed (hub_log h) (cGOP c) (cOff c)" "\<not> closed h" "\<not> held_place h c"
  shows "\<exists>f h'. Follow c m h = Some (f, h') \<and> hub_inv h' \<and> hub_log h' = hub_log h \<and> fBehind f \<and> fNext f = c \<and>
    fWake f = None"
proof -
  have ok: "log_ok (as_log (hjoin h))" using assms(1) by (simp add: hub_inv_def)
  from ReadFrom_reads [OF ok, of c m] assms(2) obtain r s' where r: "ReadFrom (hjoin h) c m = Some (r, s')"
    "as_log s' = as_log (hjoin h)" "behind r \<longleftrightarrow> gops (hjoin h) \<noteq> [] \<and> \<not> holds (as_log (hjoin h)) (cGOP c) (cOff c)"
    unfolding hub_log_def by blast
  moreover have "behind r" using r(3) assms(4) by (simp add: held_place_def hub_log_def)
  ultimately show ?thesis using assms(1,3) by (simp add: Follow_def hub_inv_def chan_ok_def hub_log_def)
qed

lemma Follow_placed:
  assumes "hub_inv h" "placed (hub_log h) (cGOP c) (cOff c)" "Follow c m h = Some (f, h')"
  shows "hub_inv h' \<and> placed (hub_log h') (cGOP (fNext f)) (cOff (fNext f))"
proof (cases "closed h")
  case True
  then show ?thesis using assms by (auto simp: Follow_ended)
next
  case False
  then show ?thesis using assms Follow_run [OF assms(1,2) False, of m] Follow_behind [OF assms(1,2) False, of m]
    by (cases "held_place h c") auto
qed

interpretation hub: followed_log "hub_step G" hub_out hub_op_ok hub_inv hub_read hub_log cursor_pos for G
proof (unfold_locales, goal_cases)
  case (1 h e)
  then show ?case by (rule hub_step_log)
next
  case (2 h)
  then show ?case by (simp add: hub_inv_def hub_log_def)
next
  case (3 h c m)
  then have "placed (hub_log h) (cGOP c) (cOff c)" by (simp add: cursor_pos_def)
  note fl = 3(1) this
  show ?case
  proof (cases "closed h")
    case True
    then show ?thesis using fl by (simp add: hub_read_def Follow_ended cursor_pos_def)
  next
    case op: False
    show ?thesis
    proof (cases "held_place h c")
      case True
      from Follow_run [OF fl op this, of m] show ?thesis
        by (auto simp: hub_read_def cursor_pos_def place_tail_def held_place_def hub_log_def log_tail_gops)
    next
      case False
      from Follow_behind [OF fl op this, of m] False show ?thesis
        by (auto simp: hub_read_def cursor_pos_def held_place_def)
    qed
  qed
qed

text \<open>C4: a viewer's stream through the hub has no gap and no repetition.  From any hub the daemon can
  have, a viewer that joins and then follows, with any operations of the producer, the
  configuration, other viewers and the teardown in between, receives a prefix of its history
  followed by everything the hub accepted since; after \<open>CloseAll\<close> nothing more is accepted.\<close>

theorem hub_follow_gap_free:
  assumes "hub_New mg prebuf = Some h0" "list_all hub_op_ok pre" "run (hub_step G) pre h0 = Some h"
    and "Join ms h = Some (head, c)" "list_all (case_sum hub_op_ok (\<lambda>m. True)) es"
  shows "\<exists>got pub c' h'. follow_run (hub_step G) hub_out hub_read es h c = Some (got, pub, c', h') \<and>
    prefix got (log_tail (hub_log h) (cGOP c) (cOff c) @ pub) \<and> hub_inv h' \<and>
    (case c' of None \<Rightarrow> True
     | Some d \<Rightarrow> holds (hub_log h') (cGOP d) (cOff d) \<longrightarrow>
         got @ log_tail (hub_log h') (cGOP d) (cOff d) = log_tail (hub_log h) (cGOP c) (cOff c) @ pub)"
proof -
  have inv: "hub_inv h" using hubs.run_preserves [OF hub_New_inv [OF assms(1)] assms(2,3)] .
  then have "log_ok (as_log (hjoin h))" by (simp add: hub_inv_def)
  from JoinStart_placed [OF this, of ms] assms(4)
  have "hub.at_ring h c" "hub.kept h c"
    by (auto simp: hub.at_ring_def hub.kept_def cursor_pos_def hub_log_def Join_def)
  from hub.follower_gap_free [OF inv this(1) assms(5), of G] this(2) show ?thesis
    by (fastforce simp: hub.tail_of_def hub.kept_def cursor_pos_def split: option.splits)
qed

section \<open>Parked at the live edge\<close>

text \<open>What wakes a parked viewer.\<close>

fun wakes :: "hub_op \<Rightarrow> bool" where
  "wakes (HPublish chunk) = (chunk \<noteq> [])"
| "wakes HCloseAll = True"
| "wakes _ = False"

definition parked :: "nat \<Rightarrow> Cursor \<Rightarrow> Hub \<Rightarrow> bool" where
  "parked w c h \<longleftrightarrow> hub_inv h \<and> edge (hub_log h) (cGOP c) (cOff c) \<and> wake h = w \<and> armed h \<and> \<not> closed h"

lemma accepted_nil [simp]: "accepted [] = []"
  by (simp add: accepted_def packets_of.simps)

lemma hub_step_shut:
  "hub_step G e h = Some h' \<Longrightarrow> set (shut h) \<subseteq> set (shut h')"
  by (cases e) (auto simp: Publish_def Follow_def Let_def signalWake_def close_chan_def Release_def hub_capture_def
      hub_capture_segment_def copyPinned_def hub_Configure_def Flush_def hub_SetGated_def hub_SetIdleRatio_def
      hub_HLSPlaylist_def CloseAll_def case_prod_beta split: Option.bind_splits if_splits prod.splits)

lemma hub_run_shut: "run (hub_step G) es h = Some h' \<Longrightarrow> set (shut h) \<subseteq> set (shut h')"
proof (induction es arbitrary: h)
  case (Cons e es)
  then obtain h1 where "hub_step G e h = Some h1" "run (hub_step G) es h1 = Some h'"
    by (auto split: Option.bind_splits)
  with Cons.IH hub_step_shut show ?case by blast
qed simp

lemma hub_step_quiet:
  assumes "hub_step G e h = Some h'" "\<not> wakes e" "armed h" "\<not> closed h"
  shows "wake h' = wake h \<and> armed h' \<and> \<not> closed h' \<and> shut h' = shut h \<and> hub_out e h = []"
  using assms
  by (cases e) (auto simp: Publish_def Follow_def Let_def signalWake_def close_chan_def Release_def hub_capture_def
      hub_capture_segment_def copyPinned_def hub_Configure_def Flush_def hub_SetGated_def hub_SetIdleRatio_def
      hub_HLSPlaylist_def CloseAll_def case_prod_beta split: Option.bind_splits if_splits prod.splits)

lemma hub_step_wakes:
  assumes "hub_step G e h = Some h'" "wakes e" "armed h" "\<not> closed h"
  shows "wake h \<in> set (shut h')"
  using assms
  by (cases e) (auto simp: Publish_def Let_def signalWake_def close_chan_def CloseAll_def
      split: Option.bind_splits if_splits)

lemma parked_run:
  assumes "parked w c h" "list_all hub_op_ok es" "run (hub_step G) es h = Some h'" "\<not> list_ex wakes es"
  shows "parked w c h' \<and> shut h' = shut h"
  using assms
proof (induction es arbitrary: h)
  case (Cons e es)
  then obtain h1 where h1: "hub_step G e h = Some h1" "run (hub_step G) es h1 = Some h'"
    by (auto split: Option.bind_splits)
  have inv: "hub_inv h" "hub_op_ok e" "log_ok (hub_log h)"
    using Cons.prems by (simp_all add: parked_def hub_inv_def hub_log_def)
  note q = hub_step_quiet [OF h1(1)]
  have "log_step [] (hub_log h) (hub_log h1)" "hub_inv h1"
    using hub_step_log [OF inv(1,2), of G] h1(1) q Cons.prems by (auto simp: parked_def)
  then have "parked w c h1" using edge_step [OF _ refl inv(3)] q Cons.prems by (auto simp: parked_def)
  with Cons.IH [OF this] h1 q Cons.prems show ?case by (auto simp: parked_def)
qed simp

lemma woken_run:
  assumes "parked w c h" "list_all hub_op_ok es" "run (hub_step G) es h = Some h'" "list_ex wakes es"
  shows "w \<in> set (shut h')"
  using assms
proof (induction es arbitrary: h)
  case (Cons e es)
  then obtain h1 where h1: "hub_step G e h = Some h1" "run (hub_step G) es h1 = Some h'"
    by (auto split: Option.bind_splits)
  show ?case
  proof (cases "wakes e")
    case True
    then have "w \<in> set (shut h1)" using hub_step_wakes [OF h1(1)] Cons.prems(1) by (simp add: parked_def)
    then show ?thesis using hub_run_shut [OF h1(2)] by blast
  next
    case False
    then have "parked w c h1" using parked_run [of w c h "[e]" G h1] Cons.prems h1(1) by simp
    then show ?thesis using Cons.IH [OF _ _ h1(2)] Cons.prems False by simp
  qed
qed simp

text \<open>A viewer's session: it joins, it follows, and anything else happens in between.\<close>

inductive session :: "(nat \<Rightarrow> nat \<Rightarrow> nat) \<Rightarrow> Hub \<Rightarrow> Cursor \<Rightarrow> bool" for G where
  joins: "hub_New mg prebuf = Some h0 \<Longrightarrow> list_all hub_op_ok pre \<Longrightarrow> run (hub_step G) pre h0 = Some h \<Longrightarrow>
    Join ms h = Some (head, c) \<Longrightarrow> session G h c"
| others: "session G h c \<Longrightarrow> hub_op_ok e \<Longrightarrow> hub_step G e h = Some h' \<Longrightarrow> session G h' c"
| follows: "session G h c \<Longrightarrow> Follow c m h = Some (f, h') \<Longrightarrow> session G h' (fNext f)"

lemma session_inv: "session G h c \<Longrightarrow> hub_inv h \<and> placed (hub_log h) (cGOP c) (cOff c)"
proof (induction rule: session.induct)
  case (joins mg prebuf h0 pre h ms head c)
  have inv: "hub_inv h" using hubs.run_preserves [OF hub_New_inv [OF joins(1)] joins(2,3)] .
  then have "log_ok (as_log (hjoin h))" by (simp add: hub_inv_def)
  from JoinStart_placed [OF this, of ms] joins(4) inv show ?case by (auto simp: Join_def hub_log_def)
next
  case (others h c e h')
  then have "log_ok (hub_log h)" by (simp add: hub_inv_def hub_log_def)
  with others hub_step_log [of h e G] log_tail_step show ?case by fastforce
next
  case (follows h c m f h')
  then show ?case using Follow_placed by blast
qed

text \<open>C3: no wakeup is lost.  When \<open>Follow\<close> has parked a viewer on a wake channel, then after any
  operations of anyone the channel is closed exactly when the hub was torn down or a chunk with
  bytes in it was published since; and as long as it is not closed the viewer has nothing to miss:
  following on would give it no bytes, the live edge and the same channel.\<close>

theorem no_lost_wakeup:
  assumes "session G h c" "Follow c m h = Some (f, h1)" "fWake f = Some w"
    and "list_all hub_op_ok es" "run (hub_step G) es h1 = Some h2"
  shows "(w \<in> set (shut h2) \<longleftrightarrow> list_ex wakes es) \<and>
    (w \<notin> set (shut h2) \<longrightarrow>
       (\<exists>f2 h3. Follow (fNext f) m2 h2 = Some (f2, h3) \<and> fAtEnd f2 \<and> Burst_Bytes (fBurst f2) = [] \<and>
          fWake f2 = Some w \<and> \<not> fBehind f2 \<and> \<not> fEnded f2))"
proof -
  note inv = session_inv [OF assms(1), THEN conjunct1]
  note pl = session_inv [OF assms(1), THEN conjunct2]
  have op: "\<not> closed h" using assms(2,3) Follow_ended [of h c m] by auto
  have held: "held_place h c" using assms(2,3) Follow_behind [OF inv pl op, of m] by fastforce
  from Follow_run [OF inv pl op held, of m] assms(2,3)
  have f: "hub_inv h1" "hub_log h1 = hub_log h" "closed h1 = closed h" "wake h1 = w" "armed h1"
    "placed (hub_log h) (cGOP (fNext f)) (cOff (fNext f))" "held_place h (fNext f)" "place_tail h (fNext f) = []"
    by (auto split: if_splits)
  have lok: "log_ok (hub_log h)" using inv by (simp add: hub_inv_def hub_log_def)
  have "edge (hub_log h) (cGOP (fNext f)) (cOff (fNext f))"
    by (rule edge_if [OF lok f(6)]) (use f(7,8) in \<open>simp_all add: held_place_def place_tail_def hub_log_def as_log_def\<close>)
  then have pk: "parked w (fNext f) h1" using f op by (simp add: parked_def)
  have nw: "w \<notin> set (shut h1)" using f(1,3,4) op by (auto simp: hub_inv_def chan_ok_def)
  show ?thesis
  proof (cases "list_ex wakes es")
    case True
    then show ?thesis using woken_run [OF pk assms(4,5)] by simp
  next
    case False
    have p2: "parked w (fNext f) h2" "shut h2 = shut h1" using parked_run [OF pk assms(4,5) False] by auto
    then have e2: "hub_inv h2" "edge (hub_log h2) (cGOP (fNext f)) (cOff (fNext f))" "wake h2 = w" "\<not> closed h2"
      by (simp_all add: parked_def)
    then have pl2: "placed (hub_log h2) (cGOP (fNext f)) (cOff (fNext f))" by (simp add: edge_def)
    have h: "held_place h2 (fNext f)" using e2(2) by (simp add: edge_def held_place_def hub_log_def as_log_def)
    have tl: "place_tail h2 (fNext f) = []" using edge_tail [OF e2(2)] by (simp add: place_tail_def)
    from Follow_run [OF e2(1) pl2 e2(4) h, of m2] obtain f2 h3 where f2: "Follow (fNext f) m2 h2 = Some (f2, h3)"
      "\<not> fEnded f2" "\<not> fBehind f2" "place_tail h2 (fNext f) = Burst_Bytes (fBurst f2) @ place_tail h2 (fNext f2)"
      "if fAtEnd f2 then place_tail h2 (fNext f2) = [] \<and> fWake f2 = Some (wake h2) \<and> armed h3
       else max m2 188 < len (Burst_Bytes (fBurst f2)) + 188 \<and> fWake f2 = None"
      by blast
    have bytes: "Burst_Bytes (fBurst f2) = []" using f2(4) tl by simp
    moreover have "fAtEnd f2" using f2(5) bytes by (auto split: if_splits)
    ultimately show ?thesis using f2 e2(3) False nw p2(2) by auto
  qed
qed

lemma hub_step_closed:
  "hub_step G e h = Some h' \<Longrightarrow> closed h \<Longrightarrow> closed h' \<and> shut h' = shut h"
  by (cases e) (auto simp: Publish_def Follow_def Let_def Release_def hub_capture_def
      hub_capture_segment_def copyPinned_def hub_Configure_def Flush_def hub_SetGated_def hub_SetIdleRatio_def
      hub_HLSPlaylist_def CloseAll_def case_prod_beta split: Option.bind_splits if_splits prod.splits)

lemma hub_run_closed:
  "run (hub_step G) es h = Some h' \<Longrightarrow> closed h \<Longrightarrow> closed h' \<and> shut h' = shut h"
proof (induction es arbitrary: h)
  case (Cons e es)
  then obtain h1 where "hub_step G e h = Some h1" "run (hub_step G) es h1 = Some h'"
    by (auto split: Option.bind_splits)
  with Cons hub_step_closed show ?case by metis
qed simp

text \<open>C6: a hub torn down stays down.  After \<open>CloseAll\<close> (idempotent) every wake channel ever handed out is
  closed, and whatever happens afterwards a \<open>Publish\<close> leaves the hub as it is and a \<open>Follow\<close> reports
  the end with nothing pinned; and nothing of this panics.\<close>

theorem closed_for_good:
  assumes "hub_New mg prebuf = Some h0" "list_all hub_op_ok pre" "run (hub_step G) pre h0 = Some h"
  shows "\<exists>h1. CloseAll h = Some h1 \<and> closed h1 \<and> CloseAll h1 = Some h1 \<and> set (shut h1) = {..<chans h1} \<and>
    (\<forall>es. list_all hub_op_ok es \<longrightarrow> (\<exists>h2. run (hub_step G) es h1 = Some h2 \<and> closed h2 \<and>
       shut h2 = shut h1 \<and> Publish G chunk h2 = Some h2 \<and>
       (\<exists>f. Follow c m h2 = Some (f, h2) \<and> fEnded f \<and> fBurst f = no_burst)))"
proof -
  have inv: "hub_inv h" using hubs.run_preserves [OF hub_New_inv [OF assms(1)] assms(2,3)] .
  obtain h1 where h1: "CloseAll h = Some h1" "hub_inv h1"
    using hub_step_refines [OF inv, of HCloseAll] by (auto simp: hub_op_ok_def)
  then have c: "closed h1" by (auto simp: CloseAll_def close_chan_def split: if_splits)
  have i: "insert (wake h1) (set (shut h1)) = {..<chans h1}" "wake h1 \<in> set (shut h1)"
    using h1(2) c by (simp_all add: hub_inv_def chan_ok_def)
  then have st: "set (shut h1) = {..<chans h1}" using insert_absorb by metis
  have all: "\<exists>h2. run (hub_step G) es h1 = Some h2 \<and> closed h2 \<and> shut h2 = shut h1 \<and> Publish G chunk h2 = Some h2 \<and>
      (\<exists>f. Follow c m h2 = Some (f, h2) \<and> fEnded f \<and> fBurst f = no_burst)" if es: "list_all hub_op_ok es" for es
  proof -
    obtain h2 where h2: "run (hub_step G) es h1 = Some h2" using hubs.run_safe [OF h1(2) es] by blast
    note cl = hub_run_closed [OF h2 c]
    have "\<exists>f. Follow c m h2 = Some (f, h2) \<and> fEnded f \<and> fBurst f = no_burst"
      using cl by (simp add: Follow_ended)
    then show ?thesis using h2 cl by (intro exI [of _ h2]) (simp add: Publish_def)
  qed
  have "CloseAll h1 = Some h1" using c by (simp add: CloseAll_def)
  with h1(1) c st all show ?thesis by (intro exI [of _ h1]) simp
qed

end
