(* ===== verification/HubCopy.thy ===== *)
theory HubCopy
  imports HubProps
begin

text \<open>
  The hub of \<^verbatim>\<open>internal/hub/hub.go\<close> together with the pins its callers hold: a viewer writes the ring's own
  buffers to its socket and then releases them, and \<open>Snapshot\<close> and \<open>HLSSegment\<close> copy theirs with the
  lock released.  A caller gives back a pin it took, once; \<open>hub_sys\<close> keeps the list.
\<close>

fun hub_sys :: "(nat \<Rightarrow> nat \<Rightarrow> nat) \<Rightarrow> hub_op \<Rightarrow> Hub \<times> Pin list \<Rightarrow> (Hub \<times> Pin list) go" where
  "hub_sys G (HFollow c m) (h, ps) = do {
     (f, h') \<leftarrow> Follow c m h;
     Some (h', if bHub (fBurst f) then bPin (fBurst f) # ps else ps) }"
| "hub_sys G (HCapture ms) (h, ps) = do {
     (head, parts, p, h') \<leftarrow> hub_capture ms h;
     Some (h', if held p then p # ps else ps) }"
| "hub_sys G (HCaptureSegment n) (h, ps) =
     (case hub_capture_segment n h of
        (None, h') \<Rightarrow> Some (h', ps)
      | (Some (head, parts, p), h') \<Rightarrow> Some (h', p # ps))"
| "hub_sys G (HRelease b) (h, ps) =
     (if bDone b \<or> \<not> bHub b then Some (h, ps)
      else if bPin b \<in> set ps then Some (snd (Release b h), remove1 (bPin b) ps) else Some (h, ps))"
| "hub_sys G (HUnpin p) (h, ps) =
     (if p \<in> set ps then Some (snd (copyPinned [] [] p h), remove1 p ps) else Some (h, ps))"
| "hub_sys G e (h, ps) = do { h' \<leftarrow> hub_step G e h; Some (h', ps) }"

lemma read_run_held:
  "read_run s c m = Some (r, s') \<Longrightarrow> held (rpin r) \<longleftrightarrow> rparts r \<noteq> []"
  by (auto simp: read_run_def Let_def no_pin_def pin_def case_prod_beta split: Option.bind_splits if_splits)

lemma ReadFrom_held:
  "ReadFrom s c m = Some (r, s') \<Longrightarrow> (held (rpin r) \<longleftrightarrow> rparts r \<noteq> []) \<and> (behind r \<longrightarrow> rparts r = [])"
  by (auto simp: ReadFrom_def Let_def no_pin_def read_run_held split: if_splits)
    (auto simp: read_run_def Let_def case_prod_beta split: Option.bind_splits if_splits)

lemma Follow_pin:
  assumes "Follow c m h = Some (f, h')" "\<not> closed h"
  shows "\<exists>r s'. ReadFrom (hjoin h) c m = Some (r, s') \<and> hjoin h' = s' \<and> (bHub (fBurst f) \<longleftrightarrow> held (rpin r)) \<and>
    (held (rpin r) \<longrightarrow> bPin (fBurst f) = rpin r) \<and> bParts (fBurst f) = rparts r"
proof -
  obtain r s' where r: "ReadFrom (hjoin h) c m = Some (r, s')"
    using assms by (auto simp: Follow_def split: Option.bind_splits)
  have f: "(f, h') = (if behind r then (\<lparr>fBurst = no_burst, fNext = c, fAtEnd = False, fWake = None, fBehind = True,
        fEnded = False\<rparr>, h\<lparr>hjoin := s'\<rparr>)
      else (\<lparr>fBurst = (if rparts r \<noteq> [] then no_burst\<lparr>bParts := rparts r, bPin := rpin r, bHub := True\<rparr>
              else no_burst\<lparr>bParts := rparts r, bPin := rpin r\<rparr>), fNext = rnext r, fAtEnd = atEnd r,
            fWake = (if atEnd r then Some (wake h) else None), fBehind = False, fEnded = False\<rparr>,
            if atEnd r then h\<lparr>hjoin := s', armed := True\<rparr> else h\<lparr>hjoin := s'\<rparr>))"
    using assms r by (simp add: Follow_def Let_def split: if_splits)
  show ?thesis
    using f r ReadFrom_held [OF r] by (auto simp: no_burst_def split: if_splits)
qed

lemma SegmentPin_held: "HLSSegmentPin s n = (Some (head, parts, p), s') \<Longrightarrow> held p"
  by (auto simp: HLSSegmentPin_def Let_def pin_def case_prod_beta split: option.splits if_splits)

lemma hub_sys_pins:
  assumes "hub_sys G e (h, ps) = Some (h', ps')"
  shows "\<exists>rs. run (pin_step G) rs (hjoin h, ps) = Some (hjoin h', ps') \<and> (hub_op_ok e \<longrightarrow> list_all op_ok rs)"
proof (cases e)
  case (HFollow c m)
  then obtain f where f: "Follow c m h = Some (f, h')" "ps' = (if bHub (fBurst f) then bPin (fBurst f) # ps else ps)"
    using assms by (auto split: Option.bind_splits)
  show ?thesis
  proof (cases "closed h")
    case True
    then show ?thesis using f by (intro exI [of _ "[]"]) (auto simp: Follow_ended no_burst_def)
  next
    case False
    from Follow_pin [OF f(1) this] f(2) HFollow show ?thesis
      by (intro exI [of _ "[OpRead c m]"]) (auto simp: pin_step_def hands_out_def op_ok_def hub_op_ok_def)
  qed
next
  case (HCapture ms)
  then show ?thesis using assms
    by (intro exI [of _ "[OpSnapshot ms]"])
      (auto simp: hub_capture_def pin_step_def hands_out_def op_ok_def split: Option.bind_splits)
next
  case (HCaptureSegment n)
  then show ?thesis using assms SegmentPin_held
    by (intro exI [of _ "[OpSegment n]"])
      (auto simp: hub_capture_segment_def pin_step_def hands_out_def op_ok_def no_pin_def
        split: prod.splits option.splits)
next
  case (HRelease b)
  then show ?thesis using assms
    by (intro exI [of _ "if bDone b \<or> \<not> bHub b then [] else [OpUnpin (bPin b)]"])
      (auto simp: pin_step_def hands_out_def op_ok_def Release_def split: if_splits)
next
  case (HUnpin p)
  then show ?thesis using assms
    by (intro exI [of _ "[OpUnpin p]"])
      (auto simp: pin_step_def hands_out_def op_ok_def copyPinned_def split: if_splits)
next
  case (HPublish x)
  then show ?thesis using assms
    by (intro exI [of _ "if closed h then [] else [OpUpdate x]"])
      (auto simp: pin_step_def hands_out_def op_ok_def Publish_def Let_def signalWake_def close_chan_def
        split: Option.bind_splits if_splits)
next
  case (HJoin ms)
  then show ?thesis using assms by (intro exI [of _ "[]"]) (auto split: Option.bind_splits)
next
  case (HConfigure p t w)
  then show ?thesis using assms
    by (intro exI [of _ "[OpConfigure p t w]"])
      (auto simp: pin_step_def hands_out_def op_ok_def hub_Configure_def split: Option.bind_splits)
next
  case HFlush
  then show ?thesis using assms
    by (intro exI [of _ "[OpReset]"]) (auto simp: pin_step_def hands_out_def op_ok_def Flush_def)
next
  case (HGate g)
  then show ?thesis using assms
    by (intro exI [of _ "[OpGate g]"])
      (auto simp: pin_step_def hands_out_def op_ok_def hub_SetGated_def split: Option.bind_splits)
next
  case (HIdleRatio r)
  then show ?thesis using assms
    by (intro exI [of _ "[OpIdleRatio r]"])
      (auto simp: pin_step_def hands_out_def op_ok_def hub_SetIdleRatio_def split: Option.bind_splits)
next
  case HPlaylist
  then show ?thesis using assms
    by (intro exI [of _ "[OpPlaylist]"])
      (auto simp: pin_step_def hands_out_def op_ok_def hub_HLSPlaylist_def case_prod_beta)
next
  case HCloseAll
  then show ?thesis using assms
    by (intro exI [of _ "[]"]) (auto simp: CloseAll_def close_chan_def split: if_splits Option.bind_splits)
qed

lemma hub_sys_run:
  "run (hub_sys G) es (h, ps) = Some (h', ps') \<Longrightarrow>
   \<exists>rs. run (pin_step G) rs (hjoin h, ps) = Some (hjoin h', ps') \<and> (list_all hub_op_ok es \<longrightarrow> list_all op_ok rs)"
proof (induction es arbitrary: h ps)
  case Nil
  then show ?case by (intro exI [of _ "[]"]) simp
next
  case (Cons e es)
  then obtain h1 ps1 where st: "hub_sys G e (h, ps) = Some (h1, ps1)" "run (hub_sys G) es (h1, ps1) = Some (h', ps')"
    by (auto split: Option.bind_splits)
  obtain r1 where r1: "run (pin_step G) r1 (hjoin h, ps) = Some (hjoin h1, ps1)" "hub_op_ok e \<longrightarrow> list_all op_ok r1"
    using hub_sys_pins [OF st(1)] by blast
  obtain r2 where r2: "run (pin_step G) r2 (hjoin h1, ps1) = Some (hjoin h', ps')"
    "list_all hub_op_ok es \<longrightarrow> list_all op_ok r2"
    using Cons.IH [OF st(2)] by blast
  show ?case using r1 r2 by (intro exI [of _ "r1 @ r2"]) (auto simp: run_append)
qed

text \<open>A hub reached with its pins accounted for.\<close>

lemma hub_sys_inv:
  assumes "grows G" "hub_New mg prebuf = Some h0" "list_all hub_op_ok es" "run (hub_sys G) es (h0, []) = Some (h, ps)"
  shows "log_ok (as_log (hjoin h)) \<and> mem_ok (hjoin h) \<and> counted (hjoin h) ps"
proof -
  have n: "New mg prebuf = Some (hjoin h0)" using assms(2) by (auto simp: hub_New_def split: Option.bind_splits)
  obtain rs where rs: "run (pin_step G) rs (hjoin h0, []) = Some (hjoin h, ps)" "list_all op_ok rs"
    using hub_sys_run [OF assms(4)] assms(3) by blast
  show ?thesis
    using pin_run_safe [OF assms(1) rs(1,2), of "[]"] New_log_ok [OF n] New_mem [OF n] by simp
qed

section \<open>Copies made with the lock released\<close>

text \<open>The operations that hand out slices of the ring: the header, the slices and their pin.\<close>

fun hub_hands :: "hub_op \<Rightarrow> Hub \<Rightarrow> (bytes \<times> part list \<times> Pin \<times> Hub) go" where
  "hub_hands (HFollow c m) h = do {
     (f, h') \<leftarrow> Follow c m h;
     Some (bHead (fBurst f), bParts (fBurst f), bPin (fBurst f), h') }"
| "hub_hands (HCapture ms) h = hub_capture ms h"
| "hub_hands (HCaptureSegment n) h =
     (case hub_capture_segment n h of
        (None, h') \<Rightarrow> None
      | (Some (head, parts, p), h') \<Rightarrow> Some (head, parts, p, h'))"
| "hub_hands _ h = None"

lemma hub_hands_ring:
  assumes "hub_hands e h = Some (head, parts, p, h1)" "hub_op_ok e"
  shows "parts = [] \<or> (\<exists>x q. op_ok x \<and> hand_out x (hjoin h) = Some (parts, q, hjoin h1))"
proof (cases e)
  case (HFollow c m)
  then obtain f where f: "Follow c m h = Some (f, h1)" "parts = bParts (fBurst f)"
    using assms(1) by (auto split: Option.bind_splits)
  show ?thesis
  proof (cases "closed h")
    case True
    then show ?thesis using f by (auto simp: Follow_ended no_burst_def)
  next
    case False
    have "op_ok (OpRead c m)" using assms(2) HFollow by (simp add: op_ok_def hub_op_ok_def)
    with Follow_pin [OF f(1) False] f(2) show ?thesis
      by (intro disjI2 exI [of _ "OpRead c m"]) auto
  qed
next
  case (HCapture ms)
  then show ?thesis using assms(1)
    by (intro disjI2 exI [of _ "OpSnapshot ms"])
      (auto simp: hub_capture_def op_ok_def split: Option.bind_splits)
next
  case (HCaptureSegment n)
  then show ?thesis using assms(1)
    by (intro disjI2 exI [of _ "OpSegment n"])
      (auto simp: hub_capture_segment_def op_ok_def split: prod.splits option.splits)
qed (use assms in simp_all)

lemma copyPinned_bytes:
  "list_all (\<lambda>q. slice_bytes (hjoin h) q = pdata q) parts \<Longrightarrow> fst (copyPinned head parts p h) = head @ part_bytes parts"
proof -
  have "list_all (\<lambda>q. slice_bytes (hjoin h) q = pdata q) parts \<Longrightarrow>
      fold (\<lambda>q out. out @ slice_bytes (hjoin h) q) parts head = head @ part_bytes parts" for head
    by (induction parts arbitrary: head) (simp_all add: part_bytes_def)
  then show "list_all (\<lambda>q. slice_bytes (hjoin h) q = pdata q) parts \<Longrightarrow> ?thesis" by (simp add: copyPinned_def)
qed

text \<open>C5: what is copied with the lock released is what was captured.  Let a viewer's \<open>Follow\<close>, or the capture of a
  \<open>Snapshot\<close> or an \<open>HLSSegment\<close>, hand out slices of the ring in any hub the daemon can have; then
  whatever the producer and the other callers do before the slices are read (publishing, flushing,
  reconfiguring, closing, giving back their own pins), the copy is the header and the very bytes
  captured.\<close>

theorem hub_copies_intact:
  assumes "grows G" "hub_New mg prebuf = Some h0" "list_all hub_op_ok pre" "run (hub_sys G) pre (h0, []) = Some (h, ps)"
    and "hub_op_ok e" "hub_hands e h = Some (head, parts, p, h1)"
    and "list_all hub_op_ok es" "run (hub_sys G) es (h1, ps) = Some (h2, ps2)"
  shows "fst (copyPinned head parts p h2) = head @ part_bytes parts"
proof -
  have inv: "log_ok (as_log (hjoin h))" "mem_ok (hjoin h)" "counted (hjoin h) ps"
    using hub_sys_inv [OF assms(1-4)] by blast+
  obtain rs where rs: "run (pin_step G) rs (hjoin h1, ps) = Some (hjoin h2, ps2)" "list_all op_ok rs"
    using hub_sys_run [OF assms(8)] assms(7) by blast
  from hub_hands_ring [OF assms(6,5)] have "list_all (\<lambda>q. slice_bytes (hjoin h2) q = pdata q) parts"
  proof
    assume "\<exists>x q. op_ok x \<and> hand_out x (hjoin h) = Some (parts, q, hjoin h1)"
    then obtain x q where "op_ok x" "hand_out x (hjoin h) = Some (parts, q, hjoin h1)" by blast
    from handed_intact [OF assms(1) inv this rs(2,1)] show ?thesis by (simp add: list_all_iff)
  qed simp
  then show ?thesis by (rule copyPinned_bytes)
qed


section \<open>The hypotheses at work\<close>

definition fresh_hub :: Hub where
  "fresh_hub = \<lparr>hjoin = blank 1000 0, wake = 0, closed = False, armed = False, chans = 1, shut = []\<rparr>"

lemma fresh_hub_New: "hub_New 1000 0 = Some fresh_hub"
  by (simp add: hub_New_def New_fresh fresh_hub_def)

lemma fresh_hub_inv: "hub_inv fresh_hub"
  by (rule hub_New_inv [OF fresh_hub_New])

definition one_packet :: "byte \<Rightarrow> bytes" where
  "one_packet b = 0x47 # replicate 187 b"

lemma fresh_follow: "Follow (Cursor 0 0) 1000 fresh_hub =
   Some (\<lparr>fBurst = no_burst, fNext = Cursor 0 0, fAtEnd = True, fWake = Some 0, fBehind = False, fEnded = False\<rparr>,
     fresh_hub\<lparr>armed := True\<rparr>)"
  by (simp add: Follow_def fresh_hub_def ReadFrom_def blank_def no_burst_def)

lemma fresh_join: "Join 0 fresh_hub = Some ([], Cursor 0 0)"
  by (simp add: Join_def fresh_hub_def JoinStart_def blank_def ring_head_def)

lemma hub_follow_gap_free_witness:
  "\<exists>got pub c' h'. follow_run (hub_step (\<lambda>c n. n)) hub_out hub_read
     [Inl (HPublish (one_packet 0)), Inr 1000, Inl HFlush, Inl HCloseAll, Inr 1000] fresh_hub (Cursor 0 0) =
       Some (got, pub, c', h') \<and> prefix got pub"
  using hub_follow_gap_free [OF fresh_hub_New, of "[]" "\<lambda>c n. n" fresh_hub 0 "[]" "Cursor 0 0"
      "[Inl (HPublish (one_packet 0)), Inr 1000, Inl HFlush, Inl HCloseAll, Inr 1000]"] fresh_join
  by (fastforce simp: hub_op_ok_def hub_log_def fresh_hub_def log_tail_def as_log_def blank_def)

lemma no_lost_wakeup_witness:
  "\<exists>h2. run (hub_step (\<lambda>c n. n)) [HPublish [], HFlush, HPublish (one_packet 0)] (fresh_hub\<lparr>armed := True\<rparr>) = Some h2 \<and>
     0 \<in> set (shut h2)"
proof -
  let ?es = "[HPublish [], HFlush, HPublish (one_packet 0)]"
  have "hub_inv (fresh_hub\<lparr>armed := True\<rparr>)"
    using fresh_hub_inv by (simp add: hub_inv_def chan_ok_def)
  then obtain h2 where h2: "run (hub_step (\<lambda>c n. n)) ?es (fresh_hub\<lparr>armed := True\<rparr>) = Some h2"
    using hubs.run_safe [of "fresh_hub\<lparr>armed := True\<rparr>" ?es "\<lambda>c n. n"] by (auto simp: hub_op_ok_def)
  have "session (\<lambda>c n. n) fresh_hub (Cursor 0 0)"
    by (rule session.joins [OF fresh_hub_New _ _ fresh_join, of "[]"]) simp_all
  from no_lost_wakeup [OF this fresh_follow, of 0 ?es h2 1000] h2 show ?thesis
    by (simp add: hub_op_ok_def one_packet_def)
qed

lemma closed_for_good_witness:
  "\<exists>h1. CloseAll fresh_hub = Some h1 \<and> closed h1 \<and> Publish (\<lambda>c n. n) (one_packet 0) h1 = Some h1"
  using closed_for_good [OF fresh_hub_New, of "[]" "\<lambda>c n. n" fresh_hub "one_packet 0" "Cursor 0 0" 0]
  by (auto dest!: spec [of _ "[]"])

lemma hub_copies_intact_witness:
  "\<exists>h ps head parts p h1 h2 ps2. run (hub_sys (\<lambda>c n. n)) [HPublish (one_packet 7)] (fresh_hub, []) = Some (h, ps) \<and>
     hub_hands (HCapture 0) h = Some (head, parts, p, h1) \<and>
     run (hub_sys (\<lambda>c n. n)) [HFlush, HPublish (one_packet 9)] (h1, ps) = Some (h2, ps2) \<and>
     fst (copyPinned head parts p h2) = head @ part_bytes parts"
proof -
  let ?G = "\<lambda>c n :: nat. n"
  have g: "grows ?G" by (simp add: grows_def)
  obtain h where h: "hub_step ?G (HPublish (one_packet 7)) fresh_hub = Some h" "hub_inv h"
    using hub_step_refines [OF fresh_hub_inv, of "HPublish (one_packet 7)" ?G] by (auto simp: hub_op_ok_def)
  then have r1: "run (hub_sys ?G) [HPublish (one_packet 7)] (fresh_hub, []) = Some (h, [])" by simp
  obtain h1 where "hub_step ?G (HCapture 0) h = Some h1" "hub_inv h1"
    using hub_step_refines [OF h(2), of "HCapture 0" ?G] by (auto simp: hub_op_ok_def)
  then obtain head parts p where c: "hub_hands (HCapture 0) h = Some (head, parts, p, h1)" "hub_inv h1"
    by (auto split: Option.bind_splits)
  obtain h2 where "run (hub_step ?G) [HFlush, HPublish (one_packet 9)] h1 = Some h2"
    using hubs.run_safe [OF c(2), of "[HFlush, HPublish (one_packet 9)]" ?G] by (auto simp: hub_op_ok_def)
  then have r2: "run (hub_sys ?G) [HFlush, HPublish (one_packet 9)] (h1, []) = Some (h2, [])"
    by (auto split: Option.bind_splits)
  from hub_copies_intact [OF g fresh_hub_New _ r1 _ c(1) _ r2] r1 c(1) r2 show ?thesis
    by (fastforce simp: hub_op_ok_def)
qed


end
