(* ===== verification/Sources.thy ===== *)
theory Sources
  imports GoStrings Float64
begin

text \<open>
  Model of \<^verbatim>\<open>internal/supervisor/sources.go\<close> and of the state of \<^verbatim>\<open>internal/supervisor/supervisor.go\<close>: the
  specification a stream is supervised under, the state of a supervised stream, and which source
  its next start uses.

  A \<open>time\<close> is the nanoseconds since Go's zero time, so \<open>IsZero\<close> is \<open>t = 0\<close>; durations are
  nanoseconds too.  A method that holds the stream's mutex is one function.  An error or a log text
  is a value that says which text it is and with which figures.
\<close>

type_synonym time = int

definition second :: int where "second = 1000000000"
definition minute :: int where "minute = 60 * second"

section \<open>The specification\<close>

record Source =
  Label :: string
  Cmd :: string
  FallbackCmd :: string
  ProbeCmd :: string

record Policy =
  StopFailures :: int
  StreamFailSleepSec :: int
  OnDemand :: bool
  OnDemandFailureExit :: bool
  StartTimeoutSec :: int
  PriorityBackupSec :: int

record AutoRestart =
  Days :: "string list"
  At :: string

record Health =
  StallSec :: int
  AudioLossSec :: int
  FPSThreshold :: f64
  FPSGraceSec :: int
  AutoRestartAt :: "AutoRestart option"

record Spec =
  Sources :: "Source list"
  PolicyOf :: Policy
  HealthOf :: Health
  PIDPath :: string
  LogPath :: string
  AdoptMatch :: string

definition Spec_normalise :: "Spec \<Rightarrow> Spec" where
  "Spec_normalise s =
     (let p = PolicyOf s;
          p = (if StreamFailSleepSec p \<le> 0 then p\<lparr>StreamFailSleepSec := 5\<rparr> else p);
          p = (if StartTimeoutSec p \<le> 0 then p\<lparr>StartTimeoutSec := 30\<rparr> else p);
          p = (if StopFailures p < 0 then p\<lparr>StopFailures := 0\<rparr> else p)
      in s\<lparr>PolicyOf := p\<rparr>)"

datatype spec_error = NoSources | EmptyCommand nat

definition Spec_valid :: "Spec \<Rightarrow> spec_error option" where
  "Spec_valid s =
     (if Sources s = [] then Some NoSources
      else (case find (\<lambda>i. Cmd (Sources s ! i) = []) [0..<length (Sources s)] of
              None \<Rightarrow> None
            | Some i \<Rightarrow> Some (EmptyCommand i)))"

section \<open>A supervised stream\<close>

text \<open>How a process ended: without an error, with an exit status, or with an error that has none.\<close>

datatype exit_err = NoError | Status int | OtherError

datatype start_err =
    LaunchFailed
  | Unsupported exit_err
  | ExitedSilently
  | AdoptedGone
  | ExitedDuringStartup exit_err
  | NoDataWithin int
  | Cancelled

datatype reason =
    NoReason
  | StartFailed start_err
  | EncoderExited exit_err
  | ExitedAfter exit_err int
  | NoSourceLasted int int
  | StoppedWith exit_err
  | NoOutputFor int
  | NoAudioFor int
  | FpsBelow f64 f64 f64
  | NoFramesFor int f64
  | ScheduledRestart
  | ForcedTo int
  | HigherPriority int

record stream =
  spec :: Spec
  srcIdx :: int
  srcTried :: int
  forced :: int
  backupCheckedAt :: time
  audioLossAt :: time
  autoRestartAt :: time
  adopted :: bool
  fallback :: "int set"
  usingFallback :: bool
  confirmed :: bool
  source :: string
  started :: time
  running :: bool
  gaveUp :: bool
  fails :: int
  starts :: int
  lastErr :: reason

definition new_stream :: "Spec \<Rightarrow> stream" where
  "new_stream sp =
     \<lparr>spec = sp, srcIdx = 0, srcTried = 0, forced = -1, backupCheckedAt = 0, audioLossAt = 0,
      autoRestartAt = 0, adopted = False, fallback = {}, usingFallback = False, confirmed = False,
      source = [], started = 0, running = False, gaveUp = False, fails = 0, starts = 0,
      lastErr = NoReason\<rparr>"

abbreviation nsources :: "stream \<Rightarrow> int" where
  "nsources st \<equiv> len (Sources (spec st))"

abbreviation policy :: "stream \<Rightarrow> Policy" where
  "policy st \<equiv> PolicyOf (spec st)"

section \<open>Which source\<close>

definition selectNextOnFailure :: "int \<Rightarrow> int \<Rightarrow> bool \<Rightarrow> int" where
  "selectNextOnFailure cur n priorityBackup =
     (if n \<le> 1 then 0 else if priorityBackup then 0 else (cur + 1) mod n)"

text \<open>A prober answers for a probe command; \<open>None\<close> is the nil prober.\<close>

definition backupSwitch :: "(string \<Rightarrow> bool) option \<Rightarrow> Source list \<Rightarrow> int \<Rightarrow> int" where
  "backupSwitch prober sources cur =
     (case prober of
        None \<Rightarrow> -1
      | Some probe \<Rightarrow>
          if cur \<le> 0 \<or> cur > len sources then -1
          else (case find (\<lambda>i. ProbeCmd (sources ! i) \<noteq> [] \<and> probe (ProbeCmd (sources ! i)))
                       [0..<min (nat cur) (length sources)] of
                  None \<Rightarrow> -1
                | Some i \<Rightarrow> int i))"

datatype force_error = OutOfRange int int

definition ForceSource :: "int \<Rightarrow> stream \<Rightarrow> force_error option \<times> stream" where
  "ForceSource idx st =
     (if idx < 0 \<or> idx \<ge> nsources st then (Some (OutOfRange idx (nsources st)), st)
      else if idx = srcIdx st \<and> running st then (None, st\<lparr>forced := -1\<rparr>)
      else (None, st\<lparr>forced := idx\<rparr>))"

definition takeForced :: "stream \<Rightarrow> int \<times> stream" where
  "takeForced st = (forced st, st\<lparr>forced := -1\<rparr>)"

definition requeueForce :: "int \<Rightarrow> stream \<Rightarrow> stream" where
  "requeueForce idx st = (if forced st < 0 \<and> idx \<ge> 0 \<and> idx < nsources st then st\<lparr>forced := idx\<rparr> else st)"

definition switchTo :: "int \<Rightarrow> stream \<Rightarrow> stream" where
  "switchTo idx st = (if idx \<ge> 0 \<and> idx < nsources st then st\<lparr>srcIdx := idx, srcTried := 0\<rparr> else st)"

definition beginSourceWalk :: "stream \<Rightarrow> stream" where
  "beginSourceWalk st = st\<lparr>srcTried := 0\<rparr>"

definition advanceAfterFailure :: "stream \<Rightarrow> stream" where
  "advanceAfterFailure st =
     (let n = nsources st in
      if n \<le> 1 then st\<lparr>srcIdx := 0\<rparr>
      else
        (let st = st\<lparr>srcTried := srcTried st + 1\<rparr> in
         if srcTried st \<ge> n then
           st\<lparr>srcTried := 0, srcIdx := selectNextOnFailure (srcIdx st) n (PriorityBackupSec (policy st) > 0)\<rparr>
         else st\<lparr>srcIdx := (srcIdx st + 1) mod n\<rparr>))"

definition sourceStillProbes :: "(string \<Rightarrow> bool) option \<Rightarrow> Source \<Rightarrow> bool" where
  "sourceStillProbes prober src =
     (case prober of None \<Rightarrow> False | Some probe \<Rightarrow> ProbeCmd src \<noteq> [] \<and> probe (ProbeCmd src))"

definition dueForBackupCheck :: "time \<Rightarrow> stream \<Rightarrow> bool \<times> stream" where
  "dueForBackupCheck now st =
     (let every = PriorityBackupSec (policy st) in
      if every \<le> 0 \<or> srcIdx st \<le> 0 then (False, st)
      else if backupCheckedAt st \<noteq> 0 \<and> now - backupCheckedAt st < every * second then (False, st)
      else (True, st\<lparr>backupCheckedAt := now\<rparr>))"

section \<open>State helpers\<close>

definition currentSource :: "stream \<Rightarrow> (Source \<times> stream) go" where
  "currentSource st =
     (let st = (if srcIdx st < 0 \<or> srcIdx st \<ge> nsources st then st\<lparr>srcIdx := 0\<rparr> else st)
      in do { src \<leftarrow> at (Sources (spec st)) (srcIdx st); Some (src, st) })"

definition sourceAt :: "int \<Rightarrow> stream \<Rightarrow> Source option" where
  "sourceAt idx st = at (Sources (spec st)) idx"

definition commandFor :: "Source \<Rightarrow> stream \<Rightarrow> string \<times> bool" where
  "commandFor src st =
     (if FallbackCmd src \<noteq> [] \<and> srcIdx st \<in> fallback st then (FallbackCmd src, True) else (Cmd src, False))"

definition switchToFallback :: "Source \<Rightarrow> stream \<Rightarrow> bool \<times> stream" where
  "switchToFallback src st =
     (if FallbackCmd src = [] \<or> srcIdx st \<in> fallback st then (False, st)
      else (True, st\<lparr>fallback := insert (srcIdx st) (fallback st)\<rparr>))"

definition rememberFallback :: "int \<Rightarrow> stream \<Rightarrow> stream" where
  "rememberFallback idx st = st\<lparr>fallback := insert idx (fallback st)\<rparr>"

definition audioLossDue :: "time \<Rightarrow> int \<Rightarrow> stream \<Rightarrow> bool \<times> stream" where
  "audioLossDue now every st =
     (if every > 0 \<and> audioLossAt st \<noteq> 0 \<and> now - audioLossAt st < every then (False, st)
      else (True, st\<lparr>audioLossAt := now\<rparr>))"

definition clearAudioLoss :: "stream \<Rightarrow> stream" where
  "clearAudioLoss st = st\<lparr>audioLossAt := 0\<rparr>"

definition markFallback :: "bool \<Rightarrow> stream \<Rightarrow> stream" where
  "markFallback v st = st\<lparr>usingFallback := v\<rparr>"

definition markStarted :: "time \<Rightarrow> string \<Rightarrow> stream \<Rightarrow> stream" where
  "markStarted now label st =
     (let st = st\<lparr>source := label, started := now, running := True, confirmed := False, starts := starts st + 1\<rparr>
      in if srcIdx st > 0 then st\<lparr>backupCheckedAt := started st\<rparr> else st)"

definition markConfirmed :: "stream \<Rightarrow> stream" where
  "markConfirmed st = st\<lparr>confirmed := True, fails := 0\<rparr>"

text \<open>\<open>hasData\<close> is the daemon's answer for the moment the stream was started.\<close>

definition confirmLate :: "bool \<Rightarrow> stream \<Rightarrow> stream" where
  "confirmLate hasData st = (if \<not> (running st \<and> \<not> confirmed st) then st else if hasData then markConfirmed st else st)"

definition markStopped :: "exit_err \<Rightarrow> stream \<Rightarrow> stream" where
  "markStopped e st =
     (let st = st\<lparr>running := False, confirmed := False\<rparr>
      in if e \<noteq> NoError then st\<lparr>lastErr := StoppedWith e\<rparr> else st)"

text \<open>Whole minutes since the zero time, as \<open>Truncate(time.Minute)\<close> counts them.\<close>

definition autoRestartedIn :: "time \<Rightarrow> stream \<Rightarrow> bool" where
  "autoRestartedIn now st \<longleftrightarrow> autoRestartAt st \<noteq> 0 \<and> autoRestartAt st div minute = now div minute"

definition markAutoRestart :: "time \<Rightarrow> stream \<Rightarrow> stream" where
  "markAutoRestart now st = st\<lparr>autoRestartAt := now\<rparr>"

definition markAdopted :: "bool \<Rightarrow> stream \<Rightarrow> stream" where
  "markAdopted v st = st\<lparr>adopted := v\<rparr>"

definition note_why :: "reason \<Rightarrow> int \<Rightarrow> stream \<Rightarrow> stream" where
  "note_why msg n st = (let st = st\<lparr>lastErr := msg\<rparr> in if n > 0 then st\<lparr>fails := n\<rparr> else st)"

definition giveUp :: "stream \<Rightarrow> stream" where
  "giveUp st = st\<lparr>gaveUp := True\<rparr>"

definition minHealthyRun :: "stream \<Rightarrow> int" where
  "minHealthyRun st = StartTimeoutSec (policy st) * second"

section \<open>Adoption\<close>

definition normaliseCmd :: "string \<Rightarrow> string" where
  "normaliseCmd s = JoinSpaces (Fields (filter (\<lambda>c. c \<noteq> char_of (39 :: nat) \<and> c \<noteq> char_of (34 :: nat)) s))"

text \<open>The commands of the sources in the order they are compared, each with its index and whether it is a
  fallback.\<close>

definition source_cmds :: "Source list \<Rightarrow> (string \<times> int \<times> bool) list" where
  "source_cmds ss =
     concat (map (\<lambda>i. [(Cmd (ss ! i), int i, False), (FallbackCmd (ss ! i), int i, True)]) [0..<length ss])"

fun match_cmds :: "string \<Rightarrow> (string \<times> int \<times> bool) list \<Rightarrow> (int \<times> bool) option \<Rightarrow> (int \<times> bool) option" where
  "match_cmds want [] found = found"
| "match_cmds want ((c, i, fb) # cs) found =
     (if c = [] \<or> normaliseCmd c \<noteq> want then match_cmds want cs found
      else (case found of
              None \<Rightarrow> match_cmds want cs (Some (i, fb))
            | Some (j, g) \<Rightarrow> if j \<noteq> i \<or> g \<noteq> fb then None else match_cmds want cs (Some (i, fb))))"

definition matchRunningSource :: "string \<Rightarrow> Source list \<Rightarrow> (int \<times> bool) option" where
  "matchRunningSource cmdline sources =
     (let want = normaliseCmd cmdline in if want = [] then None else match_cmds want (source_cmds sources) None)"

end
