(* ===== verification/Health.thy ===== *)
theory Health
  imports Sources
begin

text \<open>
  Model of \<^verbatim>\<open>internal/supervisor/health.go\<close>: the rules by which a running encoder is judged, as functions of
  the moment, the stream's vitals and the frame-rate baseline.  The local calendar of a moment
  (hour, minute, weekday name) is what Go's \<open>time\<close> package says it is, and is an argument.
\<close>

definition EventAutoRestart :: string where "EventAutoRestart = ''AUTO_RESTART''"
definition EventFPSDropThreshold :: string where "EventFPSDropThreshold = ''FPS_DROP_THRESHOLD''"
definition EventAudioLoss :: string where "EventAudioLoss = ''AUDIO_LOSS''"
definition EventFfmpegError :: string where "EventFfmpegError = ''FFMPEG_ERROR''"

lemmas event_names = EventAutoRestart_def EventFPSDropThreshold_def EventAudioLoss_def EventFfmpegError_def

record calendar =
  Hour :: int
  Minute :: int
  Weekday :: string

definition AutoRestart_due :: "AutoRestart option \<Rightarrow> calendar \<Rightarrow> bool" where
  "AutoRestart_due a t =
     (case a of
        None \<Rightarrow> False
      | Some a \<Rightarrow>
          if Days a = [] \<or> At a = [] then False
          else (case Cut (CHR '':'') (At a) of
                  None \<Rightarrow> False
                | Some (hh, mm) \<Rightarrow>
                    (case (Atoi (TrimSpace hh), Atoi (TrimSpace mm)) of
                       (Some hour, Some mins) \<Rightarrow>
                         if Hour t \<noteq> hour \<or> Minute t \<noteq> mins then False
                         else list_ex (\<lambda>d. EqualFold (TrimSpace d) (Weekday t)) (Days a)
                     | _ \<Rightarrow> False)))"

record Vitals =
  LastData :: time
  LastAudio :: time
  FPS :: f64

record healthVerdict =
  event :: string
  vreason :: reason
  switchSource :: bool
  vswitchTo :: int

definition no_verdict :: healthVerdict where
  "no_verdict = \<lparr>event = [], vreason = NoReason, switchSource = False, vswitchTo = 0\<rparr>"

definition failed :: "healthVerdict \<Rightarrow> bool" where
  "failed v \<longleftrightarrow> event v \<noteq> []"

record fpsBaseline =
  peak :: f64
  zeroSince :: time

definition new_baseline :: fpsBaseline where
  "new_baseline = \<lparr>peak = f64_zero, zeroSince = 0\<rparr>"

definition observe :: "f64 \<Rightarrow> fpsBaseline \<Rightarrow> fpsBaseline" where
  "observe fps b = (if f64_less (peak b) fps then b\<lparr>peak := fps\<rparr> else b)"

definition dropped :: "time \<Rightarrow> f64 \<Rightarrow> f64 \<Rightarrow> int \<Rightarrow> fpsBaseline \<Rightarrow> bool \<times> fpsBaseline" where
  "dropped now fps threshold frozenFor b =
     (if \<not> f64_less f64_zero (peak b) \<or> \<not> f64_less f64_zero threshold then (False, b)
      else if f64_less fps f64_zero then (False, b\<lparr>zeroSince := 0\<rparr>)
      else if \<not> f64_less f64_zero fps then
        (let b = (if zeroSince b = 0 then b\<lparr>zeroSince := now\<rparr> else b)
         in (now - zeroSince b \<ge> frozenFor, b))
      else (let b = b\<lparr>zeroSince := 0\<rparr> in (f64_less fps (f64_mul (peak b) threshold), b)))"

definition defaultFreezeWindow :: int where "defaultFreezeWindow = 60 * second"

definition freezeWindow :: "Health \<Rightarrow> int" where
  "freezeWindow h = (if StallSec h > 0 then StallSec h * second else defaultFreezeWindow)"

text \<open>The rules in the order they are tried; a rule returns the verdict it condemns with.\<close>

definition stall_rule :: "Health \<Rightarrow> time \<Rightarrow> time \<Rightarrow> Vitals \<Rightarrow> healthVerdict option" where
  "stall_rule h now startedAt v =
     (if StallSec h > 0 then
        (let limit = StallSec h * second;
             last = (if LastData v = 0 \<or> LastData v < startedAt then startedAt else LastData v)
         in if now - last \<ge> limit
            then Some (no_verdict\<lparr>event := EventFfmpegError, vreason := NoOutputFor (now - last)\<rparr>) else None)
      else None)"

definition audio_rule :: "Health \<Rightarrow> time \<Rightarrow> time \<Rightarrow> Vitals \<Rightarrow> healthVerdict option" where
  "audio_rule h now startedAt v =
     (if AudioLossSec h > 0 \<and> LastAudio v \<noteq> 0 then
        (let limit = AudioLossSec h * second;
             last = (if LastAudio v < startedAt then startedAt else LastAudio v)
         in if now - last \<ge> limit
            then Some (no_verdict\<lparr>event := EventAudioLoss, vreason := NoAudioFor (now - last)\<rparr>) else None)
      else None)"

definition fps_rule :: "Health \<Rightarrow> time \<Rightarrow> time \<Rightarrow> Vitals \<Rightarrow> fpsBaseline \<Rightarrow> healthVerdict option \<times> fpsBaseline" where
  "fps_rule h now startedAt v base =
     (if f64_less f64_zero (FPSThreshold h) \<and> now - startedAt \<ge> FPSGraceSec h * second then
        (let (drop, base) = dropped now (FPS v) (FPSThreshold h) (freezeWindow h) base in
         if drop then
           (Some (no_verdict\<lparr>event := EventFPSDropThreshold, vreason :=
              (if \<not> f64_less f64_zero (FPS v) then NoFramesFor (now - zeroSince base) (peak base)
               else FpsBelow (FPS v) (FPSThreshold h) (peak base))\<rparr>), base)
         else (None, observe (FPS v) base))
      else (None, base))"

definition check :: "Health \<Rightarrow> time \<Rightarrow> time \<Rightarrow> Vitals \<Rightarrow> fpsBaseline \<Rightarrow> healthVerdict \<times> fpsBaseline" where
  "check h now startedAt v base =
     (case stall_rule h now startedAt v of
        Some verdict \<Rightarrow> (verdict, base)
      | None \<Rightarrow>
          (case audio_rule h now startedAt v of
             Some verdict \<Rightarrow> (verdict, base)
           | None \<Rightarrow>
               (case fps_rule h now startedAt v base of
                  (Some verdict, base) \<Rightarrow> (verdict, base)
                | (None, base) \<Rightarrow> (no_verdict, base))))"

lemma no_verdict_failed [simp]: "\<not> failed no_verdict"
  by (simp add: failed_def no_verdict_def)

section \<open>A fresh encoder is not judged on old evidence\<close>

text \<open>C20: no restart cascades.  Judged before its windows have passed, an encoder is left alone, whatever
  its vitals still say about the one before it: within the stall window, the audio window and the
  frame-rate grace counted from its own start, no rule fires.\<close>

theorem no_restart_cascade:
  assumes "startedAt \<le> now"
    and "StallSec h > 0 \<longrightarrow> now - startedAt < StallSec h * second"
    and "AudioLossSec h > 0 \<longrightarrow> now - startedAt < AudioLossSec h * second"
    and "now - startedAt < FPSGraceSec h * second \<or> \<not> f64_less f64_zero (FPSThreshold h) \<or> base = new_baseline"
  shows "\<not> failed (fst (check h now startedAt v base))"
proof -
  have "stall_rule h now startedAt v = None" using assms(1,2) by (auto simp: stall_rule_def Let_def)
  moreover have "audio_rule h now startedAt v = None" using assms(1,3) by (auto simp: audio_rule_def Let_def)
  moreover have "fst (fps_rule h now startedAt v base) = None"
    using assms(4) by (auto simp: fps_rule_def dropped_def new_baseline_def f64_zero_def f64_less_def)
  ultimately show ?thesis by (auto simp: check_def split: prod.splits option.splits)
qed

end
