(* ===== verification/Supervise.thy ===== *)
theory Supervise
  imports Health
begin

text \<open>
  Model of the restart loop of \<^verbatim>\<open>internal/supervisor/supervisor.go\<close>: \<open>run\<close>, \<open>startOnce\<close>, \<open>awaitData\<close> and
  \<open>watch\<close>, as a state machine whose events are what the loop waits for.  What the operating system
  and the daemon answer (whether a survivor can be adopted, whether the launch worked, whether data
  arrived, how the process ended, what the probes say) comes with the event.  The mode is where the
  loop waits: before a start attempt (also while it sleeps), for the start to prove itself,
  watching the encoder, or nowhere any more.
\<close>

definition EventStreamStart :: string where "EventStreamStart = ''STREAM_START''"
definition EventStreamRestart :: string where "EventStreamRestart = ''STREAM_RESTART''"
definition EventStreamFailed :: string where "EventStreamFailed = ''STREAM_FAILED''"
definition EventStreamStartFail :: string where "EventStreamStartFail = ''STREAM_START_FAIL''"
definition EventPrioritySwitch :: string where "EventPrioritySwitch = ''PRIORITY_SWITCH''"
definition EventForceSource :: string where "EventForceSource = ''FORCE_SOURCE''"

lemmas super_events = event_names EventStreamStart_def EventStreamRestart_def EventStreamFailed_def
  EventStreamStartFail_def EventPrioritySwitch_def EventForceSource_def

definition audioLossRetryDefault :: int where "audioLossRetryDefault = 300 * second"

section \<open>The loop's state\<close>

text \<open>\<open>Confirming src fsel kill deadline\<close>: the attempt picked \<open>src\<close> after the forced switch \<open>fsel\<close> (or \<open>-1\<close>); \<open>kill\<close> when the process
  was launched here, not adopted.\<close>

datatype mode =
    Starting
  | Confirming Source int bool time
  | Watching Source
  | Over

record super =
  st :: stream
  mode :: mode
  consecutiveFails :: int
  shortRuns :: int
  first :: bool
  log :: "(string \<times> string) list"
  base :: fpsBaseline

definition Supervise :: "Spec \<Rightarrow> spec_error + super" where
  "Supervise sp =
     (let sp = Spec_normalise sp in
      case Spec_valid sp of
        Some e \<Rightarrow> Inl e
      | None \<Rightarrow> Inr \<lparr>st = new_stream sp, mode = Starting, consecutiveFails = 0, shortRuns = 0, first = True,
                      log = [], base = new_baseline\<rparr>)"

definition emit :: "string \<Rightarrow> string \<Rightarrow> super \<Rightarrow> super" where
  "emit action label s = (if LogPath (spec (st s)) = [] then s else s\<lparr>log := log s @ [(action, label)]\<rparr>)"

section \<open>A start attempt begins\<close>

text \<open>What the environment answers: the command line of a survivor that can be adopted, whether the launch
  worked, the time of the start and the time the wait for data begins.\<close>

record launch_env =
  survivor :: "string option"
  launches :: bool
  leStarted :: time
  leAwait :: time

text \<open>A failed start: how the failure is charged, and whether the loop goes on.\<close>

definition charge_failure :: "(string \<Rightarrow> bool) option \<Rightarrow> Source \<Rightarrow> start_err \<Rightarrow> super \<Rightarrow> super" where
  "charge_failure prober src e s =
     (let n = consecutiveFails s + 1;
          s = s\<lparr>consecutiveFails := n, st := note_why (StartFailed e) n (st s)\<rparr>;
          s = emit EventStreamStartFail (Label src) s;
          s = (if n = 1 \<and> sourceStillProbes prober src then s else s\<lparr>st := advanceAfterFailure (st s)\<rparr>);
          pol = policy (st s)
      in if OnDemand pol \<and> OnDemandFailureExit pol then s\<lparr>st := giveUp (st s), mode := Over\<rparr>
         else if StopFailures pol > 0 \<and> n \<ge> StopFailures pol then s\<lparr>st := giveUp (st s), mode := Over\<rparr>
         else s\<lparr>mode := Starting\<rparr>)"

definition unsupported :: "start_err \<Rightarrow> bool" where
  "unsupported e \<longleftrightarrow> (case e of Unsupported w \<Rightarrow> True | _ \<Rightarrow> False)"

definition start_failed :: "(string \<Rightarrow> bool) option \<Rightarrow> Source \<Rightarrow> start_err \<Rightarrow> super \<Rightarrow> super" where
  "start_failed prober src e s =
     (let (switched, t) = (if unsupported e then switchToFallback src (st s) else (False, st s))
      in if switched then s\<lparr>st := t, mode := Starting\<rparr> else charge_failure prober src e s)"

definition take_force :: "super \<Rightarrow> int \<times> super" where
  "take_force s =
     (let (idx, t) = takeForced (st s); s = s\<lparr>st := t\<rparr> in
      if idx \<ge> 0 \<and> idx \<noteq> srcIdx t then
        (let s = s\<lparr>st := switchTo idx t\<rparr>
         in (idx, case sourceAt idx (st s) of
                    Some next \<Rightarrow> emit EventForceSource (Label next) s
                  | None \<Rightarrow> s))
      else (-1, s))"

definition begin_start :: "launch_env \<Rightarrow> (string \<Rightarrow> bool) option \<Rightarrow> super \<Rightarrow> super go" where
  "begin_start env prober s =
     (let (fsel, s) = take_force s in do {
        (src, t) \<leftarrow> currentSource (st s);
        let s = s\<lparr>st := t\<rparr>;
        let deadline = leAwait env + StartTimeoutSec (policy t) * second;
        (case survivor env of
           Some cmdline \<Rightarrow>
             let t = markAdopted True t;
                 (label, t) = (case matchRunningSource cmdline (Sources (spec t)) of
                     Some (idx, fb) \<Rightarrow>
                       (let t = markFallback fb (switchTo idx t);
                            t = (if fb then rememberFallback idx t else t)
                        in (case sourceAt idx t of Some x \<Rightarrow> (Label x, t) | None \<Rightarrow> (Label src, t)))
                   | None \<Rightarrow> (Label src, markFallback False t));
                 t = markStarted (leStarted env) label t
             in Some (s\<lparr>st := t, mode := Confirming src fsel False deadline\<rparr>)
         | None \<Rightarrow>
             let t = markAdopted False t; (cmd, fb) = commandFor src t
             in if \<not> launches env then Some (start_failed prober src LaunchFailed (s\<lparr>st := t\<rparr>))
                else Some (s\<lparr>st := markStarted (leStarted env) (Label src) (markFallback fb t),
                           mode := Confirming src fsel True deadline\<rparr>)) })"

section \<open>A start proves itself\<close>

definition isUnsupportedExit :: "exit_err \<Rightarrow> bool" where
  "isUnsupportedExit w \<longleftrightarrow> (case w of Status c \<Rightarrow> c = 3 \<or> c = 2 | _ \<Rightarrow> False)"

text \<open>The start worked: an adopted encoder may be on another source than the one picked.\<close>

definition start_worked :: "int \<Rightarrow> bool \<Rightarrow> super \<Rightarrow> super go" where
  "start_worked fsel conf s = do {
     let s = s\<lparr>consecutiveFails := 0\<rparr>;
     (src, t) \<leftarrow> currentSource (st s);
     let t = (if fsel \<ge> 0 \<and> srcIdx t \<noteq> fsel then requeueForce fsel t else t);
     let t = beginSourceWalk t;
     let t = (if conf then markConfirmed t else t);
     let s = s\<lparr>st := t\<rparr>;
     let s = (if first s then (emit EventStreamStart (Label src) s)\<lparr>first := False\<rparr>
              else emit EventStreamRestart (Label src) s);
     Some (s\<lparr>mode := Watching src, base := new_baseline\<rparr>) }"

text \<open>One round of \<open>awaitData\<close>: the process ended, the start was cancelled, or the poll found data or not.
  A cancelled start ends the loop.\<close>

datatype poll =
    PollExit exit_err
  | PollCancel
  | PollNone bool time

definition await_round :: "poll \<Rightarrow> (string \<Rightarrow> bool) option \<Rightarrow> super \<Rightarrow> super go" where
  "await_round p prober s =
     (case mode s of
        Confirming src fsel kill deadline \<Rightarrow>
          (case p of
             PollExit w \<Rightarrow>
               let s = s\<lparr>st := markStopped w (st s)\<rparr>;
                   e = (if isUnsupportedExit w then Unsupported w
                        else if w = NoError then (if kill then ExitedSilently else AdoptedGone)
                        else ExitedDuringStartup w)
               in Some (start_failed prober src e s)
           | PollCancel \<Rightarrow> Some (s\<lparr>mode := Over\<rparr>)
           | PollNone hasData now \<Rightarrow>
               if hasData then start_worked fsel True s
               else if now \<ge> deadline then
                 (if \<not> kill then start_worked fsel False s
                  else Some (start_failed prober src (NoDataWithin (StartTimeoutSec (policy (st s))))
                              (s\<lparr>st := markStopped NoError (st s)\<rparr>)))
               else Some s)
      | _ \<Rightarrow> Some s)"

section \<open>Watching\<close>

record tick_env =
  teNow :: time
  teCal :: calendar
  teProber :: "(string \<Rightarrow> bool) option"
  teHasData :: bool
  teVitals :: "Vitals option"

text \<open>The health rules with the audio rule paced: the verdict, the baseline, and the stream.\<close>

definition judge :: "tick_env \<Rightarrow> Vitals \<Rightarrow> int \<Rightarrow> stream \<Rightarrow> fpsBaseline \<Rightarrow> healthVerdict \<times> stream \<times> fpsBaseline" where
  "judge env v retry t b =
     (let now = teNow env; h = HealthOf (spec t);
          t = (if LastAudio v > started t then clearAudioLoss t else t);
          (verdict, b) = check h now (started t) v b
      in if \<not> failed verdict then (no_verdict, t, b)
         else if event verdict = EventAudioLoss then
           (let (due, t) = audioLossDue now retry t in
            if due then (verdict, t, b)
            else (let (verdict, b) = check (h\<lparr>AudioLossSec := 0\<rparr>) now (started t) v b in (verdict, t, b)))
         else (verdict, t, b))"

definition watch_tick :: "tick_env \<Rightarrow> int \<Rightarrow> stream \<Rightarrow> fpsBaseline \<Rightarrow> healthVerdict \<times> stream \<times> fpsBaseline" where
  "watch_tick env retry t b =
     (let now = teNow env; t = confirmLate (teHasData env) t in
      if AutoRestart_due (AutoRestartAt (HealthOf (spec t))) (teCal env) \<and> \<not> autoRestartedIn now t then
        (no_verdict\<lparr>event := EventAutoRestart, vreason := ScheduledRestart\<rparr>, markAutoRestart now t, b)
      else
        (let (idx, t) = takeForced t in
         if idx \<ge> 0 \<and> idx \<noteq> srcIdx t then
           (\<lparr>event = EventForceSource, vreason = ForcedTo idx, switchSource = True, vswitchTo = idx\<rparr>, t, b)
         else
           (let (due, t) = dueForBackupCheck now t;
                idx = (if due then backupSwitch (teProber env) (Sources (spec t)) (srcIdx t) else -1)
            in if idx \<ge> 0 then
                 (\<lparr>event = EventPrioritySwitch, vreason = HigherPriority idx, switchSource = True, vswitchTo = idx\<rparr>, t, b)
               else (case teVitals env of
                       None \<Rightarrow> (no_verdict, t, b)
                     | Some v \<Rightarrow> judge env v retry t b))))"

section \<open>A run ends\<close>

definition condemned :: "healthVerdict \<Rightarrow> Source \<Rightarrow> super \<Rightarrow> super" where
  "condemned v src s =
     (let s = s\<lparr>st := note_why (vreason v) 0 (markStopped NoError (st s))\<rparr>;
          logSource = (if switchSource v then (case sourceAt (vswitchTo v) (st s) of Some n \<Rightarrow> Label n | None \<Rightarrow> Label src)
                       else Label src);
          s = (if switchSource v then s\<lparr>st := switchTo (vswitchTo v) (st s)\<rparr> else s)
      in (emit (event v) logSource s)\<lparr>mode := Starting\<rparr>)"

definition short_run :: "exit_err \<Rightarrow> int \<Rightarrow> super \<Rightarrow> super" where
  "short_run w ranFor s =
     (let s = s\<lparr>shortRuns := shortRuns s + 1, st := advanceAfterFailure (note_why (ExitedAfter w ranFor) 0 (st s))\<rparr>;
          pol = policy (st s); n = nsources (st s)
      in if StopFailures pol > 0 \<and> n > 1 \<and> shortRuns s \<ge> StopFailures pol \<and> shortRuns s \<ge> n then
           s\<lparr>st := giveUp (note_why (NoSourceLasted (minHealthyRun (st s)) (shortRuns s)) (shortRuns s) (st s)),
             mode := Over\<rparr>
         else s\<lparr>mode := Starting\<rparr>)"

definition exited_by_itself :: "exit_err \<Rightarrow> time \<Rightarrow> Source \<Rightarrow> super \<Rightarrow> super" where
  "exited_by_itself w now src s =
     (let ranFor = now - started (st s);
          s = s\<lparr>st := markStopped NoError (st s)\<rparr>;
          (switched, t) = (if isUnsupportedExit w then switchToFallback src (st s) else (False, st s))
      in if switched then s\<lparr>st := t, mode := Starting\<rparr>
         else
           (let s = emit EventStreamFailed (Label src) (s\<lparr>st := note_why (EncoderExited w) 0 (st s)\<rparr>) in
            if ranFor < minHealthyRun (st s) then short_run w ranFor s
            else s\<lparr>shortRuns := 0, mode := Starting\<rparr>))"

section \<open>The loop\<close>

datatype super_event =
    Begin launch_env "(string \<Rightarrow> bool) option"
  | Await poll "(string \<Rightarrow> bool) option"
  | Tick tick_env
  | Exit exit_err time
  | Force int
  | Cancel

fun super_step :: "super_event \<Rightarrow> super \<Rightarrow> super go" where
  "super_step (Begin env prober) s = (if mode s = Starting then begin_start env prober s else Some s)"
| "super_step (Await p prober) s = await_round p prober s"
| "super_step (Tick env) s =
     (case mode s of
        Watching src \<Rightarrow>
          (let (v, t, b) = watch_tick env audioLossRetryDefault (st s) (base s); s = s\<lparr>st := t, base := b\<rparr>
           in Some (if failed v then condemned v src s else s))
      | _ \<Rightarrow> Some s)"
| "super_step (Exit w now) s =
     (case mode s of Watching src \<Rightarrow> Some (exited_by_itself w now src s) | _ \<Rightarrow> Some s)"
| "super_step (Force idx) s = Some (s\<lparr>st := snd (ForceSource idx (st s))\<rparr>)"
| "super_step Cancel s =
     Some (case mode s of
             Watching src \<Rightarrow> s\<lparr>st := markStopped NoError (st s), mode := Over\<rparr>
           | _ \<Rightarrow> s\<lparr>mode := Over\<rparr>)"

end
