(* ===== verification/SuperInv.thy ===== *)
theory SuperInv
  imports Supervise
begin

text \<open>
  The invariant of the restart loop of \<^verbatim>\<open>internal/supervisor\<close>: indexes stay within the source list, the
  failure tallies stay below the limits while the loop runs, and no step panics.
\<close>

definition stream_ok :: "stream \<Rightarrow> bool" where
  "stream_ok t \<longleftrightarrow> 0 \<le> srcIdx t \<and> srcIdx t < nsources t \<and> 0 \<le> srcTried t \<and> srcTried t < nsources t \<and>
     -1 \<le> forced t \<and> forced t < nsources t \<and> fallback t \<subseteq> {0..<nsources t} \<and> 0 \<le> StopFailures (policy t)"

definition tally_ok :: "super \<Rightarrow> bool" where
  "tally_ok s \<longleftrightarrow> 0 \<le> consecutiveFails s \<and> 0 \<le> shortRuns s \<and>
     (mode s \<noteq> Over \<longrightarrow> \<not> gaveUp (st s) \<and>
       (0 < StopFailures (policy (st s)) \<longrightarrow> consecutiveFails s < StopFailures (policy (st s)) \<and>
          (1 < nsources (st s) \<longrightarrow> shortRuns s < max (StopFailures (policy (st s))) (nsources (st s)))))"

definition mode_ok :: "super \<Rightarrow> bool" where
  "mode_ok s \<longleftrightarrow> (case mode s of
       Starting \<Rightarrow> \<not> running (st s)
     | Confirming src f k d \<Rightarrow> running (st s) \<and> -1 \<le> f \<and> f < nsources (st s)
     | Watching src \<Rightarrow> running (st s) \<and> consecutiveFails s = 0
     | Over \<Rightarrow> True)"

definition super_ok :: "super \<Rightarrow> bool" where
  "super_ok s \<longleftrightarrow> stream_ok (st s) \<and> tally_ok s \<and> mode_ok s"

lemmas super_defs = super_ok_def tally_ok_def mode_ok_def

section \<open>The stream's operations\<close>

text \<open>What every operation leaves alone.\<close>

lemma stream_frame [simp]:
  "spec (snd (takeForced t)) = spec t" "spec (requeueForce i t) = spec t" "spec (switchTo i t) = spec t"
  "spec (beginSourceWalk t) = spec t" "spec (advanceAfterFailure t) = spec t"
  "spec (snd (dueForBackupCheck now t)) = spec t" "spec (snd (switchToFallback src t)) = spec t"
  "spec (rememberFallback i t) = spec t" "spec (snd (audioLossDue now e t)) = spec t"
  "spec (clearAudioLoss t) = spec t" "spec (markFallback v t) = spec t" "spec (markStarted now l t) = spec t"
  "spec (markConfirmed t) = spec t" "spec (confirmLate d t) = spec t" "spec (markStopped w t) = spec t"
  "spec (markAutoRestart now t) = spec t" "spec (markAdopted v t) = spec t" "spec (note_why m n t) = spec t"
  "spec (giveUp t) = spec t" "spec (snd (ForceSource i t)) = spec t"
  by (simp_all add: takeForced_def requeueForce_def switchTo_def beginSourceWalk_def advanceAfterFailure_def
      dueForBackupCheck_def switchToFallback_def rememberFallback_def audioLossDue_def clearAudioLoss_def
      markFallback_def markStarted_def markConfirmed_def confirmLate_def markStopped_def markAutoRestart_def
      markAdopted_def note_why_def giveUp_def ForceSource_def Let_def)

lemma running_frame [simp]:
  "running (snd (takeForced t)) = running t" "running (requeueForce i t) = running t"
  "running (switchTo i t) = running t" "running (beginSourceWalk t) = running t"
  "running (advanceAfterFailure t) = running t" "running (snd (dueForBackupCheck now t)) = running t"
  "running (snd (switchToFallback src t)) = running t" "running (rememberFallback i t) = running t"
  "running (snd (audioLossDue now e t)) = running t" "running (clearAudioLoss t) = running t"
  "running (markFallback v t) = running t" "running (markStarted now l t)" "running (markConfirmed t) = running t"
  "running (confirmLate d t) = running t" "\<not> running (markStopped w t)"
  "running (markAutoRestart now t) = running t" "running (markAdopted v t) = running t"
  "running (note_why m n t) = running t" "running (giveUp t) = running t"
  "running (snd (ForceSource i t)) = running t"
  by (simp_all add: takeForced_def requeueForce_def switchTo_def beginSourceWalk_def advanceAfterFailure_def
      dueForBackupCheck_def switchToFallback_def rememberFallback_def audioLossDue_def clearAudioLoss_def
      markFallback_def markStarted_def markConfirmed_def confirmLate_def markStopped_def markAutoRestart_def
      markAdopted_def note_why_def giveUp_def ForceSource_def Let_def)

lemma gaveUp_frame [simp]:
  "gaveUp (snd (takeForced t)) = gaveUp t" "gaveUp (requeueForce i t) = gaveUp t"
  "gaveUp (switchTo i t) = gaveUp t" "gaveUp (beginSourceWalk t) = gaveUp t"
  "gaveUp (advanceAfterFailure t) = gaveUp t" "gaveUp (snd (dueForBackupCheck now t)) = gaveUp t"
  "gaveUp (snd (switchToFallback src t)) = gaveUp t" "gaveUp (rememberFallback i t) = gaveUp t"
  "gaveUp (snd (audioLossDue now e t)) = gaveUp t" "gaveUp (clearAudioLoss t) = gaveUp t"
  "gaveUp (markFallback v t) = gaveUp t" "gaveUp (markStarted now l t) = gaveUp t"
  "gaveUp (markConfirmed t) = gaveUp t" "gaveUp (confirmLate d t) = gaveUp t"
  "gaveUp (markStopped w t) = gaveUp t" "gaveUp (markAutoRestart now t) = gaveUp t"
  "gaveUp (markAdopted v t) = gaveUp t" "gaveUp (note_why m n t) = gaveUp t" "gaveUp (giveUp t)"
  "gaveUp (snd (ForceSource i t)) = gaveUp t"
  by (simp_all add: takeForced_def requeueForce_def switchTo_def beginSourceWalk_def advanceAfterFailure_def
      dueForBackupCheck_def switchToFallback_def rememberFallback_def audioLossDue_def clearAudioLoss_def
      markFallback_def markStarted_def markConfirmed_def confirmLate_def markStopped_def markAutoRestart_def
      markAdopted_def note_why_def giveUp_def ForceSource_def Let_def)

text \<open>The operations that move the source, the tally of the pass, the queue or the fallbacks.\<close>

lemma takeForced_ok [simp]: "stream_ok t \<Longrightarrow> stream_ok (snd (takeForced t))"
  by (auto simp: stream_ok_def takeForced_def)

lemma requeueForce_ok [simp]: "stream_ok t \<Longrightarrow> stream_ok (requeueForce i t)"
  by (auto simp: stream_ok_def requeueForce_def)

lemma switchTo_ok [simp]: "stream_ok t \<Longrightarrow> stream_ok (switchTo i t)"
  by (auto simp: stream_ok_def switchTo_def)

lemma beginSourceWalk_ok [simp]: "stream_ok t \<Longrightarrow> stream_ok (beginSourceWalk t)"
  by (auto simp: stream_ok_def beginSourceWalk_def)

lemma advanceAfterFailure_ok [simp]: "stream_ok t \<Longrightarrow> stream_ok (advanceAfterFailure t)"
  by (auto simp: stream_ok_def advanceAfterFailure_def selectNextOnFailure_def Let_def)

lemma dueForBackupCheck_ok [simp]: "stream_ok t \<Longrightarrow> stream_ok (snd (dueForBackupCheck now t))"
  by (auto simp: stream_ok_def dueForBackupCheck_def Let_def)

lemma switchToFallback_ok [simp]: "stream_ok t \<Longrightarrow> stream_ok (snd (switchToFallback src t))"
  by (auto simp: stream_ok_def switchToFallback_def)

lemma rememberFallback_ok [simp]: "stream_ok t \<Longrightarrow> 0 \<le> i \<Longrightarrow> i < nsources t \<Longrightarrow> stream_ok (rememberFallback i t)"
  by (auto simp: stream_ok_def rememberFallback_def)

lemma ForceSource_ok [simp]: "stream_ok t \<Longrightarrow> stream_ok (snd (ForceSource i t))"
  by (auto simp: stream_ok_def ForceSource_def)

text \<open>The operations that only mark something.\<close>

lemma marks_ok [simp]:
  "stream_ok (snd (audioLossDue now e t)) = stream_ok t" "stream_ok (clearAudioLoss t) = stream_ok t"
  "stream_ok (markFallback v t) = stream_ok t" "stream_ok (markStarted now l t) = stream_ok t"
  "stream_ok (markConfirmed t) = stream_ok t" "stream_ok (confirmLate d t) = stream_ok t"
  "stream_ok (markStopped w t) = stream_ok t" "stream_ok (markAutoRestart now t) = stream_ok t"
  "stream_ok (markAdopted v t) = stream_ok t" "stream_ok (note_why m n t) = stream_ok t"
  "stream_ok (giveUp t) = stream_ok t"
  by (auto simp: stream_ok_def audioLossDue_def clearAudioLoss_def markFallback_def markStarted_def
      markConfirmed_def confirmLate_def markStopped_def markAutoRestart_def markAdopted_def note_why_def
      giveUp_def Let_def)

lemma currentSource_ok:
  "stream_ok t \<Longrightarrow> currentSource t = Some (Sources (spec t) ! nat (srcIdx t), t)"
  by (simp add: currentSource_def stream_ok_def at_def)

lemma emit_frame [simp]:
  "st (emit a l s) = st s" "mode (emit a l s) = mode s" "consecutiveFails (emit a l s) = consecutiveFails s"
  "shortRuns (emit a l s) = shortRuns s" "first (emit a l s) = first s" "base (emit a l s) = base s"
  by (simp_all add: emit_def)

lemma match_cmds_in:
  "match_cmds want cs found = Some (i, fb) \<Longrightarrow> found = Some (i, fb) \<or> (\<exists>c. (c, i, fb) \<in> set cs)"
proof (induction want cs found rule: match_cmds.induct)
  case (2 want c j g cs found)
  show ?case
  proof (cases "c = [] \<or> normaliseCmd c \<noteq> want")
    case True
    then show ?thesis using 2 by auto
  next
    case False
    then have "match_cmds want cs (Some (j, g)) = Some (i, fb)"
      using 2(4) by (auto split: option.splits prod.splits if_splits)
    moreover have "match_cmds want cs (Some (j, g)) = Some (i, fb) \<Longrightarrow>
        Some (j, g) = Some (i, fb) \<or> (\<exists>c. (c, i, fb) \<in> set cs)"
      using 2 False by (cases found) (auto split: if_splits)
    ultimately show ?thesis by auto
  qed
qed simp

lemma matchRunningSource_range:
  assumes "matchRunningSource c ss = Some (i, fb)"
  shows "0 \<le> i \<and> i < len ss"
proof -
  have "match_cmds (normaliseCmd c) (source_cmds ss) None = Some (i, fb)"
    using assms by (simp add: matchRunningSource_def Let_def split: if_splits)
  then obtain x where "(x, i, fb) \<in> set (source_cmds ss)" using match_cmds_in by blast
  then show ?thesis by (auto simp: source_cmds_def len_def)
qed

section \<open>Judging a running encoder\<close>

lemma judge_frame [simp]:
  "spec (fst (snd (judge env v retry t b))) = spec t"
  "running (fst (snd (judge env v retry t b))) = running t"
  "gaveUp (fst (snd (judge env v retry t b))) = gaveUp t"
  "stream_ok (fst (snd (judge env v retry t b))) = stream_ok t"
  by (auto simp: judge_def Let_def clearAudioLoss_def audioLossDue_def stream_ok_def split: prod.splits)

lemma watch_tick_frame [simp]:
  "spec (fst (snd (watch_tick env retry t b))) = spec t"
  "running (fst (snd (watch_tick env retry t b))) = running t"
  "gaveUp (fst (snd (watch_tick env retry t b))) = gaveUp t"
  by (simp_all add: watch_tick_def Let_def case_prod_unfold split: option.splits)

lemma watch_tick_ok:
  assumes "stream_ok t"
  shows "stream_ok (fst (snd (watch_tick env retry t b)))"
proof -
  have "stream_ok (snd (takeForced (confirmLate (teHasData env) t)))" using assms by simp
  then have "stream_ok (snd (dueForBackupCheck (teNow env) (snd (takeForced (confirmLate (teHasData env) t)))))"
    by (rule dueForBackupCheck_ok)
  then show ?thesis using assms
    by (auto simp: watch_tick_def Let_def case_prod_unfold split: option.splits)
qed

section \<open>The steps\<close>

lemma take_force_ok:
  assumes "super_ok s" "mode s = Starting" "take_force s = (fsel, s')"
  shows "super_ok s' \<and> mode s' = Starting \<and> -1 \<le> fsel \<and> fsel < nsources (st s')"
proof -
  obtain i t where t: "takeForced (st s) = (i, t)" by (cases "takeForced (st s)") auto
  have i: "-1 \<le> i" "i < nsources t" and ok: "stream_ok t" "spec t = spec (st s)" "running t = running (st s)"
    "gaveUp t = gaveUp (st s)"
    using assms(1) t takeForced_ok [of "st s"] stream_frame(1) [of "st s"] running_frame(1) [of "st s"]
      gaveUp_frame(1) [of "st s"] by (auto simp: super_ok_def stream_ok_def takeForced_def)
  then show ?thesis using assms t
    by (auto simp: take_force_def super_defs Let_def split: if_splits option.splits)
qed

lemma if_rule: "(c \<Longrightarrow> P a) \<Longrightarrow> (\<not> c \<Longrightarrow> P b) \<Longrightarrow> P (if c then a else b)"
  by simp

lemma limits_ok:
  assumes "stream_ok (st s)" "\<not> running (st s)" "\<not> gaveUp (st s)" "0 \<le> consecutiveFails s" "0 \<le> shortRuns s"
    and "0 < StopFailures (policy (st s)) \<longrightarrow> 1 < nsources (st s) \<longrightarrow>
      shortRuns s < max (StopFailures (policy (st s))) (nsources (st s))"
    and "consecutiveFails s = n"
  shows "super_ok
     (if A then s\<lparr>st := giveUp (st s), mode := Over\<rparr>
      else if StopFailures (policy (st s)) > 0 \<and> n \<ge> StopFailures (policy (st s)) then s\<lparr>st := giveUp (st s), mode := Over\<rparr>
      else s\<lparr>mode := Starting\<rparr>)"
proof -
  have "super_ok (s\<lparr>st := giveUp (st s), mode := Over\<rparr>)" using assms by (simp add: super_defs)
  moreover have "\<not> (StopFailures (policy (st s)) > 0 \<and> n \<ge> StopFailures (policy (st s))) \<Longrightarrow> super_ok (s\<lparr>mode := Starting\<rparr>)"
    using assms by (simp add: super_defs not_le)
  ultimately show ?thesis by simp
qed

lemma charge_failure_ok:
  assumes "stream_ok (st s)" "tally_ok s" "mode s \<noteq> Over" "\<not> running (st s)"
  shows "super_ok (charge_failure prober src e s)"
proof -
  define n where "n = consecutiveFails s + 1"
  define s1 where "s1 = emit EventStreamStartFail (Label src)
      (s\<lparr>consecutiveFails := n, st := note_why (StartFailed e) n (st s)\<rparr>)"
  define s2 where "s2 = (if n = 1 \<and> sourceStillProbes prober src then s1 else s1\<lparr>st := advanceAfterFailure (st s1)\<rparr>)"
  have s1: "stream_ok (st s1)" "spec (st s1) = spec (st s)" "\<not> running (st s1)" "gaveUp (st s1) = gaveUp (st s)"
    "consecutiveFails s1 = n" "shortRuns s1 = shortRuns s"
    using assms by (simp_all add: s1_def)
  then have s2: "stream_ok (st s2)" "spec (st s2) = spec (st s)" "\<not> running (st s2)" "gaveUp (st s2) = gaveUp (st s)"
    "consecutiveFails s2 = n" "shortRuns s2 = shortRuns s"
    by (simp_all add: s2_def)
  show ?thesis
    unfolding charge_failure_def Let_def n_def [symmetric] s1_def [symmetric] s2_def [symmetric]
    by (rule limits_ok) (use s2 assms in \<open>simp_all add: tally_ok_def n_def\<close>)
qed

lemma start_failed_ok:
  assumes "stream_ok (st s)" "tally_ok s" "mode s \<noteq> Over" "\<not> running (st s)"
  shows "super_ok (start_failed prober src e s)"
proof -
  have "stream_ok (snd (switchToFallback src (st s)))" using assms(1) by simp
  then have "super_ok (s\<lparr>st := snd (switchToFallback src (st s)), mode := Starting\<rparr>)"
    using assms by (simp add: super_defs)
  then show ?thesis using charge_failure_ok [OF assms]
    by (auto simp: start_failed_def case_prod_unfold Let_def)
qed

lemma at_sources_ok:
  "stream_ok t \<Longrightarrow> matchRunningSource c (Sources (spec t)) = Some (i, fb) \<Longrightarrow> stream_ok (rememberFallback i (markFallback fb (switchTo i t)))"
  using matchRunningSource_range [of c "Sources (spec t)" i fb] by simp

lemma begin_start_ok:
  assumes "super_ok s" "mode s = Starting"
  shows "\<exists>s'. begin_start env prober s = Some s' \<and> super_ok s'"
proof -
  obtain fsel s1 where tf: "take_force s = (fsel, s1)" by (cases "take_force s") auto
  then have s1: "super_ok s1" "mode s1 = Starting" "-1 \<le> fsel" "fsel < nsources (st s1)"
    using take_force_ok [OF assms] by auto
  then have t: "stream_ok (st s1)" and nr: "\<not> running (st s1)" by (simp_all add: super_defs)
  let ?src = "Sources (spec (st s1)) ! nat (srcIdx (st s1))"
  have cur: "currentSource (st s1) = Some (?src, st s1)" by (rule currentSource_ok [OF t])
  show ?thesis
  proof (cases "survivor env")
    case None
    have "super_ok (start_failed prober ?src LaunchFailed (s1\<lparr>st := markAdopted False (st s1)\<rparr>))"
      using s1 nr by (intro start_failed_ok) (auto simp: super_defs)
    then show ?thesis using None s1 t
      by (auto simp: begin_start_def tf cur super_defs case_prod_unfold Let_def)
  next
    case (Some c)
    show ?thesis
    proof (cases "matchRunningSource c (Sources (spec (st s1)))")
      case None
      then show ?thesis using Some s1 t
        by (auto simp: begin_start_def tf cur super_defs case_prod_unfold Let_def)
    next
      case (Some m)
      obtain i fb where m: "m = (i, fb)" by (cases m) auto
      have "stream_ok (rememberFallback i (markFallback fb (switchTo i (markAdopted True (st s1)))))"
        using at_sources_ok [of "markAdopted True (st s1)" c i fb] t Some m by simp
      then show ?thesis using Some \<open>survivor env = Some c\<close> s1 t m
        by (auto simp: begin_start_def tf cur super_defs case_prod_unfold Let_def split: option.splits)
    qed
  qed
qed

lemma start_worked_ok:
  assumes "super_ok s" "mode s = Confirming src fsel k d"
  shows "\<exists>s'. start_worked fsel conf s = Some s' \<and> super_ok s'"
proof -
  have t: "stream_ok (st s)" using assms by (simp add: super_ok_def)
  show ?thesis using assms t
    by (auto simp: start_worked_def currentSource_ok super_defs Let_def)
qed

lemma await_round_ok:
  assumes "super_ok s"
  shows "\<exists>s'. await_round p prober s = Some s' \<and> super_ok s'"
proof (cases "mode s")
  case (Confirming src fsel k d)
  have stop: "super_ok (start_failed prober src e (s\<lparr>st := markStopped w (st s)\<rparr>))" for e w
    using assms Confirming by (intro start_failed_ok) (auto simp: super_defs)
  have off: "super_ok (s\<lparr>mode := Over\<rparr>)" using assms by (auto simp: super_defs)
  show ?thesis
    using stop off assms start_worked_ok [OF assms Confirming] Confirming
    by (cases p) (auto simp: await_round_def Let_def)
qed (use assms in \<open>auto simp: await_round_def\<close>)

lemma condemned_ok:
  assumes "super_ok s" "mode s = Watching src'"
  shows "super_ok (condemned v src s)"
proof -
  have "stream_ok (switchTo i (note_why m n (markStopped w (st s))))" "stream_ok (note_why m n (markStopped w (st s)))"
    for i m n w using assms by (simp_all add: super_ok_def)
  then show ?thesis using assms
    by (auto simp: condemned_def super_defs Let_def)
qed

lemma short_run_ok:
  assumes "stream_ok (st s)" "tally_ok s" "mode s \<noteq> Over" "\<not> running (st s)"
  shows "super_ok (short_run w ranFor s)"
proof -
  define s1 where "s1 = s\<lparr>shortRuns := shortRuns s + 1, st := advanceAfterFailure (note_why (ExitedAfter w ranFor) 0 (st s))\<rparr>"
  have s1: "stream_ok (st s1)" "spec (st s1) = spec (st s)" "\<not> running (st s1)" "gaveUp (st s1) = gaveUp (st s)"
    "consecutiveFails s1 = consecutiveFails s" "shortRuns s1 = shortRuns s + 1"
    using assms by (simp_all add: s1_def)
  have "super_ok (s1\<lparr>st := giveUp (note_why m n (st s1)), mode := Over\<rparr>)" for m n
    using s1 assms by (simp add: super_defs)
  moreover have "\<not> (StopFailures (policy (st s1)) > 0 \<and> nsources (st s1) > 1 \<and>
      shortRuns s1 \<ge> StopFailures (policy (st s1)) \<and> shortRuns s1 \<ge> nsources (st s1)) \<Longrightarrow> super_ok (s1\<lparr>mode := Starting\<rparr>)"
    using s1 assms by (auto simp: super_defs)
  ultimately show ?thesis unfolding short_run_def Let_def s1_def [symmetric] by (rule if_rule [where P = super_ok])
qed

lemma exited_by_itself_ok:
  assumes "super_ok s" "mode s = Watching src'"
  shows "super_ok (exited_by_itself w now src s)"
proof -
  let ?s = "s\<lparr>st := markStopped NoError (st s)\<rparr>"
  let ?f = "emit EventStreamFailed (Label src) (s\<lparr>st := note_why (EncoderExited w) 0 (markStopped NoError (st s))\<rparr>)"
  have "stream_ok (snd (switchToFallback src (st ?s)))" using assms by (simp add: super_ok_def)
  then have fb: "super_ok (s\<lparr>st := snd (switchToFallback src (st ?s)), mode := Starting\<rparr>)"
    using assms by (simp add: super_defs)
  have short: "super_ok (short_run w r ?f)" for r
    using assms by (intro short_run_ok) (simp_all add: super_defs)
  have healthy: "super_ok (?f\<lparr>shortRuns := 0, mode := Starting\<rparr>)"
    using assms by (auto simp: super_defs)
  show ?thesis using fb short healthy
    by (auto simp: exited_by_itself_def case_prod_unfold Let_def)
qed

lemma super_step_ok:
  assumes "super_ok s"
  shows "\<exists>s'. super_step e s = Some s' \<and> super_ok s'"
proof (cases e)
  case (Begin env prober)
  then show ?thesis using begin_start_ok [OF assms] assms by auto
next
  case (Await p prober)
  then show ?thesis using await_round_ok [OF assms] by simp
next
  case (Tick env)
  show ?thesis
  proof (cases "mode s")
    case (Watching src)
    define t where "t = fst (snd (watch_tick env audioLossRetryDefault (st s) (base s)))"
    have t: "stream_ok t" "spec t = spec (st s)" "running t = running (st s)" "gaveUp t = gaveUp (st s)"
      using assms by (simp_all add: t_def watch_tick_ok super_ok_def)
    have ok: "super_ok (s\<lparr>st := t, base := b\<rparr>)" for b using assms t Watching by (simp add: super_defs)
    then have "super_ok (condemned v src (s\<lparr>st := t, base := b\<rparr>))" for v b
      using Watching condemned_ok [of "s\<lparr>st := t, base := b\<rparr>" src] by simp
    with ok show ?thesis using Tick Watching by (simp add: case_prod_unfold Let_def t_def)
  qed (use Tick assms in auto)
next
  case (Exit w now)
  then show ?thesis using exited_by_itself_ok [OF assms] assms by (cases "mode s") auto
next
  case (Force i)
  have "stream_ok (snd (ForceSource i (st s)))" using assms by (simp add: super_ok_def)
  then show ?thesis using Force assms by (cases "mode s") (auto simp: super_defs)
next
  case Cancel
  then show ?thesis using assms by (cases "mode s") (auto simp: super_defs)
qed

interpretation super: safe_system super_step "\<lambda>e. True" super_ok
  by unfold_locales (rule super_step_ok)

lemma Supervise_ok:
  assumes "Supervise sp = Inr s"
  shows "super_ok s"
proof -
  have "Sources (Spec_normalise sp) \<noteq> []" "0 \<le> StopFailures (PolicyOf (Spec_normalise sp))"
    using assms by (auto simp: Supervise_def Spec_valid_def Spec_normalise_def Let_def split: option.splits if_splits)
  moreover from this have "0 < len (Sources (Spec_normalise sp))" by (simp add: len_gt_0)
  moreover from this have "-1 < len (Sources (Spec_normalise sp))" by linarith
  ultimately show ?thesis using assms
    by (auto simp: Supervise_def super_defs stream_ok_def new_stream_def Let_def split: option.splits)
qed

end
