(* ===== verification/HealthProps.thy ===== *)
theory HealthProps
  imports Health
begin

text \<open>
  What a frozen-picture verdict of \<^verbatim>\<open>internal/supervisor/health.go\<close> rests on: the readings one encoder is
  judged by, one after the other, up to the first verdict.
\<close>

type_synonym reading = "time \<times> Vitals"

fun judged :: "Health \<Rightarrow> time \<Rightarrow> reading list \<Rightarrow> fpsBaseline \<Rightarrow> healthVerdict \<times> fpsBaseline" where
  "judged h startedAt [] b = (no_verdict, b)"
| "judged h startedAt (r # rs) b =
     (case check h (fst r) startedAt (snd r) b of
        (w, b') \<Rightarrow> if failed w then (w, b') else judged h startedAt rs b')"

definition frames :: "reading \<Rightarrow> bool" where
  "frames r \<longleftrightarrow> f64_less f64_zero (FPS (snd r))"

definition silent :: "reading \<Rightarrow> bool" where
  "silent r \<longleftrightarrow> \<not> f64_less f64_zero (FPS (snd r)) \<and> \<not> f64_less (FPS (snd r)) f64_zero"

text \<open>What the baseline remembers of the readings \<open>seen\<close> so far.\<close>

definition remembers :: "fpsBaseline \<Rightarrow> reading list \<Rightarrow> bool" where
  "remembers b seen \<longleftrightarrow>
     (0 < f64_man (peak b) \<longrightarrow> (\<exists>r\<in>set seen. frames r)) \<and>
     (zeroSince b \<noteq> 0 \<longrightarrow> 0 < f64_man (peak b) \<and>
        (\<exists>early run. seen = early @ run \<and> run \<noteq> [] \<and> list_all silent run \<and> fst (hd run) = zeroSince b \<and>
           (\<exists>r\<in>set early. frames r)))"

lemma remembers_new: "remembers new_baseline []"
  by (simp add: remembers_def new_baseline_def f64_zero_def)

lemma observe_simps [simp]:
  "zeroSince (observe fps b) = zeroSince b"
  "peak (observe fps b) = (if f64_less (peak b) fps then fps else peak b)"
  by (simp_all add: observe_def)

lemma silent_iff: "silent r \<longleftrightarrow> f64_man (FPS (snd r)) = 0"
  by (auto simp: silent_def)

lemma frames_iff: "frames r \<longleftrightarrow> 0 < f64_man (FPS (snd r))"
  by (simp add: frames_def)

lemma silent_not_above: "f64_man v = 0 \<Longrightarrow> 0 < f64_man p \<Longrightarrow> \<not> f64_less p v"
  by (simp add: f64_less_def not_less)

text \<open>A reading that is not silent ends the run, and one that carries frames may raise the peak.\<close>

lemma remembers_observe:
  assumes "remembers b seen" "zeroSince b' = 0" "peak b' = peak b"
  shows "remembers (observe (FPS (snd r)) b') (seen @ [r])"
  using assms by (auto simp: remembers_def frames_iff)

lemma remembers_silent:
  assumes "remembers b seen" "0 < f64_man (peak b)" "silent r" "fst r \<noteq> 0"
    and "b' = (if zeroSince b = 0 then b\<lparr>zeroSince := fst r\<rparr> else b)"
  shows "remembers b' (seen @ [r])"
proof (cases "zeroSince b = 0")
  case True
  then have "\<exists>x\<in>set seen. frames x" using assms(1,2) by (simp add: remembers_def)
  then have "\<exists>early run. seen @ [r] = early @ run \<and> run \<noteq> [] \<and> list_all silent run \<and> fst (hd run) = fst r \<and>
      (\<exists>x\<in>set early. frames x)"
    using assms(3) by (intro exI [of _ seen] exI [of _ "[r]"]) simp
  then show ?thesis using True assms by (auto simp: remembers_def)
next
  case False
  then obtain early run where e: "seen = early @ run" "run \<noteq> []" "list_all silent run" "fst (hd run) = zeroSince b"
    "\<exists>r\<in>set early. frames r" using assms(1) by (auto simp: remembers_def)
  then have "\<exists>early' run'. seen @ [r] = early' @ run' \<and> run' \<noteq> [] \<and> list_all silent run' \<and>
      fst (hd run') = zeroSince b \<and> (\<exists>x\<in>set early'. frames x)"
    using assms(3) by (intro exI [of _ early] exI [of _ "run @ [r]"]) simp
  moreover have "\<exists>x\<in>set (seen @ [r]). frames x" using e(1,5) by auto
  ultimately show ?thesis using False assms by (simp add: remembers_def)
qed

lemma dropped_remembers:
  assumes "remembers b seen" "fst r \<noteq> 0" "dropped (fst r) (FPS (snd r)) th win b = (d, b')" "f64_less f64_zero th"
  shows "remembers (if d then b' else observe (FPS (snd r)) b') (seen @ [r])"
    and "d \<Longrightarrow> silent r \<Longrightarrow> win \<le> fst r - zeroSince b' \<and> zeroSince b' \<noteq> 0"
proof -
  consider (no_peak) "\<not> 0 < f64_man (peak b)" | (negative) "0 < f64_man (peak b)" "f64_man (FPS (snd r)) < 0"
    | (zero) "0 < f64_man (peak b)" "silent r" | (positive) "0 < f64_man (peak b)" "0 < f64_man (FPS (snd r))"
    by (auto simp: silent_iff) linarith
  then have "remembers (if d then b' else observe (FPS (snd r)) b') (seen @ [r]) \<and>
      (d \<longrightarrow> silent r \<longrightarrow> win \<le> fst r - zeroSince b' \<and> zeroSince b' \<noteq> 0)"
  proof cases
    case no_peak
    then have "zeroSince b = 0" "d = False" "b' = b" using assms by (auto simp: remembers_def dropped_def)
    then show ?thesis using assms(1) by (simp add: remembers_observe)
  next
    case negative
    then have "d = False" "b' = b\<lparr>zeroSince := 0\<rparr>" using assms by (auto simp: dropped_def)
    then show ?thesis using assms(1) by (simp add: remembers_observe [of b])
  next
    case zero
    then have b': "b' = (if zeroSince b = 0 then b\<lparr>zeroSince := fst r\<rparr> else b)" "d = (fst r - zeroSince b' \<ge> win)"
      using assms by (auto simp: dropped_def silent_iff Let_def)
    then have "observe (FPS (snd r)) b' = b'" using zero silent_not_above by (simp add: observe_def silent_iff)
    then show ?thesis using remembers_silent [OF assms(1) zero(1,2) assms(2) b'(1)] b' assms(2) by auto
  next
    case positive
    then have b': "b' = b\<lparr>zeroSince := 0\<rparr>" using assms by (auto simp: dropped_def Let_def)
    have "remembers b' (seen @ [r])" using assms(1) positive by (auto simp: b' remembers_def frames_iff)
    then show ?thesis using assms(1) positive b' remembers_observe [of b seen b' r] by (auto simp: silent_iff)
  qed
  then show "remembers (if d then b' else observe (FPS (snd r)) b') (seen @ [r])"
    and "d \<Longrightarrow> silent r \<Longrightarrow> win \<le> fst r - zeroSince b' \<and> zeroSince b' \<noteq> 0" by auto
qed

lemma check_cases:
  assumes "check h now startedAt v b = (w, b')"
  shows "(\<exists>d. vreason w = NoOutputFor d) \<or> (\<exists>d. vreason w = NoAudioFor d) \<or> fps_rule h now startedAt v b = (Some w, b')
    \<or> (w = no_verdict \<and> fps_rule h now startedAt v b = (None, b'))"
  using assms by (auto simp: check_def stall_rule_def audio_rule_def Let_def no_verdict_def
      split: option.splits prod.splits if_splits)

lemma fps_rule_remembers:
  assumes "remembers b seen" "fst r \<noteq> 0" "fps_rule h (fst r) startedAt (snd r) b = (w, b')"
    and "FPSGraceSec h * second \<le> fst r - startedAt"
  shows "f64_less f64_zero (FPSThreshold h) \<Longrightarrow> remembers b' (seen @ [r])"
    and "w = Some x \<Longrightarrow> vreason x = NoFramesFor d p \<Longrightarrow>
      remembers b' (seen @ [r]) \<and> silent r \<and> d = fst r - zeroSince b' \<and> freezeWindow h \<le> d \<and> zeroSince b' \<noteq> 0"
proof -
  obtain dr bd where dr: "dropped (fst r) (FPS (snd r)) (FPSThreshold h) (freezeWindow h) b = (dr, bd)"
    by (cases "dropped (fst r) (FPS (snd r)) (FPSThreshold h) (freezeWindow h) b") auto
  have w: "f64_less f64_zero (FPSThreshold h) \<Longrightarrow> b' = (if dr then bd else observe (FPS (snd r)) bd)"
    "w = Some x \<Longrightarrow> f64_less f64_zero (FPSThreshold h) \<and> dr \<and> b' = bd" for x
    using assms(3,4) dr by (auto simp: fps_rule_def split: if_splits)
  show *: "f64_less f64_zero (FPSThreshold h) \<Longrightarrow> remembers b' (seen @ [r])"
    using dropped_remembers(1) [OF assms(1,2) dr] w(1) by simp
  assume x: "w = Some x" "vreason x = NoFramesFor d p"
  then have "f64_less f64_zero (FPSThreshold h)" "dr" "b' = bd" using w(2) by auto
  moreover have "\<not> f64_less f64_zero (FPS (snd r))" "d = fst r - zeroSince bd"
    using x assms(3,4) dr calculation by (auto simp: fps_rule_def split: if_splits)
  moreover have "\<not> f64_less (FPS (snd r)) f64_zero"
    using dr \<open>dr\<close> calculation(4) by (auto simp: dropped_def split: if_splits)
  ultimately show "remembers b' (seen @ [r]) \<and> silent r \<and> d = fst r - zeroSince b' \<and> freezeWindow h \<le> d \<and> zeroSince b' \<noteq> 0"
    using * dropped_remembers(2) [OF assms(1,2) dr] by (auto simp: silent_def)
qed

lemma judged_freeze:
  assumes "judged h startedAt rs b = (w, b')" "vreason w = NoFramesFor d p" "remembers b seen"
    and "\<forall>r\<in>set rs. fst r \<noteq> 0 \<and> FPSGraceSec h * second \<le> fst r - startedAt"
    and "f64_less f64_zero (FPSThreshold h)"
  shows "\<exists>read later r. rs = read @ [r] @ later \<and> remembers b' (seen @ read @ [r]) \<and> silent r \<and>
    d = fst r - zeroSince b' \<and> freezeWindow h \<le> d \<and> zeroSince b' \<noteq> 0"
  using assms
proof (induction rs arbitrary: b seen)
  case Nil
  then have "w = no_verdict" by simp
  then show ?case using Nil by (simp add: no_verdict_def)
next
  case (Cons r rs)
  obtain w1 b1 where c: "check h (fst r) startedAt (snd r) b = (w1, b1)"
    by (cases "check h (fst r) startedAt (snd r) b") auto
  show ?case
  proof (cases "failed w1")
    case True
    then have "w1 = w" "b1 = b'" using Cons.prems(1) c by auto
    then have "fps_rule h (fst r) startedAt (snd r) b = (Some w, b')"
      using check_cases [OF c] Cons.prems(2) by (auto simp: no_verdict_def)
    from fps_rule_remembers(2) [OF Cons.prems(3) _ this _ refl Cons.prems(2)] Cons.prems(4)
    show ?thesis by (intro exI [of _ "[]"] exI [of _ rs] exI [of _ r]) auto
  next
    case False
    then have j: "judged h startedAt rs b1 = (w, b')" using Cons.prems(1) c by auto
    have "fps_rule h (fst r) startedAt (snd r) b = (None, b1) \<or> fps_rule h (fst r) startedAt (snd r) b = (Some w1, b1)"
      using check_cases [OF c] False c
      by (auto simp: failed_def check_def stall_rule_def audio_rule_def Let_def no_verdict_def event_names
          split: option.splits prod.splits if_splits)
    then have "remembers b1 (seen @ [r])"
      using fps_rule_remembers(1) [OF Cons.prems(3), of r h startedAt] Cons.prems(4,5)
      by (metis list.set_intros(1))
    from Cons.IH [OF j Cons.prems(2) this] Cons.prems(4,5)
    obtain read later x where x: "rs = read @ [x] @ later" "remembers b' ((seen @ [r]) @ read @ [x])" "silent x"
      "d = fst x - zeroSince b'" "freezeWindow h \<le> d" "zeroSince b' \<noteq> 0" by auto
    then show ?thesis by (intro exI [of _ "r # read"] exI [of _ later] exI [of _ x]) simp
  qed
qed

text \<open>C19: a frozen picture is a run of silence.  The picture of an encoder is called frozen only after an
  unbroken run of readings at zero frames per second whose first and last are at least the freeze
  window apart, and only when some reading before the run did carry frames; the verdict reports
  exactly the length of the run.\<close>

theorem freeze_needs_silence:
  assumes "judged h startedAt rs new_baseline = (w, b)" "vreason w = NoFramesFor d p"
    and "\<forall>r\<in>set rs. fst r \<noteq> 0 \<and> FPSGraceSec h * second \<le> fst r - startedAt"
    and "f64_less f64_zero (FPSThreshold h)"
  shows "\<exists>early run later. rs = early @ run @ later \<and> run \<noteq> [] \<and> list_all silent run \<and>
    (\<exists>r\<in>set early. frames r) \<and> fst (last run) - fst (hd run) = d \<and> freezeWindow h \<le> d"
proof -
  obtain read later r where r: "rs = read @ [r] @ later" "remembers b (read @ [r])" "silent r"
    "d = fst r - zeroSince b" "freezeWindow h \<le> d" "zeroSince b \<noteq> 0"
    using judged_freeze [OF assms(1,2) remembers_new assms(3,4)] by auto
  then obtain early run where e: "read @ [r] = early @ run" "run \<noteq> []" "list_all silent run"
    "fst (hd run) = zeroSince b" "\<exists>x\<in>set early. frames x" by (auto simp: remembers_def)
  have "rs = early @ run @ later" using r(1) e(1) by (metis append.assoc)
  moreover have "last run = r" using e(1,2) by (metis last_appendR last_snoc)
  ultimately show ?thesis using e r(4,5) by (intro exI [of _ early] exI [of _ run] exI [of _ later]) auto
qed

lemma freeze_needs_silence_witness:
  "\<exists>early run later. [(70 * second, \<lparr>LastData = 70 * second, LastAudio = 0, FPS = Dyadic 25 0\<rparr>),
      (80 * second, \<lparr>LastData = 80 * second, LastAudio = 0, FPS = f64_zero\<rparr>),
      (140 * second, \<lparr>LastData = 140 * second, LastAudio = 0, FPS = f64_zero\<rparr>)] = early @ run @ later \<and>
    run \<noteq> [] \<and> list_all silent run \<and> (\<exists>r\<in>set early. frames r) \<and> fst (last run) - fst (hd run) = 60 * second \<and>
    freezeWindow \<lparr>StallSec = 0, AudioLossSec = 0, FPSThreshold = Dyadic 1 1, FPSGraceSec = 10, AutoRestartAt = None\<rparr> \<le> 60 * second"
  by (rule freeze_needs_silence [where startedAt = "second" and p = "Dyadic 25 0" and
      w = "no_verdict\<lparr>event := EventFPSDropThreshold, vreason := NoFramesFor (60 * second) (Dyadic 25 0)\<rparr>" and
      b = "\<lparr>peak = Dyadic 25 0, zeroSince = 80 * second\<rparr>"]) code_simp+

lemma no_restart_cascade_witness:
  "\<not> failed (fst (check \<lparr>StallSec = 60, AudioLossSec = 30, FPSThreshold = Dyadic 1 1, FPSGraceSec = 60, AutoRestartAt = None\<rparr>
      (100 * second) (90 * second) \<lparr>LastData = second, LastAudio = second, FPS = f64_zero\<rparr>
      \<lparr>peak = Dyadic 25 0, zeroSince = second\<rparr>))"
  by (rule no_restart_cascade) code_simp+

end
