(* ===== verification/SuperProps.thy ===== *)
theory SuperProps
  imports SuperInv HealthProps
begin

text \<open>
  What the restart loop of \<^verbatim>\<open>internal/supervisor\<close> guarantees: it never panics and keeps its indexes in range;
  a failing stream tries every source and gives up exactly at its limit; a start that fails is
  always charged for; and an operator's forced source survives an adoption that overrules it.
\<close>

section \<open>The invariant\<close>

text \<open>C14: supervision stays sound.  However a supervised stream is driven, the loop does not panic; the
  current source and a queued switch name sources of the list; a fallback is remembered only for
  one of them; an encoder is marked running exactly while a start is proving itself or being
  watched; and while the loop runs, its tally of failed starts is below the limit.\<close>

theorem supervision_sound:
  assumes "Supervise sp = Inr s"
  shows "\<exists>s'. run super_step es s = Some s' \<and>
    (let t = st s' in 0 \<le> srcIdx t \<and> srcIdx t < nsources t \<and> -1 \<le> forced t \<and> forced t < nsources t \<and>
       fallback t \<subseteq> {0..<nsources t} \<and>
       (mode s' \<noteq> Over \<longrightarrow> (running t \<longleftrightarrow> mode s' \<noteq> Starting) \<and> \<not> gaveUp t \<and>
          (0 < StopFailures (policy t) \<longrightarrow> consecutiveFails s' < StopFailures (policy t))))"
proof -
  have "list_all (\<lambda>e. True) es" by (simp add: list_all_iff)
  then obtain s' where s': "run super_step es s = Some s'" "super_ok s'"
    using super.run_safe [OF Supervise_ok [OF assms]] by blast
  then have "mode s' \<noteq> Over \<Longrightarrow> running (st s') \<longleftrightarrow> mode s' \<noteq> Starting"
    by (auto simp: super_ok_def mode_ok_def split: mode.splits)
  then show ?thesis using s' by (simp add: super_ok_def stream_ok_def tally_ok_def Let_def)
qed

section \<open>The failure pass\<close>

text \<open>A start attempt whose launch fails: nothing survives to adopt, and the process cannot be started.\<close>

definition no_launch :: "launch_env \<Rightarrow> bool" where
  "no_launch env \<longleftrightarrow> survivor env = None \<and> \<not> launches env"

definition at_limit :: "stream \<Rightarrow> int \<Rightarrow> bool" where
  "at_limit t n \<longleftrightarrow> (OnDemand (policy t) \<and> OnDemandFailureExit (policy t)) \<or>
     (StopFailures (policy t) > 0 \<and> n \<ge> StopFailures (policy t))"

definition after_failure :: "super \<Rightarrow> super \<Rightarrow> bool" where
  "after_failure s s' \<longleftrightarrow>
     spec (st s') = spec (st s) \<and> forced (st s') = -1 \<and> consecutiveFails s' = consecutiveFails s + 1 \<and>
     srcIdx (st s') = srcIdx (advanceAfterFailure (st s)) \<and>
     srcTried (st s') = srcTried (advanceAfterFailure (st s)) \<and>
     mode s' = (if at_limit (st s) (consecutiveFails s + 1) then Over else Starting) \<and>
     gaveUp (st s') = (gaveUp (st s) \<or> at_limit (st s) (consecutiveFails s + 1))"

lemma advance_note [simp]:
  "srcIdx (advanceAfterFailure (note_why m n t)) = srcIdx (advanceAfterFailure t)"
  "srcTried (advanceAfterFailure (note_why m n t)) = srcTried (advanceAfterFailure t)"
  "srcIdx (advanceAfterFailure (markAdopted v t)) = srcIdx (advanceAfterFailure t)"
  "srcTried (advanceAfterFailure (markAdopted v t)) = srcTried (advanceAfterFailure t)"
  "forced (advanceAfterFailure t) = forced t" "forced (note_why m n t) = forced t"
  "forced (markAdopted v t) = forced t" "forced (giveUp t) = forced t" "srcIdx (giveUp t) = srcIdx t"
  "srcTried (giveUp t) = srcTried t"
  by (simp_all add: advanceAfterFailure_def note_why_def markAdopted_def giveUp_def Let_def)

lemma charge_failure_after:
  "forced (st s) = -1 \<Longrightarrow> mode s = Starting \<Longrightarrow> after_failure s (charge_failure None src e s)"
  by (simp add: after_failure_def charge_failure_def at_limit_def sourceStillProbes_def Let_def) auto

lemma failed_begin:
  assumes "super_ok s" "mode s = Starting" "forced (st s) = -1" "no_launch env"
  shows "\<exists>s'. super_step (Begin env None) s = Some s' \<and> super_ok s' \<and> after_failure s s'"
proof -
  have tf: "take_force s = (-1, s)"
    using assms(3) by (simp add: take_force_def takeForced_def Let_def)
  let ?src = "Sources (spec (st s)) ! nat (srcIdx (st s))"
  have "currentSource (st s) = Some (?src, st s)" using assms(1) by (simp add: currentSource_ok super_ok_def)
  then have "super_step (Begin env None) s = Some (charge_failure None ?src LaunchFailed (s\<lparr>st := markAdopted False (st s)\<rparr>))"
    using assms by (simp add: begin_start_def tf no_launch_def case_prod_unfold start_failed_def unsupported_def Let_def)
  moreover have "after_failure (s\<lparr>st := markAdopted False (st s)\<rparr>)
      (charge_failure None ?src LaunchFailed (s\<lparr>st := markAdopted False (st s)\<rparr>))"
    using assms by (intro charge_failure_after) auto
  then have "after_failure s (charge_failure None ?src LaunchFailed (s\<lparr>st := markAdopted False (st s)\<rparr>))"
    by (simp add: after_failure_def at_limit_def)
  ultimately show ?thesis using super_step_ok [OF assms(1), of "Begin env None"] by auto
qed

fun attempts :: "launch_env list \<Rightarrow> super \<Rightarrow> int list" where
  "attempts [] s = []"
| "attempts (env # envs) s =
     srcIdx (st s) # (case super_step (Begin env None) s of Some s' \<Rightarrow> attempts envs s' | None \<Rightarrow> [])"

lemma advance_walk:
  assumes "1 < nsources t" "srcTried t + 1 < nsources t"
  shows "srcTried (advanceAfterFailure t) = srcTried t + 1 \<and> srcIdx (advanceAfterFailure t) = (srcIdx t + 1) mod nsources t"
  using assms by (simp add: advanceAfterFailure_def Let_def)

lemma attempts_walk:
  assumes "super_ok s" "mode s = Starting" "forced (st s) = -1" "list_all no_launch envs"
    and "nsources (st s) = n" "1 < n" "srcTried (st s) + len envs \<le> n"
    and "\<not> at_limit (st s) (consecutiveFails s + len envs)" "0 \<le> consecutiveFails s"
  shows "attempts envs s = map (\<lambda>k. (srcIdx (st s) + int k) mod n) [0..<length envs]"
  using assms
proof (induction envs arbitrary: s)
  case (Cons env envs)
  have i: "0 \<le> srcIdx (st s)" "srcIdx (st s) < n" using Cons.prems by (auto simp: super_ok_def stream_ok_def)
  obtain s' where s': "super_step (Begin env None) s = Some s'" "super_ok s'" "after_failure s s'"
    using failed_begin [of s env] Cons.prems by auto
  show ?case
  proof (cases "envs = []")
    case True
    then show ?thesis using i s'(1) by simp
  next
    case False
    then have "0 < len envs" by (simp add: len_gt_0)
    then have w: "srcTried (st s') = srcTried (st s) + 1" "srcIdx (st s') = (srcIdx (st s) + 1) mod n"
      using advance_walk [of "st s"] s'(3) Cons.prems(5-7) by (auto simp: after_failure_def)
    have nl: "\<not> at_limit (st s) (consecutiveFails s + 1)" "\<not> at_limit (st s') (consecutiveFails s' + len envs)"
      using Cons.prems(8,9) s'(3) \<open>0 < len envs\<close> by (auto simp: at_limit_def after_failure_def)
    have "attempts envs s' = map (\<lambda>k. (srcIdx (st s') + int k) mod n) [0..<length envs]"
      using Cons.prems s' nl w by (intro Cons.IH) (auto simp: after_failure_def)
    also have "\<dots> = map (\<lambda>k. (srcIdx (st s) + int (Suc k)) mod n) [0..<length envs]"
      by (simp add: w mod_simps ac_simps)
    finally have "attempts envs s' = map (\<lambda>k. (srcIdx (st s) + int k) mod n) (map Suc [0..<length envs])" by simp
    then show ?thesis using s'(1) i by (simp add: map_Suc_upt upt_conv_Cons del: upt_Suc)
  qed
qed simp

lemma rotation_distinct:
  assumes "0 \<le> i" "i < n"
  shows "inj_on (\<lambda>k. (i + int k) mod n) {0..<nat n}"
proof (rule inj_onI)
  fix x y assume xy: "x \<in> {0..<nat n}" "y \<in> {0..<nat n}" "(i + int x) mod n = (i + int y) mod n"
  then have "n dvd (int x - int y)" by (metis mod_eq_dvd_iff add_diff_cancel_left)
  moreover have "\<bar>int x - int y\<bar> < n" using xy by auto
  ultimately show "x = y" by (metis dvd_imp_le_int eq_iff_diff_eq_0 abs_of_nonneg not_le of_nat_eq_iff abs_dvd_iff dvd_abs_iff assms order_trans abs_ge_zero less_imp_le)
qed



section \<open>What a failed start costs\<close>

definition free_retries :: "stream \<Rightarrow> nat" where
  "free_retries t = nat (nsources t) - card (fallback t)"

lemma switchToFallback_spends:
  assumes "stream_ok t" "fst (switchToFallback src t)"
  shows "free_retries (snd (switchToFallback src t)) < free_retries t"
proof -
  have f: "fallback t \<subseteq> {0..<nsources t}" "srcIdx t \<in> {0..<nsources t}" "srcIdx t \<notin> fallback t"
    using assms by (auto simp: stream_ok_def switchToFallback_def split: if_splits)
  then have "finite (fallback t)" using finite_subset finite_atLeastLessThan_int by metis
  then have "card (insert (srcIdx t) (fallback t)) = Suc (card (fallback t))" using f by simp
  moreover have "card (insert (srcIdx t) (fallback t)) \<le> nat (nsources t)"
    using card_mono [of "{0..<nsources t}" "insert (srcIdx t) (fallback t)"] f by simp
  ultimately show ?thesis using assms(2) by (auto simp: switchToFallback_def free_retries_def split: if_splits)
qed

lemma start_failed_charged:
  assumes "stream_ok (st s)"
  shows "consecutiveFails (start_failed prober src e s) = consecutiveFails s + 1 \<or>
    free_retries (st (start_failed prober src e s)) < free_retries (st s)"
  using switchToFallback_spends [OF assms, of src]
  by (auto simp: start_failed_def charge_failure_def case_prod_unfold Let_def)

text \<open>C17: no start fails for free.  When a start that was proving itself fails, either the failure is
  counted, or the source gives up its primary command for its fallback; there are only as many such
  free retries as there are sources, and each failure of this kind leaves strictly fewer.\<close>

theorem no_failure_for_free:
  assumes "super_ok s" "mode s = Confirming src fsel kill deadline" "super_step (Await p prober) s = Some s'"
    and "mode s' = Starting"
  shows "consecutiveFails s' = consecutiveFails s + 1 \<or> free_retries (st s') < free_retries (st s)"
proof -
  have ok: "stream_ok (st s)" using assms(1) by (simp add: super_ok_def)
  have stopped: "free_retries (markStopped w (st s)) = free_retries (st s)" for w
    by (simp add: free_retries_def) (simp add: markStopped_def Let_def)
  have charged: "consecutiveFails (start_failed prober src e (s\<lparr>st := markStopped w (st s)\<rparr>)) = consecutiveFails s + 1 \<or>
      free_retries (st (start_failed prober src e (s\<lparr>st := markStopped w (st s)\<rparr>))) < free_retries (st s)" for e w
    using start_failed_charged [of "s\<lparr>st := markStopped w (st s)\<rparr>" prober src e] ok stopped by simp
  have worked: "start_worked f c s = Some s' \<Longrightarrow> mode s' \<noteq> Starting" for f c
    using ok by (auto simp: start_worked_def currentSource_ok Let_def)
  from assms(2-4) show ?thesis
    using charged worked unfolding super_step.simps
    by (auto simp: await_round_def Let_def split: poll.splits if_splits)
qed

section \<open>The operator's choice\<close>

lemma find_upt_Some:
  "find P [0..<n] = Some i \<longleftrightarrow> i < n \<and> P i \<and> (\<forall>j<i. \<not> P j)"
  by (auto simp: find_Some_iff)

text \<open>A switch back takes the best source.  With a prober, the switch names the first source before the
  current one that has a probe command and answers it, and no switch is made only when none does.\<close>

theorem backupSwitch_best:
  assumes "0 < cur" "cur \<le> len ss"
  shows "(let r = backupSwitch (Some probe) ss cur;
              answers = (\<lambda>i. ProbeCmd (ss ! i) \<noteq> [] \<and> probe (ProbeCmd (ss ! i)))
    in if r = -1 then \<forall>i < nat cur. \<not> answers i
       else 0 \<le> r \<and> r < cur \<and> answers (nat r) \<and> (\<forall>i < nat r. \<not> answers i))"
proof -
  have m: "min (nat cur) (length ss) = nat cur" using assms by (simp add: len_def)
  show ?thesis
  proof (cases "find (\<lambda>i. ProbeCmd (ss ! i) \<noteq> [] \<and> probe (ProbeCmd (ss ! i))) [0..<nat cur]")
    case None
    then have "backupSwitch (Some probe) ss cur = -1" using assms by (simp add: backupSwitch_def m)
    moreover have "\<forall>i < nat cur. \<not> (ProbeCmd (ss ! i) \<noteq> [] \<and> probe (ProbeCmd (ss ! i)))"
      using None by (auto simp: find_None_iff)
    ultimately show ?thesis by (simp add: Let_def)
  next
    case (Some i)
    then have "backupSwitch (Some probe) ss cur = int i" using assms by (simp add: backupSwitch_def m)
    moreover have "i < nat cur" "ProbeCmd (ss ! i) \<noteq> [] \<and> probe (ProbeCmd (ss ! i))"
      "\<forall>k < i. \<not> (ProbeCmd (ss ! k) \<noteq> [] \<and> probe (ProbeCmd (ss ! k)))"
      using Some unfolding find_upt_Some by blast+
    ultimately show ?thesis using assms by (simp add: Let_def)
  qed
qed

lemma takeForced_simp [simp]: "takeForced t = (forced t, t\<lparr>forced := -1\<rparr>)"
  by (simp add: takeForced_def)

lemma mark_frames [simp]:
  "srcIdx (markFallback v t) = srcIdx t" "srcIdx (rememberFallback k t) = srcIdx t" "srcIdx (markStarted now l t) = srcIdx t"
  "forced (markFallback v t) = forced t" "forced (rememberFallback k t) = forced t" "forced (markStarted now l t) = forced t"
  "forced (switchTo k t) = forced t" "0 \<le> k \<Longrightarrow> k < nsources t \<Longrightarrow> srcIdx (switchTo k t) = k"
  "srcIdx (confirmLate x t) = srcIdx t" "forced (confirmLate x t) = forced t"
  by (simp_all add: markFallback_def rememberFallback_def markStarted_def switchTo_def confirmLate_def markConfirmed_def Let_def)

lemma begin_adopts:
  assumes "take_force s = (fsel, s0)" "stream_ok (st s0)" "mode s = Starting" "survivor env = Some c"
    and "matchRunningSource c (Sources (spec (st s0))) = Some (j, fb)"
  shows "\<exists>s1 src d. super_step (Begin env p) s = Some s1 \<and> mode s1 = Confirming src fsel False d \<and>
    srcIdx (st s1) = j \<and> forced (st s1) = forced (st s0) \<and> spec (st s1) = spec (st s0)"
proof -
  have j: "0 \<le> j" "j < nsources (st s0)" using matchRunningSource_range [OF assms(5)] by auto
  then have x: "sourceAt j t = Some (Sources (spec t) ! nat j)" if "spec t = spec (st s0)" for t
    using that by (simp add: sourceAt_def at_Some)
  show ?thesis
    using currentSource_ok [OF assms(2)] assms j
    by (cases fb) (simp_all add: begin_start_def case_prod_unfold Let_def x)
qed

text \<open>C18: a forced source survives an adoption.  An operator forces a source while a start is pending and
  the start adopts a surviving encoder that serves another one.  The survivor is kept on air, and
  the first check of it that is not a scheduled restart switches to the forced source.\<close>

theorem force_survives_adoption:
  assumes "super_ok s" "mode s = Starting" "0 \<le> i" "i < nsources (st s)" "i \<noteq> srcIdx (st s)"
    and "survivor env = Some c" "matchRunningSource c (Sources (spec (st s))) = Some (j, fb)" "j \<noteq> i"
    and "\<not> AutoRestart_due (AutoRestartAt (HealthOf (spec (st s)))) (teCal te)"
  shows "\<exists>s1 s2. run super_step [Force i, Begin env p, Await (PollNone True now) q] s = Some s1 \<and>
    running (st s1) \<and> srcIdx (st s1) = j \<and> forced (st s1) = i \<and>
    super_step (Tick te) s1 = Some s2 \<and> mode s2 = Starting \<and> srcIdx (st s2) = i"
proof -
  define t0 where "t0 = (st s)\<lparr>forced := i\<rparr>"
  have nr: "\<not> running (st s)" using assms(1,2) by (simp add: super_defs)
  have f: "super_step (Force i) s = Some (s\<lparr>st := t0\<rparr>)"
    using assms(3-5) nr by (simp add: ForceSource_def t0_def)
  then have ok0: "super_ok (s\<lparr>st := t0\<rparr>)" using super_step_ok [OF assms(1), of "Force i"] by auto
  obtain s0 where s0: "take_force (s\<lparr>st := t0\<rparr>) = (i, s0)" "spec (st s0) = spec (st s)" "srcIdx (st s0) = i"
    "forced (st s0) = -1" "first s0 = first s"
    using assms(3-5) by (auto simp: take_force_def t0_def switchTo_def Let_def split: option.splits)
  then have ok1: "super_ok s0" "mode s0 = Starting"
    using take_force_ok [OF ok0 _ s0(1)] assms(2) by auto
  then obtain s1 src d where b: "super_step (Begin env p) (s\<lparr>st := t0\<rparr>) = Some s1" "mode s1 = Confirming src i False d"
    "srcIdx (st s1) = j" "forced (st s1) = -1" "spec (st s1) = spec (st s)"
    using begin_adopts [OF s0(1) _ _ assms(6), of j fb p] assms(2,7) s0 by (auto simp: super_ok_def)
  then have ok2: "super_ok s1" using super_step_ok [OF ok0, of "Begin env p"] by auto
  then have "\<exists>src. currentSource (st s1) = Some (src, st s1)"
    using currentSource_ok [of "st s1"] by (auto simp: super_ok_def)
  then obtain s2 src2 where a: "super_step (Await (PollNone True now) q) s1 = Some s2" "mode s2 = Watching src2"
    "srcIdx (st s2) = j" "forced (st s2) = i" "spec (st s2) = spec (st s)"
    using b assms(3,4,8)
    by (auto simp: await_round_def start_worked_def requeueForce_def beginSourceWalk_def markConfirmed_def Let_def)
  then have ok3: "super_ok s2" using super_step_ok [OF ok2, of "Await (PollNone True now) q"] by auto
  define t3 where "t3 = (confirmLate (teHasData te) (st s2))\<lparr>forced := -1\<rparr>"
  have w: "watch_tick te audioLossRetryDefault (st s2) (base s2) =
      (\<lparr>event = EventForceSource, vreason = ForcedTo i, switchSource = True, vswitchTo = i\<rparr>, t3, base s2)"
    using assms(3,8,9) a by (simp add: watch_tick_def Let_def t3_def)
  have "spec t3 = spec (st s)" using a by (simp add: t3_def)
  then have "\<exists>s3. super_step (Tick te) s2 = Some s3 \<and> mode s3 = Starting \<and> srcIdx (st s3) = i"
    using a(2) assms(3,4)
    by (simp add: w failed_def EventForceSource_def condemned_def switchTo_def note_why_def markStopped_def Let_def)
  moreover have "running (st s2)" using ok3 a(2) by (simp add: super_defs)
  moreover have "run super_step [Force i, Begin env p, Await (PollNone True now) q] s = Some s2"
    using f b(1) a(1) by simp
  ultimately show ?thesis using a(3,4) by blast
qed

section \<open>Witnesses\<close>

definition demo_spec :: "int \<Rightarrow> Spec" where
  "demo_spec limit =
     \<lparr>Sources = [\<lparr>Label = ''a'', Cmd = ''feed a'', FallbackCmd = [], ProbeCmd = ''probe a''\<rparr>,
                 \<lparr>Label = ''b'', Cmd = ''feed b'', FallbackCmd = ''copy b'', ProbeCmd = []\<rparr>,
                 \<lparr>Label = ''c'', Cmd = ''feed c'', FallbackCmd = [], ProbeCmd = ''probe c''\<rparr>],
      PolicyOf = \<lparr>StopFailures = limit, StreamFailSleepSec = 0, OnDemand = False, OnDemandFailureExit = False,
        StartTimeoutSec = 0, PriorityBackupSec = 0\<rparr>,
      HealthOf = \<lparr>StallSec = 0, AudioLossSec = 0, FPSThreshold = f64_zero, FPSGraceSec = 0, AutoRestartAt = None\<rparr>,
      PIDPath = [], LogPath = ''log'', AdoptMatch = []\<rparr>"

definition demo :: "int \<Rightarrow> super" where
  "demo limit =
     \<lparr>st = new_stream (Spec_normalise (demo_spec limit)), mode = Starting, consecutiveFails = 0, shortRuns = 0,
      first = True, log = [], base = new_baseline\<rparr>"

lemma demo_starts: "Supervise (demo_spec 0) = Inr (demo 0)" "Supervise (demo_spec 2) = Inr (demo 2)"
  by code_simp+

lemmas demo_ok = demo_starts [THEN Supervise_ok]

definition dead_env :: launch_env where
  "dead_env = \<lparr>survivor = None, launches = False, leStarted = second, leAwait = second\<rparr>"

definition live_env :: "string option \<Rightarrow> launch_env" where
  "live_env c = \<lparr>survivor = c, launches = True, leStarted = second, leAwait = second\<rparr>"

definition quiet_tick :: tick_env where
  "quiet_tick = \<lparr>teNow = 9 * second, teCal = \<lparr>Hour = 0, Minute = 0, Weekday = ''Monday''\<rparr>, teProber = None,
     teHasData = True, teVitals = None\<rparr>"

lemma supervision_sound_witness:
  "\<exists>s'. run super_step [Begin (live_env None) None, Await (PollNone True second) None, Force 2, Tick quiet_tick] (demo 2) = Some s' \<and>
    (let t = st s' in 0 \<le> srcIdx t \<and> srcIdx t < nsources t \<and> -1 \<le> forced t \<and> forced t < nsources t \<and>
       fallback t \<subseteq> {0..<nsources t} \<and>
       (mode s' \<noteq> Over \<longrightarrow> (running t \<longleftrightarrow> mode s' \<noteq> Starting) \<and> \<not> gaveUp t \<and>
          (0 < StopFailures (policy t) \<longrightarrow> consecutiveFails s' < StopFailures (policy t))))"
  by (rule supervision_sound) (rule demo_starts)



lemma force_survives_adoption_witness:
  "\<exists>s1 s2. run super_step [Force 2, Begin (live_env (Some ''copy b'')) None, Await (PollNone True second) None] (demo 0) = Some s1 \<and>
    running (st s1) \<and> srcIdx (st s1) = 1 \<and> forced (st s1) = 2 \<and>
    super_step (Tick quiet_tick) s1 = Some s2 \<and> mode s2 = Starting \<and> srcIdx (st s2) = 2"
  by (rule force_survives_adoption [OF demo_ok(1), where fb = True and c = "''copy b''"]) code_simp+

lemma backupSwitch_best_witness:
  "(let ss = Sources (demo_spec 0); r = backupSwitch (Some (\<lambda>c. c = ''probe a'')) ss 2;
        answers = (\<lambda>i. ProbeCmd (ss ! i) \<noteq> [] \<and> ProbeCmd (ss ! i) = ''probe a'')
    in if r = -1 then \<forall>i < nat 2. \<not> answers i
       else 0 \<le> r \<and> r < 2 \<and> answers (nat r) \<and> (\<forall>i < nat r. \<not> answers i))"
  using backupSwitch_best [of 2 "Sources (demo_spec 0)" "\<lambda>c. c = ''probe a''"] by (simp add: demo_spec_def Let_def)

definition demo_confirming :: super where
  "demo_confirming = the (super_step (Begin (live_env None) None) (demo 0))"

lemma demo_confirming_ok: "super_ok demo_confirming"
  using super_step_ok [OF demo_ok(1), of "Begin (live_env None) None"] by (auto simp: demo_confirming_def)

lemma no_failure_for_free_witness:
  "let s' = the (super_step (Await (PollExit (Status 1)) None) demo_confirming)
   in consecutiveFails s' = consecutiveFails demo_confirming + 1 \<or> free_retries (st s') < free_retries (st demo_confirming)"
proof -
  have "mode demo_confirming = Confirming (Sources (demo_spec 0) ! 0) (-1) True (31 * second)" by code_simp
  moreover obtain s' where s': "super_step (Await (PollExit (Status 1)) None) demo_confirming = Some s'"
    using super_step_ok [OF demo_confirming_ok, of "Await (PollExit (Status 1)) None"] by blast
  moreover have "mode (the (super_step (Await (PollExit (Status 1)) None) demo_confirming)) = Starting" by code_simp
  ultimately show ?thesis
    using no_failure_for_free [OF demo_confirming_ok] by simp
qed

end
