(* ===== verification/TsSeg.thy ===== *)
theory TsSeg
  imports TsPes Float64 GoFormat
begin

text \<open>
  Model of \<^verbatim>\<open>internal/tsseg/tsseg.go\<close>: the segmenter that cuts a live transport stream into HLS segments on
  disk.  The disk is a map from paths to what a file holds; what is written through the buffered
  writer to the temporary file of the open segment is \<open>segFile\<close>, and a commit (\<open>atomicfile\<close>) puts it at
  its path in one step.  What the operating system answers comes with each packet.  A moment is the
  nanoseconds since Go's zero time.  A duration in seconds that the code keeps as the float quotient
  of ticks by 90000 is kept as the ticks: that quotient compares, rounds up and prints to six places
  as the exact one does.
\<close>

type_synonym instant = int

definition maxSegBytes :: int where "maxSegBytes = 64 * 2 ^ 20"
definition pcrWrapFloor :: int where "pcrWrapFloor = - (2 ^ 32)"
definition spliceForward :: int where "spliceForward = 30 * 90000"
definition fpsWindow :: int where "fpsWindow = 5 * 1000000000"
definition deliveryStep :: int where "deliveryStep = 1000000000"
definition maxPMTPackets :: int where "maxPMTPackets = 8"

section \<open>Configuration\<close>

record Config =
  Playlist :: string
  SegPattern :: string
  TargetSec :: int
  InitSec :: f64
  ListSize :: int
  KeepExtra :: int
  MaxNoKeyframe :: int

fun count_percent :: "string \<Rightarrow> nat" where
  "count_percent [] = 0"
| "count_percent (c # cs) = (if c = CHR ''%'' then Suc (count_percent cs) else count_percent cs)"

fun count_verb :: "string \<Rightarrow> nat" where
  "count_verb (a # b # cs) = (if a = CHR ''%'' \<and> b = CHR ''d'' then Suc (count_verb cs) else count_verb (b # cs))"
| "count_verb _ = 0"

text \<open>\<open>filepath.Split\<close>: the directory with its last slash, and the name after it.\<close>

definition path_name :: "string \<Rightarrow> string" where
  "path_name p = rev (takeWhile (\<lambda>c. c \<noteq> CHR ''/'') (rev p))"

definition path_dir :: "string \<Rightarrow> string" where
  "path_dir p = rev (dropWhile (\<lambda>c. c \<noteq> CHR ''/'') (rev p))"

text \<open>\<open>filepath.Base\<close> drops trailing slashes first; a path of nothing else is itself special, and has no verb.\<close>

definition path_base :: "string \<Rightarrow> string" where
  "path_base p = path_name (rev (dropWhile (\<lambda>c. c = CHR ''/'') (rev p)))"

definition Config_normalise :: "Config \<Rightarrow> Config option" where
  "Config_normalise c =
     (if Playlist c = [] \<or> SegPattern c = [] then None
      else if count_percent (SegPattern c) \<noteq> 1 \<or> count_verb (path_base (SegPattern c)) \<noteq> 1 then None
      else
        (let c = (if TargetSec c \<le> 0 then c\<lparr>TargetSec := 10\<rparr> else c);
             c = (if \<not> f64_less f64_zero (InitSec c) \<or> f64_less (Dyadic (TargetSec c) 0) (InitSec c)
                  then c\<lparr>InitSec := Dyadic (TargetSec c) 0\<rparr> else c);
             c = (if ListSize c \<le> 0 then c\<lparr>ListSize := 6\<rparr> else c);
             c = (if KeepExtra c < 0 then c\<lparr>KeepExtra := 0\<rparr> else c);
             c = (if MaxNoKeyframe c \<le> 0 then c\<lparr>MaxNoKeyframe := (3 * TargetSec c + 6) * 1000000000\<rparr> else c)
         in Some c))"

text \<open>\<open>Sprintf\<close> of the pattern with its one \<open>%d\<close>.\<close>

fun Sprintf_d :: "string \<Rightarrow> int \<Rightarrow> string" where
  "Sprintf_d (a # b # cs) n =
     (if a = CHR ''%'' \<and> b = CHR ''d'' then show_int n @ cs else a # Sprintf_d (b # cs) n)"
| "Sprintf_d cs n = cs"

definition seg_path :: "Config \<Rightarrow> int \<Rightarrow> string" where
  "seg_path c n = Sprintf_d (SegPattern c) n"

section \<open>The segmenter's state\<close>

record segment =
  sseq :: int
  sdur :: int
  sdisc :: bool

datatype content = Media bytes | Text string

record Segmenter =
  cfg :: Config
  pmtPID :: u16
  videoPID :: u16
  pcrPID :: u16
  videoType :: byte
  havePMT :: bool
  pat :: bytes
  pmt :: bytes
  sdt :: bytes
  pmtAsm :: SectionAssembler
  pmtPkts :: bytes
  segFile :: "bytes option"
  segBytes :: int
  segOpen :: bool
  startPCR :: int
  startPTS :: int
  nseq :: int
  lastPCR :: int
  lastPTS :: int
  keyPCR :: int
  keyPTS :: int
  havePTS :: bool
  firstDone :: bool
  pendingDisc :: bool
  written :: "segment list"
  lastKey :: instant
  lastFeed :: instant
  frames :: int
  fpsFrames :: int
  fpsStart :: instant
  fps :: "(int \<times> int) option"
  hiPTS :: int
  haveHi :: bool
  mediaTicks :: int
  disk :: "string \<Rightarrow> content option"

text \<open>What the operating system answers while one packet is fed: the clock (read once more when a frame
  is counted), and whether a file can be created, written, committed, the playlist be written, and
  files be removed.\<close>

record env =
  now :: instant
  nowCount :: instant
  canCreate :: bool
  canWrite :: bool
  canCommit :: bool
  canList :: bool
  canRemove :: bool

definition put_file :: "string \<Rightarrow> content \<Rightarrow> (string \<Rightarrow> content option) \<Rightarrow> string \<Rightarrow> content option" where
  "put_file p x d q = (if q = p then Some x else d q)"

definition remove_file :: "string \<Rightarrow> (string \<Rightarrow> content option) \<Rightarrow> string \<Rightarrow> content option" where
  "remove_file p d q = (if q = p then None else d q)"

section \<open>A previous run's files\<close>

definition trim_suffix :: "string \<Rightarrow> string \<Rightarrow> string" where
  "trim_suffix suf s = (if suffix suf s then take (length s - length suf) s else s)"

text \<open>The pattern's name is cut at its verb.\<close>

fun cut_verb :: "string \<Rightarrow> (string \<times> string) option" where
  "cut_verb (a # b # cs) =
     (if a = CHR ''%'' \<and> b = CHR ''d'' then Some ([], cs)
      else map_option (\<lambda>(p, s). (a # p, s)) (cut_verb (b # cs)))"
| "cut_verb _ = None"

definition is_digit :: "char \<Rightarrow> bool" where
  "is_digit c \<longleftrightarrow> (let n = of_char c :: nat in 48 \<le> n \<and> n \<le> 57)"

definition swept_name :: "string \<Rightarrow> string \<Rightarrow> string \<Rightarrow> bool" where
  "swept_name pre suf name \<longleftrightarrow>
     prefix pre name \<and>
     (let mid = trim_suffix ''.tmp'' (drop (length pre) name) in
      suffix suf mid \<and>
      (let mid = trim_suffix suf mid in
       mid \<noteq> [] \<and> list_all is_digit mid))"

definition swept :: "Config \<Rightarrow> string \<Rightarrow> bool" where
  "swept c path \<longleftrightarrow>
     path = Playlist c \<or>
     (case cut_verb (path_name (SegPattern c)) of
        None \<Rightarrow> False
      | Some (pre, suf) \<Rightarrow>
          path_dir path = path_dir (SegPattern c) \<and> swept_name pre suf (path_name path))"

definition remaining :: "Config \<Rightarrow> (string \<Rightarrow> content option) \<Rightarrow> string \<Rightarrow> content option" where
  "remaining c d path = (if swept c path then None else d path)"

definition sweep :: "Segmenter \<Rightarrow> Segmenter" where
  "sweep s = s\<lparr>disk := remaining (cfg s) (disk s)\<rparr>"

definition seg_New :: "(string \<Rightarrow> content option) \<Rightarrow> Config \<Rightarrow> Segmenter option" where
  "seg_New files c =
     (case Config_normalise c of
        None \<Rightarrow> None
      | Some c \<Rightarrow> Some (sweep
          \<lparr>cfg = c, pmtPID = 0, videoPID = 0, pcrPID = 0, videoType = 0, havePMT = False,
           pat = [], pmt = [], sdt = [], pmtAsm = new_assembler, pmtPkts = [],
           segFile = None, segBytes = 0, segOpen = False, startPCR = -1, startPTS = -1, nseq = 0,
           lastPCR = -1, lastPTS = -1, keyPCR = -1, keyPTS = -1, havePTS = False, firstDone = False,
           pendingDisc = False, written = [], lastKey = 0, lastFeed = 0, frames = 0, fpsFrames = 0,
           fpsStart = 0, fps = None, hiPTS = 0, haveHi = False, mediaTicks = 0, disk = files\<rparr>))"

section \<open>Clocks\<close>

definition clockDelta :: "int \<Rightarrow> int \<Rightarrow> int option" where
  "clockDelta newest start =
     (let d = newest - start in
      if d < 0 then (if d \<ge> pcrWrapFloor then None else Some (d + 2 ^ 33)) else Some d)"

definition rebase :: "Segmenter \<Rightarrow> Segmenter" where
  "rebase s = s\<lparr>startPCR := lastPCR s, startPTS := lastPTS s, pendingDisc := True\<rparr>"

definition elapsed :: "Segmenter \<Rightarrow> int \<times> Segmenter" where
  "elapsed s =
     (if havePTS s \<and> startPTS s \<ge> 0 then
        (case clockDelta (lastPTS s) (startPTS s) of Some d \<Rightarrow> (d, s) | None \<Rightarrow> (0, rebase s))
      else if startPCR s \<ge> 0 \<and> lastPCR s \<ge> 0 then
        (case clockDelta (lastPCR s) (startPCR s) of Some d \<Rightarrow> (d, s) | None \<Rightarrow> (0, rebase s))
      else (0, s))"

definition splice_bound :: "Segmenter \<Rightarrow> int" where
  "splice_bound s =
     (let fwd = 4 * TargetSec (cfg s) * 90000 in if fwd < spliceForward then spliceForward else fwd)"

definition spliced :: "int option \<Rightarrow> int option \<Rightarrow> Segmenter \<Rightarrow> bool" where
  "spliced pts pcr s =
     (let judge = (\<lambda>r. case r of None \<Rightarrow> True | Some d \<Rightarrow> d > splice_bound s) in
      if pts \<noteq> None \<and> keyPTS s \<ge> 0 then judge (clockDelta (the pts) (keyPTS s))
      else if pcr \<noteq> None \<and> keyPCR s \<ge> 0 then judge (clockDelta (the pcr) (keyPCR s))
      else if lastPCR s \<ge> 0 \<and> keyPCR s \<ge> 0 then judge (clockDelta (lastPCR s) (keyPCR s))
      else False)"

definition notePTS :: "int \<Rightarrow> Segmenter \<Rightarrow> Segmenter" where
  "notePTS pts s =
     (let s = s\<lparr>lastPTS := pts, havePTS := True\<rparr> in
      if \<not> haveHi s then s\<lparr>hiPTS := pts, haveHi := True\<rparr>
      else
        (let d = pts - hiPTS s; d = (if d < pcrWrapFloor then d + 2 ^ 33 else d) in
         if d > 0 \<and> d < 10 * 90000 then s\<lparr>mediaTicks := mediaTicks s + d, hiPTS := pts\<rparr>
         else if d \<ge> 10 * 90000 \<or> d < - (2 * 90000) then s\<lparr>hiPTS := pts\<rparr>
         else s))"

definition chargeGap :: "instant \<Rightarrow> Segmenter \<Rightarrow> Segmenter" where
  "chargeGap t s =
     (let s = (if lastFeed s = 0 then s\<lparr>lastKey := t\<rparr>
               else (let gap = t - lastFeed s in
                     if gap > deliveryStep then s\<lparr>lastKey := lastKey s + (gap - deliveryStep)\<rparr> else s))
      in s\<lparr>lastFeed := t\<rparr>)"

text \<open>The frame rate is the quotient of a frame count by a span; it is kept as the pair.\<close>

definition countFrame :: "instant \<Rightarrow> Segmenter \<Rightarrow> Segmenter" where
  "countFrame t s =
     (let s = s\<lparr>frames := frames s + 1\<rparr>;
          s = (if fpsStart s = 0 then s\<lparr>fpsStart := t\<rparr> else s);
          s = s\<lparr>fpsFrames := fpsFrames s + 1\<rparr>;
          el = t - fpsStart s
      in if el \<ge> fpsWindow then s\<lparr>fps := Some (fpsFrames s, el), fpsStart := t, fpsFrames := 0\<rparr> else s)"

section \<open>The playlist\<close>

definition ceil_sec :: "int \<Rightarrow> int" where
  "ceil_sec ticks = - ((- ticks) div 90000)"

text \<open>\<open>%.6f\<close> of ticks divided by 90000: the nearest millionth, which is never a tie.\<close>

definition show_sec :: "int \<Rightarrow> string" where
  "show_sec ticks =
     (let u = (200 * ticks + 9) div 18; r = u mod 1000000
      in show_int (u div 1000000) @ ''.'' @
         map (\<lambda>k. digit (nat (r div k mod 10))) [100000, 10000, 1000, 100, 10, 1])"

definition seg_listed :: "Segmenter \<Rightarrow> segment list" where
  "seg_listed s =
     (let n = len (written s) in
      if n > ListSize (cfg s) then drop (nat (n - ListSize (cfg s))) (written s) else written s)"

definition longest :: "segment list \<Rightarrow> int" where
  "longest sgs = fold (\<lambda>sg m. max m (sdur sg)) sgs 0"

definition entry_lines :: "Config \<Rightarrow> segment \<Rightarrow> string" where
  "entry_lines c sg =
     (if sdisc sg then ''#EXT-X-DISCONTINUITY'' @ newline else []) @
     ''#EXTINF:'' @ show_sec (sdur sg) @ '','' @ newline @ path_base (seg_path c (sseq sg)) @ newline"

definition seg_render :: "Segmenter \<Rightarrow> string go" where
  "seg_render s =
     (let list = seg_listed s in do {
        first \<leftarrow> at list 0;
        Some (''#EXTM3U'' @ newline @ ''#EXT-X-VERSION:3'' @ newline @
              ''#EXT-X-TARGETDURATION:'' @ show_int (ceil_sec (longest list)) @ newline @
              ''#EXT-X-MEDIA-SEQUENCE:'' @ show_int (sseq first) @ newline @
              concat (map (entry_lines (cfg s)) list)) })"

section \<open>Segments\<close>

definition seg_prune :: "env \<Rightarrow> Segmenter \<Rightarrow> Segmenter" where
  "seg_prune e s =
     (let k = nat (len (written s) - (ListSize (cfg s) + KeepExtra (cfg s)));
          gone = map (\<lambda>sg. seg_path (cfg s) (sseq sg)) (take k (written s))
      in s\<lparr>disk := (if canRemove e then fold remove_file gone (disk s) else disk s),
           written := drop k (written s)\<rparr>)"

definition abandon :: "Segmenter \<Rightarrow> Segmenter" where
  "abandon s = s\<lparr>segFile := None, segOpen := False\<rparr>"

text \<open>The nil writer of a segment that is not open is a panic.\<close>

definition seg_write :: "bool \<Rightarrow> bytes \<Rightarrow> Segmenter \<Rightarrow> Segmenter go" where
  "seg_write ok pkt s = do {
     b \<leftarrow> segFile s;
     if \<not> ok then Some (abandon s)
     else
       (let s = s\<lparr>segFile := Some (b @ pkt), segBytes := segBytes s + len pkt\<rparr> in
        Some (if segBytes s > maxSegBytes then abandon s else s)) }"

definition seg_tables :: "Segmenter \<Rightarrow> bytes list" where
  "seg_tables s = filter (\<lambda>t. len t = PacketSize) [pat s, pmt s, sdt s]"

text \<open>The tables at the head fit the writer's buffer, so their writes do not fail.\<close>

definition seg_open :: "env \<Rightarrow> Segmenter \<Rightarrow> Segmenter go" where
  "seg_open e s =
     (if \<not> canCreate e then Some s
      else
        (let s = s\<lparr>segFile := Some [], segBytes := 0, segOpen := True, startPCR := lastPCR s, startPTS := lastPTS s\<rparr>
         in run (seg_write True) (seg_tables s) s))"

text \<open>A segment put in its place: the file, its entry, and the numbering.\<close>

definition put_segment :: "bytes \<Rightarrow> int \<Rightarrow> Segmenter \<Rightarrow> Segmenter" where
  "put_segment content dur s =
     s\<lparr>segFile := None, segOpen := False, disk := put_file (seg_path (cfg s) (nseq s)) (Media content) (disk s),
       pendingDisc := False,
       written := written s @ [\<lparr>sseq = nseq s, sdur = dur, sdisc = pendingDisc s \<or> (written s = [] \<and> nseq s = 0)\<rparr>],
       nseq := nseq s + 1, firstDone := True\<rparr>"

definition seg_commit :: "env \<Rightarrow> bytes \<Rightarrow> int \<Rightarrow> Segmenter \<Rightarrow> Segmenter go" where
  "seg_commit e content dur s =
     (if \<not> canCommit e then Some (abandon s)
      else do {
        let s = put_segment content dur s;
        text \<leftarrow> seg_render s;
        let s = (if canList e then s\<lparr>disk := put_file (Playlist (cfg s)) (Text text) (disk s)\<rparr> else s);
        Some (seg_prune e s) })"

definition finalize :: "env \<Rightarrow> Segmenter \<Rightarrow> Segmenter go" where
  "finalize e s =
     (case segFile s of
        None \<Rightarrow> Some s
      | Some content \<Rightarrow>
          if \<not> segOpen s then Some s
          else if segBytes s \<le> sum_list (map len (seg_tables s)) then Some (abandon s)
          else
            (let (ticks, s) = elapsed s;
                 dur = (if ticks \<le> 0 then TargetSec (cfg s) * 90000 else ticks);
                 bound = 4 * TargetSec (cfg s) * 90000;
                 dur = (if dur > bound then bound else dur)
             in seg_commit e content dur s))"

section \<open>Tables\<close>

definition adoptPMT :: "env \<Rightarrow> PMT \<Rightarrow> Segmenter \<Rightarrow> Segmenter go" where
  "adoptPMT e m s =
     (if havePMT s \<and> VideoPID m = videoPID s \<and> PCRPID m = pcrPID s \<and> VideoType m = videoType s then Some s
      else do {
        s \<leftarrow> (if havePMT s then do {
                s \<leftarrow> finalize e s;
                Some (s\<lparr>startPCR := -1, startPTS := -1, lastPCR := -1, lastPTS := -1, keyPCR := -1, keyPTS := -1,
                       havePTS := False, haveHi := False, pendingDisc := True\<rparr>) }
              else Some s);
        Some (s\<lparr>videoPID := VideoPID m, pcrPID := PCRPID m, videoType := VideoType m, havePMT := True\<rparr>) })"

definition seg_stage_pmt :: "bytes \<Rightarrow> bool \<Rightarrow> Segmenter \<Rightarrow> Segmenter" where
  "seg_stage_pmt pkt pusi s =
     (let pkts = (if pusi then pkt else if pmtPkts s \<noteq> [] then pmtPkts s @ pkt else pmtPkts s);
          pkts = (if len pkts > maxPMTPackets * PacketSize then [] else pkts)
      in s\<lparr>pmtPkts := pkts\<rparr>)"

definition seg_read_tables :: "env \<Rightarrow> bytes \<Rightarrow> u16 \<Rightarrow> bool \<Rightarrow> bool \<Rightarrow> Segmenter \<Rightarrow> Segmenter go" where
  "seg_read_tables e pkt pid pusi tei s =
     (if pid = 0 \<and> pusi \<and> \<not> tei then do {
        let s = s\<lparr>pat := pkt\<rparr>;
        p \<leftarrow> PMTPID pkt;
        Some (if p \<noteq> 0 \<and> p \<noteq> pmtPID s then s\<lparr>pmtPID := p, pmt := []\<rparr> else s) }
      else if pid = 0x11 \<and> pusi \<and> \<not> tei then Some (s\<lparr>sdt := pkt\<rparr>)
      else if pmtPID s \<noteq> 0 \<and> pid = pmtPID s \<and> \<not> tei then do {
        let s = seg_stage_pmt pkt pusi s;
        (a, sec) \<leftarrow> asm_Feed (pmtAsm s) pkt;
        let s = s\<lparr>pmtAsm := a\<rparr>;
        (case sec of
           None \<Rightarrow> Some s
         | Some sec \<Rightarrow> do {
             let s = s\<lparr>pmt := pmtPkts s, pmtPkts := []\<rparr>;
             m \<leftarrow> ParsePMTSection sec;
             (case m of None \<Rightarrow> Some s | Some m \<Rightarrow> adoptPMT e m s) }) }
      else Some s)"

section \<open>Feeding a packet\<close>

text \<open>The clocks a packet carries, and whether it is a keyframe to cut at.\<close>

definition packet_pcr :: "bytes \<Rightarrow> u16 \<Rightarrow> Segmenter \<Rightarrow> int option go" where
  "packet_pcr pkt pid s = (if havePMT s \<and> pid = pcrPID s then PCR pkt else Some None)"

definition packet_key :: "bytes \<Rightarrow> Segmenter \<Rightarrow> (bool \<times> int option) go" where
  "packet_key pkt s = do {
     pts \<leftarrow> PTS pkt;
     rai \<leftarrow> RAI pkt;
     key \<leftarrow> (if rai then Some True else StartsKeyframe pkt (videoType s));
     Some (key, pts) }"

definition at_splice :: "env \<Rightarrow> bool \<Rightarrow> int option \<Rightarrow> int option \<Rightarrow> Segmenter \<Rightarrow> Segmenter go" where
  "at_splice e key pts pcr s =
     (if key \<and> spliced pts pcr s then do { s \<leftarrow> finalize e s; Some (s\<lparr>pendingDisc := True\<rparr>) }
      else Some s)"

definition note_clocks :: "bool \<Rightarrow> int option \<Rightarrow> int option \<Rightarrow> Segmenter \<Rightarrow> Segmenter" where
  "note_clocks key pts pcr s =
     (let s = (case pcr of Some p \<Rightarrow> s\<lparr>lastPCR := p\<rparr> | None \<Rightarrow> s);
          s = (case pts of Some p \<Rightarrow> notePTS p s | None \<Rightarrow> s)
      in if key then s\<lparr>keyPCR := lastPCR s, keyPTS := lastPTS s\<rparr> else s)"

definition cut_ticks :: "Segmenter \<Rightarrow> int" where
  "cut_ticks s = (if firstDone s then TargetSec (cfg s) * 90000 else f64_scale 90000 (InitSec (cfg s)))"

definition at_keyframe :: "env \<Rightarrow> Segmenter \<Rightarrow> Segmenter go" where
  "at_keyframe e s = do {
     let s = s\<lparr>lastKey := now e\<rparr>;
     s \<leftarrow> (if segOpen s then (let (ticks, s) = elapsed s in if ticks \<ge> cut_ticks s then finalize e s else Some s)
           else Some s);
     if \<not> segOpen s then seg_open e s else Some s }"

definition read_frame :: "env \<Rightarrow> bytes \<Rightarrow> u16 \<Rightarrow> bool \<Rightarrow> Segmenter \<Rightarrow> (bool \<times> int option \<times> Segmenter) go" where
  "read_frame e pkt pid pusi s =
     (if havePMT s \<and> pid = videoPID s \<and> pusi then do {
        let s = countFrame (nowCount e) s;
        (key, pts) \<leftarrow> packet_key pkt s;
        Some (key, pts, s) }
      else Some (False, None, s))"

text \<open>The first result is the error: no keyframe for too long.\<close>

definition cut_and_write :: "env \<Rightarrow> bytes \<Rightarrow> bool \<Rightarrow> Segmenter \<Rightarrow> (bool \<times> Segmenter) go" where
  "cut_and_write e pkt key s = do {
     (late, s) \<leftarrow> (if key then do { s \<leftarrow> at_keyframe e s; Some (False, s) }
                   else Some (now e - lastKey s > MaxNoKeyframe (cfg s), s));
     if late then Some (True, s)
     else if segOpen s then do { s \<leftarrow> seg_write (canWrite e) pkt s; Some (False, s) }
     else Some (False, s) }"

definition seg_Feed :: "env \<Rightarrow> bytes \<Rightarrow> Segmenter \<Rightarrow> (bool \<times> Segmenter) go" where
  "seg_Feed e pkt s =
     (if len pkt \<noteq> PacketSize then Some (False, s)
      else do {
        b0 \<leftarrow> at pkt 0;
        if b0 \<noteq> 0x47 then Some (False, s)
        else do {
          pid \<leftarrow> PID pkt;
          pusi \<leftarrow> PUSI pkt;
          b1 \<leftarrow> at pkt 1;
          s \<leftarrow> seg_read_tables e pkt pid pusi (b1 AND 0x80 \<noteq> 0) s;
          pcr \<leftarrow> packet_pcr pkt pid s;
          (key, pts, s) \<leftarrow> read_frame e pkt pid pusi s;
          s \<leftarrow> at_splice e key pts pcr s;
          cut_and_write e pkt key (chargeGap (now e) (note_clocks key pts pcr s)) } })"

definition seg_Close :: "env \<Rightarrow> Segmenter \<Rightarrow> Segmenter go" where
  "seg_Close e s = finalize e s"

end
