(* ===== verification/TsSegInv.thy ===== *)
theory TsSegInv
  imports TsSeg
begin

text \<open>
  The invariant of the segmenter of \<^verbatim>\<open>internal/tsseg\<close>: what the files on disk hold, as stretches of the
  packets that were fed, the window of segments kept, and the playlist.
\<close>

lemma put_file_eq [simp]: "put_file p x d = d(p := Some x)"
  by (rule ext) (simp add: put_file_def)

lemma remove_file_eq [simp]: "remove_file p d = d(p := None)"
  by (rule ext) (simp add: remove_file_def)

section \<open>Paths\<close>

definition decimal :: "string \<Rightarrow> nat" where
  "decimal s = foldl (\<lambda>a c. 10 * a + (of_char c - 48)) 0 s"

lemma of_char_digit: "n < 10 \<Longrightarrow> (of_char (digit n) :: nat) = 48 + n"
  by (simp add: digit_def)

lemma decimal_show_nat: "decimal (show_nat n) = n"
proof (induction n rule: show_nat.induct)
  case (1 n)
  show ?case
  proof (cases "n < 10")
    case True
    then show ?thesis by (simp add: show_nat.simps [of n] decimal_def of_char_digit)
  next
    case False
    then have "decimal (show_nat (n div 10)) = n div 10" using 1 by simp
    then have "decimal (show_nat (n div 10) @ [digit (n mod 10)]) = n"
      by (simp add: decimal_def of_char_digit)
    then show ?thesis using False by (simp add: show_nat.simps [of n])
  qed
qed

lemma show_int_inj: "0 \<le> a \<Longrightarrow> 0 \<le> b \<Longrightarrow> show_int a = show_int b \<Longrightarrow> a = b"
  by (metis decimal_show_nat eq_nat_nat_iff not_less show_int_def)

lemma Sprintf_d_cut: "cut_verb p = Some (pre, suf) \<Longrightarrow> Sprintf_d p n = pre @ show_int n @ suf"
proof (induction p arbitrary: pre rule: cut_verb.induct)
  case (1 a b cs)
  then show ?case by (cases "a = CHR ''%'' \<and> b = CHR ''d''") auto
qed auto

lemma cut_verb_of_infix: "cut_verb p = None \<Longrightarrow> \<not> sublist ''%d'' p"
proof (induction p rule: cut_verb.induct)
  case (1 a b cs)
  then have "\<not> (a = CHR ''%'' \<and> b = CHR ''d'')" "cut_verb (b # cs) = None"
    by (auto split: if_splits)
  with 1 show ?case by (auto simp: sublist_Cons_right)
qed (auto simp: sublist_Cons_right)

lemma count_verb_infix: "0 < count_verb p \<Longrightarrow> sublist ''%d'' p"
proof (induction p rule: count_verb.induct)
  case (1 a b cs)
  then show ?case by (cases "a = CHR ''%'' \<and> b = CHR ''d''") (auto simp: sublist_Cons_right)
qed auto

lemma path_name_suffix: "suffix (path_name p) p"
proof -
  have "rev p = takeWhile (\<lambda>c. c \<noteq> CHR ''/'') (rev p) @ dropWhile (\<lambda>c. c \<noteq> CHR ''/'') (rev p)" by simp
  then have "p = path_dir p @ path_name p" unfolding path_dir_def path_name_def
    by (metis rev_append rev_rev_ident)
  then show ?thesis by (metis suffixI)
qed

lemma path_base_infix: "sublist (path_base p) p"
proof -
  have "prefix (rev (dropWhile (\<lambda>c. c = CHR ''/'') (rev p))) p"
    by (metis suffix_dropWhile suffix_to_prefix rev_rev_ident)
  then show ?thesis using path_name_suffix unfolding path_base_def
    by (metis prefix_imp_sublist suffix_imp_sublist sublist_order.order_trans)
qed

text \<open>A configuration that has been normalised.\<close>

definition config_ok :: "Config \<Rightarrow> bool" where
  "config_ok c \<longleftrightarrow> 0 < TargetSec c \<and> 0 < ListSize c \<and> 0 \<le> KeepExtra c \<and> cut_verb (SegPattern c) \<noteq> None"

lemma Config_normalise_ok:
  assumes "Config_normalise c = Some d"
  shows "config_ok d"
proof -
  have v: "count_verb (path_base (SegPattern c)) = 1" "SegPattern d = SegPattern c"
    using assms by (auto simp: Config_normalise_def Let_def split: if_splits)
  then have "sublist ''%d'' (SegPattern c)"
    using count_verb_infix [of "path_base (SegPattern c)"] path_base_infix [of "SegPattern c"]
    by (auto intro: sublist_order.order_trans)
  then have "cut_verb (SegPattern d) \<noteq> None" using cut_verb_of_infix [of "SegPattern c"] v(2) by metis
  moreover have "0 < TargetSec d" "0 < ListSize d" "0 \<le> KeepExtra d"
    using assms by (auto simp: Config_normalise_def Let_def split: if_splits)
  ultimately show ?thesis by (simp add: config_ok_def)
qed

lemma seg_path_inj:
  "config_ok c \<Longrightarrow> 0 \<le> a \<Longrightarrow> 0 \<le> b \<Longrightarrow> seg_path c a = seg_path c b \<Longrightarrow> a = b"
  by (auto simp: config_ok_def seg_path_def Sprintf_d_cut intro: show_int_inj)

section \<open>What a file holds\<close>

definition starts_key :: "bytes \<Rightarrow> bool" where
  "starts_key p \<longleftrightarrow> RAI p = Some True \<or> (\<exists>ty. StartsKeyframe p ty = Some True)"

text \<open>Up to three tables out of \<open>T\<close>, then the packets \<open>i\<close> to \<open>j\<close> of \<open>hs\<close>, the first a keyframe.\<close>

definition stretch :: "bytes set \<Rightarrow> bytes list \<Rightarrow> nat \<times> nat \<Rightarrow> bytes \<Rightarrow> bool" where
  "stretch T hs ij b \<longleftrightarrow>
     fst ij < snd ij \<and> snd ij \<le> length hs \<and> starts_key (hs ! fst ij) \<and>
     (\<exists>heads. length heads \<le> 3 \<and> set heads \<subseteq> T \<and>
        b = concat heads @ concat (take (snd ij - fst ij) (drop (fst ij) hs)))"

lemma stretch_mono: "stretch T hs ij b \<Longrightarrow> T \<subseteq> T' \<Longrightarrow> stretch T' (hs @ xs) ij b"
proof -
  assume s: "stretch T hs ij b" and T: "T \<subseteq> T'"
  then have "take (snd ij - fst ij) (drop (fst ij) (hs @ xs)) = take (snd ij - fst ij) (drop (fst ij) hs)"
    by (simp add: stretch_def)
  then show ?thesis using s T by (auto simp: stretch_def nth_append)
qed

text \<open>The tables kept are packets fed: the raw PAT and SDT, and the packets of the PMT in progress and of the
  last one.\<close>

definition whole :: "bytes set \<Rightarrow> bytes \<Rightarrow> bool" where
  "whole T b \<longleftrightarrow> (\<exists>ps. set ps \<subseteq> T \<and> list_all (\<lambda>p. len p = PacketSize) ps \<and> b = concat ps)"

lemma whole_Nil [simp]: "whole T []"
  unfolding whole_def by (rule exI [of _ "[]"]) simp

lemma whole_one: "p \<in> T \<Longrightarrow> len p = PacketSize \<Longrightarrow> whole T p"
  unfolding whole_def by (rule exI [of _ "[p]"]) simp

lemma whole_append: "whole T a \<Longrightarrow> whole T b \<Longrightarrow> whole T (a @ b)"
  unfolding whole_def by (metis concat_append list_all_append set_append Un_subset_iff)

lemma whole_mono: "whole T b \<Longrightarrow> T \<subseteq> T' \<Longrightarrow> whole T' b"
  unfolding whole_def by blast

lemma len_concat: "list_all (\<lambda>p. len p = PacketSize) ps \<Longrightarrow> len (concat ps) = int (length ps) * PacketSize"
  by (induction ps) (auto simp: algebra_simps)

lemma whole_packet: "whole T b \<Longrightarrow> len b = PacketSize \<Longrightarrow> b \<in> T"
proof -
  assume "whole T b" and l: "len b = PacketSize"
  then obtain ps where ps: "set ps \<subseteq> T" "list_all (\<lambda>p. len p = PacketSize) ps" "b = concat ps"
    by (auto simp: whole_def)
  then have "int (length ps) * PacketSize = PacketSize" using l len_concat by metis
  then have "length ps = 1" by (simp add: PacketSize_def)
  then show ?thesis using ps by (cases ps) auto
qed

definition tables_ok :: "bytes set \<Rightarrow> Segmenter \<Rightarrow> bool" where
  "tables_ok T s \<longleftrightarrow> whole T (pat s) \<and> whole T (pmt s) \<and> whole T (sdt s) \<and> whole T (pmtPkts s)"

lemma seg_tables_ok: "tables_ok T s \<Longrightarrow> set (seg_tables s) \<subseteq> T \<and> length (seg_tables s) \<le> 3"
  unfolding seg_tables_def tables_ok_def
  using length_filter_le [of "\<lambda>t. len t = PacketSize" "[pat s, pmt s, sdt s]"] by (auto dest: whole_packet)

section \<open>The invariant\<close>

definition file_of :: "Segmenter \<Rightarrow> segment \<Rightarrow> content option" where
  "file_of s sg = disk s (seg_path (cfg s) (sseq sg))"

definition files_ok :: "bytes set \<Rightarrow> bytes list \<Rightarrow> Segmenter \<Rightarrow> (nat \<times> nat) list \<Rightarrow> bool" where
  "files_ok T hs s cuts \<longleftrightarrow>
     length cuts = length (written s) \<and> sorted_wrt (\<lambda>p q. snd p \<le> fst q) cuts \<and>
     (\<forall>k < length cuts. \<exists>b. file_of s (written s ! k) = Some (Media b) \<and> stretch T hs (cuts ! k) b) \<and>
     (\<forall>b. segFile s = Some b \<longrightarrow>
        (\<exists>i. stretch T hs (i, length hs) b \<and> (\<forall>p\<in>set cuts. snd p \<le> i)))"

definition window_ok :: "Segmenter \<Rightarrow> bool" where
  "window_ok s \<longleftrightarrow>
     len (written s) \<le> ListSize (cfg s) + KeepExtra (cfg s) \<and> len (written s) \<le> nseq s \<and>
     (\<forall>k < length (written s). sseq (written s ! k) = nseq s - len (written s) + int k) \<and>
     (\<forall>sg\<in>set (written s). 0 < sdur sg \<and> sdur sg \<le> 4 * TargetSec (cfg s) * 90000)"

definition list_ok :: "Segmenter \<Rightarrow> bool" where
  "list_ok s \<longleftrightarrow> (written s \<noteq> [] \<longrightarrow> (\<exists>t. seg_render s = Some t \<and> disk s (Playlist (cfg s)) = Some (Text t)))"

definition apart :: "Config \<Rightarrow> bool" where
  "apart c \<longleftrightarrow> (\<forall>n \<ge> 0. seg_path c n \<noteq> Playlist c)"

definition seg_inv :: "bool \<Rightarrow> Config \<Rightarrow> bytes set \<Rightarrow> bytes list \<Rightarrow> Segmenter \<Rightarrow> bool" where
  "seg_inv L c T hs s \<longleftrightarrow>
     cfg s = c \<and> segOpen s = (segFile s \<noteq> None) \<and> tables_ok T s \<and> window_ok s \<and>
     (L \<longrightarrow> list_ok s) \<and> (\<exists>cuts. files_ok T hs s cuts)"

text \<open>The fields the invariant speaks of.\<close>

definition kept :: "Segmenter \<Rightarrow> Segmenter \<Rightarrow> bool" where
  "kept s s' \<longleftrightarrow> cfg s' = cfg s \<and> segFile s' = segFile s \<and> segOpen s' = segOpen s \<and> written s' = written s \<and>
     nseq s' = nseq s \<and> disk s' = disk s"

definition kept_tables :: "Segmenter \<Rightarrow> Segmenter \<Rightarrow> bool" where
  "kept_tables s s' \<longleftrightarrow> pat s' = pat s \<and> pmt s' = pmt s \<and> sdt s' = sdt s \<and> pmtPkts s' = pmtPkts s"

lemma files_ok_kept: "kept s s' \<Longrightarrow> files_ok T hs s' cuts = files_ok T hs s cuts"
  by (simp add: files_ok_def kept_def file_of_def)

lemma list_ok_kept: "kept s s' \<Longrightarrow> list_ok s' = list_ok s"
  by (simp add: list_ok_def kept_def seg_render_def seg_listed_def Let_def)

lemma seg_inv_kept:
  assumes "seg_inv L c T hs s" "kept s s'" "tables_ok T s'"
  shows "seg_inv L c T hs s'"
  using assms files_ok_kept [OF assms(2)] list_ok_kept [OF assms(2)]
  by (auto simp: seg_inv_def kept_def window_ok_def)

lemma seg_inv_same:
  "seg_inv L c T hs s \<Longrightarrow> kept s s' \<Longrightarrow> kept_tables s s' \<Longrightarrow> seg_inv L c T hs s'"
  by (rule seg_inv_kept) (auto simp: seg_inv_def tables_ok_def kept_tables_def)

lemma clocks_kept:
  "kept s (notePTS p s)" "kept s (chargeGap t s)" "kept s (countFrame t s)" "kept s (rebase s)"
  "kept s (snd (elapsed s))" "kept s (note_clocks key pts pcr s)"
  "kept_tables s (notePTS p s)" "kept_tables s (chargeGap t s)" "kept_tables s (countFrame t s)"
  "kept_tables s (rebase s)" "kept_tables s (snd (elapsed s))" "kept_tables s (note_clocks key pts pcr s)"
  by (auto simp: kept_def kept_tables_def notePTS_def chargeGap_def countFrame_def rebase_def elapsed_def
      note_clocks_def Let_def split: option.splits)

section \<open>Closing a segment\<close>

lemma abandon_inv: "seg_inv L c T hs s \<Longrightarrow> seg_inv L c T hs (abandon s) \<and> segFile (abandon s) = None"
proof -
  assume "seg_inv L c T hs s"
  moreover have "list_ok (abandon s) = list_ok s"
    by (simp add: list_ok_def abandon_def seg_render_def seg_listed_def Let_def)
  moreover have "files_ok T hs s cuts \<Longrightarrow> files_ok T hs (abandon s) cuts" for cuts
    by (simp add: files_ok_def abandon_def file_of_def)
  moreover have "tables_ok T (abandon s) = tables_ok T s" "window_ok (abandon s) = window_ok s"
    by (simp_all add: tables_ok_def window_ok_def abandon_def)
  ultimately show ?thesis by (auto simp: seg_inv_def) (auto simp: abandon_def)
qed

lemma seg_render_some: "written s \<noteq> [] \<Longrightarrow> 0 < ListSize (cfg s) \<Longrightarrow> \<exists>t. seg_render s = Some t"
  by (auto simp: seg_render_def seg_listed_def Let_def at_def len_def)

lemma seg_listed_drop:
  assumes "0 < ListSize (cfg s)" "0 \<le> KeepExtra (cfg s)"
  shows "seg_listed (seg_prune e s) = seg_listed s"
proof -
  define n where "n = len (written s)"
  define k where "k = nat (n - (ListSize (cfg s) + KeepExtra (cfg s)))"
  have w: "written (seg_prune e s) = drop k (written s)" "cfg (seg_prune e s) = cfg s"
    by (simp_all add: seg_prune_def Let_def k_def n_def)
  have len: "len (drop k (written s)) = n - int k" using assms by (simp add: k_def n_def len_def)
  show ?thesis
  proof (cases "n - int k > ListSize (cfg s)")
    case True
    have "nat (n - int k - ListSize (cfg s)) + k = nat (n - ListSize (cfg s))" using True by simp
    then show ?thesis using True
      by (auto simp: seg_listed_def w len Let_def n_def [symmetric] add.commute)
  next
    case False
    then have "nat (n - ListSize (cfg s)) = k" using assms unfolding k_def
      by (cases "n \<le> ListSize (cfg s) + KeepExtra (cfg s)") auto
    moreover have "\<not> ListSize (cfg s) < n \<Longrightarrow> k = 0" using assms by (auto simp: k_def)
    ultimately show ?thesis using False
      by (auto simp: seg_listed_def w len Let_def n_def [symmetric])
  qed
qed

lemma fold_remove: "fold remove_file ps d q = (if q \<in> set ps then None else d q)"
  by (induction ps arbitrary: d) auto

lemma seg_commit_eq:
  "seg_commit e content dur s =
     (if \<not> canCommit e then Some (abandon s)
      else do {
        text \<leftarrow> seg_render (put_segment content dur s);
        let s' = put_segment content dur s;
        Some (seg_prune e (if canList e then s'\<lparr>disk := (disk s')(Playlist (cfg s') := Some (Text text))\<rparr> else s')) })"
  by (cases "canList e") (simp_all add: seg_commit_def Let_def)

lemma put_segment_files:
  assumes "config_ok (cfg s)" "window_ok s" "files_ok T hs s cuts" "segFile s = Some b"
  shows "\<exists>cuts. files_ok T hs (put_segment b dur s) cuts"
proof -
  obtain i where i: "stretch T hs (i, length hs) b" "\<forall>p\<in>set cuts. snd p \<le> i"
    using assms(3,4) by (auto simp: files_ok_def)
  have l: "length cuts = length (written s)" using assms(3) by (simp add: files_ok_def)
  have other: "seg_path (cfg s) (sseq (written s ! k)) \<noteq> seg_path (cfg s) (nseq s)" if "k < length (written s)" for k
  proof -
    have "sseq (written s ! k) = nseq s - len (written s) + int k" "len (written s) \<le> nseq s"
      using assms(2) that by (auto simp: window_ok_def)
    then have "0 \<le> sseq (written s ! k)" "sseq (written s ! k) \<noteq> nseq s" using that by (auto simp: len_def)
    moreover have "0 \<le> nseq s" using assms(2) len_simps(4) [of "written s"] unfolding window_ok_def by linarith
    ultimately show ?thesis using seg_path_inj [OF assms(1)] by blast
  qed
  have "files_ok T hs (put_segment b dur s) (cuts @ [(i, length hs)])"
    using assms(3) i l other
    by (auto simp: files_ok_def put_segment_def sorted_wrt_append nth_append file_of_def less_Suc_eq)
  then show ?thesis ..
qed

lemma put_segment_window:
  assumes "window_ok s" "0 < dur" "dur \<le> 4 * TargetSec (cfg s) * 90000"
  shows "len (written (put_segment b dur s)) \<le> ListSize (cfg s) + KeepExtra (cfg s) + 1"
    "len (written (put_segment b dur s)) \<le> nseq (put_segment b dur s)"
    "\<forall>k < length (written (put_segment b dur s)). sseq (written (put_segment b dur s) ! k) =
       nseq (put_segment b dur s) - len (written (put_segment b dur s)) + int k"
    "\<forall>sg\<in>set (written (put_segment b dur s)). 0 < sdur sg \<and> sdur sg \<le> 4 * TargetSec (cfg s) * 90000"
proof -
  have "(written s @ [x]) ! k = (if k < length (written s) then written s ! k else x)" if "k < Suc (length (written s))" for k x
    using that by (auto simp: nth_append less_Suc_eq)
  then show "\<forall>k < length (written (put_segment b dur s)). sseq (written (put_segment b dur s) ! k) =
       nseq (put_segment b dur s) - len (written (put_segment b dur s)) + int k"
    using assms(1) by (auto simp: put_segment_def window_ok_def len_def less_Suc_eq)
qed (use assms in \<open>auto simp: put_segment_def window_ok_def\<close>)

lemma seg_prune_files:
  assumes "config_ok (cfg s)" "files_ok T hs s cuts" "len (written s) \<le> nseq s"
    and "\<forall>k < length (written s). sseq (written s ! k) = nseq s - len (written s) + int k"
  shows "\<exists>cuts. files_ok T hs (seg_prune e s) cuts"
proof -
  define k where "k = nat (len (written s) - (ListSize (cfg s) + KeepExtra (cfg s)))"
  have gone: "seg_path (cfg s) (sseq (written s ! m)) \<notin> (\<lambda>sg. seg_path (cfg s) (sseq sg)) ` set (take k (written s))"
    if "k \<le> m" "m < length (written s)" for m
  proof
    assume "seg_path (cfg s) (sseq (written s ! m)) \<in> (\<lambda>sg. seg_path (cfg s) (sseq sg)) ` set (take k (written s))"
    then obtain j where j: "j < k" "j < length (written s)"
      "seg_path (cfg s) (sseq (written s ! m)) = seg_path (cfg s) (sseq (written s ! j))"
      by (auto simp: in_set_conv_nth)
    moreover have "0 \<le> sseq (written s ! m)" "0 \<le> sseq (written s ! j)"
      using assms(3,4) that j(2) by auto
    ultimately have "sseq (written s ! m) = sseq (written s ! j)" using seg_path_inj [OF assms(1)] by blast
    then show False using assms(4) that j by auto
  qed
  have f: "file_of (seg_prune e s) (written s ! m) = file_of s (written s ! m)"
    if "k \<le> m" "m < length (written s)" for m
    using gone [OF that] by (simp add: file_of_def seg_prune_def Let_def fold_remove k_def)
  have "files_ok T hs (seg_prune e s) (drop k cuts)"
  proof -
    have "written (seg_prune e s) = drop k (written s)" "segFile (seg_prune e s) = segFile s"
      by (simp_all add: seg_prune_def Let_def k_def)
    moreover have "\<forall>b. segFile s = Some b \<longrightarrow>
        (\<exists>i. stretch T hs (i, length hs) b \<and> (\<forall>p\<in>set (drop k cuts). snd p \<le> i))"
      using assms(2) by (meson files_ok_def in_set_dropD)
    ultimately show ?thesis using assms(2) f by (auto simp: files_ok_def intro: sorted_wrt_drop)
  qed
  then show ?thesis ..
qed

lemma seg_prune_window:
  assumes "config_ok (cfg s)" "len (written s) \<le> nseq s"
    and "\<forall>k < length (written s). sseq (written s ! k) = nseq s - len (written s) + int k"
    and "\<forall>sg\<in>set (written s). 0 < sdur sg \<and> sdur sg \<le> 4 * TargetSec (cfg s) * 90000"
  shows "window_ok (seg_prune e s)"
proof -
  define k where "k = nat (len (written s) - (ListSize (cfg s) + KeepExtra (cfg s)))"
  have w: "written (seg_prune e s) = drop k (written s)" "cfg (seg_prune e s) = cfg s" "nseq (seg_prune e s) = nseq s"
    by (simp_all add: seg_prune_def Let_def k_def)
  have k: "k \<le> length (written s)" using assms(1) by (simp add: k_def len_def config_ok_def nat_le_iff)
  then have l: "len (drop k (written s)) = len (written s) - int k" by (simp add: len_def)
  moreover have "len (written s) - int k \<le> ListSize (cfg s) + KeepExtra (cfg s)" by (simp add: k_def)
  moreover have "sseq (drop k (written s) ! m) = nseq s - len (written s) + int k + int m"
    if "m < length (drop k (written s))" for m using assms(3) that k by simp
  ultimately show ?thesis using assms(2,4) by (auto simp: window_ok_def w dest: in_set_dropD)
qed

lemma list_written:
  assumes "config_ok (cfg s)" "apart (cfg s)" "seg_render s = Some t" "\<forall>sg\<in>set (written s). 0 \<le> sseq sg"
  shows "list_ok (seg_prune e (s\<lparr>disk := (disk s)(Playlist (cfg s) := Some (Text t))\<rparr>))"
proof -
  let ?s = "s\<lparr>disk := (disk s)(Playlist (cfg s) := Some (Text t))\<rparr>"
  have c: "cfg (seg_prune e ?s) = cfg s" by (simp add: seg_prune_def Let_def)
  have "seg_listed ?s = seg_listed s" by (simp add: seg_listed_def Let_def)
  then have "seg_listed (seg_prune e ?s) = seg_listed s"
    using assms(1) seg_listed_drop [of ?s e] by (simp add: config_ok_def)
  then have "seg_render (seg_prune e ?s) = Some t" using assms(3) by (simp add: seg_render_def c)
  moreover have "Playlist (cfg s) \<notin> (\<lambda>sg. seg_path (cfg s) (sseq sg)) ` set (take k (written s))" for k
    using assms(2,4) by (auto simp: apart_def dest!: in_set_takeD)
  then have "disk (seg_prune e ?s) (Playlist (cfg s)) = Some (Text t)"
    by (simp add: seg_prune_def Let_def fold_remove)
  ultimately show ?thesis by (simp add: list_ok_def c)
qed

lemma seg_commit_inv:
  assumes "seg_inv L c T hs s" "config_ok c" "apart c" "segFile s = Some b" "0 < dur" "dur \<le> 4 * TargetSec c * 90000"
    and "L \<longrightarrow> canList e"
  shows "\<exists>s'. seg_commit e b dur s = Some s' \<and> seg_inv L c T hs s' \<and> segFile s' = None"
proof (cases "canCommit e")
  case False
  then show ?thesis using abandon_inv [OF assms(1)] by (simp add: seg_commit_eq)
next
  case True
  have c: "cfg s = c" using assms(1) by (simp add: seg_inv_def)
  let ?p = "put_segment b dur s"
  have w: "written ?p \<noteq> []" "cfg ?p = c" by (simp_all add: put_segment_def c)
  then obtain t where t: "seg_render ?p = Some t"
    using seg_render_some [of ?p] assms(2) by (auto simp: config_ok_def)
  define q where "q = (if canList e then ?p\<lparr>disk := (disk ?p)(Playlist (cfg ?p) := Some (Text t))\<rparr> else ?p)"
  have eq: "seg_commit e b dur s = Some (seg_prune e q)"
    using True t by (simp add: seg_commit_eq q_def Let_def)
  have win: "window_ok s" using assms(1) by (simp add: seg_inv_def)
  note pw = put_segment_window [OF win assms(5), of b, unfolded c, OF assms(6)]
  have nn: "\<forall>sg\<in>set (written ?p). 0 \<le> sseq sg"
    using pw(2,3) by (auto simp: in_set_conv_nth)
  obtain cuts0 where cuts0: "files_ok T hs ?p cuts0"
    using put_segment_files [of s T hs _ b dur] assms(1,2,4) c by (auto simp: seg_inv_def)
  have qf: "file_of q sg = file_of ?p sg" if "sg \<in> set (written ?p)" for sg
    using nn that assms(3) by (auto simp: q_def file_of_def w(2) apart_def)
  have q: "cfg q = c" "written q = written ?p" "nseq q = nseq ?p" "segFile q = None" "segOpen q = False"
    by (simp_all add: q_def w(2)) (simp_all add: put_segment_def)
  have "files_ok T hs q cuts0"
    using cuts0 qf q by (auto simp: files_ok_def)
  then have "\<exists>cuts. files_ok T hs (seg_prune e q) cuts"
    using seg_prune_files [of q T hs cuts0 e] assms(2) pw q by simp
  moreover have "window_ok (seg_prune e q)"
    using seg_prune_window [of q e] assms(2) pw q by simp
  moreover have "L \<longrightarrow> list_ok (seg_prune e q)"
    using list_written [of ?p t e] assms(2,3,7) t nn w by (simp add: q_def)
  moreover have "tables_ok T (seg_prune e q)"
    using assms(1) by (simp add: seg_inv_def tables_ok_def seg_prune_def q_def put_segment_def Let_def)
  moreover have "cfg (seg_prune e q) = c" "segFile (seg_prune e q) = None" "segOpen (seg_prune e q) = False"
    using q by (simp_all add: seg_prune_def Let_def)
  ultimately show ?thesis using eq by (simp add: seg_inv_def)
qed

lemma finalize_inv:
  assumes "seg_inv L c T hs s" "config_ok c" "apart c" "L \<longrightarrow> canList e"
  shows "\<exists>s'. finalize e s = Some s' \<and> seg_inv L c T hs s' \<and> segFile s' = None"
proof (cases "segFile s")
  case None
  then show ?thesis using assms(1) by (simp add: finalize_def)
next
  case (Some b)
  have e: "seg_inv L c T hs (snd (elapsed s))" "segFile (snd (elapsed s)) = Some b" "cfg (snd (elapsed s)) = c"
    using seg_inv_same [OF assms(1) clocks_kept(5,11)] clocks_kept(5) [of s] Some
    by (auto simp: kept_def seg_inv_def)
  have T: "0 < TargetSec c" using assms(2) by (simp add: config_ok_def)
  have o: "segOpen s" using assms(1) Some by (simp add: seg_inv_def)
  define t where "t = (if fst (elapsed s) \<le> 0 then TargetSec c * 90000 else fst (elapsed s))"
  define d where "d = (if t > 4 * TargetSec c * 90000 then 4 * TargetSec c * 90000 else t)"
  have d: "0 < d" "d \<le> 4 * TargetSec c * 90000" using T by (auto simp: d_def t_def)
  have "finalize e s = (if segBytes s \<le> sum_list (map len (seg_tables s)) then Some (abandon s)
      else seg_commit e b d (snd (elapsed s)))"
    using Some o e(3) by (simp add: finalize_def case_prod_unfold Let_def t_def d_def)
  then show ?thesis
    using seg_commit_inv [OF e(1) assms(2,3) e(2) d assms(4)] abandon_inv [OF assms(1)] by simp
qed

section \<open>Writing packets\<close>

lemma take_all_snoc: "i < length hs \<Longrightarrow> take (Suc (length hs) - i) (drop i (hs @ [p])) = drop i hs @ [p]"
  by simp

lemma stretch_extend:
  assumes "stretch T hs (i, length hs) b"
  shows "stretch T (hs @ [p]) (i, length (hs @ [p])) (b @ p)"
proof -
  obtain heads where h: "length heads \<le> 3" "set heads \<subseteq> T" "b = concat heads @ concat (drop i hs)"
    and i: "i < length hs" "starts_key (hs ! i)" using assms by (auto simp: stretch_def)
  then have "b @ p = concat heads @ concat (take (length (hs @ [p]) - i) (drop i (hs @ [p])))"
    using take_all_snoc [of i hs p] by simp
  then show ?thesis using h(1,2) i unfolding stretch_def by (auto simp: nth_append)
qed

lemma stretch_new:
  assumes "length heads \<le> 3" "set heads \<subseteq> T" "starts_key p"
  shows "stretch T (hs @ [p]) (length hs, length (hs @ [p])) (concat heads @ p)"
  using assms by (auto simp: stretch_def)

text \<open>The history grows while no segment is open, or with the packet written.\<close>

lemma committed_grow:
  assumes "files_ok T hs s cuts" "written s' = written s" "disk s' = disk s" "cfg s' = cfg s" "k < length cuts"
  shows "\<exists>b. file_of s' (written s' ! k) = Some (Media b) \<and> stretch T (hs @ [p]) (cuts ! k) b"
proof -
  obtain b where "file_of s (written s ! k) = Some (Media b)" "stretch T hs (cuts ! k) b"
    using assms(1,5) by (auto simp: files_ok_def)
  then show ?thesis using assms(2-4) stretch_mono [of T hs "cuts ! k" b T "[p]"] by (auto simp: file_of_def)
qed

lemma files_ok_grow:
  assumes "files_ok T hs s cuts" "segFile s' = None" "written s' = written s" "disk s' = disk s" "cfg s' = cfg s"
  shows "files_ok T (hs @ [p]) s' cuts"
  using assms(1,2,3) committed_grow [OF assms(1,3,4,5)] unfolding files_ok_def by simp

lemma files_ok_open:
  assumes "files_ok T hs s cuts" "written s' = written s" "disk s' = disk s" "cfg s' = cfg s"
    and "segFile s' = Some b" "stretch T (hs @ [p]) (i, length (hs @ [p])) b" "\<forall>q\<in>set cuts. snd q \<le> i"
  shows "files_ok T (hs @ [p]) s' cuts"
proof -
  have "\<exists>i. stretch T (hs @ [p]) (i, length (hs @ [p])) b \<and> (\<forall>q\<in>set cuts. snd q \<le> i)"
    using assms(6,7) by blast
  then show ?thesis using assms(1,2,5) committed_grow [OF assms(1,2,3,4)] unfolding files_ok_def by simp
qed

lemma cuts_le: "files_ok T hs s cuts \<Longrightarrow> \<forall>q\<in>set cuts. snd q \<le> length hs"
  unfolding files_ok_def stretch_def by (metis in_set_conv_nth)

lemma seg_inv_cuts:
  assumes "seg_inv L c T hs s" "files_ok T hs' s' cuts" "written s' = written s" "disk s' = disk s" "cfg s' = cfg s"
    and "nseq s' = nseq s" "kept_tables s s'" "segOpen s' = (segFile s' \<noteq> None)"
  shows "seg_inv L c T hs' s'"
proof -
  have "list_ok s' = list_ok s" using assms by (simp add: list_ok_def seg_render_def seg_listed_def Let_def)
  moreover have "window_ok s' = window_ok s" using assms by (simp add: window_ok_def)
  moreover have "tables_ok T s' = tables_ok T s" using assms by (simp add: tables_ok_def kept_tables_def)
  ultimately show ?thesis using assms(1,2,5,8) by (auto simp: seg_inv_def)
qed

lemma seg_inv_grow:
  assumes "seg_inv L c T hs s" "segFile s = None"
  shows "seg_inv L c T (hs @ [p]) s"
proof -
  obtain cuts where "files_ok T hs s cuts" using assms by (auto simp: seg_inv_def)
  then have "files_ok T (hs @ [p]) s cuts" using assms(2) files_ok_grow by blast
  then show ?thesis using seg_inv_cuts [OF assms(1)] assms by (simp add: seg_inv_def kept_tables_def)
qed

lemma seg_write_inv:
  assumes "seg_inv L c T hs s" "segFile s = Some b"
  shows "\<exists>s'. seg_write ok p s = Some s' \<and> seg_inv L c T (hs @ [p]) s'"
proof -
  obtain cuts i where f: "files_ok T hs s cuts" "stretch T hs (i, length hs) b" "\<forall>q\<in>set cuts. snd q \<le> i"
    using assms by (auto simp: seg_inv_def files_ok_def)
  let ?s = "s\<lparr>segFile := Some (b @ p), segBytes := segBytes s + len p\<rparr>"
  have "files_ok T (hs @ [p]) ?s cuts"
    using f by (intro files_ok_open [where b = "b @ p" and i = i] stretch_extend) auto
  then have written: "seg_inv L c T (hs @ [p]) ?s"
    using assms by (intro seg_inv_cuts [OF assms(1)]) (auto simp: kept_tables_def seg_inv_def)
  have "seg_inv L c T (hs @ [p]) (abandon s)"
    using abandon_inv [OF assms(1)] seg_inv_grow by blast
  then show ?thesis using assms(2) written abandon_inv [OF written] by (simp add: seg_write_def Let_def)
qed

lemma run_tables:
  assumes "segFile s = Some b" "segBytes s + sum_list (map len ts) \<le> maxSegBytes"
  shows "run (seg_write True) ts s =
    Some (s\<lparr>segFile := Some (b @ concat ts), segBytes := segBytes s + sum_list (map len ts)\<rparr>)"
  using assms
proof (induction ts arbitrary: s b)
  case (Cons t ts)
  have pos: "0 \<le> sum_list (map len ts)" by (rule sum_list_nonneg) (auto simp: len_def)
  let ?s = "s\<lparr>segFile := Some (b @ t), segBytes := segBytes s + len t\<rparr>"
  have "seg_write True t s = Some ?s" using Cons.prems pos by (simp add: seg_write_def Let_def)
  moreover have "run (seg_write True) ts ?s =
      Some (?s\<lparr>segFile := Some ((b @ t) @ concat ts), segBytes := segBytes ?s + sum_list (map len ts)\<rparr>)"
    using Cons.prems by (intro Cons.IH) auto
  ultimately show ?case by (simp add: add.assoc)
qed simp

lemma seg_open_eq:
  assumes "canCreate e" "tables_ok T s"
  shows "seg_open e s = Some (s\<lparr>segFile := Some (concat (seg_tables s)), segBytes := sum_list (map len (seg_tables s)),
    segOpen := True, startPCR := lastPCR s, startPTS := lastPTS s\<rparr>)"
proof -
  let ?s = "s\<lparr>segFile := Some [], segBytes := 0, segOpen := True, startPCR := lastPCR s, startPTS := lastPTS s\<rparr>"
  have t: "seg_tables ?s = seg_tables s" by (simp add: seg_tables_def)
  have "sum_list (map len (seg_tables s)) \<le> maxSegBytes"
    by (simp add: seg_tables_def maxSegBytes_def PacketSize_def)
  then show ?thesis using run_tables [of ?s "[]" "seg_tables s"] assms(1)
    by (simp add: seg_open_def t Let_def)
qed

lemma seg_open_inv:
  assumes "seg_inv L c T hs s" "segFile s = None" "starts_key p"
  shows "\<exists>s1. seg_open e s = Some s1 \<and> (if segOpen s1 then \<exists>s2. seg_write ok p s1 = Some s2 \<and> seg_inv L c T (hs @ [p]) s2
    else seg_inv L c T (hs @ [p]) s1)"
proof (cases "canCreate e")
  case False
  then show ?thesis using assms seg_inv_grow [OF assms(1,2)] by (simp add: seg_open_def seg_inv_def)
next
  case True
  have tab: "tables_ok T s" using assms(1) by (simp add: seg_inv_def)
  let ?s = "s\<lparr>segFile := Some (concat (seg_tables s)), segBytes := sum_list (map len (seg_tables s)),
    segOpen := True, startPCR := lastPCR s, startPTS := lastPTS s\<rparr>"
  let ?w = "?s\<lparr>segFile := Some (concat (seg_tables s) @ p), segBytes := segBytes ?s + len p\<rparr>"
  obtain cuts where f: "files_ok T hs s cuts" using assms(1) by (auto simp: seg_inv_def)
  have "files_ok T (hs @ [p]) ?w cuts"
    using f seg_tables_ok [OF tab] assms(3) cuts_le [OF f]
    by (intro files_ok_open [where b = "concat (seg_tables s) @ p" and i = "length hs"] stretch_new) auto
  then have w: "seg_inv L c T (hs @ [p]) ?w"
    by (intro seg_inv_cuts [OF assms(1)]) (auto simp: kept_tables_def)
  have "seg_inv L c T (hs @ [p]) (abandon s)" using abandon_inv [OF assms(1)] seg_inv_grow by blast
  then have "seg_inv L c T (hs @ [p]) (abandon ?s)"
    by (rule seg_inv_same) (simp_all add: kept_def kept_tables_def abandon_def)
  then show ?thesis using True w abandon_inv [OF w] seg_open_eq [OF True tab]
    by (simp add: seg_write_def Let_def)
qed

section \<open>Feeding a packet\<close>

lemma stage_tables:
  assumes "tables_ok T s" "p \<in> T" "len p = PacketSize"
  shows "tables_ok T (seg_stage_pmt p pusi s)"
  using assms by (auto simp: tables_ok_def seg_stage_pmt_def Let_def whole_one intro: whole_append)

lemma adoptPMT_inv:
  assumes "seg_inv L c T hs s" "config_ok c" "apart c" "L \<longrightarrow> canList e"
  shows "\<exists>s'. adoptPMT e m s = Some s' \<and> seg_inv L c T hs s'"
proof -
  obtain s1 where s1: "finalize e s = Some s1" "seg_inv L c T hs s1" using finalize_inv [OF assms] by blast
  have reset: "seg_inv L c T hs s' \<Longrightarrow> seg_inv L c T hs (s'\<lparr>startPCR := -1, startPTS := -1, lastPCR := -1,
      lastPTS := -1, keyPCR := -1, keyPTS := -1, havePTS := False, haveHi := False, pendingDisc := True\<rparr>)" for s'
    by (erule seg_inv_same) (simp_all add: kept_def kept_tables_def)
  have adopt: "seg_inv L c T hs s' \<Longrightarrow> seg_inv L c T hs (s'\<lparr>videoPID := VideoPID m, pcrPID := PCRPID m,
      videoType := VideoType m, havePMT := True\<rparr>)" for s'
    by (erule seg_inv_same) (simp_all add: kept_def kept_tables_def)
  show ?thesis
    using assms(1) s1 adopt [OF reset [OF s1(2)]] adopt [OF assms(1)] by (simp add: adoptPMT_def)
qed

lemma seg_read_tables_inv:
  assumes "seg_inv L c T hs s" "config_ok c" "apart c" "L \<longrightarrow> canList e" "p \<in> T" "len p = PacketSize"
  shows "\<exists>s'. seg_read_tables e p pid pusi tei s = Some s' \<and> seg_inv L c T hs s'"
proof -
  have p4: "4 \<le> len p" using assms(6) by (simp add: PacketSize_def)
  have tab: "tables_ok T s" using assms(1) by (simp add: seg_inv_def)
  have same: "seg_inv L c T hs s'" if "kept s s'" "tables_ok T s'" for s'
    using seg_inv_kept [OF assms(1) that] .
  have w: "whole T p" using assms(5,6) by (rule whole_one)
  consider (pat) "pid = 0 \<and> pusi \<and> \<not> tei" | (sdt) "\<not> (pid = 0 \<and> pusi \<and> \<not> tei)" "pid = 0x11 \<and> pusi \<and> \<not> tei"
    | (pmt) "\<not> (pid = 0 \<and> pusi \<and> \<not> tei)" "\<not> (pid = 0x11 \<and> pusi \<and> \<not> tei)" "pmtPID s \<noteq> 0 \<and> pid = pmtPID s \<and> \<not> tei"
    | (other) "\<not> (pid = 0 \<and> pusi \<and> \<not> tei)" "\<not> (pid = 0x11 \<and> pusi \<and> \<not> tei)" "\<not> (pmtPID s \<noteq> 0 \<and> pid = pmtPID s \<and> \<not> tei)"
    by blast
  then show ?thesis
  proof cases
    case pat
    obtain q where q: "PMTPID p = Some q" using PMTPID_safe [OF p4] by blast
    have "seg_inv L c T hs (s\<lparr>pat := p, pmtPID := q, pmt := []\<rparr>)" "seg_inv L c T hs (s\<lparr>pat := p\<rparr>)"
      using tab w by (auto intro!: same simp: kept_def tables_ok_def)
    then show ?thesis using pat q by (auto simp: seg_read_tables_def Let_def)
  next
    case sdt
    have "seg_inv L c T hs (s\<lparr>sdt := p\<rparr>)" using tab w by (auto intro!: same simp: kept_def tables_ok_def)
    then show ?thesis using sdt by (simp add: seg_read_tables_def)
  next
    case pmt
    let ?s = "seg_stage_pmt p pusi s"
    have st: "tables_ok T ?s" using stage_tables [OF tab assms(5,6)] .
    have k: "kept s ?s" by (simp add: kept_def seg_stage_pmt_def Let_def)
    obtain a sec where f: "asm_Feed (pmtAsm ?s) p = Some (a, sec)" using asm_Feed_safe [OF p4] by fastforce
    let ?a = "?s\<lparr>pmtAsm := a\<rparr>" and ?m = "?s\<lparr>pmtAsm := a, pmt := pmtPkts ?s, pmtPkts := []\<rparr>"
    have a: "seg_inv L c T hs ?a" "seg_inv L c T hs ?m"
      using st k by (auto intro!: same simp: kept_def tables_ok_def)
    have eq: "seg_read_tables e p pid pusi tei s = (case sec of None \<Rightarrow> Some ?a
        | Some x \<Rightarrow> do { m \<leftarrow> ParsePMTSection x; (case m of None \<Rightarrow> Some ?m | Some m \<Rightarrow> adoptPMT e m ?m) })"
      unfolding seg_read_tables_def if_not_P [OF pmt(1)] if_not_P [OF pmt(2)] if_P [OF pmt(3)]
      using f by (simp add: Let_def)
    show ?thesis
    proof (cases sec)
      case None
      then show ?thesis using a unfolding eq by simp
    next
      case (Some x)
      obtain m where m: "ParsePMTSection x = Some m" using ParsePMTSection_safe by blast
      then show ?thesis using a Some adoptPMT_inv [OF a(2) assms(2-4)] unfolding eq by (cases m) simp_all
    qed
  next
    case other
    then show ?thesis using assms(1) by (auto simp: seg_read_tables_def)
  qed
qed

lemma at_splice_inv:
  assumes "seg_inv L c T hs s" "config_ok c" "apart c" "L \<longrightarrow> canList e"
  shows "\<exists>s'. at_splice e key pts pcr s = Some s' \<and> seg_inv L c T hs s'"
proof -
  obtain s1 where s1: "finalize e s = Some s1" "seg_inv L c T hs s1" using finalize_inv [OF assms] by blast
  then have "seg_inv L c T hs (s1\<lparr>pendingDisc := True\<rparr>)"
    by - (erule seg_inv_same, simp_all add: kept_def kept_tables_def)
  then show ?thesis using s1(1) assms(1) by (simp add: at_splice_def)
qed

lemma at_keyframe_inv:
  assumes "seg_inv L c T hs s" "config_ok c" "apart c" "L \<longrightarrow> canList e" "starts_key p"
  shows "\<exists>s1. at_keyframe e s = Some s1 \<and>
    (if segOpen s1 then \<exists>s2. seg_write ok p s1 = Some s2 \<and> seg_inv L c T (hs @ [p]) s2 else seg_inv L c T (hs @ [p]) s1)"
proof -
  let ?s = "s\<lparr>lastKey := now e\<rparr>"
  have s: "seg_inv L c T hs ?s" using assms(1) by (rule seg_inv_same) (simp_all add: kept_def kept_tables_def)
  define cut where "cut = (if segOpen ?s then (let (ticks, t) = elapsed ?s in if ticks \<ge> cut_ticks t then finalize e t else Some t)
           else Some ?s)"
  have e: "seg_inv L c T hs (snd (elapsed ?s))" by (rule seg_inv_same [OF s clocks_kept(5,11)])
  have "\<exists>s'. cut = Some s' \<and> seg_inv L c T hs s'"
    using s e finalize_inv [OF e assms(2-4)] by (auto simp: cut_def case_prod_unfold Let_def)
  then obtain s' where s': "cut = Some s'" "seg_inv L c T hs s'" by blast
  have eq: "at_keyframe e s = (if \<not> segOpen s' then seg_open e s' else Some s')"
    using s'(1) by (simp add: at_keyframe_def cut_def Let_def)
  show ?thesis
  proof (cases "segOpen s'")
    case True
    then obtain b where "segFile s' = Some b" using s'(2) by (auto simp: seg_inv_def)
    then show ?thesis using True eq seg_write_inv [OF s'(2)] by simp
  next
    case False
    then have "segFile s' = None" using s'(2) by (simp add: seg_inv_def)
    then show ?thesis using False eq seg_open_inv [OF s'(2) _ assms(5)] by simp
  qed
qed

definition good :: "bytes \<Rightarrow> bool" where
  "good p \<longleftrightarrow> len p = PacketSize \<and> p ! 0 = 0x47"

lemma packet_key_safe:
  assumes "4 \<le> len p"
  shows "\<exists>key pts. packet_key p s = Some (key, pts) \<and> (key \<longrightarrow> starts_key p)"
proof -
  obtain x y z where "PTS p = Some x" "RAI p = Some y" "StartsKeyframe p (videoType s) = Some z"
    using PTS_safe [OF assms] RAI_safe [OF assms] StartsKeyframe_safe [OF assms] by blast
  then show ?thesis by (auto simp: packet_key_def starts_key_def)
qed

lemma read_frame_inv:
  assumes "seg_inv L c T hs s" "4 \<le> len p"
  shows "\<exists>key pts s'. read_frame e p pid pusi s = Some (key, pts, s') \<and> seg_inv L c T hs s' \<and> (key \<longrightarrow> starts_key p)"
  using packet_key_safe [OF assms(2), of "countFrame (nowCount e) s"] assms(1) seg_inv_same [OF assms(1) clocks_kept(3,9)]
  by (auto simp: read_frame_def)

lemma cut_and_write_inv:
  assumes "seg_inv L c T hs s" "config_ok c" "apart c" "L \<longrightarrow> canList e" "key \<longrightarrow> starts_key p"
  shows "\<exists>late s'. cut_and_write e p key s = Some (late, s') \<and> seg_inv L c T (if late then hs else hs @ [p]) s'"
proof (cases key)
  case True
  then have "starts_key p" using assms(5) by blast
  from at_keyframe_inv [OF assms(1-4) this, of "canWrite e"] show ?thesis
    using True by (auto simp: cut_and_write_def split: if_splits)
next
  case False
  show ?thesis
  proof (cases "segFile s")
    case None
    then have "\<not> segOpen s" using assms(1) by (simp add: seg_inv_def)
    then show ?thesis using False assms(1) seg_inv_grow [OF assms(1) None]
      by (cases "MaxNoKeyframe (cfg s) < now e - lastKey s") (auto simp: cut_and_write_def intro: exI [of _ True])
  next
    case (Some b)
    then have "segOpen s" using assms(1) by (simp add: seg_inv_def)
    then show ?thesis using False assms(1) seg_write_inv [OF assms(1) Some, of "canWrite e" p]
      by (auto simp: cut_and_write_def)
  qed
qed

text \<open>Of a packet that is fed, the history records those that are packets and raise no error.\<close>

lemma seg_Feed_inv:
  assumes "seg_inv L c T hs s" "config_ok c" "apart c" "L \<longrightarrow> canList e" "p \<in> T"
  shows "\<exists>late s'. seg_Feed e p s = Some (late, s') \<and> seg_inv L c T (if good p \<and> \<not> late then hs @ [p] else hs) s'"
proof (cases "good p")
  case False
  then show ?thesis using assms(1)
    by (auto simp: seg_Feed_def good_def at_def PacketSize_def len_def)
next
  case True
  then have len: "len p = PacketSize" and p4: "4 \<le> len p" by (auto simp: good_def PacketSize_def)
  have b0: "at p 0 = Some 0x47" using True by (auto simp: good_def at_def PacketSize_def len_def)
  obtain pid pusi b1 where b1: "PID p = Some pid" "PUSI p = Some pusi" "at p 1 = Some b1"
    using PID_safe [of p] PUSI_safe [of p] p4 by (auto simp: at_def)
  obtain s1 where s1: "seg_read_tables e p pid pusi (b1 AND 0x80 \<noteq> 0) s = Some s1" "seg_inv L c T hs s1"
    using seg_read_tables_inv [OF assms(1-5) len] by blast
  obtain pcr where pcr: "packet_pcr p pid s1 = Some pcr"
    using PCR_safe [OF p4] by (cases "havePMT s1 \<and> pid = pcrPID s1") (auto simp: packet_pcr_def)
  obtain key pts s2 where s2: "read_frame e p pid pusi s1 = Some (key, pts, s2)" "seg_inv L c T hs s2" "key \<longrightarrow> starts_key p"
    using read_frame_inv [OF s1(2) p4] by blast
  obtain s3 where s3: "at_splice e key pts pcr s2 = Some s3" "seg_inv L c T hs s3"
    using at_splice_inv [OF s2(2) assms(2-4)] by blast
  define s4 where "s4 = chargeGap (now e) (note_clocks key pts pcr s3)"
  have s4: "seg_inv L c T hs s4" unfolding s4_def
    by (rule seg_inv_same [OF seg_inv_same [OF s3(2) clocks_kept(6,12)] clocks_kept(2,8)])
  have "seg_Feed e p s = cut_and_write e p key s4"
    using len b0 b1 s1(1) pcr s2(1) s3(1) by (simp add: seg_Feed_def s4_def)
  then show ?thesis using cut_and_write_inv [OF s4 assms(2-4) s2(3)] True by (auto split: if_splits)
qed

section \<open>Runs\<close>

text \<open>A run of a segmenter: packets are fed, or it is closed, with the history of what was taken.\<close>

datatype seg_event = FeedPacket env bytes | CloseSegment env

fun seg_step :: "seg_event \<Rightarrow> bytes list \<times> Segmenter \<Rightarrow> (bytes list \<times> Segmenter) go" where
  "seg_step (FeedPacket e p) (hs, s) = do {
     (late, s) \<leftarrow> seg_Feed e p s;
     Some (if good p \<and> \<not> late then hs @ [p] else hs, s) }"
| "seg_step (CloseSegment e) (hs, s) = do { s \<leftarrow> seg_Close e s; Some (hs, s) }"

fun seg_event_ok :: "bool \<Rightarrow> bytes set \<Rightarrow> seg_event \<Rightarrow> bool" where
  "seg_event_ok L T (FeedPacket e p) \<longleftrightarrow> (L \<longrightarrow> canList e) \<and> p \<in> T"
| "seg_event_ok L T (CloseSegment e) \<longleftrightarrow> (L \<longrightarrow> canList e)"

definition seg_run_inv :: "bool \<Rightarrow> bytes set \<Rightarrow> bytes list \<times> Segmenter \<Rightarrow> bool" where
  "seg_run_inv L T x \<longleftrightarrow>
     config_ok (cfg (snd x)) \<and> apart (cfg (snd x)) \<and> seg_inv L (cfg (snd x)) T (fst x) (snd x)"

interpretation segmenter: safe_system seg_step "seg_event_ok L T" "seg_run_inv L T" for L T
proof
  fix x e
  assume inv: "seg_run_inv L T x" and ok: "seg_event_ok L T e"
  obtain hs s where x: "x = (hs, s)" by (cases x)
  then have i: "seg_inv L (cfg s) T hs s" "config_ok (cfg s)" "apart (cfg s)" using inv by (auto simp: seg_run_inv_def)
  have c: "seg_inv L (cfg s) T h s' \<Longrightarrow> seg_run_inv L T (h, s')" for h s'
    using i by (auto simp: seg_run_inv_def seg_inv_def)
  show "\<exists>x'. seg_step e x = Some x' \<and> seg_run_inv L T x'"
  proof (cases e)
    case (FeedPacket e' p)
    then show ?thesis using seg_Feed_inv [OF i, of e' p] ok x c by fastforce
  next
    case (CloseSegment e')
    then show ?thesis using finalize_inv [OF i, of e'] ok x c by (fastforce simp: seg_Close_def)
  qed
qed

lemma seg_New_inv:
  assumes "seg_New files c = Some s" "apart (cfg s)"
  shows "seg_run_inv L T ([], s)"
proof -
  have "config_ok (cfg s)" using assms(1) Config_normalise_ok
    by (auto simp: seg_New_def sweep_def split: option.splits)
  moreover have "seg_inv L (cfg s) T [] s"
    using assms(1) calculation
    by (auto simp: seg_New_def sweep_def seg_inv_def tables_ok_def window_ok_def list_ok_def files_ok_def
        config_ok_def split: option.splits)
  ultimately show ?thesis using assms(2) by (simp add: seg_run_inv_def)
qed

end
