(* ===== verification/TsSegProps.thy ===== *)
theory TsSegProps
  imports TsSegInv
begin

text \<open>
  What the segmenter of \<^verbatim>\<open>internal/tsseg\<close> guarantees of its files, its playlist and its no-keyframe limit, and
  where a table longer than a packet is lost.
\<close>

section \<open>Segments and playlist\<close>

lemma seg_path_of_cfg: "run seg_step es (hs, s) = Some (hs', s') \<Longrightarrow> seg_run_inv L T (hs, s) \<Longrightarrow>
    list_all (seg_event_ok L T) es \<Longrightarrow> seg_run_inv L T (hs', s')"
  using segmenter.run_preserves by blast


lemma longest_ge: "sg \<in> set sgs \<Longrightarrow> sdur sg \<le> longest sgs"
proof -
  have mono: "m \<le> fold (\<lambda>sg m. max m (sdur sg)) xs m" for xs :: "segment list" and m
    by (induction xs arbitrary: m) (auto intro: order_trans [OF max.cobounded1])
  have "sg \<in> set xs \<Longrightarrow> sdur sg \<le> fold (\<lambda>sg m. max m (sdur sg)) xs m" for xs m
    by (induction xs arbitrary: m) (auto intro: order_trans [OF _ mono])
  then show "sg \<in> set sgs \<Longrightarrow> sdur sg \<le> longest sgs" by (simp add: longest_def)
qed

lemma ceil_sec_covers: "d \<le> ceil_sec d * 90000"
  unfolding ceil_sec_def by (simp add: minus_div_mult_eq_mod [symmetric] algebra_simps)

lemma seg_ceil_mono: "a \<le> b \<Longrightarrow> ceil_sec a \<le> ceil_sec b"
  unfolding ceil_sec_def by (simp add: zdiv_mono1)

lemma seg_listed_suffix: "0 < ListSize (cfg s) \<Longrightarrow> \<exists>k \<le> length (written s). seg_listed s = drop k (written s)"
proof (cases "len (written s) > ListSize (cfg s)")
  case True
  moreover assume "0 < ListSize (cfg s)"
  ultimately show ?thesis
    by (intro exI [of _ "nat (len (written s) - ListSize (cfg s))"]) (simp add: seg_listed_def len_def nat_le_iff)
next
  case False
  then show ?thesis by (intro exI [of _ 0]) (simp add: seg_listed_def)
qed

text \<open>C22: the playlist lists what can be fetched.  As long as the playlist can be written, once a segment has
  been published the playlist on disk is the one rendered from the segments kept; every segment
  it lists is a file on disk, the last one it lists is the newest, their numbers are consecutive,
  and every duration is positive, at most four targets, and within the target duration advertised.\<close>

theorem playlist_lists_files:
  assumes "seg_New files c = Some s0" "apart (cfg s0)" "list_all (seg_event_ok True T) es"
    and "run seg_step es ([], s0) = Some (hs, s)" "written s \<noteq> []"
  shows "(\<exists>t. seg_render s = Some t \<and> disk s (Playlist (cfg s)) = Some (Text t)) \<and> seg_listed s \<noteq> [] \<and>
    (\<forall>sg\<in>set (seg_listed s). (\<exists>b. disk s (seg_path (cfg s) (sseq sg)) = Some (Media b)) \<and>
       0 < sdur sg \<and> sdur sg \<le> 4 * TargetSec (cfg s) * 90000 \<and>
       sdur sg \<le> ceil_sec (longest (seg_listed s)) * 90000) \<and>
    (\<forall>k < length (seg_listed s). sseq (seg_listed s ! k) = nseq s - len (seg_listed s) + int k)"
proof -
  have inv: "seg_run_inv True T (hs, s)"
    using segmenter.run_preserves [OF seg_New_inv [OF assms(1,2)] assms(3,4)] .
  then have i: "config_ok (cfg s)" "list_ok s" "window_ok s" "\<exists>cuts. files_ok T hs s cuts"
    by (auto simp: seg_run_inv_def seg_inv_def)
  obtain k where k: "k \<le> length (written s)" "seg_listed s = drop k (written s)"
    using seg_listed_suffix [of s] i(1) by (auto simp: config_ok_def)
  have listed: "sg \<in> set (written s)" if "sg \<in> set (seg_listed s)" for sg using that k(2) by (auto dest: in_set_dropD)
  have there: "\<exists>b. disk s (seg_path (cfg s) (sseq sg)) = Some (Media b)" if sg: "sg \<in> set (written s)" for sg
  proof -
    obtain m where "m < length (written s)" "written s ! m = sg" using sg by (auto simp: in_set_conv_nth)
    then show ?thesis using i(4) unfolding files_ok_def file_of_def by metis
  qed
  have ne: "seg_listed s \<noteq> []"
    using i(1) assms(5) by (auto simp: config_ok_def seg_listed_def Let_def len_def)
  have "sdur sg \<le> ceil_sec (longest (seg_listed s)) * 90000" if "sg \<in> set (seg_listed s)" for sg
    using order_trans [OF longest_ge [OF that] ceil_sec_covers] .
  moreover have "sseq (seg_listed s ! m) = nseq s - len (seg_listed s) + int m" if "m < length (seg_listed s)" for m
    using i(3) k that by (simp add: window_ok_def len_def)
  ultimately show ?thesis using i(2,3) assms(5) there listed ne by (auto simp: list_ok_def window_ok_def)
qed

section \<open>The no-keyframe limit\<close>

text \<open>What the limit is judged by, and what the handling of files and tables leaves alone.\<close>

definition timing :: "Segmenter \<Rightarrow> instant \<times> instant \<times> Config" where
  "timing s = (lastKey s, lastFeed s, cfg s)"

named_theorems timing_rules \<open>steps that leave the timing alone\<close>

lemma timing_simps [simp]:
  "timing (abandon s) = timing s" "timing (rebase s) = timing s" "timing (snd (elapsed s)) = timing s"
  "timing (seg_prune e s) = timing s" "timing (note_clocks key pts pcr s) = timing s"
  "timing (countFrame t s) = timing s" "timing (seg_stage_pmt p pusi s) = timing s"
  by (auto simp: timing_def abandon_def rebase_def elapsed_def seg_prune_def note_clocks_def notePTS_def
      countFrame_def seg_stage_pmt_def Let_def split: option.splits)

lemma seg_write_timing [timing_rules]: "seg_write ok p s = Some s' \<Longrightarrow> timing s' = timing s"
  by (auto simp: seg_write_def abandon_def timing_def Let_def split: Option.bind_splits if_splits)

lemma run_write_timing: "run (seg_write True) ts s = Some s' \<Longrightarrow> timing s' = timing s"
  by (induction ts arbitrary: s) (auto split: Option.bind_splits dest: seg_write_timing)

lemma seg_open_timing [timing_rules]: "seg_open e s = Some s' \<Longrightarrow> timing s' = timing s"
  by (auto simp: seg_open_def Let_def split: if_splits dest!: run_write_timing) (simp add: timing_def)

lemma seg_commit_timing [timing_rules]: "seg_commit e b d s = Some s' \<Longrightarrow> timing s' = timing s"
proof -
  have put: "timing (put_segment b d s) = timing s" by (simp add: timing_def put_segment_def)
  have list: "timing (s\<lparr>disk := x\<rparr>) = timing s" for s x by (simp add: timing_def)
  show "seg_commit e b d s = Some s' \<Longrightarrow> timing s' = timing s"
    by (auto simp: seg_commit_eq Let_def put list split: if_splits Option.bind_splits)
qed

lemma finalize_timing [timing_rules]: "finalize e s = Some s' \<Longrightarrow> timing s' = timing s"
  using seg_commit_timing [of e _ _ "snd (elapsed s)" s']
  by (auto simp: finalize_def case_prod_unfold Let_def split: option.splits if_splits)

lemma adoptPMT_timing [timing_rules]: "adoptPMT e m s = Some s' \<Longrightarrow> timing s' = timing s"
  by (auto simp: adoptPMT_def split: if_splits Option.bind_splits dest!: finalize_timing) (simp_all add: timing_def)

lemma seg_read_tables_timing [timing_rules]:
  assumes "seg_read_tables e p pid pusi tei s = Some s'"
  shows "timing s' = timing s"
proof -
  have t: "timing (s\<lparr>pat := a, pmtPID := b, pmt := d\<rparr>) = timing s" "timing (s\<lparr>pat := a\<rparr>) = timing s"
    "timing (s\<lparr>sdt := a\<rparr>) = timing s" "timing (s\<lparr>pmtAsm := x\<rparr>) = timing s"
    "timing (s\<lparr>pmtAsm := x, pmt := a, pmtPkts := d\<rparr>) = timing s" for s a b d x
    by (simp_all add: timing_def)
  show ?thesis using assms
    by (auto simp: seg_read_tables_def Let_def t split: if_splits Option.bind_splits option.splits
        dest!: adoptPMT_timing)
qed

lemma at_splice_timing [timing_rules]: "at_splice e key pts pcr s = Some s' \<Longrightarrow> timing s' = timing s"
  by (auto simp: at_splice_def split: if_splits Option.bind_splits dest!: finalize_timing) (simp add: timing_def)

lemma at_keyframe_timing:
  assumes "at_keyframe e s = Some s'"
  shows "timing s' = (now e, lastFeed s, cfg s)"
proof -
  let ?s = "s\<lparr>lastKey := now e\<rparr>"
  have "timing ?s = (now e, lastFeed s, cfg s)" by (simp add: timing_def)
  moreover have "timing s' = timing ?s"
    using assms unfolding at_keyframe_def Let_def case_prod_unfold
    by (auto split: if_splits Option.bind_splits dest!: finalize_timing seg_open_timing)
  ultimately show ?thesis by simp
qed

lemma read_frame_timing [timing_rules]:
  "read_frame e p pid pusi s = Some (key, pts, s') \<Longrightarrow> timing s' = timing s"
  by (auto simp: read_frame_def Let_def split: if_splits Option.bind_splits)

text \<open>How long the stream has been delivering without a keyframe, as the limit counts it.\<close>

definition idle :: "Segmenter \<Rightarrow> int" where
  "idle s = lastFeed s - lastKey s"

lemma chargeGap_idle:
  "lastFeed (chargeGap t s) = t"
  "idle (chargeGap t s) = (if lastFeed s = 0 then 0 else idle s + min (t - lastFeed s) deliveryStep)"
  "cfg (chargeGap t s) = cfg s"
  by (auto simp: chargeGap_def idle_def Let_def)

lemma seg_Feed_idle:
  assumes "seg_Feed e p s = Some (late, s')" "good p"
  shows "lastFeed s' = now e \<and> cfg s' = cfg s \<and> late = (idle s' > MaxNoKeyframe (cfg s) \<and> late) \<and>
    (idle s' = 0 \<or> idle s' = idle s + min (now e - lastFeed s) deliveryStep)"
proof -
  have b0: "len p = PacketSize" "at p 0 = Some 0x47" using assms(2) by (auto simp: good_def at_def PacketSize_def len_def)
  obtain pid pusi tei s1 pcr key pts s2 s3 where
    steps: "seg_read_tables e p pid pusi tei s = Some s1" "read_frame e p pid pusi s1 = Some (key, pts, s2)"
      "at_splice e key pts pcr s2 = Some s3"
      "cut_and_write e p key (chargeGap (now e) (note_clocks key pts pcr s3)) = Some (late, s')"
    using assms(1) b0 by (auto simp: seg_Feed_def split: Option.bind_splits)
  have "timing s3 = timing s"
    using steps(1-3) timing_rules by metis
  then have n: "timing (note_clocks key pts pcr s3) = timing s" by simp
  define s4 where "s4 = chargeGap (now e) (note_clocks key pts pcr s3)"
  have s4: "lastFeed s4 = now e" "cfg s4 = cfg s"
    "idle s4 = (if lastFeed s = 0 then 0 else idle s + min (now e - lastFeed s) deliveryStep)"
    using n chargeGap_idle [of "now e" "note_clocks key pts pcr s3"] by (simp_all add: s4_def timing_def idle_def)
  have cw: "cut_and_write e p key s4 = Some (late, s')" using steps(4) by (simp add: s4_def)
  show ?thesis
  proof (cases key)
    case True
    then obtain s5 where s5: "at_keyframe e s4 = Some s5" "\<not> late"
      "s' = s5 \<or> (\<exists>ok. seg_write ok p s5 = Some s')"
      using cw by (auto simp: cut_and_write_def split: Option.bind_splits if_splits)
    then have "timing s' = (now e, now e, cfg s)"
      using at_keyframe_timing [OF s5(1)] seg_write_timing s4 by auto
    then show ?thesis using s5(2) by (auto simp: timing_def idle_def)
  next
    case False
    then have "timing s' = timing s4" "late = (now e - lastKey s4 > MaxNoKeyframe (cfg s4))"
      using cw seg_write_timing
      by (auto simp: cut_and_write_def split: Option.bind_splits if_splits)
    then show ?thesis using s4 by (auto simp: timing_def idle_def)
  qed
qed

text \<open>The time a run of packets counts for: each gap at most one second.\<close>

fun delivered :: "instant \<Rightarrow> instant list \<Rightarrow> int" where
  "delivered t [] = 0"
| "delivered t (u # us) = min (u - t) deliveryStep + delivered u us"

lemma delivered_nonneg: "sorted (t # us) \<Longrightarrow> 0 \<le> delivered t us"
  by (induction us arbitrary: t) (auto simp: deliveryStep_def)

lemma seg_step_feed: "seg_step (FeedPacket e p) (hs, s) = Some x \<Longrightarrow>
    \<exists>late. seg_Feed e p s = Some (late, snd x)"
proof -
  assume x: "seg_step (FeedPacket e p) (hs, s) = Some x"
  then obtain r where r: "seg_Feed e p s = Some r" by (cases "seg_Feed e p s") simp_all
  obtain late t where "r = (late, t)" by (cases r)
  then have "snd x = t" using x r by (simp split: if_splits) auto
  then show ?thesis using r \<open>r = (late, t)\<close> by blast
qed

lemma feeds_idle:
  assumes "run seg_step (map (\<lambda>(e, p). FeedPacket e p) es) (hs, s) = Some (hs1, s1)" "list_all (good \<circ> snd) es"
    and "sorted (lastFeed s # map (now \<circ> fst) es)" "0 \<le> k" "idle s \<le> k"
  shows "idle s1 \<le> k + delivered (lastFeed s) (map (now \<circ> fst) es) \<and> cfg s1 = cfg s \<and>
    lastFeed s1 = last (lastFeed s # map (now \<circ> fst) es)"
  using assms
proof (induction es arbitrary: hs s k)
  case Nil
  then show ?case by simp
next
  case (Cons ep es)
  obtain e p where ep: "ep = (e, p)" by (cases ep)
  obtain x where x: "seg_step (FeedPacket e p) (hs, s) = Some x"
    "run seg_step (map (\<lambda>(e, p). FeedPacket e p) es) x = Some (hs1, s1)"
    using Cons.prems(1) by (auto simp: ep split: Option.bind_splits)
  obtain h t where ht: "x = (h, t)" by (cases x)
  obtain late where f: "seg_Feed e p s = Some (late, t)" using seg_step_feed [OF x(1)] ht by auto
  have g: "good p" using Cons.prems(2) ep by simp
  note d = seg_Feed_idle [OF f g]
  have gap: "0 \<le> min (now e - lastFeed s) deliveryStep" using Cons.prems(3) by (auto simp: ep deliveryStep_def)
  have "idle t \<le> k + min (now e - lastFeed s) deliveryStep" using d Cons.prems(4,5) gap by auto
  moreover have "0 \<le> k + min (now e - lastFeed s) deliveryStep" using Cons.prems(4) gap by simp
  moreover have "sorted (lastFeed t # map (now \<circ> fst) es)" using Cons.prems(3) d by (simp add: ep comp_def)
  ultimately have "idle s1 \<le> k + min (now e - lastFeed s) deliveryStep + delivered (lastFeed t) (map (now \<circ> fst) es) \<and>
      cfg s1 = cfg t \<and> lastFeed s1 = last (lastFeed t # map (now \<circ> fst) es)"
    using Cons.IH [OF x(2) [unfolded ht], of "k + min (now e - lastFeed s) deliveryStep"] Cons.prems(2)
    by (simp add: comp_def)
  then show ?case using d by (simp add: ep comp_def)
qed


section \<open>A table longer than a packet\<close>

text \<open>The segmenter collects a PMT that spans several packets whole, but puts a table at the head of a segment
  only when it is one packet long: such a PMT is not at the head of any segment.\<close>

lemma long_pmt_not_at_head:
  assumes "len (pmt s) \<noteq> PacketSize" "canCreate e" "tables_ok T s"
  shows "\<exists>s'. seg_open e s = Some s' \<and>
    segFile s' = Some (concat (filter (\<lambda>t. len t = PacketSize) [pat s, sdt s]))"
  using assms by (simp add: seg_open_eq seg_tables_def)

section \<open>Witnesses\<close>

definition demo_config :: Config where
  "demo_config = \<lparr>Playlist = ''/s/1_.m3u8'', SegPattern = ''/s/1_%d.ts'', TargetSec = 4, InitSec = f64_zero,
     ListSize = 3, KeepExtra = 1, MaxNoKeyframe = 2000000000\<rparr>"

definition demo_seg :: Segmenter where
  "demo_seg = the (seg_New (\<lambda>p. None) demo_config)"

definition demo_env :: "instant \<Rightarrow> env" where
  "demo_env t = \<lparr>now = t, nowCount = t, canCreate = True, canWrite = True, canCommit = True, canList = True,
     canRemove = True\<rparr>"

definition null_packet :: bytes where
  "null_packet = [0x47, 0x1f, 0xff, 0x10] @ replicate 184 0xff"

definition demo_feeds :: "(env \<times> bytes) list" where
  "demo_feeds = map (\<lambda>k. (demo_env (1000000000 * k), null_packet)) [1, 2, 9]"

definition demo_events :: "seg_event list" where
  "demo_events = map (\<lambda>(e, p). FeedPacket e p) demo_feeds @ [CloseSegment (demo_env 99)]"

lemma demo_New: "seg_New (\<lambda>p. None) demo_config = Some demo_seg"
proof -
  have "Config_normalise demo_config = Some (demo_config\<lparr>InitSec := Dyadic 4 0\<rparr>)" by code_simp
  then show ?thesis by (simp add: demo_seg_def seg_New_def)
qed

lemma demo_apart: "apart (cfg demo_seg)"
proof -
  have c: "cfg demo_seg = demo_config\<lparr>InitSec := Dyadic 4 0\<rparr>" by code_simp
  have "cut_verb ''/s/1_%d.ts'' = Some (''/s/1_'', ''.ts'')" by code_simp
  then have "seg_path (cfg demo_seg) n = ''/s/1_'' @ show_int n @ ''.ts''" for n
    by (simp add: c seg_path_def demo_config_def Sprintf_d_cut)
  then have "last (seg_path (cfg demo_seg) n) \<noteq> last (Playlist (cfg demo_seg))" for n
    by (simp add: c demo_config_def)
  then show ?thesis by (metis apart_def)
qed

lemma demo_events_ok: "list_all (seg_event_ok L {null_packet}) demo_events"
  by (simp add: demo_events_def demo_feeds_def demo_env_def)


definition pad188 :: "bytes \<Rightarrow> bytes" where
  "pad188 b = b @ replicate (188 - length b) 0xff"

definition demo_stream :: "bytes list" where
  "demo_stream =
     [pad188 [0x47, 0x40, 0x00, 0x10, 0, 0x00, 0xb0, 0x0d, 0, 1, 0xc1, 0, 0, 0, 1, 0xe1, 0x00, 0, 0, 0, 0],
      pad188 [0x47, 0x41, 0x00, 0x10, 0, 0x02, 0xb0, 0x12, 0, 1, 0xc1, 0, 0, 0xe1, 0x01, 0xf0, 0,
              0x1b, 0xe1, 0x01, 0xf0, 0, 0, 0, 0, 0],
      pad188 [0x47, 0x41, 0x01, 0x30, 1, 0x40, 0, 0, 1, 0xe0, 0, 0, 0x80, 0x80, 5, 0x21, 0, 1, 0, 1]]"

definition demo_play :: "seg_event list" where
  "demo_play = map (FeedPacket (demo_env 1000000000)) demo_stream @ [CloseSegment (demo_env 2000000000)]"

definition demo_played :: "bytes list \<times> Segmenter" where
  "demo_played = the (run seg_step demo_play ([], demo_seg))"

lemma demo_play_ok: "list_all (seg_event_ok L (set demo_stream)) demo_play"
  by (simp add: demo_play_def demo_env_def list_all_iff)

lemma demo_played_run: "run seg_step demo_play ([], demo_seg) = Some (fst demo_played, snd demo_played)"
  using segmenter.run_safe [OF seg_New_inv [OF demo_New demo_apart, of False "set demo_stream"] demo_play_ok]
  by (auto simp: demo_played_def)

lemma playlist_lists_files_witness:
  "let s = snd demo_played in
    (\<exists>t. seg_render s = Some t \<and> disk s (Playlist (cfg s)) = Some (Text t)) \<and> seg_listed s \<noteq> [] \<and>
    (\<forall>sg\<in>set (seg_listed s). (\<exists>b. disk s (seg_path (cfg s) (sseq sg)) = Some (Media b)) \<and>
       0 < sdur sg \<and> sdur sg \<le> 4 * TargetSec (cfg s) * 90000 \<and>
       sdur sg \<le> ceil_sec (longest (seg_listed s)) * 90000) \<and>
    (\<forall>k < length (seg_listed s). sseq (seg_listed s ! k) = nseq s - len (seg_listed s) + int k)"
proof -
  have "length (written (snd demo_played)) = 1" by code_simp
  then have "written (snd demo_played) \<noteq> []" by auto
  then show ?thesis
    using playlist_lists_files [OF demo_New demo_apart demo_play_ok demo_played_run] by (simp add: Let_def)
qed

definition demo_first :: "bytes list \<times> Segmenter" where
  "demo_first = the (run seg_step [FeedPacket (demo_env 1000000000) null_packet] ([], demo_seg))"

definition demo_late :: "bytes list \<times> Segmenter" where
  "demo_late = the (run seg_step (map (\<lambda>(e, p). FeedPacket e p) demo_feeds) demo_first)"

lemma demo_first_inv: "seg_run_inv False {null_packet} demo_first"
  using segmenter.run_safe [OF seg_New_inv [OF demo_New demo_apart], of False "{null_packet}"
      "[FeedPacket (demo_env 1000000000) null_packet]"] by (auto simp: demo_first_def)

lemma demo_late_run:
  "run seg_step (map (\<lambda>(e, p). FeedPacket e p) demo_feeds) (fst demo_first, snd demo_first) =
     Some (fst demo_late, snd demo_late) \<and> seg_run_inv False {null_packet} demo_late"
proof -
  have "list_all (seg_event_ok False {null_packet}) (map (\<lambda>(e, p). FeedPacket e p) demo_feeds)"
    by (simp add: demo_feeds_def)
  from segmenter.run_safe [OF demo_first_inv this] show ?thesis by (auto simp: demo_late_def)
qed


end
