(* ===== verification/TsMerge.thy ===== *)
theory TsMerge
  imports TsMux
begin

text \<open>
  \<open>internal/tsmerge/tsmerge.go\<close>: the transport streams of one programme, its video and its audio
  renditions, joined into one.  This theory holds the reading of packets (\<open>next\<close>), the cutting of
  an input into frames (\<open>scanVideo\<close>, \<open>scanAudio\<close>), and the joined table (\<open>rebuild\<close>, \<open>withLanguage\<close>,
  \<open>pmtOut\<close>); the loop that merges the frames is in \<open>TsMergeRun\<close>.

  An \<open>input\<close> carries the fields of the code's \<open>input\<close>, the locals of the scan function that runs on
  it, the rest of the stream its reader gives, and the frames waiting in its channel.
\<close>

section \<open>Constants and records\<close>

definition MaxAudio :: nat where "MaxAudio = 8"
definition queueUnits :: nat where "queueUnits = 512"
definition maxUnitBytes :: int where "maxUnitBytes = 4194304"
definition farApart :: int where "farApart = 30 * 90000"
definition startTrim :: int where "startTrim = 90000 div 2"
definition soundLess :: int where "soundLess = 10 * 90000"

record Unit =
  pkts :: bytes
  uts :: int
  hasTS :: bool
  pmtAt :: "int list"

definition no_unit :: Unit where
  "no_unit = \<lparr>pkts = [], uts = 0, hasTS = False, pmtAt = []\<rparr>"

text \<open>Why a reader stops: the end of the stream, the end inside a read, or another error.\<close>

datatype read_end = EOF | UnexpectedEOF | ReadError

record reader =
  rbytes :: bytes
  rend :: read_end

datatype scan_status = Scanning | Ending read_end | Returned

text \<open>An input's table (\<open>pmt\<close>, \<open>pmtPID\<close>, \<open>gen\<close>) and the locals of the scan function that runs on it
  (\<open>es\<close> and \<open>started\<close> of \<open>scanAudio\<close> only, \<open>videoPID\<close> of \<open>scanVideo\<close> only).\<close>

record scanner =
  ipmt :: bytes
  ipmtPID :: u16
  igen :: int
  spmtPID :: u16
  svideoPID :: u16
  sasm :: SectionAssembler
  ses :: "u16 \<Rightarrow> bool"
  scur :: Unit
  sstarted :: bool

text \<open>The rest of an input: its reader, its channel with what waits in it, why it ended, and where its
  scan function is.\<close>

record input =
  isrc :: reader
  iq :: "Unit list"
  iclosed :: bool
  ierr :: read_end
  sst :: scan_status
  iscan :: scanner

definition no_streams :: "u16 \<Rightarrow> bool" where
  "no_streams pid = False"

definition new_scanner :: scanner where
  "new_scanner = \<lparr>ipmt = [], ipmtPID = 0, igen = 0, spmtPID = 0, svideoPID = 0, sasm = new_assembler,
     ses = no_streams, scur = no_unit, sstarted = False\<rparr>"

definition new_input :: "reader \<Rightarrow> input" where
  "new_input r = \<lparr>isrc = r, iq = [], iclosed = False, ierr = EOF, sst = Scanning, iscan = new_scanner\<rparr>"

definition setPMT :: "u16 \<Rightarrow> bytes \<Rightarrow> scanner \<Rightarrow> scanner" where
  "setPMT pid sec s =
     (if ipmtPID s = pid \<and> ipmt s = sec then s
      else s\<lparr>ipmtPID := pid, ipmt := sec, igen := igen s + 1\<rparr>)"

section \<open>Reading packets\<close>

text \<open>\<open>io.ReadFull\<close> of \<open>n > 0\<close> bytes.\<close>

definition ReadFull :: "nat \<Rightarrow> reader \<Rightarrow> read_end + bytes \<times> reader" where
  "ReadFull n r =
     (if n \<le> length (rbytes r) then Inr (take n (rbytes r), r\<lparr>rbytes := drop n (rbytes r)\<rparr>)
      else Inl (if rend r = EOF then (if rbytes r = [] then EOF else UnexpectedEOF) else rend r))"

text \<open>The inner loop of \<open>next\<close>: where the next sync byte in the packet is, or its end.\<close>

function sync_from :: "bytes \<Rightarrow> int \<Rightarrow> int go" where
  "sync_from pkt i =
     (if i < PacketSize then do {
        b \<leftarrow> at pkt i;
        if b \<noteq> 0x47 then sync_from pkt (i + 1) else Some i }
      else Some i)"
  by pat_completeness auto
termination
  by (relation "measure (\<lambda>(pkt, i). nat (PacketSize - i))") auto

declare sync_from.simps [simp del]

text \<open>The outer loop: the packet is moved up to the sync byte and filled from the stream, until it
  starts on one.  Every turn takes at least one byte (\<open>sync_from\<close> starts at 1), so the bytes left
  bound the turns: that is the first argument.\<close>

fun resync :: "nat \<Rightarrow> bytes \<Rightarrow> reader \<Rightarrow> (read_end + bytes \<times> reader) go" where
  "resync fuel pkt r = do {
     b0 \<leftarrow> at pkt 0;
     if b0 = 0x47 then Some (Inr (pkt, r))
     else case fuel of
       0 \<Rightarrow> None
     | Suc fuel' \<Rightarrow> do {
         i \<leftarrow> sync_from pkt 1;
         tail \<leftarrow> slice_from pkt i;
         case ReadFull (nat (PacketSize - len tail)) r of
           Inl e \<Rightarrow> Some (Inl e)
         | Inr (fill, r') \<Rightarrow> resync fuel' (tail @ fill) r' } }"

declare resync.simps [simp del]

definition next_packet :: "reader \<Rightarrow> (read_end + bytes \<times> reader) go" where
  "next_packet r =
     (case ReadFull (nat PacketSize) r of
        Inl e \<Rightarrow> Some (Inl e)
      | Inr (pkt, r') \<Rightarrow> resync (Suc (length (rbytes r'))) pkt r')"

section \<open>Times\<close>

definition dts :: "bytes \<Rightarrow> int option go" where
  "dts pkt = do {
     off \<leftarrow> PayloadOffset pkt;
     if off < 0 \<or> off + 19 > len pkt then PTS pkt
     else do {
       p \<leftarrow> slice_from pkt off;
       st \<leftarrow> pes_start p;
       if \<not> st then PTS pkt
       else do {
         f \<leftarrow> at p 7; l \<leftarrow> at p 8;
         if drop_bit 6 f AND 0x3 \<noteq> 3 \<or> l < 10 then PTS pkt
         else do {
           b0 \<leftarrow> at p 14; b1 \<leftarrow> at p 15; b2 \<leftarrow> at p 16; b3 \<leftarrow> at p 17; b4 \<leftarrow> at p 18;
           Some (Some (pts_base b0 b1 b2 b3 b4 AND 0x1ffffffff)) } } } }"

definition delta :: "int \<Rightarrow> int \<Rightarrow> int" where
  "delta a b =
     (let d = (a - b) AND (push_bit 33 1 - 1)
      in if d \<ge> push_bit 32 1 then d - push_bit 33 1 else d)"

definition timed :: "int option \<Rightarrow> Unit \<Rightarrow> Unit" where
  "timed t u = (case t of Some v \<Rightarrow> u\<lparr>uts := v, hasTS := True\<rparr> | None \<Rightarrow> u\<lparr>uts := 0, hasTS := False\<rparr>)"

section \<open>Cutting the video stream into frames\<close>

text \<open>\<open>flush\<close>: the frame collected, when there is one, and an empty one in its place.\<close>

definition flush_unit :: "scanner \<Rightarrow> scanner \<times> Unit list" where
  "flush_unit s =
     (if pkts (scur s) = [] \<and> pmtAt (scur s) = [] then (s, [])
      else (s\<lparr>scur := no_unit\<rparr>, [scur s]))"

text \<open>The end of \<open>scanVideo\<close>'s loop body: the packet goes to the frame, after a run of packets
  without a frame that has grown too long was sent.\<close>

definition keep_video :: "bytes \<Rightarrow> scanner \<Rightarrow> scanner \<times> Unit list" where
  "keep_video pkt s =
     (let (s1, us) = (if len (pkts (scur s)) \<ge> maxUnitBytes \<and> \<not> hasTS (scur s)
                      then flush_unit s else (s, []))
      in (s1\<lparr>scur := (scur s1)\<lparr>pkts := pkts (scur s1) @ pkt\<rparr>\<rparr>, us))"

text \<open>One packet through \<open>scanVideo\<close>: the locals after it and the frames to send.\<close>

definition scan_video :: "bytes \<Rightarrow> scanner \<Rightarrow> (scanner \<times> Unit list) go" where
  "scan_video pkt s = do {
     pid \<leftarrow> PID pkt;
     b1 \<leftarrow> at pkt 1;
     pusi \<leftarrow> PUSI pkt;
     let tei = (b1 AND 0x80 \<noteq> 0);
     if pid = 0x1fff then Some (s, [])
     else if pid = 0 \<and> pusi \<and> \<not> tei then do {
       p \<leftarrow> PMTPID pkt;
       Some (keep_video pkt (if p \<noteq> 0 \<and> p \<noteq> spmtPID s
               then s\<lparr>spmtPID := p, sasm := asm_Reset (sasm s)\<rparr> else s)) }
     else if spmtPID s \<noteq> 0 \<and> pid = spmtPID s then do {
       (a, sec) \<leftarrow> asm_Feed (sasm s) pkt;
       case sec of
         None \<Rightarrow> Some (s\<lparr>sasm := a\<rparr>, [])
       | Some sec \<Rightarrow>
           if tei then Some (s\<lparr>sasm := a\<rparr>, [])
           else do {
             m \<leftarrow> ParsePMTSection sec;
             let s1 = setPMT (spmtPID s) sec (s\<lparr>sasm := a\<rparr>);
             let s2 = (case m of None \<Rightarrow> s1 | Some m \<Rightarrow> s1\<lparr>svideoPID := VideoPID m\<rparr>);
             Some (s2\<lparr>scur := (scur s2)\<lparr>pmtAt := pmtAt (scur s2) @ [len (pkts (scur s2))]\<rparr>\<rparr>, []) } }
     else if svideoPID s \<noteq> 0 \<and> pid = svideoPID s \<and> pusi then do {
       t \<leftarrow> dts pkt;
       let (s1, us) = flush_unit s;
       let (s2, us') = keep_video pkt (s1\<lparr>scur := timed t (scur s1)\<rparr>);
       Some (s2, us @ us') }
     else Some (keep_video pkt s) }"

text \<open>The last frame, at the end of the stream.\<close>

definition final_video :: "scanner \<Rightarrow> Unit list" where
  "final_video s = snd (flush_unit s)"

section \<open>Cutting an audio stream into frames\<close>

definition declared :: "ES list \<Rightarrow> u16 \<Rightarrow> bool" where
  "declared es = foldl (\<lambda>m e. m(esPID e := (esType e \<noteq> 0x00 \<and> esPID e \<noteq> 0))) no_streams es"

definition final_audio :: "scanner \<Rightarrow> Unit list" where
  "final_audio s = (if sstarted s \<and> pkts (scur s) \<noteq> [] then [scur s] else [])"

definition scan_audio :: "bytes \<Rightarrow> scanner \<Rightarrow> (scanner \<times> Unit list) go" where
  "scan_audio pkt s = do {
     pid \<leftarrow> PID pkt;
     b1 \<leftarrow> at pkt 1;
     pusi \<leftarrow> PUSI pkt;
     let tei = (b1 AND 0x80 \<noteq> 0);
     if pid = 0 \<and> pusi \<and> \<not> tei then do {
       p \<leftarrow> PMTPID pkt;
       Some (if p \<noteq> 0 \<and> p \<noteq> spmtPID s
             then s\<lparr>spmtPID := p, sasm := asm_Reset (sasm s)\<rparr> else s, []) }
     else if spmtPID s \<noteq> 0 \<and> pid = spmtPID s then do {
       (a, sec) \<leftarrow> asm_Feed (sasm s) pkt;
       case sec of
         None \<Rightarrow> Some (s\<lparr>sasm := a\<rparr>, [])
       | Some sec \<Rightarrow>
           if tei then Some (s\<lparr>sasm := a\<rparr>, [])
           else do {
             (es, found) \<leftarrow> PMTStreamsSection sec;
             let s1 = setPMT (spmtPID s) sec (s\<lparr>sasm := a\<rparr>);
             Some (s1\<lparr>ses := (if found then declared es else no_streams)\<rparr>, []) } }
     else if \<not> ses s pid then Some (s, [])
     else do {
       t \<leftarrow> PTS pkt;
       let us = (if pusi then final_audio s else []);
       let s1 = (if pusi then s\<lparr>scur := timed t no_unit, sstarted := True\<rparr> else s);
       Some (if sstarted s1 then s1\<lparr>scur := (scur s1)\<lparr>pkts := pkts (scur s1) @ pkt\<rparr>\<rparr> else s1, us) } }"

section \<open>The joined table\<close>

text \<open>The PIDs of the video stream's table entries.\<close>

function entry_pids :: "bytes \<Rightarrow> int \<Rightarrow> int \<Rightarrow> u16 list go" where
  "entry_pids sec e i =
     (if i + 5 \<le> e then do {
        a \<leftarrow> at sec (i + 1); b \<leftarrow> at sec (i + 2);
        c \<leftarrow> at sec (i + 3); d \<leftarrow> at sec (i + 4);
        rest \<leftarrow> entry_pids sec e (i + (5 + len12 c d));
        Some (pid13 a b # rest) }
      else Some [])"
  by pat_completeness auto
termination
  by (relation "measure (\<lambda>(sec, e, i). nat (e - i))") auto

declare entry_pids.simps [simp del]

text \<open>\<open>for used[free] { free++ }\<close>: it would not end if every PID were used; \<open>None\<close> then.\<close>

partial_function (option) next_free :: "u16 list \<Rightarrow> u16 \<Rightarrow> u16 option" where
  "next_free used free = (if free \<in> set used then next_free used (free + 1) else Some free)"

declare next_free.simps [code]

text \<open>The descriptor walk of \<open>withLanguage\<close>: is there a language descriptor already?\<close>

function has_language :: "bytes \<Rightarrow> int \<Rightarrow> bool go" where
  "has_language entry i =
     (if i + 2 \<le> len entry then do {
        t \<leftarrow> at entry i;
        if t = 0x0a then Some True
        else do { l \<leftarrow> at entry (i + 1); has_language entry (i + (2 + uint l)) } }
      else Some False)"
  by pat_completeness auto
termination
  by (relation "measure (\<lambda>(entry, i). nat (len entry - i))") (auto intro: less_le_trans [of _ 0])

declare has_language.simps [simp del]

definition char_byte :: "char \<Rightarrow> byte" where
  "char_byte c = of_nat (of_char c)"

definition withLanguage :: "bytes \<Rightarrow> string \<Rightarrow> bytes go" where
  "withLanguage entry lang =
     (if lang = [] then Some entry
      else do {
        has \<leftarrow> has_language entry 5;
        if has then Some entry
        else do {
          let n = len entry - 5 + 6;
          e3 \<leftarrow> at entry 3;
          let entry1 = entry[3 := (e3 AND 0xf0) OR (word_of_int (drop_bit 8 n) AND 0x0f)];
          _ \<leftarrow> at entry 4;
          let entry2 = entry1[4 := word_of_int n];
          l0 \<leftarrow> at lang 0; l1 \<leftarrow> at lang 1; l2 \<leftarrow> at lang 2;
          Some (entry2 @ [0x0a, 0x04, char_byte l0, char_byte l1, char_byte l2, 0x00]) } })"

text \<open>What \<open>rebuild\<close> works out over the tables: the PIDs taken, where the search for a free one
  stands, the entries so far; and the map of the stream being done.\<close>

record plan =
  used :: "u16 list"
  free :: u16
  body :: bytes

text \<open>The PID a stream is written on: its own, or the one it had, or a free one.\<close>

definition give_pid :: "(u16 \<rightharpoonup> u16) \<Rightarrow> u16 \<Rightarrow> plan \<Rightarrow> (u16 \<times> plan) go" where
  "give_pid old from_pid p =
     (let to = (case old from_pid of
                  Some was \<Rightarrow> if was \<notin> set (used p) then was else from_pid
                | None \<Rightarrow> from_pid)
      in if to \<in> set (used p) then do {
           f \<leftarrow> next_free (used p) (free p);
           Some (f, p\<lparr>used := f # used p, free := f\<rparr>) }
         else Some (to, p\<lparr>used := to # used p\<rparr>))"

definition slice :: "'a list \<Rightarrow> int \<Rightarrow> int \<Rightarrow> 'a list go" where
  "slice xs i j = (if 0 \<le> i \<and> i \<le> j \<and> j \<le> len xs then Some (take (nat (j - i)) (drop (nat i) xs)) else None)"

text \<open>The entry with its PID replaced.\<close>

definition set_entry_pid :: "bytes \<Rightarrow> u16 \<Rightarrow> bytes go" where
  "set_entry_pid entry to = do {
     e1 \<leftarrow> at entry 1;
     _ \<leftarrow> at entry 2;
     Some (entry[1 := (e1 AND 0xe0) OR hi_byte to, 2 := lo_byte to]) }"

text \<open>The entries of one audio stream's table.\<close>

function audio_entries :: "(u16 \<rightharpoonup> u16) \<Rightarrow> string \<Rightarrow> bytes \<Rightarrow> int \<Rightarrow> int \<Rightarrow> (u16 \<rightharpoonup> u16) \<Rightarrow> plan
    \<Rightarrow> ((u16 \<rightharpoonup> u16) \<times> plan) go" where
  "audio_entries old lang sec aend i pids p =
     (if i + 5 \<le> aend then do {
        c \<leftarrow> at sec (i + 3); d \<leftarrow> at sec (i + 4);
        let n = 5 + len12 c d;
        if i + n > aend then Some (pids, p)
        else do {
          a \<leftarrow> at sec (i + 1); b \<leftarrow> at sec (i + 2);
          let from_pid = pid13 a b;
          t \<leftarrow> at sec i;
          if t = 0x00 \<or> from_pid = 0 then audio_entries old lang sec aend (i + n) pids p
          else do {
            (to, p1) \<leftarrow> give_pid old from_pid p;
            entry \<leftarrow> slice sec i (i + n);
            entry1 \<leftarrow> set_entry_pid entry to;
            entry2 \<leftarrow> withLanguage entry1 lang;
            audio_entries old lang sec aend (i + n) (pids(from_pid \<mapsto> to))
              (p1\<lparr>body := body p1 @ entry2\<rparr>) } } }
      else Some (pids, p))"
  by pat_completeness auto
termination
  by (relation "measure (\<lambda>(old, lang, sec, aend, i, pids, p). nat (aend - i))")
    (auto simp: len12_nonneg add_pos_nonneg)

declare audio_entries.simps [simp del]


section \<open>The merge\<close>

text \<open>What the merge keeps per audio stream: the locals of \<open>run\<close> (\<open>heads\<close>, \<open>late\<close>, \<open>begun\<close>,
  \<open>finished\<close>, \<open>last\<close>) and the stream's element of \<open>pids\<close> and \<open>gens\<close>.\<close>

record astream =
  ahead :: "Unit option"
  alate :: bool
  abegun :: bool
  afinished :: bool
  alast :: int
  apids :: "u16 \<rightharpoonup> u16"
  agen :: int

datatype merge_error = VideoEnded read_end | AudioEnded read_end | AudioFinished | ClosedPipe | ReaderGone

text \<open>Where \<open>run\<close> is: taking the first frames, waiting for a video frame, putting the audio frames due
  before a video frame out (of the stream with the number given), writing, returned.\<close>

datatype place = Start nat | NextVideo | Drain Unit nat | Writing | Stopped merge_error

record merger =
  mvideo :: input
  maudio :: "input list"
  mlang :: "string list"
  mdone :: bool
  mst :: "astream list"
  mgen :: int
  mpmtPID :: u16
  mcc :: byte
  built :: bytes
  ver :: byte
  mout :: bytes
  mwritten :: bytes
  mplace :: place

definition new_stream :: astream where
  "new_stream = \<lparr>ahead = None, alate = False, abegun = False, afinished = False, alast = 0,
     apids = Map.empty, agen = 0\<rparr>"

text \<open>\<open>New\<close>; \<open>None\<close> is its error.\<close>

definition merge_New :: "reader \<Rightarrow> reader list \<Rightarrow> string list \<Rightarrow> merger option" where
  "merge_New video audio languages =
     (if length audio = 0 \<or> length audio > MaxAudio then None
      else Some \<lparr>mvideo = new_input video, maudio = map new_input audio, mlang = languages,
        mdone = False, mst = map (\<lambda>r. new_stream) audio, mgen = 0, mpmtPID = 0, mcc = 0, built = [],
        ver = 0, mout = [], mwritten = [], mplace = Start 0\<rparr>)"

definition language :: "string list \<Rightarrow> nat \<Rightarrow> string" where
  "language lang a = (if a < length lang \<and> length (lang ! a) = 3 then lang ! a else [])"

text \<open>One turn of the loop over the audio streams' tables in \<open>rebuild\<close>.\<close>

definition audio_table :: "string \<Rightarrow> input \<Rightarrow> astream \<Rightarrow> plan \<Rightarrow> (astream \<times> plan) go" where
  "audio_table lang a s p =
     (let sec = ipmt (iscan a) in
      if len sec < 16 then Some (s, p)
      else do {
        s1 \<leftarrow> at sec 1; s2 \<leftarrow> at sec 2;
        let aend = 3 + len12 s1 s2 - 4;
        if aend > len sec - 4 then Some (s, p)
        else do {
          s10 \<leftarrow> at sec 10; s11 \<leftarrow> at sec 11;
          (pids, p1) \<leftarrow> audio_entries (apids s) lang sec aend (12 + len12 s10 s11) Map.empty p;
          Some (s\<lparr>apids := pids, agen := igen (iscan a)\<rparr>, p1) } })"

fun audio_tables :: "string list \<Rightarrow> nat \<Rightarrow> input list \<Rightarrow> astream list \<Rightarrow> plan \<Rightarrow> (astream list \<times> plan) go" where
  "audio_tables lang k (a # as) (s # ss) p = do {
     (s1, p1) \<leftarrow> audio_table (language lang k) a s p;
     (ss1, p2) \<leftarrow> audio_tables lang (Suc k) as ss p1;
     Some (s1 # ss1, p2) }"
| "audio_tables lang k [] ss p = Some (ss, p)"
| "audio_tables lang k as [] p = Some ([], p)"

definition table_changed :: "merger \<Rightarrow> bool" where
  "table_changed m \<longleftrightarrow> built m = [] \<or> igen (iscan (mvideo m)) \<noteq> mgen m \<or>
     list_ex (\<lambda>(a, s). igen (iscan a) \<noteq> agen s) (zip (maudio m) (mst m))"

text \<open>The table made out of the collected body, its version one on when the content has changed.\<close>

definition version_byte :: "byte \<Rightarrow> byte" where
  "version_byte v = 0xc1 OR push_bit 1 v"

definition next_version :: "byte \<Rightarrow> byte" where
  "next_version v = (v + 1) AND 0x1f"

definition install_table :: "merger \<Rightarrow> bytes \<Rightarrow> merger" where
  "install_table m bdy =
     (let b = bdy[2 := version_byte (ver m)];
          sec = Section 0x02 b;
          v = next_version (ver m);
          m1 = m\<lparr>mpmtPID := ipmtPID (iscan (mvideo m)), mgen := igen (iscan (mvideo m))\<rparr>
      in if built m \<noteq> [] \<and> sec \<noteq> built m
         then m1\<lparr>ver := v, built := Section 0x02 (b[2 := version_byte v])\<rparr>
         else m1\<lparr>built := sec\<rparr>)"

definition rebuild :: "merger \<Rightarrow> merger go" where
  "rebuild m =
     (let pid = ipmtPID (iscan (mvideo m)); vsec = ipmt (iscan (mvideo m)) in
      if \<not> table_changed m \<or> len vsec < 16 then Some m
      else do {
        v1 \<leftarrow> at vsec 1; v2 \<leftarrow> at vsec 2;
        let e = 3 + len12 v1 v2 - 4;
        v10 \<leftarrow> at vsec 10; v11 \<leftarrow> at vsec 11;
        let progInfo = len12 v10 v11;
        if e > len vsec - 4 \<or> 12 + progInfo > e then Some m
        else do {
          v8 \<leftarrow> at vsec 8; v9 \<leftarrow> at vsec 9;
          vpids \<leftarrow> entry_pids vsec e (12 + progInfo);
          bdy \<leftarrow> slice vsec 3 e;
          (ss, p) \<leftarrow> audio_tables (mlang m) 0 (maudio m) (mst m)
            \<lparr>used = [0, 0x11, 0x1fff, pid, pid13 v8 v9] @ vpids, free = 0x100, body = bdy\<rparr>;
          let m1 = m\<lparr>mst := ss\<rparr>;
          if len (body p) + 4 > MaxSectionBytes - 3 then Some m1
          else do { _ \<leftarrow> at (body p) 2; Some (install_table m1 (body p)) } } })"

text \<open>\<open>pmtOut\<close>: the joined table as packets.\<close>

function table_packets :: "u16 \<Rightarrow> byte \<Rightarrow> bool \<Rightarrow> bytes \<Rightarrow> bytes \<times> byte" where
  "table_packets pid cc first payload =
     (if payload = [] then ([], cc)
      else let b1 = hi_byte pid AND 0x1f;
               pkt = [0x47, if first then b1 OR 0x40 else b1, lo_byte pid, 0x10 OR cc]
                 @ take 184 payload @ replicate (184 - length payload) 0xff;
               (rest, cc') = table_packets pid ((cc + 1) AND 0x0f) False (drop 184 payload)
           in (pkt @ rest, cc'))"
  by pat_completeness auto
termination
  by (relation "measure (\<lambda>(pid, cc, first, payload). length payload)") auto

declare table_packets.simps [simp del]

definition pmtOut :: "merger \<Rightarrow> merger" where
  "pmtOut m =
     (if built m = [] then m
      else let (ps, cc) = table_packets (mpmtPID m) (mcc m) True (0x00 # built m)
           in m\<lparr>mout := mout m @ ps, mcc := cc\<rparr>)"

text \<open>\<open>audioOut\<close>: the packets of an audio frame, on the PIDs the joined table gives them.\<close>

function move_packets :: "(u16 \<rightharpoonup> u16) \<Rightarrow> bytes \<Rightarrow> bytes go" where
  "move_packets pids p =
     (if len p \<ge> PacketSize then do {
        pid \<leftarrow> PID p;
        b1 \<leftarrow> at p 1; _ \<leftarrow> at p 2;
        let q = (case pids pid of
                   Some np \<Rightarrow> if np \<noteq> pid then p[1 := (b1 AND 0xe0) OR hi_byte np, 2 := lo_byte np] else p
                 | None \<Rightarrow> p);
        rest \<leftarrow> move_packets pids (drop 188 q);
        Some (take 188 q @ rest) }
      else Some p)"
  by pat_completeness auto
termination
  by (relation "measure (\<lambda>(pids, p). length p)")
    (auto simp: PacketSize_def len_def split: option.splits if_splits)

declare move_packets.simps [simp del]

definition audioOut :: "nat \<Rightarrow> Unit \<Rightarrow> merger \<Rightarrow> merger go" where
  "audioOut i u m = do {
     m1 \<leftarrow> rebuild m;
     s \<leftarrow> at (mst m1) (int i);
     ps \<leftarrow> move_packets (apids s) (pkts u);
     Some (m1\<lparr>mout := mout m1 @ ps\<rparr>) }"

text \<open>\<open>videoOut\<close>: the packets of a video frame, with the joined table where the stream's own stood.\<close>

fun video_parts :: "bytes \<Rightarrow> int \<Rightarrow> int list \<Rightarrow> merger \<Rightarrow> merger go" where
  "video_parts ps prev [] m = do { rest \<leftarrow> slice_from ps prev; Some (m\<lparr>mout := mout m @ rest\<rparr>) }"
| "video_parts ps prev (i # is) m = do {
     part \<leftarrow> slice ps prev i;
     video_parts ps i is (pmtOut (m\<lparr>mout := mout m @ part\<rparr>)) }"

definition videoOut :: "Unit \<Rightarrow> merger \<Rightarrow> merger go" where
  "videoOut u m =
     (if pmtAt u = [] then Some (m\<lparr>mout := mout m @ pkts u\<rparr>)
      else do { m1 \<leftarrow> rebuild m; video_parts (pkts u) 0 (pmtAt u) m1 })"

end
