(* ===== verification/TsMergeRun.thy ===== *)
theory TsMergeRun
  imports TsMerge
begin

text \<open>
  The goroutines of \<open>internal/tsmerge/tsmerge.go\<close> as one step function.  Each scan function reads a
  packet, sends the frame it completes, when there is one, into its bounded channel, and goes on;
  \<open>run\<close> takes frames out and writes.  An event lets one goroutine do its next step; an event whose
  step cannot be taken (the channel is full or empty, the goroutine has returned) changes nothing.

  A step of \<open>run\<close> is everything from one receive of its own to the next.  That is not coarser than
  the code: between them it reads what the scanners write only in \<open>rebuild\<close>, each input's table once,
  and the scanners' steps before and after that read can be done before and after the whole step.
\<close>

section \<open>Scanning\<close>

text \<open>One step of a scan function: \<open>scan\<close> is what it does with a packet, \<open>final\<close> what it sends at the end.\<close>

definition scan_input :: "(bytes \<Rightarrow> scanner \<Rightarrow> (scanner \<times> Unit list) go) \<Rightarrow> (scanner \<Rightarrow> Unit list) \<Rightarrow> input \<Rightarrow> input go" where
  "scan_input scan final s =
     (if sst s \<noteq> Scanning then Some s
      else do {
        r \<leftarrow> next_packet (isrc s);
        case r of
          Inl e \<Rightarrow> Some (if final (iscan s) \<noteq> [] \<and> length (iq s) \<ge> queueUnits then s
                         else s\<lparr>iq := iq s @ final (iscan s), sst := Ending e\<rparr>)
        | Inr (pkt, r') \<Rightarrow> do {
            (s', us) \<leftarrow> scan pkt (iscan s);
            Some (if us \<noteq> [] \<and> length (iq s) \<ge> queueUnits then s
                  else s\<lparr>isrc := r', iq := iq s @ us, iscan := s'\<rparr>) } })"

text \<open>The same step when \<open>send\<close> finds the merge closed and gives the frame up.\<close>

definition refuse_input :: "(bytes \<Rightarrow> scanner \<Rightarrow> (scanner \<times> Unit list) go) \<Rightarrow> (scanner \<Rightarrow> Unit list) \<Rightarrow> input \<Rightarrow> input go" where
  "refuse_input scan final s =
     (if sst s \<noteq> Scanning then Some s
      else do {
        r \<leftarrow> next_packet (isrc s);
        case r of
          Inl e \<Rightarrow> Some (if final (iscan s) = [] then s else s\<lparr>sst := Ending e\<rparr>)
        | Inr (pkt, r') \<Rightarrow> do {
            (s', us) \<leftarrow> scan pkt (iscan s);
            Some (if us = [] then s else s\<lparr>sst := Returned\<rparr>) } })"

text \<open>A reader that was closed gives no more bytes, and an error.\<close>

definition shut_reader :: "read_end \<Rightarrow> input \<Rightarrow> input" where
  "shut_reader e s = s\<lparr>isrc := \<lparr>rbytes = [], rend = e\<rparr>\<rparr>"

text \<open>\<open>in.end(err)\<close>, the last thing a scan function does.\<close>

definition end_input :: "input \<Rightarrow> input" where
  "end_input s = (case sst s of Ending e \<Rightarrow> s\<lparr>ierr := e, iclosed := True, sst := Returned\<rparr> | _ \<Rightarrow> s)"

section \<open>The merge loop\<close>

text \<open>\<open>fail\<close>.\<close>

definition merge_fail :: "merge_error \<Rightarrow> merger \<Rightarrow> merger" where
  "merge_fail e m = m\<lparr>mdone := True, mplace := Stopped e\<rparr>"

definition upd_stream :: "nat \<Rightarrow> (astream \<Rightarrow> astream) \<Rightarrow> merger \<Rightarrow> merger" where
  "upd_stream i f m = m\<lparr>mst := (mst m)[i := f (mst m ! i)]\<rparr>"

text \<open>\<open>take\<close> with \<open>wait\<close>: the next frame of stream \<open>i\<close>, unless one is held or the stream has finished.
  \<open>tired\<close> says that the wait runs out (at once when the stream is late).  The inner \<open>None\<close> is a wait
  that goes on; the truth value is what \<open>take\<close> returns.\<close>

definition take_frame :: "bool \<Rightarrow> nat \<Rightarrow> merger \<Rightarrow> (merger \<times> bool) option go" where
  "take_frame tired i m = do {
     s \<leftarrow> at (mst m) (int i);
     if ahead s \<noteq> None \<or> afinished s then Some (Some (m, True))
     else do {
       a \<leftarrow> at (maudio m) (int i);
       case iq a of
         u # q \<Rightarrow> Some (Some (upd_stream i (\<lambda>s. s\<lparr>ahead := Some u, alate := False\<rparr>)
                              (m\<lparr>maudio := (maudio m)[i := a\<lparr>iq := q\<rparr>]\<rparr>), True))
       | [] \<Rightarrow>
           Some (if iclosed a then
                   if mdone m then Some (merge_fail ClosedPipe m, False)
                   else if ierr a \<noteq> EOF then Some (merge_fail (AudioEnded (ierr a)) m, False)
                   else Some (upd_stream i (\<lambda>s. s\<lparr>afinished := True\<rparr>) m, True)
                 else if tired then Some (upd_stream i (\<lambda>s. s\<lparr>alate := True\<rparr>) m, True)
                 else if mdone m then Some (merge_fail ClosedPipe m, False)
                 else None) } }"

text \<open>The body of the inner loop over stream \<open>i\<close>, once \<open>take\<close> has returned: the frame held goes after
  the video frame, is dropped, or goes out.\<close>

definition place_frame :: "Unit \<Rightarrow> nat \<Rightarrow> merger \<Rightarrow> merger go" where
  "place_frame v i m = do {
     s \<leftarrow> at (mst m) (int i);
     case ahead s of
       None \<Rightarrow>
         Some (if afinished s \<and> abegun s \<and> delta (uts v) (alast s) > soundLess
               then merge_fail AudioFinished m
               else m\<lparr>mplace := Drain v (Suc i)\<rparr>)
     | Some h \<Rightarrow>
         let d = delta (uts h) (uts v) in
         if hasTS h \<and> d > 0 \<and> d < farApart then Some (m\<lparr>mplace := Drain v (Suc i)\<rparr>)
         else if \<not> abegun s \<and> hasTS h \<and> d < - startTrim \<and> d > - farApart
         then Some (upd_stream i (\<lambda>s. s\<lparr>ahead := None\<rparr>) m)
         else audioOut i h (upd_stream i (\<lambda>s. s\<lparr>ahead := None, abegun := True,
                alast := (if hasTS h then uts h else alast s)\<rparr>) m) }"

text \<open>One step of \<open>run\<close>.  \<open>alt\<close> picks the other ready case of its select: the timer in \<open>wait\<close>, the
  closed merge while it waits for video.\<close>

definition run_step :: "bool \<Rightarrow> merger \<Rightarrow> merger go" where
  "run_step alt m =
     (case mplace m of
        Start i \<Rightarrow>
          if i < length (mst m) then do {
            r \<leftarrow> take_frame alt i m;
            Some (case r of None \<Rightarrow> m
                  | Some (m', ok) \<Rightarrow> if ok then m'\<lparr>mplace := Start (Suc i)\<rparr> else m') }
          else Some (m\<lparr>mplace := NextVideo\<rparr>)
      | NextVideo \<Rightarrow>
          if alt then Some (if mdone m then merge_fail ClosedPipe m else m)
          else (case iq (mvideo m) of
              v # q \<Rightarrow> Some (m\<lparr>mvideo := (mvideo m)\<lparr>iq := q\<rparr>, mout := [],
                               mplace := Drain v (if hasTS v then 0 else length (mst m))\<rparr>)
            | [] \<Rightarrow> Some (if iclosed (mvideo m) then merge_fail (VideoEnded (ierr (mvideo m))) m else m))
      | Drain v i \<Rightarrow>
          if i < length (mst m) then do {
            r \<leftarrow> take_frame alt i m;
            case r of None \<Rightarrow> Some m
            | Some (m', ok) \<Rightarrow> if ok then place_frame v i m' else Some m' }
          else do { m' \<leftarrow> videoOut v m; Some (m'\<lparr>mplace := Writing\<rparr>) }
      | Writing \<Rightarrow> Some (m\<lparr>mwritten := mwritten m @ mout m, mplace := NextVideo\<rparr>)
      | Stopped e \<Rightarrow> Some m)"

text \<open>The write fails: the reader has gone, after \<open>k\<close> bytes of it.\<close>

definition reader_gone :: "nat \<Rightarrow> merger \<Rightarrow> merger" where
  "reader_gone k m =
     (if mplace m = Writing
      then m\<lparr>mwritten := mwritten m @ take k (mout m), mdone := True, mplace := Stopped ReaderGone\<rparr>
      else m)"

section \<open>All together\<close>

datatype merge_event =
    ScanVideo | ScanAudio nat
  | RefuseVideo | RefuseAudio nat
  | ShutVideo read_end | ShutAudio nat read_end
  | EndVideo | EndAudio nat
  | RunStep bool
  | ReaderGoes nat
  | CloseMerger

definition on_audio :: "nat \<Rightarrow> (input \<Rightarrow> input go) \<Rightarrow> merger \<Rightarrow> merger go" where
  "on_audio i f m =
     (if i < length (maudio m) then do { a \<leftarrow> f (maudio m ! i); Some (m\<lparr>maudio := (maudio m)[i := a]\<rparr>) }
      else Some m)"

definition on_video :: "(input \<Rightarrow> input go) \<Rightarrow> merger \<Rightarrow> merger go" where
  "on_video f m = do { v \<leftarrow> f (mvideo m); Some (m\<lparr>mvideo := v\<rparr>) }"

fun merge_step :: "merge_event \<Rightarrow> merger \<Rightarrow> merger go" where
  "merge_step ScanVideo m = on_video (scan_input scan_video final_video) m"
| "merge_step (ScanAudio i) m = on_audio i (scan_input scan_audio final_audio) m"
| "merge_step RefuseVideo m = (if mdone m then on_video (refuse_input scan_video final_video) m else Some m)"
| "merge_step (RefuseAudio i) m = (if mdone m then on_audio i (refuse_input scan_audio final_audio) m else Some m)"
| "merge_step (ShutVideo e) m = (if mdone m then on_video (\<lambda>s. Some (shut_reader e s)) m else Some m)"
| "merge_step (ShutAudio i e) m = (if mdone m then on_audio i (\<lambda>s. Some (shut_reader e s)) m else Some m)"
| "merge_step EndVideo m = on_video (\<lambda>s. Some (end_input s)) m"
| "merge_step (EndAudio i) m = on_audio i (\<lambda>s. Some (end_input s)) m"
| "merge_step (RunStep alt) m = run_step alt m"
| "merge_step (ReaderGoes k) m = Some (reader_gone k m)"
| "merge_step CloseMerger m = Some (m\<lparr>mdone := True\<rparr>)"

end
