(* ===== verification/TsMergeScan.thy ===== *)
theory TsMergeScan
  imports TsMergeRun TsTables
begin

text \<open>
  What the scan functions of \<open>tsmerge.go\<close> do with an input.  \<open>packets\<close> is the reference for \<open>next\<close>:
  the packets of a byte stream, each starting at the first sync byte after the one before.  The
  contract of a scan function is the locale \<open>scan_contract\<close>: it does not panic, and the packets it
  takes are, in order, those of the frames it sends and of the frame it is collecting.  Both scan
  functions are interpretations of it.
\<close>

section \<open>Packets of a byte stream\<close>

definition from_sync :: "bytes \<Rightarrow> bytes" where
  "from_sync b = dropWhile (\<lambda>x. x \<noteq> 0x47) b"

lemma length_from_sync: "length (from_sync b) \<le> length b"
  by (simp add: from_sync_def length_dropWhile_le)

lemma from_sync_simps [simp]:
  "from_sync [] = []" "from_sync (x # xs) = (if x = 0x47 then x # xs else from_sync xs)"
  by (simp_all add: from_sync_def)

lemma from_sync_append: "from_sync (xs @ ys) = (if from_sync xs = [] then from_sync ys else from_sync xs @ ys)"
  by (induction xs) auto

lemma from_sync_idem: "from_sync (from_sync xs) = from_sync xs"
  by (induction xs) auto

function packets :: "bytes \<Rightarrow> bytes list" where
  "packets b =
     (let c = from_sync b in if length c < 188 then [] else take 188 c # packets (drop 188 c))"
  by pat_completeness auto
termination
proof (relation "measure length")
  fix b c :: bytes
  assume "c = from_sync b" "\<not> length c < 188"
  then show "(drop 188 c, b) \<in> measure length" using length_from_sync [of b] by simp
qed simp

declare packets.simps [simp del]

lemma packets_rule:
  "length (from_sync b) < 188 \<Longrightarrow> packets b = []"
  "188 \<le> length (from_sync b) \<Longrightarrow> packets b = take 188 (from_sync b) # packets (drop 188 (from_sync b))"
  by (simp_all add: packets.simps [of b] Let_def)

lemma packets_whole: "p \<in> set (packets b) \<Longrightarrow> length p = 188"
proof (induction b rule: packets.induct)
  case (1 b)
  then show ?case by (cases "length (from_sync b) < 188") (auto simp: packets_rule)
qed

lemma sync_from_eq:
  assumes "length pkt = 188" "0 \<le> i" "i \<le> 188"
  shows "sync_from pkt i = Some (188 - len (from_sync (drop (nat i) pkt)))"
  using assms
proof (induction pkt i rule: sync_from.induct)
  case (1 pkt i)
  show ?case
  proof (cases "i < 188")
    case True
    then have d: "drop (nat i) pkt = pkt ! nat i # drop (nat (i + 1)) pkt"
      using 1(2,3) by (simp add: nat_add_distrib Cons_nth_drop_Suc)
    have a: "at pkt i = Some (pkt ! nat i)" using 1(2,3) True by (simp add: go_simps len_def)
    show ?thesis
    proof (cases "pkt ! nat i = 0x47")
      case True
      then show ?thesis using a 1(2,3) \<open>i < 188\<close>
        by (simp add: sync_from.simps PacketSize_def d from_sync_def) (simp add: len_def)
    next
      case False
      then show ?thesis using 1(1) [of "pkt ! nat i"] 1(2,3) \<open>i < 188\<close> a
        by (subst sync_from.simps) (simp add: PacketSize_def d from_sync_def)
    qed
  next
    case False
    then show ?thesis using 1(2-4) by (subst sync_from.simps) (simp add: PacketSize_def from_sync_def len_def)
  qed
qed

lemma reader_upd: "(r :: reader)\<lparr>rbytes := b\<rparr> = \<lparr>rbytes = b, rend = rend r\<rparr>"
  by (cases r) simp

lemma resync_eq:
  assumes "length pkt = 188" "length (rbytes r) < fuel"
  shows "\<exists>e. resync fuel pkt r = Some
    (let c = from_sync (pkt @ rbytes r) in
     if length c < 188 then Inl e else Inr (take 188 c, \<lparr>rbytes = drop 188 c, rend = rend r\<rparr>))"
  using assms
proof (induction fuel arbitrary: pkt r)
  case 0
  then show ?case by simp
next
  case (Suc f)
  obtain x xs where x: "pkt = x # xs" "length xs = 187" using Suc.prems(1) by (cases pkt) auto
  show ?case
  proof (cases "x = 0x47")
    case True
    moreover have "r = \<lparr>rbytes = rbytes r, rend = rend r\<rparr>" by simp
    ultimately show ?thesis using x Suc.prems(1)
      by (simp add: resync.simps go_simps len_def Let_def)
  next
    case False
    define t where "t = from_sync xs"
    have t: "length t \<le> 187" using length_from_sync [of xs] x by (simp add: t_def)
    have i: "sync_from pkt 1 = Some (188 - len t)"
      using sync_from_eq [of pkt 1] Suc.prems(1) x by (simp add: t_def)
    have s: "slice_from pkt (188 - len t) = Some t"
    proof -
      have "xs = takeWhile (\<lambda>x. x \<noteq> 0x47) xs @ t" by (simp add: t_def from_sync_def)
      then have "drop (187 - length t) xs = t" using x(2)
        by (metis add_diff_cancel_right' append_eq_conv_conj length_append)
      moreover have "nat (188 - len t) = Suc (187 - length t)" using t by (simp add: len_def nat_diff_distrib)
      ultimately show ?thesis using t x by (simp add: slice_from_def len_def)
    qed
    have n: "nat (PacketSize - len t) = 188 - length t" by (simp add: PacketSize_def len_def)
    have c: "from_sync (pkt @ rbytes r) = from_sync (t @ rbytes r)"
      using False x by (simp add: t_def from_sync_append from_sync_idem)
    have short: "length (from_sync (t @ rbytes r)) \<le> length t + length (rbytes r)"
      using length_from_sync [of "t @ rbytes r"] by simp
    show ?thesis
    proof (cases "188 - length t \<le> length (rbytes r)")
      case True
      let ?fill = "take (188 - length t) (rbytes r)" and ?r = "\<lparr>rbytes = drop (188 - length t) (rbytes r), rend = rend r\<rparr>"
      have "length (t @ ?fill) = 188" "length (rbytes ?r) < f" using True t Suc.prems(2) by auto
      note ih = Suc.IH [OF this]
      have cat: "(t @ ?fill) @ rbytes ?r = t @ rbytes r" by simp
      show ?thesis
      proof (cases "length (from_sync (t @ rbytes r)) < 188")
        case True
        with ih cat obtain e where "resync f (t @ ?fill) ?r = Some (Inl e)" by (auto simp: Let_def)
        then show ?thesis using True False x i s n c \<open>188 - length t \<le> length (rbytes r)\<close>
          by (subst resync.simps) (auto simp: go_simps len_def ReadFull_def Let_def reader_upd)
      next
        case whole: False
        with ih cat have "resync f (t @ ?fill) ?r = Some (Inr (take 188 (from_sync (t @ rbytes r)),
            \<lparr>rbytes = drop 188 (from_sync (t @ rbytes r)), rend = rend r\<rparr>))" by (auto simp: Let_def)
        then show ?thesis using whole False x i s n c \<open>188 - length t \<le> length (rbytes r)\<close>
          by (subst resync.simps) (auto simp: go_simps len_def ReadFull_def Let_def reader_upd)
      qed
    next
      case no: False
      then have "length (from_sync (t @ rbytes r)) < 188" using short t by linarith
      then show ?thesis using False x i s n no c
        by (subst resync.simps) (auto simp: go_simps len_def ReadFull_def Let_def reader_upd)
    qed
  qed
qed

lemma next_packet_eq:
  "\<exists>e. next_packet r = Some
    (let c = from_sync (rbytes r) in
     if length c < 188 then Inl e else Inr (take 188 c, \<lparr>rbytes = drop 188 c, rend = rend r\<rparr>))"
proof (cases "188 \<le> length (rbytes r)")
  case True
  then have "length (take 188 (rbytes r)) = 188" by simp
  from resync_eq [OF this, of "\<lparr>rbytes = drop 188 (rbytes r), rend = rend r\<rparr>" "Suc (length (rbytes r) - 188)"] True
  show ?thesis by (auto simp: next_packet_def ReadFull_def PacketSize_def Let_def reader_upd)
next
  case False
  then show ?thesis using length_from_sync [of "rbytes r"]
    by (auto simp: next_packet_def ReadFull_def PacketSize_def Let_def reader_upd)
qed

lemma next_packet_cases:
  obtains (no_more) e where "next_packet r = Some (Inl e)" "packets (rbytes r) = []"
  | (one) pkt r' where "next_packet r = Some (Inr (pkt, r'))" "length pkt = 188"
      "packets (rbytes r) = pkt # packets (rbytes r')" "rend r' = rend r"
proof -
  obtain e where e: "next_packet r = Some
    (let c = from_sync (rbytes r) in
     if length c < 188 then Inl e else Inr (take 188 c, \<lparr>rbytes = drop 188 c, rend = rend r\<rparr>))"
    using next_packet_eq by blast
  show thesis
  proof (cases "length (from_sync (rbytes r)) < 188")
    case True
    then show thesis using e no_more packets_rule(1) by (simp add: Let_def)
  next
    case False
    then show thesis using e one packets_rule(2) [of "rbytes r"] by (simp add: Let_def)
  qed
qed


section \<open>The contract of a scan function\<close>

text \<open>A frame is whole packets, and the places of the table in it are in order and inside it.\<close>

definition unit_ok :: "Unit \<Rightarrow> bool" where
  "unit_ok u \<longleftrightarrow> 188 dvd length (pkts u) \<and> list_all (\<lambda>i. 0 \<le> i \<and> i \<le> len (pkts u)) (pmtAt u) \<and>
     sorted (pmtAt u)"

text \<open>A scan function over a run of packets: the locals after them and the frames sent; and the packets
  of them it takes.\<close>

fun scan_run :: "(bytes \<Rightarrow> scanner \<Rightarrow> (scanner \<times> Unit list) go) \<Rightarrow> bytes list \<Rightarrow> scanner \<Rightarrow> (scanner \<times> Unit list) go" where
  "scan_run sc [] s = Some (s, [])"
| "scan_run sc (p # ps) s = do {
     (s1, us) \<leftarrow> sc p s;
     (s2, vs) \<leftarrow> scan_run sc ps s1;
     Some (s2, us @ vs) }"

fun taken :: "(bytes \<Rightarrow> scanner \<Rightarrow> (scanner \<times> Unit list) go) \<Rightarrow> (scanner \<Rightarrow> bytes \<Rightarrow> bool) \<Rightarrow> scanner
    \<Rightarrow> bytes list \<Rightarrow> bytes list" where
  "taken sc takes s [] = []"
| "taken sc takes s (p # ps) =
     (case sc p s of
        None \<Rightarrow> []
      | Some (s1, us) \<Rightarrow> (if takes s p then [p] else []) @ taken sc takes s1 ps)"

lemma scan_run_append:
  "scan_run sc (ps @ qs) s = do {
     (s1, us) \<leftarrow> scan_run sc ps s;
     (s2, vs) \<leftarrow> scan_run sc qs s1;
     Some (s2, us @ vs) }"
  by (induction ps arbitrary: s) (auto split: Option.bind_splits)

lemma taken_prefix: "prefix ps qs \<Longrightarrow> prefix (taken sc takes s ps) (taken sc takes s qs)"
proof (induction ps arbitrary: s qs)
  case (Cons p ps)
  then obtain qs' where "qs = p # qs'" "prefix ps qs'" by (cases qs) auto
  then show ?case using Cons.IH by (auto split: option.split)
qed simp

text \<open>An input of the merge against the byte stream it started from: the packets it has read, the frames
  it has sent, of which the merge has received \<open>got\<close> and the rest waits in the channel.  \<open>stopped\<close> says
  that the merge was closed; only then may packets or the last frame be given up.\<close>

definition input_rel :: "(bytes \<Rightarrow> scanner \<Rightarrow> (scanner \<times> Unit list) go) \<Rightarrow> (scanner \<Rightarrow> Unit list) \<Rightarrow> bool \<Rightarrow> bytes
    \<Rightarrow> input \<Rightarrow> Unit list \<Rightarrow> bool" where
  "input_rel sc fin stopped src a got \<longleftrightarrow> (\<exists>ps us. list_all (\<lambda>p. length p = 188) ps \<and>
     scan_run sc ps new_scanner = Some (iscan a, us) \<and>
     prefix (ps @ packets (rbytes (isrc a))) (packets src) \<and>
     (\<not> stopped \<longrightarrow> ps @ packets (rbytes (isrc a)) = packets src) \<and>
     (sst a = Scanning \<longrightarrow> got @ iq a = us \<and> \<not> iclosed a) \<and>
     (sst a \<noteq> Scanning \<longrightarrow> got @ iq a = us \<or> got @ iq a = us @ fin (iscan a)) \<and>
     (sst a \<noteq> Scanning \<and> \<not> stopped \<longrightarrow> packets (rbytes (isrc a)) = [] \<and> got @ iq a = us @ fin (iscan a)))"

lemma input_rel_stop: "input_rel sc fin st src a got \<Longrightarrow> input_rel sc fin True src a got"
  unfolding input_rel_def by blast

lemma input_rel_receive:
  "input_rel sc fin st src a got \<Longrightarrow> iq a = u # q \<Longrightarrow> input_rel sc fin st src (a\<lparr>iq := q\<rparr>) (got @ [u])"
  unfolding input_rel_def by simp

lemma input_rel_shut:
  "input_rel sc fin True src a got \<Longrightarrow> input_rel sc fin True src (shut_reader e a) got" (is "?P \<Longrightarrow> ?Q")
proof -
  have p: "packets [] = []" by (simp add: packets_rule)
  assume "input_rel sc fin True src a got"
  then obtain ps us where "list_all (\<lambda>p. length p = 188) ps" "scan_run sc ps new_scanner = Some (iscan a, us)"
    "prefix ps (packets src)" "sst a = Scanning \<longrightarrow> got @ iq a = us \<and> \<not> iclosed a"
    "sst a \<noteq> Scanning \<longrightarrow> got @ iq a = us \<or> got @ iq a = us @ fin (iscan a)"
    unfolding input_rel_def by (blast dest: append_prefixD)
  then show ?Q unfolding input_rel_def shut_reader_def
    by (intro exI [of _ ps] exI [of _ us]) (simp add: p)
qed

lemma input_rel_end:
  "input_rel sc fin st src a got \<Longrightarrow> input_rel sc fin st src (end_input a) got"
  unfolding input_rel_def end_input_def by (auto split: scan_status.split)

lemma input_rel_new: "input_rel sc fin st (rbytes r) (new_input r) []"
  unfolding input_rel_def new_input_def by (intro exI [of _ "[]"]) simp

locale scan_contract =
  fixes scan :: "bytes \<Rightarrow> scanner \<Rightarrow> (scanner \<times> Unit list) go"
    and final :: "scanner \<Rightarrow> Unit list"
    and takes :: "scanner \<Rightarrow> bytes \<Rightarrow> bool"
    and ok :: "scanner \<Rightarrow> bool"
  assumes scan_law: "ok s \<Longrightarrow> length p = 188 \<Longrightarrow> \<exists>s' us. scan p s = Some (s', us) \<and> ok s' \<and>
      length us \<le> 1 \<and> list_all unit_ok us \<and>
      concat (map pkts us) @ pkts (scur s') = pkts (scur s) @ (if takes s p then p else [])"
    and final_law: "ok s \<Longrightarrow> concat (map pkts (final s)) = pkts (scur s) \<and> list_all unit_ok (final s) \<and>
      length (final s) \<le> 1"
    and new_law: "ok new_scanner"
begin

lemma run_law:
  "ok s \<Longrightarrow> list_all (\<lambda>p. length p = 188) ps \<Longrightarrow> \<exists>s' us. scan_run scan ps s = Some (s', us) \<and> ok s' \<and>
     list_all unit_ok us \<and>
     concat (map pkts us) @ pkts (scur s') = pkts (scur s) @ concat (taken scan takes s ps)"
proof (induction ps arbitrary: s)
  case Nil
  then show ?case by simp
next
  case (Cons p ps)
  then obtain s1 us where 1: "scan p s = Some (s1, us)" "ok s1" "list_all unit_ok us"
    "concat (map pkts us) @ pkts (scur s1) = pkts (scur s) @ (if takes s p then p else [])"
    using scan_law [of s p] by auto
  from Cons.IH [OF 1(2)] Cons.prems(2) obtain s2 vs where 2: "scan_run scan ps s1 = Some (s2, vs)" "ok s2"
    "list_all unit_ok vs"
    "concat (map pkts vs) @ pkts (scur s2) = pkts (scur s1) @ concat (taken scan takes s1 ps)" by auto
  have "concat (map pkts (us @ vs)) @ pkts (scur s2) = concat (map pkts us) @ pkts (scur s1) @ concat (taken scan takes s1 ps)"
    using 2(4) by simp
  also have "\<dots> = pkts (scur s) @ concat (taken scan takes s (p # ps))" using 1(1,4) by simp
  finally show ?case using 1 2 by simp
qed

text \<open>With the frame sent at the end of the stream nothing taken is left over.\<close>

lemma whole_law:
  assumes "ok s" "pkts (scur s) = []" "list_all (\<lambda>p. length p = 188) ps" "scan_run scan ps s = Some (s', us)"
  shows "concat (map pkts (us @ final s')) = concat (taken scan takes s ps)"
  using run_law [OF assms(1,3)] assms(2,4) final_law [of s'] by auto

lemma sent_law:
  assumes "ok s" "pkts (scur s) = []" "list_all (\<lambda>p. length p = 188) ps" "scan_run scan ps s = Some (s', us)"
  shows "prefix (concat (map pkts us)) (concat (taken scan takes s ps))"
  using run_law [OF assms(1,3)] assms(2,4) by (auto intro: prefixI [OF sym])

lemma new_pkts: "pkts (scur new_scanner) = []"
  by (simp add: new_scanner_def no_unit_def)

lemma input_rel_ok: "input_rel scan final st src a got \<Longrightarrow> ok (iscan a)"
  using run_law [OF new_law] by (fastforce simp: input_rel_def)

lemma scan_input_rel:
  assumes "input_rel scan final st src a got"
  shows "\<exists>b. scan_input scan final a = Some b \<and> input_rel scan final st src b got"
proof (cases "sst a = Scanning")
  case False
  then show ?thesis using assms by (simp add: scan_input_def)
next
  case True
  from assms True obtain ps us where r: "list_all (\<lambda>p. length p = 188) ps"
    "scan_run scan ps new_scanner = Some (iscan a, us)"
    "prefix (ps @ packets (rbytes (isrc a))) (packets src)"
    "\<not> st \<longrightarrow> ps @ packets (rbytes (isrc a)) = packets src" "got @ iq a = us" "\<not> iclosed a"
    unfolding input_rel_def by blast
  show ?thesis
  proof (cases "isrc a" rule: next_packet_cases)
    case (no_more e)
    let ?b = "a\<lparr>iq := iq a @ final (iscan a), sst := Ending e\<rparr>"
    have "input_rel scan final st src ?b got"
      unfolding input_rel_def using r no_more by (intro exI [of _ ps] exI [of _ us]) auto
    then show ?thesis using True no_more assms by (simp add: scan_input_def)
  next
    case (one pkt r')
    obtain s' vs where s: "scan pkt (iscan a) = Some (s', vs)"
      using scan_law [OF input_rel_ok [OF assms] one(2)] by blast
    let ?b = "a\<lparr>isrc := r', iq := iq a @ vs, iscan := s'\<rparr>"
    have "input_rel scan final st src ?b got"
      unfolding input_rel_def using r one s True
      by (intro exI [of _ "ps @ [pkt]"] exI [of _ "us @ vs"]) (simp add: scan_run_append)
    then show ?thesis using True one s assms by (simp add: scan_input_def)
  qed
qed

lemma refuse_input_rel:
  assumes "input_rel scan final True src a got"
  shows "\<exists>b. refuse_input scan final a = Some b \<and> input_rel scan final True src b got"
proof (cases "sst a = Scanning")
  case False
  then show ?thesis using assms by (simp add: refuse_input_def)
next
  case True
  have st: "input_rel scan final True src (a\<lparr>sst := x\<rparr>) got" if "x \<noteq> Scanning" for x
    using assms True that unfolding input_rel_def by auto
  show ?thesis
  proof (cases "isrc a" rule: next_packet_cases)
    case (no_more e)
    then show ?thesis using True assms st by (simp add: refuse_input_def)
  next
    case (one pkt r')
    obtain s' vs where "scan pkt (iscan a) = Some (s', vs)"
      using scan_law [OF input_rel_ok [OF assms] one(2)] by blast
    then show ?thesis using True one assms st by (simp add: refuse_input_def)
  qed
qed

text \<open>What the merge has received is what the stream has, as far as it has got.\<close>

lemma received_prefix:
  assumes "input_rel scan final st src a got"
  shows "prefix (concat (map pkts got)) (concat (taken scan takes new_scanner (packets src)))"
    "list_all unit_ok got"
proof -
  from assms obtain ps us where r: "list_all (\<lambda>p. length p = 188) ps"
    "scan_run scan ps new_scanner = Some (iscan a, us)" "prefix ps (packets src)"
    "got @ iq a = us \<or> got @ iq a = us @ final (iscan a)"
    unfolding input_rel_def by (cases "sst a = Scanning") (blast dest: append_prefixD)+
  note w = whole_law [OF new_law new_pkts r(1,2)]
  have pre: "prefix got (us @ final (iscan a))"
    using r(4) by (metis append_assoc prefixI)
  then obtain zs where z: "us @ final (iscan a) = got @ zs" by (auto simp: prefix_def)
  have "concat (map pkts (us @ final (iscan a))) = concat (map pkts got) @ concat (map pkts zs)"
    unfolding z by simp
  then have "prefix (concat (map pkts got)) (concat (map pkts (us @ final (iscan a))))" by (rule prefixI)
  moreover have "prefix (concat (taken scan takes new_scanner ps)) (concat (taken scan takes new_scanner (packets src)))"
  proof -
    obtain ts where "taken scan takes new_scanner (packets src) = taken scan takes new_scanner ps @ ts"
      using taken_prefix [OF r(3)] unfolding prefix_def by blast
    then show ?thesis by (simp add: prefix_def)
  qed
  ultimately show "prefix (concat (map pkts got)) (concat (taken scan takes new_scanner (packets src)))"
    using w by (metis prefix_order.trans)
  have "list_all unit_ok (us @ final (iscan a))"
    using run_law [OF new_law r(1)] r(2) final_law by auto
  then show "list_all unit_ok got" by (simp only: z list_all_append)
qed

lemma received_all:
  assumes "input_rel scan final False src a got" "sst a \<noteq> Scanning" "iq a = []"
  shows "concat (map pkts got) = concat (taken scan takes new_scanner (packets src))"
proof -
  from assms obtain ps us where r: "list_all (\<lambda>p. length p = 188) ps"
    "scan_run scan ps new_scanner = Some (iscan a, us)" "ps = packets src" "got = us @ final (iscan a)"
    unfolding input_rel_def by auto
  show ?thesis using whole_law [OF new_law new_pkts r(1,2)] r(3,4) by simp
qed

end

text \<open>The table an input has seen: a complete section, or none.\<close>

definition section_ok :: "bytes \<Rightarrow> bool" where
  "section_ok sec \<longleftrightarrow> sec = [] \<or> (len sec = 3 + len12 (sec ! 1) (sec ! 2) \<and> len sec \<le> MaxSectionBytes)"

lemma setPMT_law:
  assumes "asm_Feed a pkt = Some (a', Some sec)" "section_ok (ipmt s)"
  shows "section_ok (ipmt (setPMT pid sec s))" "scur (setPMT pid sec s) = scur s"
    "spmtPID (setPMT pid sec s) = spmtPID s" "sstarted (setPMT pid sec s) = sstarted s"
proof -
  obtain b where "asm_complete b = Some (a', Some sec)" using asm_Feed_complete [OF assms(1)] by blast
  from asm_complete_whole [OF this] have "section_ok sec" by (simp add: section_ok_def MaxSectionBytes_def)
  then show "section_ok (ipmt (setPMT pid sec s))" using assms(2) by (simp add: setPMT_def)
qed (simp_all add: setPMT_def)

section \<open>The video stream\<close>

text \<open>\<open>passed\<close> is the reference: all packets but the null packets and those on the PID that the
  last program association table names for the PMT.\<close>

definition pat_names :: "u16 \<Rightarrow> bytes \<Rightarrow> u16" where
  "pat_names pmt p =
     (if PID p = Some 0 \<and> PUSI p = Some True \<and> (\<exists>b1. at p 1 = Some b1 \<and> b1 AND 0x80 = 0)
      then (case PMTPID p of Some q \<Rightarrow> if q \<noteq> 0 then q else pmt | None \<Rightarrow> pmt)
      else pmt)"

definition passes :: "u16 \<Rightarrow> bytes \<Rightarrow> bool" where
  "passes pmt p \<longleftrightarrow> PID p \<noteq> Some 0x1fff \<and> \<not> (pmt \<noteq> 0 \<and> PID p = Some pmt)"

fun passed :: "u16 \<Rightarrow> bytes list \<Rightarrow> bytes list" where
  "passed pmt [] = []"
| "passed pmt (p # ps) = (if passes pmt p then [p] else []) @ passed (pat_names pmt p) ps"

definition video_takes :: "scanner \<Rightarrow> bytes \<Rightarrow> bool" where
  "video_takes s p = passes (spmtPID s) p"

definition video_ok :: "scanner \<Rightarrow> bool" where
  "video_ok s \<longleftrightarrow> unit_ok (scur s) \<and> section_ok (ipmt s)"

lemma dts_safe [go_safe]:
  assumes "len pkt = 188" shows "\<exists>t. dts pkt = Some t"
proof -
  obtain off where off: "PayloadOffset pkt = Some off" using PayloadOffset_safe [of pkt] assms by auto
  obtain t where t: "PTS pkt = Some t" using PTS_safe [of pkt] assms by auto
  show ?thesis
  proof (cases "off < 0 \<or> off + 19 > len pkt")
    case True
    then show ?thesis using off t by (auto simp: dts_def)
  next
    case False
    then have s: "slice_from pkt off = Some (drop (nat off) pkt)" "len (drop (nat off) pkt) \<ge> 19"
      by (auto simp: slice_from_def len_drop)
    then obtain b where "pes_start (drop (nat off) pkt) = Some b"
      using pes_start_safe [of "drop (nat off) pkt"] by auto
    then show ?thesis using off s t False by (auto simp: dts_def go_simps)
  qed
qed

lemma unit_ok_simps [simp]: "unit_ok no_unit" "unit_ok (timed t u) = unit_ok u"
  "pkts (timed t u) = pkts u" "pmtAt (timed t u) = pmtAt u"
  by (simp_all add: unit_ok_def no_unit_def timed_def split: option.split)

lemma unit_ok_grow:
  assumes "unit_ok u" "length p = 188" shows "unit_ok (u\<lparr>pkts := pkts u @ p\<rparr>)"
  using assms by (auto simp: unit_ok_def list_all_iff intro!: add_increasing2)

lemma unit_ok_table:
  assumes "unit_ok u" shows "unit_ok (u\<lparr>pmtAt := pmtAt u @ [len (pkts u)]\<rparr>)"
  using assms by (auto simp: unit_ok_def list_all_iff sorted_append)

lemma no_unit_simps [simp]: "pkts no_unit = []" "pmtAt no_unit = []"
  by (simp_all add: no_unit_def)

lemma flush_unit_law:
  assumes "flush_unit s = (s', us)" "unit_ok (scur s)"
  shows "pkts (scur s') = []" "concat (map pkts us) = pkts (scur s)" "list_all unit_ok us" "length us \<le> 1"
    "unit_ok (scur s')" "s' = s\<lparr>scur := scur s'\<rparr>"
  using assms by (auto simp: flush_unit_def split: if_splits)

lemma keep_video_law:
  assumes "keep_video p s = (s', us)" "unit_ok (scur s)" "length p = 188"
  shows "concat (map pkts us) @ pkts (scur s') = pkts (scur s) @ p" "list_all unit_ok us" "length us \<le> 1"
    "unit_ok (scur s')" "s' = s\<lparr>scur := scur s'\<rparr>" "pkts (scur s) = [] \<Longrightarrow> us = []"
proof -
  obtain s1 us1 where 1: "(if len (pkts (scur s)) \<ge> maxUnitBytes \<and> \<not> hasTS (scur s)
      then flush_unit s else (s, [])) = (s1, us1)" by fastforce
  have s: "s' = s1\<lparr>scur := (scur s1)\<lparr>pkts := pkts (scur s1) @ p\<rparr>\<rparr>" "us = us1"
    using assms(1) 1 by (auto simp: keep_video_def Let_def split: prod.splits)
  have k: "concat (map pkts us1) @ pkts (scur s1) = pkts (scur s) \<and> list_all unit_ok us1 \<and> length us1 \<le> 1 \<and>
      unit_ok (scur s1) \<and> s1 = s\<lparr>scur := scur s1\<rparr>"
    using 1 flush_unit_law [of s s1 us1] assms(2) by (auto split: if_splits)
  have e: "us1 = []" if "pkts (scur s) = []"
    using that 1 by (auto simp: maxUnitBytes_def split: if_splits)
  show "concat (map pkts us) @ pkts (scur s') = pkts (scur s) @ p"
    using s k by (metis (no_types, lifting) append.assoc scanner.select_convs(8) scanner.surjective
        scanner.update_convs(8) Unit.select_convs(1) Unit.surjective Unit.update_convs(1))
  show "list_all unit_ok us" "length us \<le> 1" using s k by auto
  show "unit_ok (scur s')" using s k unit_ok_grow assms(3) by auto
  show "s' = s\<lparr>scur := scur s'\<rparr>" using s k by (metis (no_types, lifting) scanner.fold_congs(8) scanner.surjective scanner.update_convs(8) scanner.select_convs(8))
  show "pkts (scur s) = [] \<Longrightarrow> us = []" using e s by simp
qed


lemma scan_video_law:
  assumes "video_ok s" "length p = 188"
  shows "\<exists>s' us. scan_video p s = Some (s', us) \<and> video_ok s' \<and> length us \<le> 1 \<and> list_all unit_ok us \<and>
    concat (map pkts us) @ pkts (scur s') = pkts (scur s) @ (if video_takes s p then p else []) \<and>
    spmtPID s' = pat_names (spmtPID s) p"
proof -
  have len: "len p = 188" using assms(2) by (simp add: len_def)
  obtain pid b1 pusi where r: "PID p = Some pid" "at p 1 = Some b1" "PUSI p = Some pusi"
    using PID_safe [of p] PUSI_safe [of p] len by (auto simp: at_def)
  obtain q where q: "PMTPID p = Some q" using PMTPID_safe [of p] len by auto
  obtain a sec where f: "asm_Feed (sasm s) p = Some (a, sec)" using asm_Feed_safe [of p "sasm s"] len by auto
  obtain t where t: "dts p = Some t" using dts_safe [OF len] by auto
  note ok = assms(1) [unfolded video_ok_def, THEN conjunct1] and tab = assms(1) [unfolded video_ok_def, THEN conjunct2]
  consider (null) "pid = 0x1fff" | (pat) "pid = 0" "pusi" "b1 AND 0x80 = 0"
    | (pmt) "pid \<noteq> 0x1fff" "\<not> (pid = 0 \<and> pusi \<and> b1 AND 0x80 = 0)" "spmtPID s \<noteq> 0" "pid = spmtPID s"
    | (start) "pid \<noteq> 0x1fff" "\<not> (pid = 0 \<and> pusi \<and> b1 AND 0x80 = 0)" "\<not> (spmtPID s \<noteq> 0 \<and> pid = spmtPID s)"
        "svideoPID s \<noteq> 0" "pid = svideoPID s" "pusi"
    | (other) "pid \<noteq> 0x1fff" "\<not> (pid = 0 \<and> pusi \<and> b1 AND 0x80 = 0)" "\<not> (spmtPID s \<noteq> 0 \<and> pid = spmtPID s)"
        "\<not> (svideoPID s \<noteq> 0 \<and> pid = svideoPID s \<and> pusi)" by blast
  then show ?thesis
  proof cases
    case null
    then show ?thesis using assms r by (simp add: scan_video_def video_takes_def passes_def pat_names_def)
  next
    case pat
    let ?s = "if q \<noteq> 0 \<and> q \<noteq> spmtPID s then s\<lparr>spmtPID := q, sasm := asm_Reset (sasm s)\<rparr> else s"
    obtain s' us where k: "keep_video p ?s = (s', us)" by fastforce
    have c: "scur ?s = scur s" "ipmt ?s = ipmt s" "spmtPID ?s = pat_names (spmtPID s) p"
      using pat r q by (auto simp: pat_names_def)
    note law = keep_video_law [OF k _ assms(2), unfolded c(1), OF ok]
    have "spmtPID s' = spmtPID ?s" "ipmt s' = ipmt ?s" by (subst law(5), simp)+
    then show ?thesis using pat r q k law c tab
      by (auto simp: scan_video_def video_takes_def passes_def video_ok_def)
  next
    case pmt
    have n: "pat_names (spmtPID s) p = spmtPID s" "\<not> video_takes s p"
      using pmt r by (auto simp: pat_names_def video_takes_def passes_def)
    show ?thesis
    proof (cases "sec = None \<or> b1 AND 0x80 \<noteq> 0")
      case True
      then show ?thesis using pmt r f n ok tab by (auto simp: scan_video_def video_ok_def split: option.split)
    next
      case False
      then obtain sc where sc: "sec = Some sc" by auto
      obtain m where m: "ParsePMTSection sc = Some m" using ParsePMTSection_safe by blast
      have f': "asm_Feed (sasm s) p = Some (a, Some sc)" "section_ok (ipmt (s\<lparr>sasm := a\<rparr>))" using f sc tab by simp_all
      show ?thesis using False sc m pmt r f n unit_ok_table [OF ok] setPMT_law [OF f']
        by (cases m) (auto simp: scan_video_def video_ok_def)
    qed
  next
    case start
    obtain s1 us1 where fl: "flush_unit s = (s1, us1)" by fastforce
    note l1 = flush_unit_law [OF fl ok]
    obtain s2 us2 where k: "keep_video p (s1\<lparr>scur := timed t (scur s1)\<rparr>) = (s2, us2)" by fastforce
    have "unit_ok (scur (s1\<lparr>scur := timed t (scur s1)\<rparr>))" using l1 by simp
    note l2 = keep_video_law [OF k this assms(2)]
    have e: "us2 = []" "pkts (scur s2) = p" using l2 l1 by auto
    have "spmtPID s2 = spmtPID s1" "ipmt s2 = ipmt s1" by (subst l2(5), simp)+
    moreover have "spmtPID s1 = spmtPID s" "ipmt s1 = ipmt s" by (subst l1(6), simp)+
    ultimately have "spmtPID s2 = spmtPID s" "section_ok (ipmt s2)" using tab by simp_all
    moreover have "pat_names (spmtPID s) p = spmtPID s" "video_takes s p"
      using start r by (auto simp: pat_names_def video_takes_def passes_def)
    moreover have "scan_video p s = Some (s2, us1)" using start r t fl k e by (auto simp: scan_video_def)
    ultimately show ?thesis using l1 l2 e by (simp add: video_ok_def)
  next
    case other
    obtain s' us where k: "keep_video p s = (s', us)" by fastforce
    note law = keep_video_law [OF k ok assms(2)]
    have "spmtPID s' = spmtPID s" "ipmt s' = ipmt s" by (subst law(5), simp)+
    moreover have "pat_names (spmtPID s) p = spmtPID s" "video_takes s p"
      using other r by (auto simp: pat_names_def video_takes_def passes_def)
    moreover have "scan_video p s = Some (s', us)" using other r k by (auto simp: scan_video_def)
    ultimately show ?thesis using law tab by (simp add: video_ok_def)
  qed
qed

interpretation vscan: scan_contract scan_video final_video video_takes video_ok
proof
  fix s :: scanner and p :: bytes
  assume "video_ok s" "length p = 188"
  from scan_video_law [OF this] show "\<exists>s' us. scan_video p s = Some (s', us) \<and> video_ok s' \<and>
      length us \<le> 1 \<and> list_all unit_ok us \<and>
      concat (map pkts us) @ pkts (scur s') = pkts (scur s) @ (if video_takes s p then p else [])" by blast
next
  fix s
  assume "video_ok s"
  then show "concat (map pkts (final_video s)) = pkts (scur s) \<and> list_all unit_ok (final_video s) \<and>
      length (final_video s) \<le> 1"
    using flush_unit_law [of s "fst (flush_unit s)" "snd (flush_unit s)"]
    by (simp add: final_video_def video_ok_def)
qed (simp add: video_ok_def new_scanner_def section_ok_def)

lemma taken_video:
  "video_ok s \<Longrightarrow> list_all (\<lambda>p. length p = 188) ps \<Longrightarrow> taken scan_video video_takes s ps = passed (spmtPID s) ps"
proof (induction ps arbitrary: s)
  case (Cons p ps)
  then obtain s' us where "scan_video p s = Some (s', us)" "video_ok s'" "spmtPID s' = pat_names (spmtPID s) p"
    using scan_video_law [of s p] by auto
  then show ?case using Cons by (simp add: video_takes_def)
qed simp

section \<open>The audio streams\<close>

text \<open>A packet of an elementary stream that the audio stream's own table declares, once a frame
  has begun.\<close>

definition audio_takes :: "scanner \<Rightarrow> bytes \<Rightarrow> bool" where
  "audio_takes s p \<longleftrightarrow> (case PID p of None \<Rightarrow> False | Some pid \<Rightarrow>
     \<not> (pid = 0 \<and> PUSI p = Some True \<and> (\<exists>b1. at p 1 = Some b1 \<and> b1 AND 0x80 = 0)) \<and>
     \<not> (spmtPID s \<noteq> 0 \<and> pid = spmtPID s) \<and> ses s pid \<and> (sstarted s \<or> PUSI p = Some True))"

definition audio_ok :: "scanner \<Rightarrow> bool" where
  "audio_ok s \<longleftrightarrow> section_ok (ipmt s) \<and> unit_ok (scur s) \<and> pmtAt (scur s) = [] \<and> (\<not> sstarted s \<longrightarrow> pkts (scur s) = [])"

lemma scan_audio_law:
  assumes "audio_ok s" "length p = 188"
  shows "\<exists>s' us. scan_audio p s = Some (s', us) \<and> audio_ok s' \<and> length us \<le> 1 \<and> list_all unit_ok us \<and>
    concat (map pkts us) @ pkts (scur s') = pkts (scur s) @ (if audio_takes s p then p else [])"
proof -
  have len: "len p = 188" using assms(2) by (simp add: len_def)
  obtain pid b1 pusi where r: "PID p = Some pid" "at p 1 = Some b1" "PUSI p = Some pusi"
    using PID_safe [of p] PUSI_safe [of p] len by (auto simp: at_def)
  obtain q where q: "PMTPID p = Some q" using PMTPID_safe [of p] len by auto
  obtain a sec where f: "asm_Feed (sasm s) p = Some (a, sec)" using asm_Feed_safe [of p "sasm s"] len by auto
  obtain t where t: "PTS p = Some t" using PTS_safe [of p] len by auto
  consider (pat) "pid = 0" "pusi" "b1 AND 0x80 = 0"
    | (pmt) "\<not> (pid = 0 \<and> pusi \<and> b1 AND 0x80 = 0)" "spmtPID s \<noteq> 0" "pid = spmtPID s"
    | (other) "\<not> (pid = 0 \<and> pusi \<and> b1 AND 0x80 = 0)" "\<not> (spmtPID s \<noteq> 0 \<and> pid = spmtPID s)" by blast
  then show ?thesis
  proof cases
    case pat
    then show ?thesis using assms r q by (auto simp: scan_audio_def audio_takes_def audio_ok_def)
  next
    case pmt
    show ?thesis
    proof (cases "sec = None \<or> b1 AND 0x80 \<noteq> 0")
      case True
      then show ?thesis using pmt r f assms
        by (auto simp: scan_audio_def audio_takes_def audio_ok_def split: option.split)
    next
      case False
      then obtain sc where sc: "sec = Some sc" by auto
      obtain es found where m: "PMTStreamsSection sc = Some (es, found)" using PMTStreamsSection_safe [of sc] by auto
      have f': "asm_Feed (sasm s) p = Some (a, Some sc)" "section_ok (ipmt (s\<lparr>sasm := a\<rparr>))"
        using f sc assms(1) by (simp_all add: audio_ok_def)
      show ?thesis using False sc m pmt r f assms setPMT_law [OF f']
        by (auto simp: scan_audio_def audio_takes_def audio_ok_def)
    qed
  next
    case other
    note ok = assms(1) [unfolded audio_ok_def]
    have g: "unit_ok (u\<lparr>pkts := pkts u @ p\<rparr>)" if "unit_ok u" for u using unit_ok_grow [OF that assms(2)] .
    show ?thesis
    proof (cases "ses s pid")
      case False
      then show ?thesis using other r assms by (auto simp: scan_audio_def audio_takes_def)
    next
      case True
      then show ?thesis using other r t ok g [of "scur s"] g [of "timed t no_unit"]
        by (cases "pusi"; cases "sstarted s"; cases "pkts (scur s) = []")
          (auto simp: scan_audio_def audio_takes_def audio_ok_def final_audio_def)
    qed
  qed
qed

interpretation ascan: scan_contract scan_audio final_audio audio_takes audio_ok
proof
  fix s :: scanner and p :: bytes
  assume "audio_ok s" "length p = 188"
  from scan_audio_law [OF this] show "\<exists>s' us. scan_audio p s = Some (s', us) \<and> audio_ok s' \<and>
      length us \<le> 1 \<and> list_all unit_ok us \<and>
      concat (map pkts us) @ pkts (scur s') = pkts (scur s) @ (if audio_takes s p then p else [])" .
next
  fix s
  assume "audio_ok s"
  then show "concat (map pkts (final_audio s)) = pkts (scur s) \<and> list_all unit_ok (final_audio s) \<and>
      length (final_audio s) \<le> 1"
    by (auto simp: final_audio_def audio_ok_def)
qed (simp add: audio_ok_def new_scanner_def section_ok_def)

end
