(* ===== verification/TsMergeTable.thy ===== *)
theory TsMergeTable
  imports TsMergeScan TsMuxProps
begin

text \<open>
  The joined table of \<open>tsmerge.go\<close>: \<open>rebuild\<close> ends without a panic, the PIDs it gives the audio
  streams are free ones and differ from one another, and the table it builds reads back as the video
  stream's entries followed by the audio streams' entries on those PIDs.
\<close>

section \<open>The search for a free PID\<close>

lemma next_free_from:
  assumes "f + of_nat n \<notin> set us"
  shows "\<exists>j\<le>n. next_free us f = Some (f + of_nat j) \<and> f + of_nat j \<notin> set us \<and>
    (\<forall>i<j. f + of_nat i \<in> set us)"
  using assms
proof (induction n arbitrary: f)
  case 0
  then show ?case by (simp add: next_free.simps)
next
  case (Suc n)
  show ?case
  proof (cases "f \<in> set us")
    case False
    then show ?thesis by (intro exI [of _ 0]) (simp add: next_free.simps)
  next
    case True
    have "f + 1 + of_nat n \<notin> set us" using Suc.prems by (simp add: add.assoc)
    from Suc.IH [OF this] obtain j where j: "j \<le> n" "next_free us (f + 1) = Some (f + 1 + of_nat j)"
      "f + 1 + of_nat j \<notin> set us" "\<forall>i<j. f + 1 + of_nat i \<in> set us" by blast
    have "f + of_nat i \<in> set us" if "i < Suc j" for i
    proof (cases i)
      case (Suc k)
      then show ?thesis using j(4) that by (simp add: add.assoc)
    qed (simp add: True)
    then show ?thesis using True j
      by (intro exI [of _ "Suc j"]) (simp add: next_free.simps [of us f] add.assoc)
  qed
qed

lemma of_nat_u16_inj: "of_nat a = (of_nat b :: u16) \<Longrightarrow> a < 65536 \<Longrightarrow> b < 65536 \<Longrightarrow> a = b"
  by (drule arg_cong [of _ _ unat]) (simp add: unat_of_nat)

lemma uint_of_nat_u16: "i < 65536 \<Longrightarrow> uint (of_nat i :: u16) = int i"
  by (simp add: uint_nat unat_of_nat)

text \<open>Among one more candidates than there are us PIDs one is f.\<close>

lemma free_exists:
  assumes "length us < 65536"
  shows "\<exists>n\<le>length us. (f :: u16) + of_nat n \<notin> set us"
proof (rule ccontr)
  assume "\<not> ?thesis"
  then have "(\<lambda>n. f + of_nat n) ` {..length us} \<subseteq> set us" by auto
  moreover have "inj_on (\<lambda>n. f + of_nat n) {..length us}"
    using assms of_nat_u16_inj by (intro inj_onI) (auto simp: len_def)
  ultimately have "card {..length us} \<le> card (set us)"
    using card_mono [of "set us" "(\<lambda>n. f + of_nat n) ` {..length us}"] by (simp add: card_image)
  also have "\<dots> \<le> length us" by (rule card_length)
  finally show False by simp
qed

text \<open>All candidates passed over are used: so the search has gone as far as the used PIDs let it.\<close>

definition plan_ok :: "plan \<Rightarrow> bool" where
  "plan_ok p \<longleftrightarrow> 256 \<le> uint (free p) \<and> (\<forall>x. 256 \<le> uint x \<and> uint x < uint (free p) \<longrightarrow> x \<in> set (used p))"

lemma plan_ok_bound:
  assumes "plan_ok p" shows "uint (free p) \<le> 256 + len (used p)"
proof -
  let ?A = "{x :: u16. 256 \<le> uint x \<and> uint x < uint (free p)}"
  have "bij_betw (\<lambda>x :: u16. uint x) ?A {256 ..< uint (free p)}"
  proof (rule bij_betwI')
    show "\<And>y. y \<in> {256 ..< uint (free p)} \<Longrightarrow> \<exists>x\<in>?A. y = uint x"
    proof -
      fix y assume y: "y \<in> {256 ..< uint (free p)}"
      define x :: u16 where "x = word_of_int y"
      have "uint x = y"
        using uint_bounded [of "free p"] y by (simp add: x_def uint_word_of_int_eq take_bit_int_eq_self)
      then have "x \<in> ?A" using y by simp
      then show "\<exists>x\<in>?A. y = uint x" using \<open>uint x = y\<close> by blast
    qed
  qed (auto simp: word_uint_eq_iff)
  then have "card ?A = nat (uint (free p) - 256)" by (simp add: bij_betw_same_card)
  moreover have "card ?A \<le> card (set (used p))"
    using assms by (intro card_mono) (auto simp: plan_ok_def)
  ultimately have "nat (uint (free p) - 256) \<le> length (used p)" using card_length [of "used p"] by linarith
  then show ?thesis by (simp add: len_def)
qed

lemma next_free_plan:
  assumes "plan_ok p" "len (used p) < 8000"
  shows "\<exists>f. next_free (used p) (free p) = Some f \<and> f \<notin> set (used p) \<and> plan_ok (p\<lparr>used := f # used p, free := f\<rparr>) \<and>
    uint f \<le> 256 + len (used p) + len (used p)"
proof -
  from free_exists [of "used p" "free p"] assms(2) obtain n where n: "n \<le> length (used p)"
    "free p + of_nat n \<notin> set (used p)" by (auto simp: len_def)
  from next_free_from [OF n(2)] obtain j where j: "j \<le> n" "next_free (used p) (free p) = Some (free p + of_nat j)"
    "free p + of_nat j \<notin> set (used p)" "\<forall>i<j. free p + of_nat i \<in> set (used p)" by blast
  have u: "uint (free p + of_nat i) = uint (free p) + int i" if "i \<le> j" for i
  proof -
    have b: "uint (free p) + int i < 65536"
      using plan_ok_bound [OF assms(1)] assms(2) n(1) j(1) that by (simp add: len_def)
    have "i < 65536" using n(1) j(1) that assms(2) by (simp add: len_def)
    then have i: "uint (of_nat i :: u16) = int i" by (rule uint_of_nat_u16)
    have "uint (free p + of_nat i) = (uint (free p) + uint (of_nat i :: u16)) mod 2 ^ 16"
      by (simp add: uint_word_ariths)
    then show ?thesis using b i by simp
  qed
  have "x \<in> set (used p)" if x: "256 \<le> uint x" "uint x < uint (free p + of_nat j)" for x
  proof (cases "uint x < uint (free p)")
    case True
    then show ?thesis using assms(1) x by (simp add: plan_ok_def)
  next
    case False
    define i where "i = nat (uint x - uint (free p))"
    have i: "i < j" "uint x = uint (free p) + int i" using False x(2) u [of j] by (auto simp: i_def)
    then have "x = free p + of_nat i" using u [of i] by (metis less_imp_le word_uint_eq_iff)
    then show ?thesis using j(4) i(1) by blast
  qed
  moreover have "256 \<le> uint (free p + of_nat j)" using u [of j] assms(1) by (simp add: plan_ok_def)
  moreover have "uint (free p + of_nat j) \<le> 256 + len (used p) + len (used p)"
    using u [of j] plan_ok_bound [OF assms(1)] j(1) n(1) by (simp add: len_def)
  ultimately show ?thesis using j(2,3) by (auto simp: plan_ok_def)
qed


section \<open>Table entries\<close>

definition entry_len :: "bytes \<Rightarrow> int" where
  "entry_len x = 5 + len12 (x ! 3) (x ! 4)"

text \<open>The entries a stretch of table bytes is made of, as long as they are whole.\<close>

function cut_entries :: "bytes \<Rightarrow> bytes list" where
  "cut_entries b =
     (if len b < 5 \<or> len b < entry_len b then []
      else take (nat (entry_len b)) b # cut_entries (drop (nat (entry_len b)) b))"
  by pat_completeness auto
termination
proof (relation "measure length")
  fix b assume a: "\<not> (len b < 5 \<or> len b < entry_len b)"
  have "5 \<le> entry_len b" by (simp add: entry_len_def)
  with a have "1 \<le> nat (entry_len b)" "1 \<le> length b" by (simp_all add: len_def)
  then show "(drop (nat (entry_len b)) b, b) \<in> measure length" by simp
qed simp

declare cut_entries.simps [simp del]

definition whole_entry :: "bytes \<Rightarrow> bool" where
  "whole_entry x \<longleftrightarrow> 5 \<le> len x \<and> len x = entry_len x"

lemma cut_entries_cases:
  obtains (stop) "cut_entries b = []" "len b < 5 \<or> len b < entry_len b"
  | (entry) k where "entry_len b = int k" "5 \<le> k" "k \<le> length b"
      "cut_entries b = take k b # cut_entries (drop k b)" "whole_entry (take k b)"
proof (cases "len b < 5 \<or> len b < entry_len b")
  case True
  then show thesis using stop by (simp add: cut_entries.simps [of b])
next
  case False
  define k where "k = nat (entry_len b)"
  have "5 \<le> entry_len b" by (simp add: entry_len_def)
  then have k: "entry_len b = int k" "5 \<le> k" by (simp_all add: k_def)
  then have l: "k \<le> length b" using False by (simp add: len_def)
  have "entry_len (take k b) = entry_len b" using k(2) by (simp add: entry_len_def)
  then have "whole_entry (take k b)" using k l by (simp add: whole_entry_def len_def)
  moreover have "cut_entries b = take k b # cut_entries (drop k b)"
    using False k by (simp add: cut_entries.simps [of b])
  ultimately show thesis using entry k l by blast
qed

lemma cut_entries_whole: "x \<in> set (cut_entries b) \<Longrightarrow> whole_entry x"
proof (induction "length b" arbitrary: b rule: less_induct)
  case less
  show ?case
  proof (cases b rule: cut_entries_cases)
    case (entry k)
    then show ?thesis using less.hyps [of "drop k b"] less.prems by auto
  qed (use less.prems in simp)
qed

lemma cut_entries_length: "len (concat (cut_entries b)) \<le> len b"
proof (induction "length b" arbitrary: b rule: less_induct)
  case less
  show ?case
  proof (cases b rule: cut_entries_cases)
    case (entry k)
    then have "len (concat (cut_entries (drop k b))) \<le> len (drop k b)" using less by simp
    then show ?thesis using entry by (simp add: len_take len_drop len_def)
  qed simp
qed

text \<open>The audio loop works on the whole entries of its table, one after the other.\<close>

fun move_entries :: "(u16 \<rightharpoonup> u16) \<Rightarrow> string \<Rightarrow> bytes list \<Rightarrow> (u16 \<rightharpoonup> u16) \<Rightarrow> plan \<Rightarrow> ((u16 \<rightharpoonup> u16) \<times> plan) go" where
  "move_entries old lang [] pids p = Some (pids, p)"
| "move_entries old lang (x # xs) pids p =
     (let from_pid = pid13 (x ! 1) (x ! 2) in
      if x ! 0 = 0x00 \<or> from_pid = 0 then move_entries old lang xs pids p
      else do {
        (to, p1) \<leftarrow> give_pid old from_pid p;
        x1 \<leftarrow> set_entry_pid x to;
        x2 \<leftarrow> withLanguage x1 lang;
        move_entries old lang xs (pids(from_pid \<mapsto> to)) (p1\<lparr>body := body p1 @ x2\<rparr>) })"

lemma audio_entries_eq:
  assumes "0 \<le> i" "aend \<le> len sec"
  shows "audio_entries old lang sec aend i pids p =
    move_entries old lang (cut_entries (drop (nat i) (take (nat aend) sec))) pids p"
  using assms(1)
proof (induction "nat (aend - i)" arbitrary: i pids p rule: less_induct)
  case less
  define b where "b = drop (nat i) (take (nat aend) sec)"
  have lb: "len b = max 0 (aend - i)" using less.prems assms(2) by (simp add: b_def len_def)
  show ?case
  proof (cases "i + 5 \<le> aend")
    case False
    then have "cut_entries b = []" using lb by (simp add: cut_entries.simps [of b])
    then show ?thesis using False by (simp add: audio_entries.simps b_def)
  next
    case True
    have at: "at sec (i + int k) = Some (b ! k)" if "k < 5" for k
    proof -
      have "b ! k = sec ! (nat i + k)" using True less.prems assms(2) that by (simp add: b_def len_def)
      moreover have "nat (i + int k) = nat i + k" using less.prems by simp
      ultimately show ?thesis using True less.prems assms(2) that by (simp add: go_simps)
    qed
    note at' = at [of 0, simplified] at [of 1, simplified] at [of 2, simplified] at [of 3, simplified]
      at [of 4, simplified]
    show ?thesis
    proof (cases b rule: cut_entries_cases)
      case stop
      then have "i + entry_len b > aend" using True lb by auto
      then show ?thesis using stop True at'
        by (simp add: audio_entries.simps [of _ _ _ _ i] b_def [symmetric] entry_len_def)
    next
      case (entry k)
      have n: "\<not> i + (5 + len12 (b ! 3) (b ! 4)) > aend" "int k = 5 + len12 (b ! 3) (b ! 4)"
        using entry lb by (simp_all add: entry_len_def len_def)
      have d: "drop (nat (i + int k)) (take (nat aend) sec) = drop k b"
        using less.prems by (simp add: b_def nat_add_distrib add.commute)
      have "i + int k \<le> aend" using n by simp
      then have sl: "slice sec i (i + int k) = Some (take k b)"
        using less.prems assms(2) by (simp add: slice_def b_def drop_take nat_diff_distrib)
      have ih: "audio_entries old lang sec aend (i + int k) pids' p' = move_entries old lang (cut_entries (drop k b)) pids' p'"
        for pids' p'
        using less.hyps [of "i + int k" pids' p'] entry(2) True less.prems by (simp add: d)
      show ?thesis using True n at' sl ih entry
        by (subst audio_entries.simps) (simp add: Let_def b_def [symmetric])
    qed
  qed
qed


section \<open>Entries that are moved and named\<close>

definition entry_es :: "bytes \<Rightarrow> ES" where
  "entry_es x = \<lparr>esPID = pid13 (x ! 1) (x ! 2), esType = x ! 0\<rparr>"

lemma pid13_less [simp]: "uint (pid13 a b) < 8192"
proof -
  have "a AND 0x1f = take_bit 5 a" by (simp add: take_bit_eq_mask mask_eq_exp_minus_1)
  then have "pid13 a b = take_bit 13 (pid13 a b)"
    by (intro bit_word_eqI) (auto simp: pid13_def bit_simps bit_ucast_iff dest: bit_imp_le_length)
  then have "uint (pid13 a b) = take_bit 13 (uint (pid13 a b))"
    by (metis unsigned_take_bit_eq)
  also have "\<dots> < 2 ^ 13" by (rule take_bit_int_less_exp)
  finally show ?thesis by simp
qed

lemma pid_small: "uint (to :: u16) < 8192 \<Longrightarrow> take_bit 13 to = to"
  by (simp add: word_uint_eq_iff unsigned_take_bit_eq take_bit_int_eq_self)

lemma pid13_set: "pid13 ((e AND 0xe0) OR hi) lo = pid13 hi lo"
proof -
  have "((e AND 0xe0) OR hi) AND 0x1f = (hi AND 0x1f :: byte)"
    by (rule byte_eqI) (auto simp: lt8 byte_bits)
  then show ?thesis by (simp add: pid13_def)
qed

lemma set_entry_pid_law:
  assumes "whole_entry x" "uint to < 8192"
  shows "\<exists>y. set_entry_pid x to = Some y \<and> whole_entry y \<and> len y = len x \<and> entry_es y = (entry_es x)\<lparr>esPID := to\<rparr>"
proof -
  let ?y = "x[1 := (x ! 1 AND 0xe0) OR hi_byte to, 2 := lo_byte to]"
  have l: "5 \<le> length x" using assms(1) by (simp add: whole_entry_def len_def)
  then have "set_entry_pid x to = Some ?y" by (simp add: set_entry_pid_def go_simps len_def)
  moreover have "whole_entry ?y" using assms(1) l by (simp add: whole_entry_def entry_len_def len_def)
  moreover have "entry_es ?y = (entry_es x)\<lparr>esPID := to\<rparr>"
    using l pid_small [OF assms(2)] by (simp add: entry_es_def pid13_set pid13_bytes)
  ultimately show ?thesis by (simp add: len_def)
qed

lemma has_language_safe: "0 \<le> i \<Longrightarrow> \<exists>b. has_language x i = Some b"
proof (induction x i rule: has_language.induct)
  case (1 x i)
  show ?case
  proof (cases "i + 2 \<le> len x")
    case True
    have a: "at x i = Some (x ! nat i)" "at x (i + 1) = Some (x ! nat (i + 1))"
      using True 1(2) by (simp_all add: go_simps)
    show ?thesis
    proof (cases "x ! nat i = 0x0a")
      case False
      have "\<exists>b. has_language x (i + (2 + uint (x ! nat (i + 1)))) = Some b"
        using 1 True False a by (intro 1(1)) auto
      then show ?thesis using True a False by (subst has_language.simps) simp
    next
      case found: True
      then show ?thesis using True a by (subst has_language.simps) auto
    qed
  qed (simp add: has_language.simps [of x i])
qed

lemma len12_set:
  assumes "0 \<le> n" "n < 4096"
  shows "len12 ((e AND 0xf0) OR (word_of_int (drop_bit 8 n) AND 0x0f)) (word_of_int n) = n"
proof -
  have h: "((e AND 0xf0) OR (h AND 0x0f)) AND 0x0f = (h AND 0x0f :: byte)" for h
    by (rule byte_eqI) (auto simp: lt8 byte_bits)
  have d: "0 \<le> n div 256" "n div 256 < 16" using assms by (simp_all add: pos_imp_zdiv_nonneg_iff)
  have "uint (word_of_int (drop_bit 8 n) AND 0x0f :: byte) = n div 256"
    using d by (simp add: uint_and_15 uint_word_of_int_eq drop_bit_eq_div take_bit_eq_mod)
  moreover have "uint (word_of_int n :: byte) = n mod 256" by (simp add: uint_word_of_int_eq take_bit_eq_mod)
  ultimately show ?thesis by (simp add: len12_eq h)
qed

lemma withLanguage_law:
  assumes "whole_entry x" "len x \<le> 1024" "lang = [] \<or> length lang = 3"
  shows "\<exists>y. withLanguage x lang = Some y \<and> whole_entry y \<and> entry_es y = entry_es x \<and> len y \<le> len x + 6"
proof -
  have l: "5 \<le> length x" using assms(1) by (simp add: whole_entry_def len_def)
  obtain b where b: "has_language x 5 = Some b" using has_language_safe [of 5 x] by auto
  show ?thesis
  proof (cases "lang = [] \<or> b")
    case True
    then have "withLanguage x lang = Some x" using b by (auto simp: withLanguage_def)
    then show ?thesis using assms(1) by simp
  next
    case False
    define n where "n = len x - 5 + 6"
    let ?y = "x[3 := (x ! 3 AND 0xf0) OR (word_of_int (drop_bit 8 n) AND 0x0f), 4 := word_of_int n] @
        [0x0a, 0x04, char_byte (lang ! 0), char_byte (lang ! 1), char_byte (lang ! 2), 0x00]"
    have n: "0 \<le> n" "n < 4096" using l assms(2) by (simp_all add: n_def len_def)
    have "at x 3 = Some (x ! 3)" "at x 4 = Some (x ! 4)" using l by (simp_all add: go_simps len_def)
    then have "withLanguage x lang = Some ?y"
      using False b assms(3) l by (auto simp: withLanguage_def go_simps len_def n_def Let_def)
    moreover have "whole_entry ?y"
      using l n len12_set [OF n, of "x ! 3"]
      by (simp add: whole_entry_def entry_len_def len_def nth_append n_def)
    moreover have "entry_es ?y = entry_es x" using l by (cases "x = []") (simp_all add: entry_es_def nth_append)
    ultimately show ?thesis by (simp add: len_def)
  qed
qed

lemma give_pid_law:
  assumes "plan_ok p" "len (used p) \<le> 3900" "uint from_pid < 8192" "\<forall>x y. old x = Some y \<longrightarrow> uint y < 8192"
  shows "\<exists>to p1. give_pid old from_pid p = Some (to, p1) \<and> to \<notin> set (used p) \<and> used p1 = to # used p \<and>
    body p1 = body p \<and> plan_ok p1 \<and> uint to < 8192"
proof -
  define to where "to = (case old from_pid of
      Some was \<Rightarrow> if was \<notin> set (used p) then was else from_pid | None \<Rightarrow> from_pid)"
  have to: "uint to < 8192" using assms(3,4) by (auto simp: to_def split: option.split)
  show ?thesis
  proof (cases "to \<in> set (used p)")
    case True
    from next_free_plan [OF assms(1)] assms(2) obtain f where f: "next_free (used p) (free p) = Some f"
      "f \<notin> set (used p)" "plan_ok (p\<lparr>used := f # used p, free := f\<rparr>)" "uint f \<le> 256 + len (used p) + len (used p)"
      by auto
    then show ?thesis using True assms(2)
      by (intro exI [of _ f] exI [of _ "p\<lparr>used := f # used p, free := f\<rparr>"])
        (simp add: give_pid_def to_def [symmetric])
  next
    case False
    have "plan_ok (p\<lparr>used := to # used p\<rparr>)" using assms(1) by (auto simp: plan_ok_def)
    then show ?thesis using False to
      by (intro exI [of _ to] exI [of _ "p\<lparr>used := to # used p\<rparr>"])
        (simp add: give_pid_def to_def [symmetric])
  qed
qed


text \<open>The streams a table declares: its entries, but those of a reserved type or on the PAT's PID.\<close>

definition streams_of :: "bytes list \<Rightarrow> ES list" where
  "streams_of xs = filter (\<lambda>e. esType e \<noteq> 0x00 \<and> esPID e \<noteq> 0) (map entry_es xs)"

definition retarget :: "ES \<Rightarrow> u16 \<Rightarrow> ES" where
  "retarget e to = e\<lparr>esPID := to\<rparr>"

definition old_ok :: "(u16 \<rightharpoonup> u16) \<Rightarrow> bool" where
  "old_ok old \<longleftrightarrow> (\<forall>x y. old x = Some y \<longrightarrow> uint y < 8192)"

lemma streams_of_simps [simp]:
  "streams_of [] = []"
  "streams_of (x # xs) = (if x ! 0 = 0x00 \<or> pid13 (x ! 1) (x ! 2) = 0 then streams_of xs
     else entry_es x # streams_of xs)"
  by (simp_all add: streams_of_def entry_es_def)

lemma move_entries_law:
  assumes "list_all whole_entry xs" "len (concat xs) \<le> 1024" "plan_ok p"
    "len (used p) + len xs \<le> 3900" "old_ok old" "lang = [] \<or> length lang = 3"
  shows "\<exists>tos ys p'. move_entries old lang xs pids p =
      Some (pids(map esPID (streams_of xs) [\<mapsto>] tos), p') \<and> plan_ok p' \<and>
    length tos = length (streams_of xs) \<and> distinct tos \<and> set tos \<inter> set (used p) = {} \<and>
    (\<forall>to \<in> set tos. uint to < 8192) \<and> used p' = rev tos @ used p \<and>
    body p' = body p @ concat ys \<and> list_all whole_entry ys \<and>
    map entry_es ys = map2 retarget (streams_of xs) tos \<and> len (concat ys) \<le> len (concat xs) + 6 * len xs"
  using assms(1-4)
proof (induction xs arbitrary: pids p)
  case Nil
  show ?case by (rule exI [of _ "[]"], rule exI [of _ "[]"], rule exI [of _ p]) (use Nil in simp)
next
  case (Cons x xs)
  let ?from = "pid13 (x ! 1) (x ! 2)"
  have two: "len x + len (concat xs) \<le> 1024" using Cons.prems(2) by simp
  have c: "len (concat xs) \<le> 1024" "len x \<le> 1024"
    using two len_simps(4) [of x] len_simps(4) [of "concat xs"] by linarith+
  have u: "len (used p) + 1 + len xs \<le> 3900" "list_all whole_entry xs" using Cons.prems(1,4) by auto
  then have v: "len (used p) \<le> 3899" "len (used p) + len xs \<le> 3900" using len_simps(4) [of xs] by linarith+
  show ?case
  proof (cases "x ! 0 = 0x00 \<or> ?from = 0")
    case True
    from Cons.IH [of p pids] c u v Cons.prems(3) obtain tos ys p' where ih:
      "move_entries old lang xs pids p = Some (pids(map esPID (streams_of xs) [\<mapsto>] tos), p')" "plan_ok p'"
      "length tos = length (streams_of xs)" "distinct tos" "set tos \<inter> set (used p) = {}"
      "\<forall>to \<in> set tos. uint to < 8192" "used p' = rev tos @ used p"
      "body p' = body p @ concat ys" "list_all whole_entry ys"
      "map entry_es ys = map2 retarget (streams_of xs) tos" "len (concat ys) \<le> len (concat xs) + 6 * len xs"
      by blast
    have "len (concat ys) \<le> len (concat (x # xs)) + 6 * len (x # xs)"
      using ih(11) by (simp add: len_def)
    then show ?thesis using True ih by (intro exI [of _ tos] exI [of _ ys] exI [of _ p']) simp
  next
    case False
    obtain to p1 where g: "give_pid old ?from p = Some (to, p1)" "to \<notin> set (used p)" "used p1 = to # used p"
      "body p1 = body p" "plan_ok p1" "uint to < 8192"
      using give_pid_law [of p ?from old] Cons.prems(3) v assms(5)
      by (auto simp: old_ok_def)
    have w: "whole_entry x" "len x \<le> 1024" using Cons.prems(1) c by auto
    obtain x1 where x1: "set_entry_pid x to = Some x1" "whole_entry x1" "len x1 = len x"
      "entry_es x1 = retarget (entry_es x) to"
      using set_entry_pid_law [OF w(1) g(6)] by (auto simp: retarget_def)
    obtain x2 where x2: "withLanguage x1 lang = Some x2" "whole_entry x2" "entry_es x2 = entry_es x1"
      "len x2 \<le> len x1 + 6"
      using withLanguage_law [of x1 lang] x1 w assms(6) by auto
    let ?p = "p1\<lparr>body := body p1 @ x2\<rparr>"
    obtain pids1 where pids1: "pids1 = pids(?from \<mapsto> to)" by blast
    have "plan_ok ?p" "used ?p = to # used p" using g by (simp_all add: plan_ok_def)
    then obtain tos ys p' where ih:
      "move_entries old lang xs pids1 ?p = Some (pids1(map esPID (streams_of xs) [\<mapsto>] tos), p')" "plan_ok p'"
      "length tos = length (streams_of xs)" "distinct tos" "set tos \<inter> set (to # used p) = {}"
      "\<forall>to \<in> set tos. uint to < 8192" "used p' = rev tos @ to # used p"
      "body p' = body ?p @ concat ys" "list_all whole_entry ys"
      "map entry_es ys = map2 retarget (streams_of xs) tos" "len (concat ys) \<le> len (concat xs) + 6 * len xs"
      using Cons.IH [of ?p pids1] c u by auto
    have "len (concat (x2 # ys)) \<le> len (concat (x # xs)) + 6 * len (x # xs)"
      using ih(11) x2(4) x1(3) by (simp add: distrib_left)
    note ih = ih(1-10) this
    have "esPID (entry_es x) = ?from" by (simp add: entry_es_def)
    then show ?thesis using False g x1 x2 ih [unfolded pids1]
      by (intro exI [of _ "to # tos"] exI [of _ "x2 # ys"] exI [of _ p']) auto
  qed
qed


section \<open>Reading a run of entries\<close>

lemma run_bytes:
  assumes "drop (nat i) (take (nat e) sec) = concat (x # xs)" "0 \<le> i" "e \<le> len sec" "whole_entry x"
  shows "i + 5 \<le> e" "at sec (i + 3) = Some (x ! 3)" "at sec (i + 4) = Some (x ! 4)"
    "at sec (i + 1) = Some (x ! 1)" "at sec (i + 2) = Some (x ! 2)" "at sec i = Some (x ! 0)"
    "drop (nat (i + (5 + len12 (x ! 3) (x ! 4)))) (take (nat e) sec) = concat xs"
proof -
  have x: "5 \<le> length x" "int (length x) = 5 + len12 (x ! 3) (x ! 4)"
    using assms(4) by (simp_all add: whole_entry_def entry_len_def len_def)
  have l: "length (drop (nat i) (take (nat e) sec)) = length x + length (concat xs)" using assms(1) by simp
  then show e: "i + 5 \<le> e" using x(1) assms(2,3) by (simp add: len_def)
  have at: "at sec (i + int k) = Some (x ! k)" if "k < 5" for k
  proof -
    have "drop (nat i) (take (nat e) sec) ! k = x ! k" using assms(1) that x(1) by (simp add: nth_append)
    then have "sec ! (nat i + k) = x ! k" using e that assms(2,3) by (simp add: len_def)
    moreover have "nat (i + int k) = nat i + k" using assms(2) by simp
    ultimately show ?thesis using e that assms(2,3) by (simp add: go_simps)
  qed
  show "at sec (i + 3) = Some (x ! 3)" "at sec (i + 4) = Some (x ! 4)"
    "at sec (i + 1) = Some (x ! 1)" "at sec (i + 2) = Some (x ! 2)" "at sec i = Some (x ! 0)"
    using at [of 3] at [of 4] at [of 1] at [of 2] at [of 0] by simp_all
  have n: "nat (i + (5 + len12 (x ! 3) (x ! 4))) = length x + nat i"
    using assms(2) x(2) by linarith
  have "drop (length x) (drop (nat i) (take (nat e) sec)) = concat xs" using assms(1) by simp
  then show "drop (nat (i + (5 + len12 (x ! 3) (x ! 4)))) (take (nat e) sec) = concat xs"
    unfolding n by (simp add: add.commute)
qed

lemma run_end:
  assumes "drop (nat i) (take (nat e) sec) = []" "e \<le> len sec" "0 \<le> i" shows "\<not> i + 5 \<le> e"
  using assms by (simp add: len_def)

lemma PMT_es_loop_entries:
  assumes "drop (nat i) (take (nat e) sec) = concat xs" "0 \<le> i" "e \<le> len sec" "list_all whole_entry xs"
  shows "PMT_es_loop sec e i = Some (map entry_es xs)"
  using assms
proof (induction xs arbitrary: i)
  case Nil
  then show ?case using run_end [of i e sec] by (simp add: PMT_es_loop.simps)
next
  case (Cons x xs)
  have w: "whole_entry x" using Cons.prems(4) by simp
  note r = run_bytes [OF Cons.prems(1-3) w]
  have "PMT_es_loop sec e (i + (5 + len12 (x ! 3) (x ! 4))) = Some (map entry_es xs)"
    using Cons.prems r(7) by (intro Cons.IH) auto
  then show ?case using r by (subst PMT_es_loop.simps) (simp add: entry_es_def Let_def)
qed

lemma entry_pids_entries:
  assumes "drop (nat i) (take (nat e) sec) = concat xs" "0 \<le> i" "e \<le> len sec" "list_all whole_entry xs"
  shows "entry_pids sec e i = Some (map (esPID \<circ> entry_es) xs)"
  using assms
proof (induction xs arbitrary: i)
  case Nil
  then show ?case using run_end [of i e sec] by (simp add: entry_pids.simps)
next
  case (Cons x xs)
  have w: "whole_entry x" using Cons.prems(4) by simp
  note r = run_bytes [OF Cons.prems(1-3) w]
  have "entry_pids sec e (i + (5 + len12 (x ! 3) (x ! 4))) = Some (map (esPID \<circ> entry_es) xs)"
    using Cons.prems r(7) by (intro Cons.IH) auto
  then show ?case using r by (subst entry_pids.simps) (simp add: entry_es_def)
qed

lemma entry_pids_safe:
  "0 \<le> i \<Longrightarrow> e \<le> len sec \<Longrightarrow> \<exists>ps. entry_pids sec e i = Some ps \<and> 5 * len ps \<le> max 0 (e - i)"
proof (induction sec e i rule: entry_pids.induct)
  case (1 sec e i)
  show ?case
  proof (cases "i + 5 \<le> e")
    case True
    have a: "at sec (i + 1) = Some (sec ! nat (i + 1))" "at sec (i + 2) = Some (sec ! nat (i + 2))"
      "at sec (i + 3) = Some (sec ! nat (i + 3))" "at sec (i + 4) = Some (sec ! nat (i + 4))"
      using True 1(2,3) by (simp_all add: go_simps)
    let ?l = "len12 (sec ! nat (i + 3)) (sec ! nat (i + 4))"
    have "0 \<le> i + (5 + ?l)" using 1(2) len12_nonneg [of "sec ! nat (i + 3)" "sec ! nat (i + 4)"] by linarith
    then obtain ps where ps: "entry_pids sec e (i + (5 + ?l)) = Some ps"
      "5 * len ps \<le> max 0 (e - (i + (5 + ?l)))"
      using 1(1) [OF True a] 1(3) by blast
    have "5 * (len ps + 1) \<le> max 0 (e - i)"
      using ps(2) True len12_nonneg [of "sec ! nat (i + 3)" "sec ! nat (i + 4)"]
      by (auto simp del: len12_nonneg simp: max_def split: if_splits)
    then show ?thesis using True a ps(1) by (subst entry_pids.simps) simp
  next
    case False
    then show ?thesis by (simp add: entry_pids.simps)
  qed
qed

section \<open>The tables of the audio streams\<close>

definition info_len :: "bytes \<Rightarrow> int" where
  "info_len sec = len12 (sec ! 10) (sec ! 11)"

definition table_entries :: "bytes \<Rightarrow> bytes list" where
  "table_entries sec = cut_entries (drop (nat (12 + info_len sec)) (take (nat (len sec - 4)) sec))"

definition declared_streams :: "bytes \<Rightarrow> ES list" where
  "declared_streams sec = (if len sec < 16 then [] else streams_of (table_entries sec))"

definition retabled :: "input \<Rightarrow> astream \<Rightarrow> u16 list \<Rightarrow> astream" where
  "retabled a s tos = (let sec = ipmt (iscan a) in
     if len sec < 16 then s
     else s\<lparr>apids := Map.empty(map esPID (declared_streams sec) [\<mapsto>] tos), agen := igen (iscan a)\<rparr>)"

text \<open>The most room the entries take in the joined table: each can be given a language descriptor.\<close>

definition table_room :: "bytes \<Rightarrow> int" where
  "table_room sec = (if len sec < 16 then 0
     else len (concat (table_entries sec)) + 6 * len (table_entries sec))"

lemma whole_entries_count: "list_all whole_entry xs \<Longrightarrow> 5 * len xs \<le> len (concat xs)"
  by (induction xs) (auto simp: whole_entry_def)

lemma table_entries_law:
  assumes "section_ok sec"
  shows "list_all whole_entry (table_entries sec)" "len (concat (table_entries sec)) \<le> 1024"
    "len (table_entries sec) \<le> 204"
proof -
  show w: "list_all whole_entry (table_entries sec)"
    using cut_entries_whole by (auto simp: table_entries_def list_all_iff)
  have "len (concat (table_entries sec)) \<le> len sec"
    using cut_entries_length [of "drop (nat (12 + info_len sec)) (take (nat (len sec - 4)) sec)"]
    by (simp add: table_entries_def len_def)
  also have "\<dots> \<le> 1024" using assms by (auto simp: section_ok_def MaxSectionBytes_def)
  finally show c: "len (concat (table_entries sec)) \<le> 1024" .
  show "len (table_entries sec) \<le> 204" using whole_entries_count [OF w] c by linarith
qed

lemma length_streams_of: "length (streams_of xs) \<le> length xs"
  by (induction xs) auto

lemma audio_table_law:
  assumes "section_ok (ipmt (iscan a))" "plan_ok p" "len (used p) \<le> 3600" "old_ok (apids s)"
    "lang = [] \<or> length lang = 3"
  shows "\<exists>tos ys p'. audio_table lang a s p = Some (retabled a s tos, p') \<and> plan_ok p' \<and>
    length tos = length (declared_streams (ipmt (iscan a))) \<and> len tos \<le> 204 \<and> distinct tos \<and>
    set tos \<inter> set (used p) = {} \<and> (\<forall>to \<in> set tos. uint to < 8192) \<and> used p' = rev tos @ used p \<and>
    body p' = body p @ concat ys \<and> list_all whole_entry ys \<and>
    map entry_es ys = map2 retarget (declared_streams (ipmt (iscan a))) tos \<and>
    len (concat ys) \<le> table_room (ipmt (iscan a))"
proof (cases "len (ipmt (iscan a)) < 16")
  case True
  then show ?thesis using assms(2)
    by (intro exI [of _ "[]"] exI [of _ p]) (simp add: audio_table_def retabled_def declared_streams_def table_room_def)
next
  case False
  let ?sec = "ipmt (iscan a)"
  have l: "len ?sec = 3 + len12 (?sec ! 1) (?sec ! 2)" using False assms(1) by (auto simp: section_ok_def)
  have at: "at ?sec 1 = Some (?sec ! 1)" "at ?sec 2 = Some (?sec ! 2)" "at ?sec 10 = Some (?sec ! 10)"
    "at ?sec 11 = Some (?sec ! 11)" using False by (simp_all add: go_simps)
  note t = table_entries_law [OF assms(1)]
  have "len (used p) + len (table_entries ?sec) \<le> 3900" using assms(3) t(3) by linarith
  from move_entries_law [OF t(1,2) assms(2) this assms(4,5), of Map.empty] obtain tos ys p' where
    m: "move_entries (apids s) lang (table_entries ?sec) Map.empty p =
      Some (Map.empty(map esPID (streams_of (table_entries ?sec)) [\<mapsto>] tos), p')" "plan_ok p'"
    "length tos = length (streams_of (table_entries ?sec))" "distinct tos" "set tos \<inter> set (used p) = {}"
    "\<forall>to \<in> set tos. uint to < 8192" "used p' = rev tos @ used p" "body p' = body p @ concat ys"
    "list_all whole_entry ys" "map entry_es ys = map2 retarget (streams_of (table_entries ?sec)) tos"
    "len (concat ys) \<le> len (concat (table_entries ?sec)) + 6 * len (table_entries ?sec)" by blast
  have "audio_table lang a s p = Some (retabled a s tos, p')"
    using False l at m(1) audio_entries_eq [of "12 + info_len ?sec" "len ?sec - 4" ?sec "apids s" lang Map.empty p]
    by (simp add: audio_table_def retabled_def declared_streams_def info_len_def table_entries_def Let_def)
  moreover have "len tos \<le> 204"
    using m(3) t(3) length_streams_of [of "table_entries ?sec"] by (simp add: len_def)
  ultimately show ?thesis using False m by (auto simp: declared_streams_def table_room_def)
qed


lemma audio_tables_law:
  assumes "length as = length ss" "list_all (\<lambda>a. section_ok (ipmt (iscan a))) as"
    "list_all (\<lambda>s. old_ok (apids s)) ss" "plan_ok p" "len (used p) + 204 * len as \<le> 3600"
  shows "\<exists>toss ys p'. audio_tables lang k as ss p =
      Some (map (\<lambda>(a, s, tos). retabled a s tos) (zip as (zip ss toss)), p') \<and>
    length toss = length as \<and>
    list_all2 (\<lambda>a tos. length tos = length (declared_streams (ipmt (iscan a)))) as toss \<and>
    distinct (concat toss) \<and> set (concat toss) \<inter> set (used p) = {} \<and>
    (\<forall>to \<in> set (concat toss). uint to < 8192) \<and>
    body p' = body p @ concat ys \<and> list_all whole_entry ys \<and>
    map entry_es ys = concat (map2 (\<lambda>a tos. map2 retarget (declared_streams (ipmt (iscan a))) tos) as toss) \<and>
    len (concat ys) \<le> sum_list (map (\<lambda>a. table_room (ipmt (iscan a))) as)"
  using assms
proof (induction as arbitrary: ss k p)
  case Nil
  then show ?case by (intro exI [of _ "[]"] exI [of _ p]) simp
next
  case (Cons a as)
  then obtain s ss' where ss: "ss = s # ss'" "length as = length ss'" by (cases ss) auto
  have lang: "language lang k = [] \<or> length (language lang k) = 3" by (simp add: language_def)
  have "len (used p) + 204 * (len as + 1) \<le> 3600" using Cons.prems(5) by simp
  then have "int (length (used p)) + 204 * (int (length as) + 1) \<le> 3600" by (simp add: len_def)
  then have u: "len (used p) \<le> 3600" unfolding len_def by presburger
  have o: "section_ok (ipmt (iscan a))" "old_ok (apids s)" using Cons.prems(2,3) ss by simp_all
  from audio_table_law [OF o(1) Cons.prems(4) u o(2) lang] obtain tos ys p1 where 1:
    "audio_table (language lang k) a s p = Some (retabled a s tos, p1)" "plan_ok p1"
    "length tos = length (declared_streams (ipmt (iscan a)))" "len tos \<le> 204" "distinct tos"
    "set tos \<inter> set (used p) = {}" "\<forall>to \<in> set tos. uint to < 8192" "used p1 = rev tos @ used p"
    "body p1 = body p @ concat ys" "list_all whole_entry ys"
    "map entry_es ys = map2 retarget (declared_streams (ipmt (iscan a))) tos"
    "len (concat ys) \<le> table_room (ipmt (iscan a))" by blast
  have "len (used p1) + 204 * len as \<le> 3600" using 1(4,8) Cons.prems(5) by (simp add: len_def)
  with Cons.IH [OF ss(2) _ _ 1(2), of "Suc k"] Cons.prems(2,3) ss(1) obtain toss zs p' where 2:
    "audio_tables lang (Suc k) as ss' p1 =
      Some (map (\<lambda>(a, s, tos). retabled a s tos) (zip as (zip ss' toss)), p')"
    "length toss = length as"
    "list_all2 (\<lambda>a tos. length tos = length (declared_streams (ipmt (iscan a)))) as toss"
    "distinct (concat toss)" "set (concat toss) \<inter> set (used p1) = {}"
    "\<forall>to \<in> set (concat toss). uint to < 8192" "body p' = body p1 @ concat zs" "list_all whole_entry zs"
    "map entry_es zs = concat (map2 (\<lambda>a tos. map2 retarget (declared_streams (ipmt (iscan a))) tos) as toss)"
    "len (concat zs) \<le> sum_list (map (\<lambda>a. table_room (ipmt (iscan a))) as)"
    by auto
  have i: "set tos \<inter> set (concat toss) = {}" "set (concat toss) \<inter> set (used p) = {}" using 2(5) 1(8) by auto
  have "audio_tables lang k (a # as) ss p =
      Some (map (\<lambda>(a, s, tos). retabled a s tos) (zip (a # as) (zip ss (tos # toss))), p')"
    using 1(1) 2(1) ss(1) by simp
  moreover have "distinct (concat (tos # toss))" "set (concat (tos # toss)) \<inter> set (used p) = {}"
    "\<forall>to \<in> set (concat (tos # toss)). uint to < 8192"
    using 1(5,6,7) 2(4,6) i by auto
  moreover have "body p' = body p @ concat (ys @ zs)" "list_all whole_entry (ys @ zs)" using 1(9,10) 2(7,8) by auto
  moreover have "map entry_es (ys @ zs) =
      concat (map2 (\<lambda>a tos. map2 retarget (declared_streams (ipmt (iscan a))) tos) (a # as) (tos # toss))"
    using 1(11) 2(9) by simp
  moreover have "list_all2 (\<lambda>a tos. length tos = length (declared_streams (ipmt (iscan a)))) (a # as) (tos # toss)"
    using 1(3) 2(3) by simp
  moreover have "length (tos # toss) = length (a # as)" using 2(2) by simp
  moreover have "len (concat (ys @ zs)) \<le> sum_list (map (\<lambda>a. table_room (ipmt (iscan a))) (a # as))"
    using 1(12) 2(10) by simp
  ultimately show ?case by blast
qed

section \<open>The joined table\<close>

text \<open>What \<open>rebuild\<close> needs: whole sections, at most eight audio streams, and PIDs of 13 bits.\<close>

definition tables_ok :: "merger \<Rightarrow> bool" where
  "tables_ok m \<longleftrightarrow> section_ok (ipmt (iscan (mvideo m))) \<and> length (maudio m) = length (mst m) \<and>
     length (maudio m) \<le> MaxAudio \<and> list_all (\<lambda>a. section_ok (ipmt (iscan a))) (maudio m) \<and>
     list_all (\<lambda>s. old_ok (apids s)) (mst m)"

text \<open>\<open>rebuild\<close> has something to do: a table changed and the video stream's is there.\<close>

definition rebuilds :: "merger \<Rightarrow> bool" where
  "rebuilds m \<longleftrightarrow> (let sec = ipmt (iscan (mvideo m)) in
     table_changed m \<and> 16 \<le> len sec \<and> 12 + info_len sec \<le> len sec - 4)"

definition video_body :: "bytes \<Rightarrow> bytes" where
  "video_body sec = take (nat (len sec - 7)) (drop 3 sec)"

text \<open>The PIDs that are not for audio: the PAT's, the SDT's, the null packets', the PMT's own, the
  clock's, and those of the video stream's entries.\<close>

definition video_pids :: "u16 \<Rightarrow> bytes \<Rightarrow> u16 list" where
  "video_pids pid sec = [0, 0x11, 0x1fff, pid, pid13 (sec ! 8) (sec ! 9)] @
     the (entry_pids sec (len sec - 4) (12 + info_len sec))"

lemma rebuild_law:
  assumes "tables_ok m" "rebuilds m"
  shows "\<exists>toss ys. rebuild m =
      (let m1 = m\<lparr>mst := map (\<lambda>(a, s, tos). retabled a s tos) (zip (maudio m) (zip (mst m) toss))\<rparr>;
           bdy = video_body (ipmt (iscan (mvideo m))) @ concat ys
       in if len bdy + 4 > MaxSectionBytes - 3 then Some m1 else Some (install_table m1 bdy)) \<and>
    length toss = length (maudio m) \<and>
    list_all2 (\<lambda>a tos. length tos = length (declared_streams (ipmt (iscan a)))) (maudio m) toss \<and>
    distinct (concat toss) \<and>
    set (concat toss) \<inter> set (video_pids (ipmtPID (iscan (mvideo m))) (ipmt (iscan (mvideo m)))) = {} \<and>
    (\<forall>to \<in> set (concat toss). uint to < 8192) \<and> list_all whole_entry ys \<and>
    map entry_es ys = concat (map2 (\<lambda>a tos. map2 retarget (declared_streams (ipmt (iscan a))) tos) (maudio m) toss) \<and>
    len (concat ys) \<le> sum_list (map (\<lambda>a. table_room (ipmt (iscan a))) (maudio m))"
proof -
  let ?sec = "ipmt (iscan (mvideo m))" and ?pid = "ipmtPID (iscan (mvideo m))"
  have c: "table_changed m" "16 \<le> len ?sec" "12 + info_len ?sec \<le> len ?sec - 4"
    using assms(2) by (simp_all add: rebuilds_def Let_def)
  have l: "len ?sec = 3 + len12 (?sec ! 1) (?sec ! 2)" "len ?sec \<le> 1024"
    using assms(1) c(2) by (auto simp: tables_ok_def section_ok_def MaxSectionBytes_def)
  have at: "at ?sec 1 = Some (?sec ! 1)" "at ?sec 2 = Some (?sec ! 2)" "at ?sec 10 = Some (?sec ! 10)"
    "at ?sec 11 = Some (?sec ! 11)" "at ?sec 8 = Some (?sec ! 8)" "at ?sec 9 = Some (?sec ! 9)"
    using c(2) by (simp_all add: go_simps)
  have i0: "0 \<le> info_len ?sec" by (simp add: info_len_def)
  then obtain vps where v: "entry_pids ?sec (len ?sec - 4) (12 + info_len ?sec) = Some vps"
    "5 * len vps \<le> max 0 (len ?sec - 4 - (12 + info_len ?sec))"
    using entry_pids_safe [of "12 + info_len ?sec" "len ?sec - 4" ?sec] by auto
  have vl: "len vps \<le> 204" using v(2) l(2) c(2,3) i0 by (simp add: max_def split: if_splits)
  let ?used = "video_pids ?pid ?sec"
  have used: "?used = [0, 0x11, 0x1fff, ?pid, pid13 (?sec ! 8) (?sec ! 9)] @ vps" using v(1) by (simp add: video_pids_def)
  let ?p = "\<lparr>used = ?used, free = 0x100, body = video_body ?sec\<rparr>"
  have p: "plan_ok ?p" by (auto simp: plan_ok_def)
  have ul: "len (used ?p) + 204 * len (maudio m) \<le> 3600"
    using vl assms(1) by (simp add: used tables_ok_def MaxAudio_def len_def)
  have t: "length (maudio m) = length (mst m)" "list_all (\<lambda>a. section_ok (ipmt (iscan a))) (maudio m)"
    "list_all (\<lambda>s. old_ok (apids s)) (mst m)" using assms(1) by (simp_all add: tables_ok_def)
  from audio_tables_law [OF t p ul, of "mlang m" 0] obtain toss ys p' where a:
    "audio_tables (mlang m) 0 (maudio m) (mst m) ?p =
      Some (map (\<lambda>(a, s, tos). retabled a s tos) (zip (maudio m) (zip (mst m) toss)), p')"
    "length toss = length (maudio m)"
    "list_all2 (\<lambda>a tos. length tos = length (declared_streams (ipmt (iscan a)))) (maudio m) toss"
    "distinct (concat toss)" "set (concat toss) \<inter> set (used ?p) = {}"
    "\<forall>to \<in> set (concat toss). uint to < 8192" "body p' = body ?p @ concat ys" "list_all whole_entry ys"
    "map entry_es ys = concat (map2 (\<lambda>a tos. map2 retarget (declared_streams (ipmt (iscan a))) tos) (maudio m) toss)"
    "len (concat ys) \<le> sum_list (map (\<lambda>a. table_room (ipmt (iscan a))) (maudio m))"
    by blast
  have sl: "slice ?sec 3 (len ?sec - 4) = Some (video_body ?sec)"
    using c(2) by (simp add: slice_def video_body_def)
  have b: "at (body p') 2 = Some (body p' ! 2)"
    using a(7) c(2) by (simp add: go_simps video_body_def len_def)
  have "rebuild m = (let m1 = m\<lparr>mst := map (\<lambda>(a, s, tos). retabled a s tos) (zip (maudio m) (zip (mst m) toss))\<rparr>;
           bdy = video_body ?sec @ concat ys
       in if len bdy + 4 > MaxSectionBytes - 3 then Some m1 else Some (install_table m1 bdy))"
    using c at l(1) v(1) sl a(1,7) b
    by (simp add: rebuild_def Let_def info_len_def used del: append.simps)
  then show ?thesis using a by (intro exI [of _ toss] exI [of _ ys]) (simp del: append.simps)
qed


text \<open>What of the merge \<open>rebuild\<close> leaves alone.\<close>

definition same_stream :: "astream \<Rightarrow> astream \<Rightarrow> bool" where
  "same_stream s t \<longleftrightarrow> ahead t = ahead s \<and> alate t = alate s \<and> abegun t = abegun s \<and>
     afinished t = afinished s \<and> alast t = alast s"

definition same_rest :: "merger \<Rightarrow> merger \<Rightarrow> bool" where
  "same_rest m n \<longleftrightarrow> mvideo n = mvideo m \<and> maudio n = maudio m \<and> mlang n = mlang m \<and> mdone n = mdone m \<and>
     mout n = mout m \<and> mwritten n = mwritten m \<and> mplace n = mplace m \<and> mcc n = mcc m"

lemma same_stream_refl [simp]: "same_stream s s" "list_all2 same_stream ss ss"
  by (simp_all add: same_stream_def list_all2_refl)

lemma same_rest_refl [simp]: "same_rest m m"
  by (simp add: same_rest_def)

lemma install_table_frame [simp]:
  "mvideo (install_table m b) = mvideo m" "maudio (install_table m b) = maudio m"
  "mlang (install_table m b) = mlang m" "mdone (install_table m b) = mdone m"
  "mst (install_table m b) = mst m" "mout (install_table m b) = mout m"
  "mwritten (install_table m b) = mwritten m" "mplace (install_table m b) = mplace m"
  "mcc (install_table m b) = mcc m"
  by (simp_all add: install_table_def Let_def)

lemma rebuild_noop:
  assumes "tables_ok m" "\<not> rebuilds m" shows "rebuild m = Some m"
proof (cases "table_changed m \<and> 16 \<le> len (ipmt (iscan (mvideo m)))")
  case True
  let ?sec = "ipmt (iscan (mvideo m))"
  have l: "len ?sec = 3 + len12 (?sec ! 1) (?sec ! 2)"
    using assms(1) True by (auto simp: tables_ok_def section_ok_def)
  have at: "at ?sec 1 = Some (?sec ! 1)" "at ?sec 2 = Some (?sec ! 2)" "at ?sec 10 = Some (?sec ! 10)"
    "at ?sec 11 = Some (?sec ! 11)" using True by (simp_all add: go_simps)
  then show ?thesis using True l at assms(2) by (simp add: rebuild_def rebuilds_def Let_def info_len_def)
qed (auto simp: rebuild_def)

lemma map_upds_range: "(m(xs [\<mapsto>] ys)) x = Some y \<Longrightarrow> m x = Some y \<or> y \<in> set ys"
proof (induction xs arbitrary: m ys)
  case (Cons a xs)
  show ?case
  proof (cases ys)
    case zs: (Cons b zs)
    with Cons.prems have "((m(a \<mapsto> b))(xs [\<mapsto>] zs)) x = Some y" by simp
    from Cons.IH [OF this] have "(m(a \<mapsto> b)) x = Some y \<or> y \<in> set zs" .
    then show ?thesis using zs by (cases "x = a") auto
  qed (use Cons.prems in simp)
qed simp

lemma retabled_law:
  assumes "old_ok (apids s)" "\<forall>to \<in> set tos. uint to < 8192"
  shows "same_stream s (retabled a s tos)" "old_ok (apids (retabled a s tos))"
proof -
  show "same_stream s (retabled a s tos)" by (simp add: same_stream_def retabled_def Let_def)
  show "old_ok (apids (retabled a s tos))"
    using assms map_upds_range [of Map.empty "map esPID (declared_streams (ipmt (iscan a)))" tos]
    by (auto simp: retabled_def Let_def old_ok_def)
qed

lemma retabled_streams:
  assumes "length as = length ss" "length toss = length as" "list_all (\<lambda>s. old_ok (apids s)) ss"
    "\<forall>to \<in> set (concat toss). uint to < 8192"
  shows "list_all2 same_stream ss (map (\<lambda>(a, s, tos). retabled a s tos) (zip as (zip ss toss)))"
    "list_all (\<lambda>s. old_ok (apids s)) (map (\<lambda>(a, s, tos). retabled a s tos) (zip as (zip ss toss)))"
proof -
  have "\<forall>i < length toss. \<forall>to \<in> set (toss ! i). uint to < 8192" using assms(4) nth_mem by fastforce
  then show "list_all2 same_stream ss (map (\<lambda>(a, s, tos). retabled a s tos) (zip as (zip ss toss)))"
    "list_all (\<lambda>s. old_ok (apids s)) (map (\<lambda>(a, s, tos). retabled a s tos) (zip as (zip ss toss)))"
    using assms(1-3) retabled_law by (auto simp: list_all2_conv_all_nth list_all_length)
qed

lemma rebuild_safe:
  assumes "tables_ok m"
  shows "\<exists>n. rebuild m = Some n \<and> tables_ok n \<and> same_rest m n \<and> list_all2 same_stream (mst m) (mst n)"
proof (cases "rebuilds m")
  case False
  then show ?thesis using rebuild_noop assms by auto
next
  case True
  from rebuild_law [OF assms True] obtain toss ys where r: "rebuild m =
      (let m1 = m\<lparr>mst := map (\<lambda>(a, s, tos). retabled a s tos) (zip (maudio m) (zip (mst m) toss))\<rparr>;
           bdy = video_body (ipmt (iscan (mvideo m))) @ concat ys
       in if len bdy + 4 > MaxSectionBytes - 3 then Some m1 else Some (install_table m1 bdy))"
    "length toss = length (maudio m)" "\<forall>to \<in> set (concat toss). uint to < 8192" by blast
  let ?ss = "map (\<lambda>(a, s, tos). retabled a s tos) (zip (maudio m) (zip (mst m) toss))"
  obtain n where n: "rebuild m = Some n" "mst n = ?ss" "same_rest m n"
    using r(1) by (auto simp: Let_def same_rest_def split: if_splits)
  have t: "length (maudio m) = length (mst m)" "list_all (\<lambda>s. old_ok (apids s)) (mst m)"
    using assms by (simp_all add: tables_ok_def)
  note q = retabled_streams [OF t(1) r(2) t(2) r(3)]
  have "tables_ok n" using assms n(2,3) q(2) r(2) by (auto simp: tables_ok_def same_rest_def)
  then show ?thesis using n q(1) by auto
qed

section \<open>The joined table reads back\<close>

lemma built_installed:
  assumes "3 \<le> length bdy"
  shows "\<exists>v. built (install_table m bdy) = Section 0x02 (bdy[2 := version_byte v]) \<and>
    ver (install_table m bdy) = v \<and>
    (built m \<noteq> [] \<and> built (install_table m bdy) \<noteq> built m \<longrightarrow> v = next_version (ver m))"
  by (auto simp: install_table_def Let_def)

lemma Section_bytes:
  "k < length b \<Longrightarrow> Section t b ! (3 + k) = b ! k" "Section t b ! 0 = t"
  by (simp_all add: Section_def Let_def nth_append)

lemma joined_reads:
  assumes "9 \<le> length bdy" "len bdy + 4 \<le> MaxSectionBytes - 3"
    "drop (nat (9 + len12 (bdy ! 7) (bdy ! 8))) bdy = concat xs" "9 + len12 (bdy ! 7) (bdy ! 8) \<le> len bdy"
    "list_all whole_entry xs" "xs \<noteq> []"
  shows "PMTStreamsSection (Section 0x02 (bdy[2 := v])) = Some (map entry_es xs, True)"
proof -
  let ?b = "bdy[2 := v]" and ?s = "Section 0x02 (bdy[2 := v])"
  have b: "len ?b = len bdy" "?b ! 7 = bdy ! 7" "?b ! 8 = bdy ! 8" "len ?b \<le> 1017"
    using assms(2) by (simp_all add: MaxSectionBytes_def len_def)
  have l: "length ?s = 3 + length ?b + 4" "len12 (?s ! 1) (?s ! 2) = len ?b + 4"
    using Section_length [where body = ?b and tableID = "0x02"] b(4) by simp_all
  have s: "?s ! 10 = bdy ! 7" "?s ! 11 = bdy ! 8" "?s ! 0 = 0x02"
    using Section_bytes(1) [where k = 7 and b = ?b] Section_bytes(1) [where k = 8 and b = ?b] Section_bytes(2)
      assms(1) b by simp_all
  have ls: "len ?s = len bdy + 7" using l(1) b(1) by (simp add: len_def)
  have big: "12 \<le> len ?s" using ls assms(1) by (simp add: len_def)
  have at: "at ?s 1 = Some (?s ! 1)" "at ?s 2 = Some (?s ! 2)" "at ?s 10 = Some (?s ! 10)"
    "at ?s 11 = Some (?s ! 11)" "at ?s 0 = Some (?s ! 0)" using big by (simp_all add: go_simps)
  have e: "esEnd ?s = Some (len bdy + 3)" using at l(2) ls b(1) by (simp add: esEnd_def)
  let ?i = "len12 (bdy ! 7) (bdy ! 8)"
  have i: "0 \<le> ?i" by simp
  have "?s = ([0x02, ?s ! 1, ?s ! 2] @ ?b) @ drop (Suc (Suc (Suc (length ?b)))) ?s" by (simp add: Section_def Let_def)
  then have "[0x02, ?s ! 1, ?s ! 2] @ ?b = take (length ([0x02, ?s ! 1, ?s ! 2] @ ?b)) ?s"
    by (metis append_eq_conv_conj)
  moreover have "length ([0x02, ?s ! 1, ?s ! 2] @ ?b) = nat (len bdy + 3)" by (simp add: len_def nat_add_distrib)
  ultimately have "take (nat (len bdy + 3)) ?s = [0x02, ?s ! 1, ?s ! 2] @ ?b" by metis
  then have "drop (nat (12 + ?i)) (take (nat (len bdy + 3)) ?s) = drop (nat (9 + ?i)) ?b"
  proof -
    have "nat (12 + ?i) = nat (9 + ?i) + 3" using i by (simp add: nat_add_distrib)
    then have "drop (nat (12 + ?i)) ([0x02, ?s ! 1, ?s ! 2] @ ?b) = drop (nat (9 + ?i)) (drop 3 ([0x02, ?s ! 1, ?s ! 2] @ ?b))"
      by (simp only: drop_drop)
    moreover assume "take (nat (len bdy + 3)) ?s = [0x02, ?s ! 1, ?s ! 2] @ ?b"
    ultimately show ?thesis by simp
  qed
  also have "\<dots> = drop (nat (9 + ?i)) bdy" using i by (intro drop_update_cancel) linarith
  finally have d: "drop (nat (12 + ?i)) (take (nat (len bdy + 3)) ?s) = concat xs" using assms(3) by simp
  have "PMT_es_loop ?s (len bdy + 3) (12 + ?i) = Some (map entry_es xs)"
    using PMT_es_loop_entries [OF d _ _ assms(5)] ls i by simp
  then show ?thesis using big at e s assms(6) by (simp add: PMTStreamsSection_def Let_def)
qed


text \<open>The video stream's table is well formed: its entries fill it.\<close>

definition filled :: "bytes \<Rightarrow> bool" where
  "filled sec \<longleftrightarrow> concat (table_entries sec) = drop (nat (12 + info_len sec)) (take (nat (len sec - 4)) sec)"

text \<open>The joined table has room for all entries, with a language descriptor each.\<close>

definition fits :: "merger \<Rightarrow> bool" where
  "fits m \<longleftrightarrow> len (ipmt (iscan (mvideo m))) + sum_list (map (\<lambda>a. table_room (ipmt (iscan a))) (maudio m)) \<le> MaxSectionBytes"

text \<open>C25: when a table has changed, the video stream's entries fill its table and there is room, the
  joined table, read back as a demuxer reads it, lists the video stream's entries and then the streams
  each audio stream's table declares, on the PIDs \<open>rebuild\<close> gives them; those are PIDs of 13 bits,
  differ from one another and from every PID the video stream uses; the map by which audio packets are
  moved is the one the table declares; and a table that replaces another has the next version.\<close>

theorem joined_table_reads_back:
  assumes "tables_ok m" "rebuilds m" "filled (ipmt (iscan (mvideo m)))" "fits m"
    "table_entries (ipmt (iscan (mvideo m))) \<noteq> []"
  shows "\<exists>n toss. rebuild m = Some n \<and> length toss = length (maudio m) \<and>
    PMTStreamsSection (built n) = Some (map entry_es (table_entries (ipmt (iscan (mvideo m)))) @
      concat (map2 (\<lambda>a tos. map2 retarget (declared_streams (ipmt (iscan a))) tos) (maudio m) toss), True) \<and>
    mst n = map (\<lambda>(a, s, tos). retabled a s tos) (zip (maudio m) (zip (mst m) toss)) \<and>
    list_all2 (\<lambda>a tos. length tos = length (declared_streams (ipmt (iscan a)))) (maudio m) toss \<and>
    distinct (concat toss) \<and> (\<forall>to \<in> set (concat toss). uint to < 8192) \<and>
    set (concat toss) \<inter> set ([0, 0x11, 0x1fff, ipmtPID (iscan (mvideo m)),
      pid13 (ipmt (iscan (mvideo m)) ! 8) (ipmt (iscan (mvideo m)) ! 9)] @
      map (esPID \<circ> entry_es) (table_entries (ipmt (iscan (mvideo m))))) = {} \<and>
    built n ! 5 = version_byte (ver n) \<and>
    (built m \<noteq> [] \<and> built n \<noteq> built m \<longrightarrow> ver n = next_version (ver m))"
proof -
  let ?sec = "ipmt (iscan (mvideo m))" and ?pid = "ipmtPID (iscan (mvideo m))"
  let ?xs = "table_entries ?sec"
  from rebuild_law [OF assms(1,2)] obtain toss ys where r: "rebuild m =
      (let m1 = m\<lparr>mst := map (\<lambda>(a, s, tos). retabled a s tos) (zip (maudio m) (zip (mst m) toss))\<rparr>;
           bdy = video_body ?sec @ concat ys
       in if len bdy + 4 > MaxSectionBytes - 3 then Some m1 else Some (install_table m1 bdy))"
    "length toss = length (maudio m)"
    "list_all2 (\<lambda>a tos. length tos = length (declared_streams (ipmt (iscan a)))) (maudio m) toss"
    "distinct (concat toss)" "set (concat toss) \<inter> set (video_pids ?pid ?sec) = {}"
    "\<forall>to \<in> set (concat toss). uint to < 8192" "list_all whole_entry ys"
    "map entry_es ys = concat (map2 (\<lambda>a tos. map2 retarget (declared_streams (ipmt (iscan a))) tos) (maudio m) toss)"
    "len (concat ys) \<le> sum_list (map (\<lambda>a. table_room (ipmt (iscan a))) (maudio m))" by blast
  define bdy where "bdy = video_body ?sec @ concat ys"
  define m1 where "m1 = m\<lparr>mst := map (\<lambda>(a, s, tos). retabled a s tos) (zip (maudio m) (zip (mst m) toss))\<rparr>"
  have c: "16 \<le> len ?sec" "12 + info_len ?sec \<le> len ?sec - 4" using assms(2) by (simp_all add: rebuilds_def Let_def)
  have ok: "section_ok ?sec" using assms(1) by (simp add: tables_ok_def)
  have lv: "len (video_body ?sec) = len ?sec - 7" using c(1) by (simp add: video_body_def len_def)
  have lb: "len bdy + 4 \<le> MaxSectionBytes - 3"
    using r(9) assms(4) lv by (simp add: bdy_def fits_def)
  then have n: "rebuild m = Some (install_table m1 bdy)"
    using r(1) by (simp add: Let_def bdy_def m1_def)
  have b9: "9 \<le> length bdy" using lv c(1) by (simp add: bdy_def len_def)
  have nth: "bdy ! k = ?sec ! (3 + k)" if "k < 9" for k
  proof -
    have "k < length ?sec - 7" using that c(1) by (simp add: len_def)
    moreover have "nat (len ?sec - 7) = length ?sec - 7" unfolding len_def by linarith
    ultimately show ?thesis by (simp add: bdy_def video_body_def nth_append)
  qed
  have i: "len12 (bdy ! 7) (bdy ! 8) = info_len ?sec" using nth [of 7] nth [of 8] by (simp add: info_len_def)
  have i0: "0 \<le> info_len ?sec" by (simp add: info_len_def)
  have "drop (nat (9 + info_len ?sec)) (video_body ?sec) = concat ?xs"
  proof -
    have "drop (nat (9 + info_len ?sec)) (video_body ?sec) =
        drop (nat (12 + info_len ?sec)) (take (nat (len ?sec - 4)) ?sec)"
      using i0 c(1) by (simp add: video_body_def drop_take nat_add_distrib nat_diff_distrib add.commute)
    then show ?thesis using assms(3) by (simp add: filled_def)
  qed
  moreover have "nat (9 + info_len ?sec) \<le> length (video_body ?sec)" using lv c(2) by (simp add: len_def)
  ultimately have d: "drop (nat (9 + info_len ?sec)) bdy = concat (?xs @ ys)" by (simp add: bdy_def)
  have w: "list_all whole_entry (?xs @ ys)" using table_entries_law(1) [OF ok] r(7) by simp
  from built_installed [of bdy m1] b9 obtain v where v:
    "built (install_table m1 bdy) = Section 0x02 (bdy[2 := version_byte v])" "ver (install_table m1 bdy) = v"
    "built m \<noteq> [] \<and> built (install_table m1 bdy) \<noteq> built m \<longrightarrow> v = next_version (ver m)"
    by (auto simp: m1_def)
  have "PMTStreamsSection (built (install_table m1 bdy)) = Some (map entry_es (?xs @ ys), True)"
    unfolding v(1)
  proof (rule joined_reads [OF b9 lb _ _ w])
    show "drop (nat (9 + len12 (bdy ! 7) (bdy ! 8))) bdy = concat (?xs @ ys)" using d by (simp only: i)
    have "len bdy = len ?sec - 7 + len (concat ys)" using lv by (simp add: bdy_def)
    then show "9 + len12 (bdy ! 7) (bdy ! 8) \<le> len bdy"
      unfolding i using c(2) len_simps(4) [of "concat ys"] by linarith
  qed (use assms(5) in simp)
  moreover have "built (install_table m1 bdy) ! 5 = version_byte v"
    using Section_bytes(1) [where k = 2 and b = "bdy[2 := version_byte v]"] b9 by (simp add: v(1))
  moreover have "video_pids ?pid ?sec = [0, 0x11, 0x1fff, ?pid, pid13 (?sec ! 8) (?sec ! 9)] @ map (esPID \<circ> entry_es) ?xs"
    using entry_pids_entries [of "12 + info_len ?sec" "len ?sec - 4" ?sec ?xs] assms(3) i0 table_entries_law(1) [OF ok]
    by (simp add: video_pids_def filled_def)
  moreover have "mst (install_table m1 bdy) = map (\<lambda>(a, s, tos). retabled a s tos) (zip (maudio m) (zip (mst m) toss))"
    by (simp add: m1_def)
  ultimately show ?thesis using n r(2-6,8) v(2,3)
    by (intro exI [of _ "install_table m1 bdy"] exI [of _ toss]) (simp only: map_append)
qed

end
