(* ===== verification/TsMergeLog.thy ===== *)
theory TsMergeLog
  imports TsMergeTable
begin

text \<open>
  The merge of \<open>tsmerge.go\<close> seen as a log of groups: a video frame, the audio frames put in front of it,
  and the bytes written for it.  \<open>merge_inv\<close> relates a state of the merge to such a log, and every step
  keeps it: so what is written is the log's bytes, the log's video frames are those the video input
  sent, and its audio frames those each audio input sent, all in order.
\<close>

section \<open>Moving the packets of an audio frame\<close>

lemma split_packets:
  "188 dvd length b \<Longrightarrow> \<exists>qs. b = concat qs \<and> list_all (\<lambda>p. length p = 188) qs"
proof (induction "length b" arbitrary: b rule: less_induct)
  case less
  show ?case
  proof (cases "b = []")
    case True
    then show ?thesis by (intro exI [of _ "[]"]) simp
  next
    case False
    then have l: "188 \<le> length b" using less.prems by (auto dest: dvd_imp_le)
    then have "188 dvd length (drop 188 b)" using less.prems by (simp add: dvd_diff_nat)
    then obtain qs where "drop 188 b = concat qs" "list_all (\<lambda>p. length p = 188) qs"
      using less.hyps [of "drop 188 b"] l False by (metis diff_less length_drop length_greater_0_conv zero_less_numeral)
    then show ?thesis using l append_take_drop_id [of 188 b] by (intro exI [of _ "take 188 b # qs"]) simp
  qed
qed

text \<open>A packet on the PID a map gives it, and a frame of them.\<close>

definition move_packet :: "(u16 \<rightharpoonup> u16) \<Rightarrow> bytes \<Rightarrow> bytes" where
  "move_packet pids p =
     (case pids (pid13 (p ! 1) (p ! 2)) of
        Some np \<Rightarrow> if np \<noteq> pid13 (p ! 1) (p ! 2)
                   then p[1 := (p ! 1 AND 0xe0) OR hi_byte np, 2 := lo_byte np] else p
      | None \<Rightarrow> p)"

lemma length_move_packet [simp]: "length (move_packet pids p) = length p"
  by (simp add: move_packet_def split: option.split)

text \<open>Only the PID changes: the header's flags, its counter and the payload are the packet's.\<close>

lemma move_packet_law:
  assumes "length p = 188" "old_ok pids"
  shows "PID (move_packet pids p) = Some (case pids (pid13 (p ! 1) (p ! 2)) of Some np \<Rightarrow> np | None \<Rightarrow> pid13 (p ! 1) (p ! 2))"
    "move_packet pids p ! 0 = p ! 0" "drop 3 (move_packet pids p) = drop 3 p"
    "move_packet pids p ! 1 AND 0xe0 = p ! 1 AND 0xe0"
proof -
  have at: "at p 1 = Some (p ! 1)" "at p 2 = Some (p ! 2)" using assms(1) by (simp_all add: go_simps len_def)
  have small: "take_bit 13 np = np" if "pids q = Some np" for q np
    using assms(2) that pid_small by (auto simp: old_ok_def)
  show "PID (move_packet pids p) = Some (case pids (pid13 (p ! 1) (p ! 2)) of Some np \<Rightarrow> np | None \<Rightarrow> pid13 (p ! 1) (p ! 2))"
    using at small assms(1)
    by (auto simp: PID_def move_packet_def go_simps len_def pid13_set pid13_bytes split: option.split)
  show "move_packet pids p ! 0 = p ! 0" "drop 3 (move_packet pids p) = drop 3 p"
    by (simp_all add: move_packet_def split: option.split)
  have "((b AND 0xe0) OR hi_byte np) AND 0xe0 = (b AND 0xe0 :: byte)" if "take_bit 13 np = np" for b np
  proof (rule byte_eqI)
    fix n :: nat
    assume n: "n < 8"
    have "bit np (8 + n) = bit (take_bit 13 np) (8 + n)" using that by simp
    then have "bit (0xe0 :: byte) n \<Longrightarrow> \<not> bit np (8 + n)"
      using n by (auto simp: bit_take_bit_iff lt8 byte_bits)
    then show "bit (((b AND 0xe0) OR hi_byte np) AND 0xe0) n = bit (b AND 0xe0) n"
      using n by (auto simp: bit_simps hi_byte_def bit_ucast_iff)
  qed
  then show "move_packet pids p ! 1 AND 0xe0 = p ! 1 AND 0xe0"
    using small assms(1) by (auto simp: move_packet_def split: option.split)
qed

lemma move_packets_concat:
  "list_all (\<lambda>p. length p = 188) qs \<Longrightarrow> move_packets pids (concat qs) = Some (concat (map (move_packet pids) qs))"
proof (induction qs)
  case Nil
  then show ?case by (simp add: move_packets.simps PacketSize_def)
next
  case (Cons q qs)
  let ?b = "concat (q # qs)"
  have q: "length q = 188" using Cons.prems by simp
  then have nth: "?b ! k = q ! k" if "k < 188" for k using that by (simp add: nth_append)
  have at: "at ?b 1 = Some (q ! 1)" "at ?b 2 = Some (q ! 2)" "PacketSize \<le> len ?b"
    using nth [of 1] nth [of 2] q by (simp_all add: go_simps len_def PacketSize_def)
  have pid: "PID ?b = Some (pid13 (q ! 1) (q ! 2))" using at by (simp add: PID_def)
  define r where "r = (case pids (pid13 (q ! 1) (q ! 2)) of
      Some np \<Rightarrow> if np \<noteq> pid13 (q ! 1) (q ! 2) then ?b[1 := (q ! 1 AND 0xe0) OR hi_byte np, 2 := lo_byte np] else ?b
    | None \<Rightarrow> ?b)"
  have r: "r = move_packet pids q @ concat qs"
    using q by (simp add: r_def move_packet_def list_update_append split: option.split)
  have "move_packets pids ?b = do { rest \<leftarrow> move_packets pids (drop 188 r); Some (take 188 r @ rest) }"
    using at pid by (subst move_packets.simps) (simp add: r_def Let_def cong: if_cong option.case_cong)
  also have "\<dots> = Some (concat (map (move_packet pids) (q # qs)))" using q Cons by (simp add: r)
  finally show ?case .
qed

text \<open>The bytes of an audio frame as they go out.\<close>

definition moved :: "bytes \<Rightarrow> bytes \<Rightarrow> bool" where
  "moved ps out \<longleftrightarrow> (\<exists>pids qs. old_ok pids \<and> list_all (\<lambda>p. length p = 188) qs \<and> ps = concat qs \<and>
     out = concat (map (move_packet pids) qs))"

lemma move_packets_law:
  assumes "188 dvd length ps" "old_ok pids"
  shows "\<exists>out. move_packets pids ps = Some out \<and> moved ps out"
proof -
  obtain qs where "ps = concat qs" "list_all (\<lambda>p. length p = 188) qs" using split_packets [OF assms(1)] by blast
  then show ?thesis using move_packets_concat [of qs pids] assms(2) by (auto simp: moved_def)
qed

lemma audioOut_law:
  assumes "tables_ok m" "i < length (mst m)" "unit_ok u"
  shows "\<exists>n out. audioOut i u m = Some n \<and> moved (pkts u) out \<and> mout n = mout m @ out \<and> tables_ok n \<and>
    same_rest (m\<lparr>mout := mout n\<rparr>) n \<and> list_all2 same_stream (mst m) (mst n)"
proof -
  obtain m1 where r: "rebuild m = Some m1" "tables_ok m1" "same_rest m m1" "list_all2 same_stream (mst m) (mst m1)"
    using rebuild_safe [OF assms(1)] by blast
  have i: "i < length (mst m1)" using assms(2) r(4) by (simp add: list_all2_lengthD)
  then have s: "at (mst m1) (int i) = Some (mst m1 ! i)" by (simp add: go_simps len_def)
  have "old_ok (apids (mst m1 ! i))" using r(2) i by (auto simp: tables_ok_def list_all_length)
  then obtain out where out: "move_packets (apids (mst m1 ! i)) (pkts u) = Some out" "moved (pkts u) out"
    using move_packets_law [of "pkts u"] assms(3) by (auto simp: unit_ok_def)
  have "tables_ok (m1\<lparr>mout := mout m1 @ out\<rparr>)" using r(2) by (simp add: tables_ok_def)
  then show ?thesis using r s out by (auto simp: audioOut_def same_rest_def)
qed

section \<open>A video frame with the joined table\<close>

definition table_bytes :: "bytes \<Rightarrow> bool" where
  "table_bytes t \<longleftrightarrow> t = [] \<or> (\<exists>pid cc sec. sec \<noteq> [] \<and> t = fst (table_packets pid cc True (0x00 # sec)))"

fun weave :: "bytes \<Rightarrow> int \<Rightarrow> int list \<Rightarrow> bytes list \<Rightarrow> bytes" where
  "weave ps prev (i # is) (t # ts) = take (nat (i - prev)) (drop (nat prev) ps) @ t @ weave ps i is ts"
| "weave ps prev is ts = drop (nat prev) ps"

lemma pmtOut_law:
  "\<exists>t. table_bytes t \<and> mout (pmtOut m) = mout m @ t \<and> same_rest (m\<lparr>mout := mout (pmtOut m), mcc := mcc (pmtOut m)\<rparr>) (pmtOut m) \<and>
    mst (pmtOut m) = mst m \<and> (tables_ok m \<longrightarrow> tables_ok (pmtOut m))"
proof (cases "built m = []")
  case True
  then show ?thesis by (intro exI [of _ "[]"]) (simp add: pmtOut_def table_bytes_def same_rest_def)
next
  case False
  obtain ps cc where tp: "table_packets (mpmtPID m) (mcc m) True (0x00 # built m) = (ps, cc)" by fastforce
  then have "table_bytes ps" unfolding table_bytes_def using False by (metis fst_conv)
  then show ?thesis using False tp
    by (intro exI [of _ ps]) (auto simp: pmtOut_def same_rest_def tables_ok_def)
qed

lemma video_parts_law:
  assumes "sorted (prev # is)" "0 \<le> prev" "list_all (\<lambda>i. i \<le> len ps) (prev # is)" "tables_ok m"
  shows "\<exists>n ts. video_parts ps prev is m = Some n \<and> length ts = length is \<and> list_all table_bytes ts \<and>
    mout n = mout m @ weave ps prev is ts \<and> tables_ok n \<and> mst n = mst m \<and>
    same_rest (m\<lparr>mout := mout n, mcc := mcc n\<rparr>) n"
  using assms
proof (induction "is" arbitrary: prev m)
  case Nil
  then show ?case by (auto simp: go_simps same_rest_def tables_ok_def)
next
  case (Cons i "is")
  have i: "prev \<le> i" "i \<le> len ps" using Cons.prems(1,3) by auto
  have sl: "slice ps prev i = Some (take (nat (i - prev)) (drop (nat prev) ps))"
    using i Cons.prems(2) by (simp add: slice_def)
  let ?m = "m\<lparr>mout := mout m @ take (nat (i - prev)) (drop (nat prev) ps)\<rparr>"
  have tm: "tables_ok ?m" using Cons.prems(4) by (simp add: tables_ok_def)
  obtain t where t: "table_bytes t" "mout (pmtOut ?m) = mout ?m @ t" "tables_ok (pmtOut ?m)"
    "mst (pmtOut ?m) = mst m" "same_rest (?m\<lparr>mout := mout (pmtOut ?m), mcc := mcc (pmtOut ?m)\<rparr>) (pmtOut ?m)"
    using pmtOut_law [of ?m] tm by auto
  from Cons.IH [of i "pmtOut ?m"] Cons.prems i t(3) obtain n ts where n:
    "video_parts ps i is (pmtOut ?m) = Some n" "length ts = length is" "list_all table_bytes ts"
    "mout n = mout (pmtOut ?m) @ weave ps i is ts" "tables_ok n" "mst n = mst (pmtOut ?m)"
    "same_rest ((pmtOut ?m)\<lparr>mout := mout n, mcc := mcc n\<rparr>) n" by auto
  show ?case using sl n t by (intro exI [of _ n] exI [of _ "t # ts"]) (simp add: same_rest_def)
qed

lemma videoOut_law:
  assumes "tables_ok m" "unit_ok v"
  shows "\<exists>n ts. videoOut v m = Some n \<and> length ts = length (pmtAt v) \<and> list_all table_bytes ts \<and>
    mout n = mout m @ weave (pkts v) 0 (pmtAt v) ts \<and> tables_ok n \<and> list_all2 same_stream (mst m) (mst n) \<and>
    same_rest (m\<lparr>mout := mout n, mcc := mcc n\<rparr>) n"
proof (cases "pmtAt v = []")
  case True
  then show ?thesis using assms(1) by (simp add: videoOut_def same_rest_def tables_ok_def)
next
  case False
  obtain m1 where r: "rebuild m = Some m1" "tables_ok m1" "same_rest m m1" "list_all2 same_stream (mst m) (mst m1)"
    using rebuild_safe [OF assms(1)] by blast
  have "sorted (0 # pmtAt v)" "list_all (\<lambda>i. i \<le> len (pkts v)) (0 # pmtAt v)"
    using assms(2) by (auto simp: unit_ok_def list_all_iff)
  from video_parts_law [OF this(1) _ this(2) r(2)] obtain n ts where
    "video_parts (pkts v) 0 (pmtAt v) m1 = Some n" "length ts = length (pmtAt v)" "list_all table_bytes ts"
    "mout n = mout m1 @ weave (pkts v) 0 (pmtAt v) ts" "tables_ok n" "mst n = mst m1"
    "same_rest (m1\<lparr>mout := mout n, mcc := mcc n\<rparr>) n" by auto
  then show ?thesis using False r
    by (intro exI [of _ n] exI [of _ ts]) (simp add: videoOut_def same_rest_def)
qed


section \<open>The log\<close>

text \<open>An audio frame put out: of which stream, the frame, and its bytes as written.\<close>

type_synonym placed = "nat \<times> Unit \<times> bytes"

record group =
  gvideo :: Unit
  gaudio :: "placed list"
  gbytes :: bytes

text \<open>An audio frame is due before a video frame unless it is later, on the same timeline.\<close>

definition due :: "Unit \<Rightarrow> Unit \<Rightarrow> bool" where
  "due u v \<longleftrightarrow> \<not> (hasTS u \<and> 0 < delta (uts u) (uts v) \<and> delta (uts u) (uts v) < farApart)"

definition placed_ok :: "Unit \<Rightarrow> placed \<Rightarrow> bool" where
  "placed_ok v x \<longleftrightarrow> moved (pkts (fst (snd x))) (snd (snd x)) \<and> due (fst (snd x)) v \<and> hasTS v"

definition audio_bytes :: "placed list \<Rightarrow> bytes" where
  "audio_bytes xs = concat (map (snd \<circ> snd) xs)"

definition audio_of :: "nat \<Rightarrow> placed list \<Rightarrow> Unit list" where
  "audio_of i xs = map (fst \<circ> snd) (filter (\<lambda>x. fst x = i) xs)"

definition group_ok :: "group \<Rightarrow> bool" where
  "group_ok g \<longleftrightarrow> list_all (placed_ok (gvideo g)) (gaudio g) \<and>
     (\<exists>ts. length ts = length (pmtAt (gvideo g)) \<and> list_all table_bytes ts \<and>
        gbytes g = audio_bytes (gaudio g) @ weave (pkts (gvideo g)) 0 (pmtAt (gvideo g)) ts)"

definition log_bytes :: "group list \<Rightarrow> bytes" where
  "log_bytes gs = concat (map gbytes gs)"

definition log_audio :: "group list \<Rightarrow> placed list" where
  "log_audio gs = concat (map gaudio gs)"

text \<open>A frame left out: it is from before the video began.\<close>

definition early :: "Unit list \<Rightarrow> Unit \<Rightarrow> bool" where
  "early vs u \<longleftrightarrow> hasTS u \<and> (\<exists>v \<in> set vs. - farApart < delta (uts u) (uts v) \<and> delta (uts u) (uts v) < - startTrim)"

definition held :: "astream \<Rightarrow> Unit list" where
  "held s = (case ahead s of Some h \<Rightarrow> [h] | None \<Rightarrow> [])"

text \<open>Nothing more of a stream is due before a video frame, as far as the merge can know.\<close>

definition settled :: "Unit \<Rightarrow> astream \<Rightarrow> bool" where
  "settled v s \<longleftrightarrow> (case ahead s of Some h \<Rightarrow> \<not> due h v | None \<Rightarrow> alate s \<or> afinished s)"

lemma audio_of_simps [simp]:
  "audio_of i [] = []" "audio_of i (xs @ ys) = audio_of i xs @ audio_of i ys"
  "audio_of i [(j, u, b)] = (if j = i then [u] else [])"
  by (simp_all add: audio_of_def)

lemma log_simps [simp]:
  "log_bytes [] = []" "log_bytes (gs @ hs) = log_bytes gs @ log_bytes hs" "log_bytes [g] = gbytes g"
  "log_audio [] = []" "log_audio (gs @ hs) = log_audio gs @ log_audio hs" "log_audio [g] = gaudio g"
  "audio_bytes [] = []" "audio_bytes (xs @ ys) = audio_bytes xs @ audio_bytes ys" "audio_bytes [(i, u, b)] = b"
  by (simp_all add: log_bytes_def log_audio_def audio_bytes_def)

lemma log_butlast: "prefix (log_bytes (butlast gs)) (log_bytes gs)"
  by (cases gs rule: rev_cases) simp_all

lemma same_stream_keeps:
  assumes "same_stream s t" shows "held t = held s" "settled v t = settled v s" "ahead t = ahead s"
  using assms by (auto simp: same_stream_def held_def settled_def split: option.split)

text \<open>The frames received of each audio stream: left out, put out, and held.\<close>

definition flows :: "astream list \<Rightarrow> Unit list list \<Rightarrow> placed list \<Rightarrow> Unit list list \<Rightarrow> bool" where
  "flows ss agot xs sk \<longleftrightarrow> length agot = length ss \<and> length sk = length ss \<and>
     (\<forall>i < length ss. agot ! i = sk ! i @ audio_of i xs @ held (ss ! i) \<and>
        (\<not> abegun (ss ! i) \<longrightarrow> audio_of i xs = []))"

definition log_rel :: "merger \<Rightarrow> Unit list \<Rightarrow> Unit list list \<Rightarrow> group list \<Rightarrow> placed list \<Rightarrow> Unit list list \<Rightarrow> bool" where
  "log_rel m vgot agot gs xs sk \<longleftrightarrow>
     list_all group_ok gs \<and> (\<forall>us \<in> set sk. list_all (early vgot) us) \<and>
     (case mplace m of
        Stopped e \<Rightarrow> length agot = length (mst m) \<and> length sk = length (mst m) \<and>
          prefix (mwritten m) (log_bytes gs) \<and> prefix (log_bytes (butlast gs)) (mwritten m) \<and> (e \<noteq> ReaderGone \<longrightarrow> mwritten m = log_bytes gs) \<and>
          prefix (map gvideo gs) vgot \<and>
          (\<forall>i < length (mst m). prefix (sk ! i @ audio_of i (log_audio gs)) (agot ! i))
      | Drain v i \<Rightarrow> flows (mst m) agot (log_audio gs @ xs) sk \<and> vgot = map gvideo gs @ [v] \<and>
          mwritten m = log_bytes gs \<and> mout m = audio_bytes xs \<and> list_all (placed_ok v) xs \<and>
          (hasTS v \<longrightarrow> (\<forall>j < length (mst m). j < i \<longrightarrow> settled v (mst m ! j))) \<and> (\<not> hasTS v \<longrightarrow> length (mst m) \<le> i)
      | Writing \<Rightarrow> flows (mst m) agot (log_audio gs) sk \<and> xs = [] \<and> vgot = map gvideo gs \<and>
          mwritten m @ mout m = log_bytes gs \<and> mwritten m = log_bytes (butlast gs)
      | _ \<Rightarrow> flows (mst m) agot (log_audio gs) sk \<and> xs = [] \<and> vgot = map gvideo gs \<and> mwritten m = log_bytes gs)"

definition inputs_rel :: "bytes \<Rightarrow> bytes list \<Rightarrow> merger \<Rightarrow> Unit list \<Rightarrow> Unit list list \<Rightarrow> bool" where
  "inputs_rel rv ras m vgot agot \<longleftrightarrow> length ras = length (mst m) \<and>
     input_rel scan_video final_video (mdone m) rv (mvideo m) vgot \<and>
     (\<forall>i < length (mst m). input_rel scan_audio final_audio (mdone m) (ras ! i) (maudio m ! i) (agot ! i))"

definition merge_inv :: "bytes \<Rightarrow> bytes list \<Rightarrow> merger \<Rightarrow> bool" where
  "merge_inv rv ras m \<longleftrightarrow> tables_ok m \<and> (\<exists>vgot agot gs xs sk. inputs_rel rv ras m vgot agot \<and> log_rel m vgot agot gs xs sk)"

lemma merge_invI: "tables_ok m \<Longrightarrow> inputs_rel rv ras m vgot agot \<Longrightarrow> log_rel m vgot agot gs xs sk \<Longrightarrow> merge_inv rv ras m"
  unfolding merge_inv_def by blast

definition stopped :: "merger \<Rightarrow> bool" where
  "stopped m \<longleftrightarrow> (\<exists>e. mplace m = Stopped e)"

lemma early_more: "list_all (early vs) us \<Longrightarrow> list_all (early (vs @ ws)) us"
  by (auto simp: early_def list_all_iff)

lemma inputs_rel_stop: "inputs_rel rv ras m vgot agot \<Longrightarrow> inputs_rel rv ras (m\<lparr>mdone := True\<rparr>) vgot agot"
  by (auto simp: inputs_rel_def intro: input_rel_stop)

lemma inputs_rel_cong:
  assumes "inputs_rel rv ras m vgot agot" "mvideo n = mvideo m" "maudio n = maudio m" "mdone n = mdone m"
    "length (mst n) = length (mst m)"
  shows "inputs_rel rv ras n vgot agot"
  using assms by (simp add: inputs_rel_def)

lemma tables_ok_cong:
  assumes "tables_ok m" "mvideo n = mvideo m" "maudio n = maudio m" "mst n = mst m"
  shows "tables_ok n"
  using assms by (simp add: tables_ok_def)

lemma log_rel_cong:
  assumes "log_rel m vgot agot gs xs sk" "mst n = mst m" "mplace n = mplace m" "mout n = mout m" "mwritten n = mwritten m"
  shows "log_rel n vgot agot gs xs sk"
  using assms(1) unfolding log_rel_def assms(2-5) .

lemma flows_prefix:
  assumes "flows ss agot (xs @ ys) sk" "i < length ss"
  shows "prefix (sk ! i @ audio_of i xs) (agot ! i)"
  using assms by (auto simp: flows_def)

lemma flows_same:
  assumes "flows ss agot xs sk" "list_all2 same_stream ss ts" shows "flows ts agot xs sk"
  using assms by (auto simp: flows_def list_all2_conv_all_nth same_stream_def held_def)

text \<open>Ending: what is written is the log so far.\<close>

lemma fail_inv:
  assumes "merge_inv rv ras m" "\<not> stopped m" "mplace m \<noteq> Writing" "e \<noteq> ReaderGone"
  shows "merge_inv rv ras (merge_fail e m)"
proof -
  from assms(1) obtain vgot agot gs xs sk where r: "tables_ok m" "inputs_rel rv ras m vgot agot"
    "log_rel m vgot agot gs xs sk" unfolding merge_inv_def by blast
  have f: "flows (mst m) agot (log_audio gs @ xs) sk" "mwritten m = log_bytes gs" "prefix (map gvideo gs) vgot"
    using r(3) assms(2,3) by (auto simp: log_rel_def stopped_def split: place.splits)
  have "log_rel (merge_fail e m) vgot agot gs xs sk"
    using f flows_prefix [OF f(1)] r(3) assms(4) log_butlast by (auto simp: log_rel_def merge_fail_def flows_def)
  moreover have "inputs_rel rv ras (merge_fail e m) vgot agot"
    using inputs_rel_stop [OF r(2)] by (simp add: inputs_rel_def merge_fail_def)
  moreover have "tables_ok (merge_fail e m)" using r(1) by (simp add: tables_ok_def merge_fail_def)
  ultimately show ?thesis unfolding merge_inv_def by blast
qed


section \<open>Taking a frame\<close>

text \<open>A step of stream \<open>i\<close> alone, at the place where the merge works on it: the frames \<open>new\<close> are received
  and the frames \<open>gone\<close> left out.\<close>

definition at_stream :: "nat \<Rightarrow> merger \<Rightarrow> bool" where
  "at_stream i m \<longleftrightarrow> i < length (mst m) \<and> (mplace m = Start i \<or> (\<exists>v. mplace m = Drain v i))"

lemma nth_upd_stream:
  "i < length (mst m) \<Longrightarrow> mst (upd_stream i f m) ! j = (if j = i then f (mst m ! i) else mst m ! j)"
  "length (mst (upd_stream i f m)) = length (mst m)"
  by (simp_all add: upd_stream_def)

lemma upd_stream_frame [simp]:
  "mvideo (upd_stream i f m) = mvideo m" "maudio (upd_stream i f m) = maudio m" "mdone (upd_stream i f m) = mdone m"
  "mplace (upd_stream i f m) = mplace m" "mout (upd_stream i f m) = mout m" "mwritten (upd_stream i f m) = mwritten m"
  "mlang (upd_stream i f m) = mlang m" "mcc (upd_stream i f m) = mcc m"
  by (simp_all add: upd_stream_def)

lemma tables_ok_upd:
  assumes "tables_ok m" "apids (f (mst m ! i)) = apids (mst m ! i)"
  shows "tables_ok (upd_stream i f m)"
proof (cases "i < length (mst m)")
  case True
  then show ?thesis using assms by (auto simp: tables_ok_def upd_stream_def list_all_length nth_list_update)
next
  case False
  then show ?thesis using assms(1) by (intro tables_ok_cong [OF assms(1)]) (simp_all add: upd_stream_def list_update_beyond)
qed

lemma flows_upd:
  assumes "flows ss agot xs sk" "i < length ss" "held (ss ! i) @ new = gone @ held s" "abegun s = abegun (ss ! i)"
    "gone \<noteq> [] \<longrightarrow> \<not> abegun (ss ! i)"
  shows "flows (ss[i := s]) (agot[i := agot ! i @ new]) xs (sk[i := sk ! i @ gone])"
proof -
  have "agot ! i @ new = (sk ! i @ gone) @ audio_of i xs @ held s"
  proof (cases "gone = []")
    case False
    then have "audio_of i xs = []" using assms(1,2,5) by (auto simp: flows_def)
    then show ?thesis using assms(1-3) by (auto simp: flows_def)
  qed (use assms(1-3) in \<open>auto simp: flows_def\<close>)
  then show ?thesis using assms(1,2,4) by (auto simp: flows_def nth_list_update)
qed

lemma log_rel_upd:
  assumes "log_rel m vgot agot gs xs sk" "at_stream i m"
    "held (mst m ! i) @ new = gone @ held (f (mst m ! i))" "abegun (f (mst m ! i)) = abegun (mst m ! i)"
    "list_all (early vgot) gone" "gone \<noteq> [] \<longrightarrow> \<not> abegun (mst m ! i)"
  shows "log_rel (upd_stream i f m) vgot (agot[i := agot ! i @ new]) gs xs (sk[i := sk ! i @ gone])"
proof -
  have i: "i < length (mst m)" using assms(2) by (simp add: at_stream_def)
  have fl: "flows (mst m) agot (log_audio gs @ xs) sk"
    using assms(1,2) by (auto simp: log_rel_def at_stream_def)
  note fu = flows_upd [OF fl i assms(3,4,6)]
  have sk: "length sk = length (mst m)" using fl by (simp add: flows_def)
  have "\<forall>us \<in> set (sk[i := sk ! i @ gone]). list_all (early vgot) us"
  proof
    fix us assume "us \<in> set (sk[i := sk ! i @ gone])"
    then have "us \<in> set sk \<or> us = sk ! i @ gone" using set_update_subset_insert by fastforce
    moreover have "sk ! i \<in> set sk" using i sk by simp
    ultimately show "list_all (early vgot) us" using assms(1,5) by (auto simp: log_rel_def)
  qed
  then show ?thesis using assms(1,2) fu i
    by (auto simp: log_rel_def at_stream_def upd_stream_def)
qed

lemma upd_inv:
  assumes "merge_inv rv ras m" "at_stream i m" "held (f (mst m ! i)) = held (mst m ! i)"
    "abegun (f (mst m ! i)) = abegun (mst m ! i)" "apids (f (mst m ! i)) = apids (mst m ! i)"
  shows "merge_inv rv ras (upd_stream i f m)"
proof -
  from assms(1) obtain vgot agot gs xs sk where r: "tables_ok m" "inputs_rel rv ras m vgot agot"
    "log_rel m vgot agot gs xs sk" unfolding merge_inv_def by blast
  have "log_rel (upd_stream i f m) vgot (agot[i := agot ! i @ []]) gs xs (sk[i := sk ! i @ []])"
    by (rule log_rel_upd [OF r(3) assms(2)]) (use assms in auto)
  then have "log_rel (upd_stream i f m) vgot agot gs xs sk" by simp
  moreover have "inputs_rel rv ras (upd_stream i f m) vgot agot"
    using r(2) by (rule inputs_rel_cong) (simp_all add: upd_stream_def)
  ultimately show ?thesis using tables_ok_upd [OF r(1), of f i, OF assms(5)] unfolding merge_inv_def by blast
qed

lemma receive_inv:
  assumes "merge_inv rv ras m" "at_stream i m" "ahead (mst m ! i) = None" "iq (maudio m ! i) = u # q"
  shows "merge_inv rv ras (upd_stream i (\<lambda>s. s\<lparr>ahead := Some u, alate := False\<rparr>)
    (m\<lparr>maudio := (maudio m)[i := (maudio m ! i)\<lparr>iq := q\<rparr>]\<rparr>))" (is "merge_inv _ _ (upd_stream _ ?f ?n)")
proof -
  from assms(1) obtain vgot agot gs xs sk where r: "tables_ok m" "inputs_rel rv ras m vgot agot"
    "log_rel m vgot agot gs xs sk" unfolding merge_inv_def by blast
  have i: "i < length (mst m)" "length (maudio m) = length (mst m)" using assms(2) r(1)
    by (simp_all add: at_stream_def tables_ok_def)
  have at: "at_stream i ?n" using assms(2) by (simp add: at_stream_def)
  have lr: "log_rel ?n vgot agot gs xs sk" by (rule log_rel_cong [OF r(3)]) simp_all
  have "length agot = length (mst m)" using lr assms(2) by (auto simp: log_rel_def at_stream_def flows_def)
  have tn: "tables_ok ?n" using r(1) i by (auto simp: tables_ok_def list_all_length nth_list_update)
  have "log_rel (upd_stream i ?f ?n) vgot (agot[i := agot ! i @ [u]]) gs xs (sk[i := sk ! i @ []])"
    by (rule log_rel_upd [OF lr at]) (use assms(3) in \<open>auto simp: held_def\<close>)
  moreover have "inputs_rel rv ras (upd_stream i ?f ?n) vgot (agot[i := agot ! i @ [u]])"
    using r(2) i assms(4) input_rel_receive \<open>length agot = length (mst m)\<close>
    by (auto simp: inputs_rel_def nth_list_update upd_stream_def)
  moreover have "tables_ok (upd_stream i ?f ?n)" by (rule tables_ok_upd [OF tn]) simp
  ultimately show ?thesis unfolding merge_inv_def by blast
qed

lemma take_inv:
  assumes "merge_inv rv ras m" "at_stream i m"
  shows "\<exists>r. take_frame alt i m = Some r \<and> (case r of None \<Rightarrow> True | Some (n, ok) \<Rightarrow> merge_inv rv ras n \<and>
    length (mst n) = length (mst m) \<and>
    (if ok then mplace n = mplace m \<and> (ahead (mst n ! i) = None \<longrightarrow> alate (mst n ! i) \<or> afinished (mst n ! i))
     else stopped n))"
proof -
  have i: "i < length (mst m)" "length (maudio m) = length (mst m)" using assms
    by (auto simp: at_stream_def merge_inv_def tables_ok_def)
  then have at: "at (mst m) (int i) = Some (mst m ! i)" "at (maudio m) (int i) = Some (maudio m ! i)"
    by (simp_all add: go_simps len_def)
  have ns: "\<not> stopped m" "mplace m \<noteq> Writing" using assms(2) by (auto simp: at_stream_def stopped_def)
  have st: "stopped (merge_fail e m)" "length (mst (merge_fail e m)) = length (mst m)" for e
    by (simp_all add: stopped_def merge_fail_def)
  note fail = fail_inv [OF assms(1) ns]
  show ?thesis
  proof (cases "ahead (mst m ! i) \<noteq> None \<or> afinished (mst m ! i)")
    case True
    then show ?thesis using at assms by (intro exI [of _ "Some (m, True)"]) (auto simp: take_frame_def)
  next
    case no: False
    show ?thesis
    proof (cases "iq (maudio m ! i)")
      case (Cons u q)
      then show ?thesis using at no receive_inv [OF assms _ Cons] i
        by (auto simp: take_frame_def nth_upd_stream)
    next
      case Nil
      have "merge_inv rv ras (upd_stream i (\<lambda>s. s\<lparr>afinished := True\<rparr>) m)"
        "merge_inv rv ras (upd_stream i (\<lambda>s. s\<lparr>alate := True\<rparr>) m)"
        by (rule upd_inv [OF assms]; simp add: held_def)+
      then show ?thesis using at no Nil i fail st by (auto simp: take_frame_def nth_upd_stream)
    qed
  qed
qed


section \<open>Placing a frame\<close>

text \<open>The merge goes on at another place of the same kind of state.\<close>

lemma goto_inv:
  assumes "merge_inv rv ras m"
    "mplace m = Start i \<and> (\<exists>j. p = Start j \<or> p = NextVideo) \<or>
     (\<exists>v. mplace m = Drain v i \<and> p = Drain v (Suc i) \<and> (i < length (mst m) \<longrightarrow> settled v (mst m ! i)))"
  shows "merge_inv rv ras (m\<lparr>mplace := p\<rparr>)"
proof -
  from assms(1) obtain vgot agot gs xs sk where r: "tables_ok m" "inputs_rel rv ras m vgot agot"
    "log_rel m vgot agot gs xs sk" unfolding merge_inv_def by blast
  have "log_rel (m\<lparr>mplace := p\<rparr>) vgot agot gs xs sk"
    using r(3) assms(2) by (auto simp: log_rel_def less_Suc_eq)
  moreover have "inputs_rel rv ras (m\<lparr>mplace := p\<rparr>) vgot agot"
    using r(2) by (rule inputs_rel_cong) simp_all
  moreover have "tables_ok (m\<lparr>mplace := p\<rparr>)" using r(1) by (rule tables_ok_cong) simp_all
  ultimately show ?thesis unfolding merge_inv_def by blast
qed

lemma skip_inv:
  assumes "merge_inv rv ras m" "mplace m = Drain v i" "i < length (mst m)" "ahead (mst m ! i) = Some h"
    "\<not> abegun (mst m ! i)" "hasTS h" "delta (uts h) (uts v) < - startTrim" "delta (uts h) (uts v) > - farApart"
  shows "merge_inv rv ras (upd_stream i (\<lambda>s. s\<lparr>ahead := None\<rparr>) m)"
proof -
  from assms(1) obtain vgot agot gs xs sk where r: "tables_ok m" "inputs_rel rv ras m vgot agot"
    "log_rel m vgot agot gs xs sk" unfolding merge_inv_def by blast
  have at: "at_stream i m" using assms(2,3) by (simp add: at_stream_def)
  have "v \<in> set vgot" using r(3) assms(2) by (simp add: log_rel_def)
  then have e: "list_all (early vgot) [h]" using assms(6-8) by (auto simp: early_def)
  have "log_rel (upd_stream i (\<lambda>s. s\<lparr>ahead := None\<rparr>) m) vgot (agot[i := agot ! i @ []]) gs xs (sk[i := sk ! i @ [h]])"
    by (rule log_rel_upd [OF r(3) at _ _ e]) (use assms(4,5) in \<open>auto simp: held_def\<close>)
  then have "log_rel (upd_stream i (\<lambda>s. s\<lparr>ahead := None\<rparr>) m) vgot agot gs xs (sk[i := sk ! i @ [h]])" by simp
  moreover have "inputs_rel rv ras (upd_stream i (\<lambda>s. s\<lparr>ahead := None\<rparr>) m) vgot agot"
    using r(2) by (rule inputs_rel_cong) (simp_all add: upd_stream_def)
  moreover have "tables_ok (upd_stream i (\<lambda>s. s\<lparr>ahead := None\<rparr>) m)" by (rule tables_ok_upd [OF r(1)]) simp
  ultimately show ?thesis unfolding merge_inv_def by blast
qed

lemma flows_put:
  assumes "flows ss agot xs sk" "i < length ss" "held (ss ! i) = [h]" "held s = []" "abegun s"
  shows "flows (ss[i := s]) agot (xs @ [(i, h, b)]) sk"
  using assms by (auto simp: flows_def nth_list_update)

lemma put_inv:
  assumes "merge_inv rv ras m" "mplace m = Drain v i" "i < length (mst m)" "ahead (mst m ! i) = Some h" "due h v"
    "ahead (f (mst m ! i)) = None" "abegun (f (mst m ! i))" "apids (f (mst m ! i)) = apids (mst m ! i)"
  shows "\<exists>n. audioOut i h (upd_stream i f m) = Some n \<and> merge_inv rv ras n \<and> mplace n = Drain v i \<and>
    length (mst n) = length (mst m)"
proof -
  from assms(1) obtain vgot agot gs xs sk where r: "tables_ok m" "inputs_rel rv ras m vgot agot"
    "log_rel m vgot agot gs xs sk" unfolding merge_inv_def by blast
  let ?m = "upd_stream i f m"
  have fl: "flows (mst m) agot (log_audio gs @ xs) sk" "vgot = map gvideo gs @ [v]" "mwritten m = log_bytes gs"
    "mout m = audio_bytes xs" "list_all (placed_ok v) xs"
    "hasTS v \<longrightarrow> (\<forall>j < length (mst m). j < i \<longrightarrow> settled v (mst m ! j))" "\<not> hasTS v \<longrightarrow> length (mst m) \<le> i"
    "list_all group_ok gs" "\<forall>us \<in> set sk. list_all (early vgot) us"
    using r(3) assms(2) by (auto simp: log_rel_def)
  have "h \<in> set (agot ! i)" using fl(1) assms(3,4) by (auto simp: flows_def held_def)
  moreover have "list_all unit_ok (agot ! i)"
    using r(2) assms(3) ascan.received_prefix(2) by (auto simp: inputs_rel_def)
  ultimately have u: "unit_ok h" by (auto simp: list_all_iff)
  have tm: "tables_ok ?m" by (rule tables_ok_upd [OF r(1)]) (rule assms(8))
  from audioOut_law [OF tm _ u, of i] assms(3) obtain n b where n: "audioOut i h ?m = Some n" "moved (pkts h) b"
    "mout n = mout ?m @ b" "tables_ok n" "same_rest (?m\<lparr>mout := mout n\<rparr>) n" "list_all2 same_stream (mst ?m) (mst n)"
    by (auto simp: nth_upd_stream)
  have "flows (mst ?m) agot ((log_audio gs @ xs) @ [(i, h, b)]) sk"
    using flows_put [OF fl(1) assms(3), of h "f (mst m ! i)" b] assms(4,6,7) by (simp add: held_def upd_stream_def)
  from flows_same [OF this n(6)] have f': "flows (mst n) agot (log_audio gs @ xs @ [(i, h, b)]) sk" by simp
  have l: "length (mst n) = length (mst m)" using list_all2_lengthD [OF n(6)] by (simp add: nth_upd_stream)
  have st: "settled v (mst n ! j)" if "hasTS v" "j < length (mst m)" "j < i" for j
  proof -
    have "same_stream (mst ?m ! j) (mst n ! j)" using n(6) that(2) by (auto simp: list_all2_conv_all_nth nth_upd_stream)
    then show ?thesis using fl(6) that same_stream_keeps(2) assms(3) by (simp add: nth_upd_stream)
  qed
  have "hasTS v" using fl(7) assms(3) by auto
  then have "log_rel n vgot agot gs (xs @ [(i, h, b)]) sk"
    using n(2,3,5) fl f' st l assms(2,5)
    by (auto simp: log_rel_def same_rest_def placed_ok_def)
  moreover have "inputs_rel rv ras n vgot agot"
    using r(2) by (rule inputs_rel_cong) (use n(5) l in \<open>simp_all add: same_rest_def\<close>)
  ultimately have "merge_inv rv ras n" using merge_invI [OF n(4)] by blast
  then show ?thesis using n(1,5) l assms(2) by (simp add: same_rest_def)
qed

lemma place_inv:
  assumes "merge_inv rv ras m" "mplace m = Drain v i" "i < length (mst m)"
    "ahead (mst m ! i) = None \<longrightarrow> alate (mst m ! i) \<or> afinished (mst m ! i)"
  shows "\<exists>n. place_frame v i m = Some n \<and> merge_inv rv ras n \<and> length (mst n) = length (mst m)"
proof -
  let ?s = "mst m ! i"
  have at: "at (mst m) (int i) = Some ?s" using assms(3) by (simp add: go_simps len_def)
  have ns: "\<not> stopped m" "mplace m \<noteq> Writing" using assms(2) by (simp_all add: stopped_def)
  have go: "merge_inv rv ras (m\<lparr>mplace := Drain v (Suc i)\<rparr>)" if "settled v ?s"
    using goto_inv [OF assms(1), of i "Drain v (Suc i)"] assms(2) that by simp
  show ?thesis
  proof (cases "ahead ?s")
    case None
    then have "settled v ?s" using assms(4) by (simp add: settled_def)
    then show ?thesis using at None go fail_inv [OF assms(1) ns, of AudioFinished]
      by (auto simp: place_frame_def merge_fail_def)
  next
    case (Some h)
    let ?d = "delta (uts h) (uts v)"
    show ?thesis
    proof (cases "hasTS h \<and> ?d > 0 \<and> ?d < farApart")
      case True
      then have "settled v ?s" using Some by (simp add: settled_def due_def)
      then show ?thesis using at Some True go by (simp add: place_frame_def)
    next
      case False
      then have d: "due h v" by (simp add: due_def)
      show ?thesis
      proof (cases "\<not> abegun ?s \<and> hasTS h \<and> ?d < - startTrim \<and> ?d > - farApart")
        case True
        then show ?thesis using at Some False skip_inv [OF assms(1-3) Some]
          by (auto simp: place_frame_def Let_def nth_upd_stream)
      next
        case put: False
        from put_inv [OF assms(1-3) Some d, of "\<lambda>s. s\<lparr>ahead := None, abegun := True,
            alast := (if hasTS h then uts h else alast s)\<rparr>"]
        obtain n where "audioOut i h (upd_stream i (\<lambda>s. s\<lparr>ahead := None, abegun := True,
            alast := (if hasTS h then uts h else alast s)\<rparr>) m) = Some n" "merge_inv rv ras n"
          "length (mst n) = length (mst m)" by auto
        moreover have "place_frame v i m = audioOut i h (upd_stream i (\<lambda>s. s\<lparr>ahead := None, abegun := True,
            alast := (if hasTS h then uts h else alast s)\<rparr>) m)"
          unfolding place_frame_def at bind.bind_lunit Some option.case Let_def if_not_P [OF False] if_not_P [OF put] ..
        ultimately show ?thesis by simp
      qed
    qed
  qed
qed


section \<open>Every step\<close>

lemma next_video_inv:
  assumes "merge_inv rv ras m" "mplace m = NextVideo" "iq (mvideo m) = v # q"
  shows "merge_inv rv ras (m\<lparr>mvideo := (mvideo m)\<lparr>iq := q\<rparr>, mout := [],
    mplace := Drain v (if hasTS v then 0 else length (mst m))\<rparr>)" (is "merge_inv _ _ ?n")
proof -
  from assms(1) obtain vgot agot gs xs sk where r: "tables_ok m" "inputs_rel rv ras m vgot agot"
    "log_rel m vgot agot gs xs sk" unfolding merge_inv_def by blast
  have "log_rel ?n (vgot @ [v]) agot gs xs sk"
    using r(3) assms(2) early_more by (auto simp: log_rel_def)
  moreover have "inputs_rel rv ras ?n (vgot @ [v]) agot"
    using r(2) input_rel_receive [OF _ assms(3)] by (simp add: inputs_rel_def)
  moreover have "tables_ok ?n" using r(1) by (simp add: tables_ok_def)
  ultimately show ?thesis using merge_invI by blast
qed

lemma video_inv:
  assumes "merge_inv rv ras m" "mplace m = Drain v i" "\<not> i < length (mst m)"
  shows "\<exists>n. videoOut v m = Some n \<and> merge_inv rv ras (n\<lparr>mplace := Writing\<rparr>)"
proof -
  from assms(1) obtain vgot agot gs xs sk where r: "tables_ok m" "inputs_rel rv ras m vgot agot"
    "log_rel m vgot agot gs xs sk" unfolding merge_inv_def by blast
  have fl: "flows (mst m) agot (log_audio gs @ xs) sk" "vgot = map gvideo gs @ [v]" "mwritten m = log_bytes gs"
    "mout m = audio_bytes xs" "list_all (placed_ok v) xs" "list_all group_ok gs"
    "\<forall>us \<in> set sk. list_all (early vgot) us"
    using r(3) assms(2) by (auto simp: log_rel_def)
  have u: "unit_ok v"
    using r(2) vscan.received_prefix(2) fl(2) by (fastforce simp: inputs_rel_def)
  from videoOut_law [OF r(1) u] obtain n ts where n: "videoOut v m = Some n" "length ts = length (pmtAt v)"
    "list_all table_bytes ts" "mout n = mout m @ weave (pkts v) 0 (pmtAt v) ts" "tables_ok n"
    "list_all2 same_stream (mst m) (mst n)" "same_rest (m\<lparr>mout := mout n, mcc := mcc n\<rparr>) n" by blast
  define g where "g = \<lparr>gvideo = v, gaudio = xs, gbytes = mout n\<rparr>"
  have g: "group_ok g" using n(2-4) fl(4,5) by (auto simp: g_def group_ok_def)
  have "flows (mst n) agot (log_audio (gs @ [g])) sk" using flows_same [OF fl(1) n(6)] by (simp add: g_def)
  then have "log_rel (n\<lparr>mplace := Writing\<rparr>) vgot agot (gs @ [g]) [] sk"
    using fl(2,3,6,7) g n(7) by (auto simp: log_rel_def same_rest_def g_def)
  moreover have "inputs_rel rv ras (n\<lparr>mplace := Writing\<rparr>) vgot agot"
    using r(2) by (rule inputs_rel_cong) (use n(7) list_all2_lengthD [OF n(6)] in \<open>simp_all add: same_rest_def\<close>)
  moreover have "tables_ok (n\<lparr>mplace := Writing\<rparr>)" using n(5) by (rule tables_ok_cong) simp_all
  ultimately show ?thesis using n(1) merge_invI by blast
qed

lemma written_inv:
  assumes "merge_inv rv ras m" "mplace m = Writing"
  shows "merge_inv rv ras (m\<lparr>mwritten := mwritten m @ mout m, mplace := NextVideo\<rparr>)" (is "merge_inv _ _ ?n")
    "merge_inv rv ras (m\<lparr>mwritten := mwritten m @ take k (mout m), mdone := True, mplace := Stopped ReaderGone\<rparr>)"
      (is "merge_inv _ _ ?s")
proof -
  from assms(1) obtain vgot agot gs xs sk where r: "tables_ok m" "inputs_rel rv ras m vgot agot"
    "log_rel m vgot agot gs xs sk" unfolding merge_inv_def by blast
  have l: "log_rel ?n vgot agot gs xs sk" using r(3) assms(2) by (auto simp: log_rel_def)
  have i: "inputs_rel rv ras ?n vgot agot" using r(2) by (rule inputs_rel_cong) simp_all
  have "tables_ok ?n" using r(1) by (rule tables_ok_cong) simp_all
  then show "merge_inv rv ras ?n" using l i merge_invI by blast
  note w = r(3) [unfolded log_rel_def assms(2) place.case]
  have f: "flows (mst m) agot (log_audio gs @ []) sk" "mwritten m @ mout m = log_bytes gs"
    "mwritten m = log_bytes (butlast gs)" using w by auto
  have "log_bytes gs = (mwritten m @ take k (mout m)) @ drop k (mout m)" using f(2) by simp
  then have p: "prefix (mwritten m @ take k (mout m)) (log_bytes gs)" by (rule prefixI)
  have q: "prefix (log_bytes (butlast gs)) (mwritten m @ take k (mout m))" by (rule prefixI) (simp only: f(3))
  have l: "log_rel ?s vgot agot gs xs sk"
    using w p q flows_prefix [OF f(1)] unfolding log_rel_def by (auto simp: flows_def)
  have "inputs_rel rv ras (m\<lparr>mdone := True\<rparr>) vgot agot" by (rule inputs_rel_stop [OF r(2)])
  then have i: "inputs_rel rv ras ?s vgot agot" by (rule inputs_rel_cong) simp_all
  have "tables_ok ?s" using r(1) by (rule tables_ok_cong) simp_all
  then show "merge_inv rv ras ?s" using l i merge_invI by blast
qed

lemma run_step_inv:
  assumes "merge_inv rv ras m"
  shows "\<exists>n. run_step alt m = Some n \<and> merge_inv rv ras n"
proof (cases "mplace m")
  case (Start i)
  note fail = fail_inv [OF assms]
  show ?thesis
  proof (cases "i < length (mst m)")
    case True
    then have "at_stream i m" using Start by (simp add: at_stream_def)
    from take_inv [OF assms this, of alt] obtain r where r: "take_frame alt i m = Some r"
      "case r of None \<Rightarrow> True | Some (n, ok) \<Rightarrow> merge_inv rv ras n \<and> (if ok then mplace n = mplace m else stopped n)"
      by (force split: option.splits)
    show ?thesis
    proof (cases r)
      case (Some x)
      then obtain n ok where x: "x = (n, ok)" by fastforce
      then show ?thesis using r Some True Start goto_inv [of rv ras n i "Start (Suc i)"] by (auto simp: run_step_def)
    qed (use r True Start assms in \<open>simp add: run_step_def\<close>)
  next
    case False
    have "merge_inv rv ras (m\<lparr>mplace := NextVideo\<rparr>)" using goto_inv [OF assms, of i NextVideo] Start by simp
    then show ?thesis using False Start by (simp add: run_step_def)
  qed
next
  case NextVideo
  then have "\<not> stopped m" "mplace m \<noteq> Writing" by (simp_all add: stopped_def)
  then show ?thesis using NextVideo assms fail_inv [OF assms] next_video_inv [OF assms NextVideo]
    by (auto simp: run_step_def split: list.split)
next
  case (Drain v i)
  show ?thesis
  proof (cases "i < length (mst m)")
    case True
    then have "at_stream i m" using Drain by (simp add: at_stream_def)
    from take_inv [OF assms this, of alt] obtain r where r: "take_frame alt i m = Some r"
      "case r of None \<Rightarrow> True | Some (n, ok) \<Rightarrow> merge_inv rv ras n \<and> length (mst n) = length (mst m) \<and>
        (if ok then mplace n = mplace m \<and> (ahead (mst n ! i) = None \<longrightarrow> alate (mst n ! i) \<or> afinished (mst n ! i)) else stopped n)"
      by blast
    show ?thesis
    proof (cases r)
      case (Some x)
      then obtain n ok where x: "x = (n, ok)" by fastforce
      then show ?thesis using r Some True Drain place_inv [of rv ras n v i] by (cases ok) (auto simp: run_step_def)
    qed (use r True Drain assms in \<open>simp add: run_step_def\<close>)
  next
    case False
    then show ?thesis using Drain video_inv [OF assms Drain] by (auto simp: run_step_def)
  qed
next
  case Writing
  then show ?thesis using written_inv(1) [OF assms] by (simp add: run_step_def)
next
  case (Stopped e)
  then show ?thesis using assms by (simp add: run_step_def)
qed


lemma on_video_inv:
  assumes "merge_inv rv ras m"
    "\<And>got. input_rel scan_video final_video (mdone m) rv (mvideo m) got \<Longrightarrow>
       \<exists>b. f (mvideo m) = Some b \<and> input_rel scan_video final_video (mdone m) rv b got"
  shows "\<exists>n. on_video f m = Some n \<and> merge_inv rv ras n"
proof -
  from assms(1) obtain vgot agot gs xs sk where r: "tables_ok m" "inputs_rel rv ras m vgot agot"
    "log_rel m vgot agot gs xs sk" unfolding merge_inv_def by blast
  then obtain b where b: "f (mvideo m) = Some b" "input_rel scan_video final_video (mdone m) rv b vgot"
    using assms(2) [of vgot] by (auto simp: inputs_rel_def)
  have "tables_ok (m\<lparr>mvideo := b\<rparr>)"
    using r(1) vscan.input_rel_ok [OF b(2)] by (simp add: tables_ok_def video_ok_def)
  moreover have "inputs_rel rv ras (m\<lparr>mvideo := b\<rparr>) vgot agot" using r(2) b(2) by (simp add: inputs_rel_def)
  moreover have "log_rel (m\<lparr>mvideo := b\<rparr>) vgot agot gs xs sk" by (rule log_rel_cong [OF r(3)]) simp_all
  ultimately show ?thesis using b(1) merge_invI by (fastforce simp: on_video_def)
qed

lemma on_audio_inv:
  assumes "merge_inv rv ras m"
    "\<And>got src. input_rel scan_audio final_audio (mdone m) src (maudio m ! i) got \<Longrightarrow>
       \<exists>b. f (maudio m ! i) = Some b \<and> input_rel scan_audio final_audio (mdone m) src b got"
  shows "\<exists>n. on_audio i f m = Some n \<and> merge_inv rv ras n"
proof (cases "i < length (maudio m)")
  case True
  from assms(1) obtain vgot agot gs xs sk where r: "tables_ok m" "inputs_rel rv ras m vgot agot"
    "log_rel m vgot agot gs xs sk" unfolding merge_inv_def by blast
  have l: "length (maudio m) = length (mst m)" using r(1) by (simp add: tables_ok_def)
  then obtain b where b: "f (maudio m ! i) = Some b"
    "input_rel scan_audio final_audio (mdone m) (ras ! i) b (agot ! i)"
    using assms(2) [of "ras ! i" "agot ! i"] r(2) True by (auto simp: inputs_rel_def)
  let ?n = "m\<lparr>maudio := (maudio m)[i := b]\<rparr>"
  have "tables_ok ?n"
    using r(1) ascan.input_rel_ok [OF b(2)] True l
    by (auto simp: tables_ok_def audio_ok_def list_all_length nth_list_update)
  moreover have "inputs_rel rv ras ?n vgot agot" using r(2) b(2) True l by (auto simp: inputs_rel_def nth_list_update)
  moreover have "log_rel ?n vgot agot gs xs sk" by (rule log_rel_cong [OF r(3)]) simp_all
  ultimately have "merge_inv rv ras ?n" by (rule merge_invI)
  then show ?thesis using b(1) True by (simp add: on_audio_def)
next
  case False
  then show ?thesis using assms(1) by (simp add: on_audio_def)
qed

lemma merge_step_inv:
  assumes "merge_inv rv ras m"
  shows "\<exists>n. merge_step e m = Some n \<and> merge_inv rv ras n"
proof (cases e)
  case ScanVideo
  then show ?thesis using on_video_inv [OF assms, of "scan_input scan_video final_video"] vscan.scan_input_rel by simp
next
  case (ScanAudio i)
  then show ?thesis using on_audio_inv [OF assms, of i "scan_input scan_audio final_audio"] ascan.scan_input_rel by simp
next
  case RefuseVideo
  then show ?thesis using on_video_inv [OF assms, of "refuse_input scan_video final_video"] vscan.refuse_input_rel assms
    by (cases "mdone m") auto
next
  case (RefuseAudio i)
  then show ?thesis using on_audio_inv [OF assms, of i "refuse_input scan_audio final_audio"] ascan.refuse_input_rel assms
    by (cases "mdone m") auto
next
  case (ShutVideo x)
  then show ?thesis using on_video_inv [OF assms, of "\<lambda>s. Some (shut_reader x s)"] input_rel_shut assms
    by (cases "mdone m") auto
next
  case (ShutAudio i x)
  then show ?thesis using on_audio_inv [OF assms, of i "\<lambda>s. Some (shut_reader x s)"] input_rel_shut assms
    by (cases "mdone m") auto
next
  case EndVideo
  then show ?thesis using on_video_inv [OF assms, of "\<lambda>s. Some (end_input s)"] input_rel_end by simp
next
  case (EndAudio i)
  then show ?thesis using on_audio_inv [OF assms, of i "\<lambda>s. Some (end_input s)"] input_rel_end by simp
next
  case (RunStep alt)
  then show ?thesis using run_step_inv [OF assms] by simp
next
  case (ReaderGoes k)
  then show ?thesis using assms written_inv(2) [OF assms] by (simp add: reader_gone_def)
next
  case CloseMerger
  from assms obtain vgot agot gs xs sk where r: "tables_ok m" "inputs_rel rv ras m vgot agot"
    "log_rel m vgot agot gs xs sk" unfolding merge_inv_def by blast
  have "log_rel (m\<lparr>mdone := True\<rparr>) vgot agot gs xs sk" by (rule log_rel_cong [OF r(3)]) simp_all
  moreover have "tables_ok (m\<lparr>mdone := True\<rparr>)" using r(1) by (rule tables_ok_cong) simp_all
  ultimately show ?thesis using CloseMerger merge_invI [OF _ inputs_rel_stop [OF r(2)]] by auto
qed

text \<open>The merge of any streams.\<close>

lemma New_inv:
  assumes "merge_New v as langs = Some m"
  shows "merge_inv (rbytes v) (map rbytes as) m"
proof -
  have m: "m = \<lparr>mvideo = new_input v, maudio = map new_input as, mlang = langs, mdone = False,
      mst = map (\<lambda>r. new_stream) as, mgen = 0, mpmtPID = 0, mcc = 0, built = [], ver = 0, mout = [],
      mwritten = [], mplace = Start 0\<rparr>" "length as \<le> MaxAudio"
    using assms by (auto simp: merge_New_def split: if_splits)
  have "tables_ok m" using m
    by (auto simp: tables_ok_def list_all_iff new_input_def new_scanner_def section_ok_def old_ok_def new_stream_def)
  moreover have "inputs_rel (rbytes v) (map rbytes as) m [] (map (\<lambda>r. []) as)"
    using m(1) input_rel_new by (simp add: inputs_rel_def)
  moreover have "log_rel m [] (map (\<lambda>r. []) as) [] [] (map (\<lambda>r. []) as)"
    using m(1) by (auto simp: log_rel_def flows_def new_stream_def held_def)
  ultimately show ?thesis by (rule merge_invI)
qed

interpretation merge: safe_system merge_step "\<lambda>e. True" "merge_inv rv ras" for rv ras
  by unfold_locales (rule merge_step_inv)

end
