(* ===== verification/TsMergeProps.thy ===== *)
theory TsMergeProps
  imports TsMergeLog
begin

text \<open>
  What \<open>tsmerge.go\<close> promises: the joined stream is the video stream's packets, all but its null packets
  and its table, with the audio frames in between, each stream's in order; and no video frame goes out
  while an audio frame due before it is at hand or expected.
\<close>

lemma concat_map_prefix: "prefix xs ys \<Longrightarrow> prefix (concat (map f xs)) (concat (map f ys))"
  by (auto simp: prefix_def)

lemma taken_new:
  "taken scan_video video_takes new_scanner (packets b) = passed 0 (packets b)"
  using taken_video [OF vscan.new_law, of "packets b"] packets_whole by (simp add: list_all_iff new_scanner_def)

lemma log_rel_parts:
  assumes "log_rel m vgot agot gs xs sk"
  shows "list_all group_ok gs" "prefix (mwritten m) (log_bytes gs)" "prefix (log_bytes (butlast gs)) (mwritten m)"
    "prefix (map gvideo gs) vgot" "length sk = length (mst m)"
    "i < length (mst m) \<Longrightarrow> prefix (sk ! i @ audio_of i (log_audio gs)) (agot ! i)"
    "\<forall>us \<in> set sk. list_all (early vgot) us"
proof -
  note r = assms [unfolded log_rel_def]
  show "list_all group_ok gs" "\<forall>us \<in> set sk. list_all (early vgot) us" using r by auto
  have fl: "flows (mst m) agot (log_audio gs @ xs) sk" if "\<not> stopped m"
    using r that by (auto simp: stopped_def split: place.splits)
  show "length sk = length (mst m)" using r by (auto simp: flows_def split: place.splits)
  show "prefix (sk ! i @ audio_of i (log_audio gs)) (agot ! i)" if "i < length (mst m)"
  proof (cases "stopped m")
    case False
    then show ?thesis using flows_prefix [OF fl [OF False] that] by simp
  qed (use r that in \<open>auto simp: stopped_def\<close>)
  show "prefix (mwritten m) (log_bytes gs)"
  proof (cases "mplace m = Writing")
    case True
    from r [unfolded True place.case] have "mwritten m @ mout m = log_bytes gs" by (elim conjE)
    then show ?thesis by (rule prefixI [OF sym])
  qed (use r in \<open>auto split: place.splits\<close>)
  show "prefix (log_bytes (butlast gs)) (mwritten m)" "prefix (map gvideo gs) vgot"
    using r log_butlast by (auto split: place.splits)
qed


text \<open>C26: when a video frame goes out, of every audio stream the next frame is at hand and later than the
  video frame, or nothing of it has come in the time allowed, or it has finished.\<close>

theorem video_waits_for_audio:
  assumes "merge_New v as langs = Some m0" "run merge_step es m0 = Some m" "mplace m = Drain u i"
    "length as \<le> i" "hasTS u" "j < length as"
  shows "case ahead (mst m ! j) of
      Some h \<Rightarrow> hasTS h \<and> 0 < delta (uts h) (uts u) \<and> delta (uts h) (uts u) < farApart
    | None \<Rightarrow> alate (mst m ! j) \<or> afinished (mst m ! j)"
proof -
  have "merge_inv (rbytes v) (map rbytes as) m"
    using merge.run_preserves [OF New_inv [OF assms(1)] _ assms(2)] by (simp add: list_all_iff)
  then obtain vgot agot gs xs sk where r: "inputs_rel (rbytes v) (map rbytes as) m vgot agot"
    "log_rel m vgot agot gs xs sk" unfolding merge_inv_def by blast
  have "length (mst m) = length as" using r(1) by (simp add: inputs_rel_def)
  then have "settled u (mst m ! j)" using r(2) assms(3-6) by (auto simp: log_rel_def)
  then show ?thesis by (simp add: settled_def due_def split: option.splits)
qed

section \<open>Witnesses\<close>

text \<open>A video stream and an audio stream that both use PID 0x100; the audio frame is later than the video
  frame.\<close>

definition demo_packet :: "bytes \<Rightarrow> bytes" where
  "demo_packet b = b @ replicate (188 - length b) 0xff"

definition demo_pat :: bytes where
  "demo_pat = demo_packet [0x47, 0x40, 0x00, 0x10, 0x00,
     0x00, 0xb0, 0x0d, 0x00, 0x01, 0xc1, 0x00, 0x00, 0x00, 0x01, 0xf0, 0x00, 1, 2, 3, 4]"

definition demo_section :: "byte \<Rightarrow> bytes" where
  "demo_section t = [0x02, 0xb0, 0x12, 0x00, 0x01, 0xc1, 0x00, 0x00, 0xe1, 0x00, 0xf0, 0x00,
     t, 0xe1, 0x00, 0xf0, 0x00, 1, 2, 3, 4]"

definition demo_pmt :: "byte \<Rightarrow> bytes" where
  "demo_pmt t = demo_packet ([0x47, 0x50, 0x00, 0x10, 0x00] @ demo_section t)"

definition demo_frame :: "byte \<Rightarrow> byte \<Rightarrow> bytes" where
  "demo_frame sid lo = demo_packet [0x47, 0x41, 0x00, 0x10,
     0x00, 0x00, 0x01, sid, 0x00, 0x00, 0x80, 0x80, 0x05, 0x21, 0x00, 0x05, 0xbf, lo]"

definition demo_video :: reader where
  "demo_video = \<lparr>rbytes = demo_pat @ demo_pmt 0x1b @ demo_frame 0xe0 0x21, rend = EOF\<rparr>"

definition demo_audio :: reader where
  "demo_audio = \<lparr>rbytes = demo_pat @ demo_pmt 0x0f @ demo_frame 0xc0 0x41, rend = EOF\<rparr>"

definition demo_merge :: merger where
  "demo_merge = the (merge_New demo_video [demo_audio] [''eng''])"

definition demo_scans :: "merge_event list" where
  "demo_scans = replicate 4 (ScanAudio 0) @ [EndAudio 0] @ replicate 4 ScanVideo @ [EndVideo] @
     replicate 3 (RunStep False)"

lemma merge_demo_New: "merge_New demo_video [demo_audio] [''eng''] = Some demo_merge"
  by (simp add: demo_merge_def merge_New_def MaxAudio_def)


lemma demo_scanned:
  "(case run merge_step demo_scans demo_merge of None \<Rightarrow> False | Some m \<Rightarrow>
     mplace m = Drain \<lparr>pkts = demo_pat, uts = 0, hasTS = False, pmtAt = [188]\<rparr> 1 \<and>
     iq (mvideo m) = [\<lparr>pkts = demo_frame 0xe0 0x21, uts = 90000, hasTS = True, pmtAt = []\<rparr>] \<and>
     map ahead (mst m) = [Some \<lparr>pkts = demo_frame 0xc0 0x41, uts = 90016, hasTS = True, pmtAt = []\<rparr>])"
  by code_simp

text \<open>The four steps after it: the packets before the first video frame go out and are written, the video
  frame is taken, and the audio frame at hand is put after it.\<close>

lemma demo_drained:
  "\<exists>m u. run merge_step (demo_scans @ replicate 4 (RunStep False)) demo_merge = Some m \<and> mplace m = Drain u 1 \<and> hasTS u \<and>
    ahead (mst m ! 0) \<noteq> None"
proof -
  let ?u0 = "\<lparr>pkts = demo_pat, uts = 0, hasTS = False, pmtAt = [188]\<rparr>"
  let ?v = "\<lparr>pkts = demo_frame 0xe0 0x21, uts = 90000, hasTS = True, pmtAt = []\<rparr>"
  let ?h = "\<lparr>pkts = demo_frame 0xc0 0x41, uts = 90016, hasTS = True, pmtAt = []\<rparr>"
  from demo_scanned obtain m where m: "run merge_step demo_scans demo_merge = Some m" "mplace m = Drain ?u0 1"
    "iq (mvideo m) = [?v]" "map ahead (mst m) = [Some ?h]"
    by (auto split: option.splits)
  have inv: "merge_inv (rbytes demo_video) (map rbytes [demo_audio]) m"
    using merge.run_preserves [OF New_inv [OF merge_demo_New] _ m(1)] by (simp add: list_all_iff)
  obtain s where s: "mst m = [s]" "ahead s = Some ?h" using m(4) by auto
  have u: "unit_ok ?u0" by (simp add: unit_ok_def demo_pat_def demo_packet_def len_def)
  obtain n where n: "videoOut ?u0 m = Some n" "list_all2 same_stream (mst m) (mst n)" "mvideo n = mvideo m"
    using videoOut_law [OF _ u, of m] inv by (auto simp: merge_inv_def same_rest_def)
  obtain t where t: "mst n = [t]" "ahead t = Some ?h"
    using n(2) s by (auto simp: list_all2_Cons1 same_stream_def)
  have d: "0 < delta 90016 90000" "delta 90016 90000 < farApart" by code_simp+
  have steps: "replicate 4 (RunStep False) = [RunStep False, RunStep False, RunStep False, RunStep False]"
    by (simp add: eval_nat_numeral)
  let ?m = "n\<lparr>mwritten := mwritten n @ mout n, mout := [], mvideo := (mvideo n)\<lparr>iq := []\<rparr>, mplace := Drain ?v 1\<rparr>"
  have "run merge_step (replicate 4 (RunStep False)) m = Some ?m"
    using m(2,3) s n t d
    by (simp add: steps run_step_def take_frame_def place_frame_def Let_def at_def len_def)
  then show ?thesis using m(1) t by (simp add: run_append)
qed

theorem video_waits_for_audio_witness:
  "\<exists>m u. run merge_step (demo_scans @ replicate 4 (RunStep False)) demo_merge = Some m \<and> mplace m = Drain u 1 \<and>
    (\<exists>h. ahead (mst m ! 0) = Some h \<and> hasTS h \<and> 0 < delta (uts h) (uts u) \<and> delta (uts h) (uts u) < farApart)"
proof -
  from demo_drained obtain m u where m: "run merge_step (demo_scans @ replicate 4 (RunStep False)) demo_merge = Some m"
    "mplace m = Drain u 1" "hasTS u" "ahead (mst m ! 0) \<noteq> None" by blast
  from video_waits_for_audio [OF merge_demo_New m(1,2), of 0] m show ?thesis by auto
qed

text \<open>A merge whose inputs have just shown their tables.\<close>

definition demo_tables :: merger where
  "demo_tables = demo_merge\<lparr>
     mvideo := (mvideo demo_merge)\<lparr>iscan := setPMT 0x1000 (demo_section 0x1b) new_scanner\<rparr>,
     maudio := [(maudio demo_merge ! 0)\<lparr>iscan := setPMT 0x1000 (demo_section 0x0f) new_scanner\<rparr>]\<rparr>"

lemma demo_entries:
  "map entry_es (table_entries (demo_section 0x1b)) = [\<lparr>esPID = 0x100, esType = 0x1b\<rparr>]"
  "declared_streams (demo_section 0x0f) = [\<lparr>esPID = 0x100, esType = 0x0f\<rparr>]"
  "filled (demo_section 0x1b)" "len (demo_section 0x1b) = 21" "info_len (demo_section 0x1b) = 0"
  "table_room (demo_section 0x0f) = 11" "section_ok (demo_section 0x1b)" "section_ok (demo_section 0x0f)"
  "pid13 (demo_section 0x1b ! 8) (demo_section 0x1b ! 9) = 0x100"
  by code_simp+

lemma demo_fields:
  "ipmt (iscan (mvideo demo_tables)) = demo_section 0x1b" "ipmtPID (iscan (mvideo demo_tables)) = 0x1000"
  "map (\<lambda>a. ipmt (iscan a)) (maudio demo_tables) = [demo_section 0x0f]" "mst demo_tables = [new_stream]"
  "built demo_tables = []" "length (maudio demo_tables) = 1"
  by (simp_all add: demo_tables_def demo_merge_def merge_New_def MaxAudio_def setPMT_def new_scanner_def
      demo_section_def)

theorem joined_table_reads_back_witness:
  "\<exists>n to. rebuild demo_tables = Some n \<and>
    PMTStreamsSection (built n) = Some ([\<lparr>esPID = 0x100, esType = 0x1b\<rparr>, \<lparr>esPID = to, esType = 0x0f\<rparr>], True) \<and>
    to \<notin> {0, 0x11, 0x1fff, 0x1000, 0x100} \<and> built n ! 5 = version_byte (ver n)"
proof -
  have aud: "\<exists>a. maudio demo_tables = [a] \<and> ipmt (iscan a) = demo_section 0x0f"
    using demo_fields(3) by auto
  then obtain a where a: "maudio demo_tables = [a]" "ipmt (iscan a) = demo_section 0x0f" by blast
  have 1: "tables_ok demo_tables"
    using demo_fields demo_entries a by (simp add: tables_ok_def MaxAudio_def old_ok_def new_stream_def)
  have 2: "rebuilds demo_tables"
    using demo_fields demo_entries by (simp add: rebuilds_def table_changed_def)
  have 3: "filled (ipmt (iscan (mvideo demo_tables)))" using demo_fields demo_entries by simp
  have 4: "fits demo_tables" using demo_fields demo_entries a by (simp add: fits_def MaxSectionBytes_def)
  have 5: "table_entries (ipmt (iscan (mvideo demo_tables))) \<noteq> []"
    using demo_fields(1) demo_entries(1) by auto
  from joined_table_reads_back [OF 1 2 3 4 5] obtain n toss where r: "rebuild demo_tables = Some n"
    "length toss = 1" "PMTStreamsSection (built n) = Some ([\<lparr>esPID = 0x100, esType = 0x1b\<rparr>] @
      concat (map2 (\<lambda>a tos. map2 retarget (declared_streams (ipmt (iscan a))) tos) [a] toss), True)"
    "list_all2 (\<lambda>a tos. length tos = length (declared_streams (ipmt (iscan a)))) [a] toss"
    "set (concat toss) \<inter> set ([0, 0x11, 0x1fff, 0x1000, 0x100] @
      map (esPID \<circ> entry_es) (table_entries (demo_section 0x1b))) = {}" "built n ! 5 = version_byte (ver n)"
    by (auto simp: demo_fields demo_entries a(1))
  obtain to where to: "toss = [[to]]"
    using r(2,4) a(2) demo_entries(2) by (auto simp: length_Suc_conv)
  then show ?thesis using r(1,3,5,6) a(2) demo_entries(2)
    by (intro exI [of _ n] exI [of _ to]) (simp add: retarget_def)
qed

end
