(* ===== verification/SpoolLine.thy ===== *)
theory SpoolLine
  imports GoStrings GoFormat "HOL-Library.List_Lexorder" "HOL-Library.Char_ord"
begin

text \<open>
  One line of an event spool (\<^verbatim>\<open>clusteragent/compact.go\<close>, \<^verbatim>\<open>clusteragent/events.go\<close>): the JSON value it
  holds, how the agent reads an event out of it (\<open>classify\<close>), and how it writes an event whose part
  it merged (\<open>withPart\<close>).

  A JSON value is the tree its text stands for.  The text of a number and the text between the quotes of a
  string are kept as they are written; white space between the tokens is not kept, so the length of a line
  is the one of its compact text, which is what PHP and \<open>json.Marshal\<close> write.  A Go map from strings to raw
  JSON is the list of its entries, sorted by key (\<open>canon\<close>).  How \<open>fmt\<close> prints the \<open>float64\<close> of a number is
  the argument \<open>fmtNum\<close>.
\<close>

section \<open>JSON values and objects\<close>

datatype json = JNull | JBool bool | JNum string | JStr string | JArr "json list"
  | JObj "(string \<times> json) list"

type_synonym obj = "(string \<times> json) list"

datatype line = Junk string | Val json

text \<open>The entries of a Go map built from an object's members: the last member of a name counts.\<close>

definition canon :: "obj \<Rightarrow> obj" where
  "canon kvs = map (\<lambda>k. (k, the (map_of (rev kvs) k))) (sort (remdups (map fst kvs)))"

definition mput :: "string \<Rightarrow> json \<Rightarrow> obj \<Rightarrow> obj" where
  "mput k v m = canon (m @ [(k, v)])"

definition mdel :: "string \<Rightarrow> obj \<Rightarrow> obj" where
  "mdel k m = filter (\<lambda>(k', _). k' \<noteq> k) m"

text \<open>\<open>json.Unmarshal\<close> of a raw value into a map; \<open>None\<close> is an error or a nil map.\<close>

fun as_map :: "json option \<Rightarrow> obj option" where
  "as_map (Some (JObj kvs)) = Some (canon kvs)"
| "as_map _ = None"

text \<open>\<open>json.Unmarshal\<close> of a raw value into an empty string variable; \<open>None\<close> is an error.\<close>

fun as_string :: "json option \<Rightarrow> string option" where
  "as_string (Some (JStr s)) = Some s"
| "as_string (Some JNull) = Some ''''"
| "as_string _ = None"

fun sep :: "string \<Rightarrow> string list \<Rightarrow> string" where
  "sep c [] = ''''"
| "sep c [x] = x"
| "sep c (x # xs) = x @ c @ sep c xs"

definition quoted :: "string \<Rightarrow> string" where
  "quoted s = CHR 0x22 # s @ [CHR 0x22]"

fun json_text :: "json \<Rightarrow> string" where
  "json_text JNull = ''null''"
| "json_text (JBool b) = (if b then ''true'' else ''false'')"
| "json_text (JNum s) = s"
| "json_text (JStr s) = quoted s"
| "json_text (JArr xs) = ''['' @ sep '','' (map json_text xs) @ '']''"
| "json_text (JObj kvs) = ''{'' @ sep '','' (map (\<lambda>(k, v). quoted k @ '':'' @ json_text v) kvs) @ ''}''"

definition line_text :: "line \<Rightarrow> string" where
  "line_text l = (case l of Junk s \<Rightarrow> s | Val j \<Rightarrow> json_text j)"

definition line_len :: "line \<Rightarrow> int" where
  "line_len l = len (line_text l)"

lemma set_canon_keys: "set (map fst (canon kvs)) = set (map fst kvs)"
  by (simp add: canon_def comp_def)

lemma map_of_canon: "map_of (canon kvs) = map_of (rev kvs)"
proof
  fix k
  have "map_of (map (\<lambda>k. (k, the (map_of (rev kvs) k))) ks) k =
      (if k \<in> set ks then Some (the (map_of (rev kvs) k)) else None)" for ks
    by (simp add: map_of_map_restrict restrict_map_def)
  moreover have "map_of (rev kvs) k = None" if "k \<notin> set (map fst kvs)"
    using that by (simp add: map_of_eq_None_iff)
  moreover have "\<exists>v. map_of (rev kvs) k = Some v" if "k \<in> set (map fst kvs)"
    using that by (metis map_of_eq_None_iff not_None_eq list.set_map set_rev)
  ultimately show "map_of (canon kvs) k = map_of (rev kvs) k"
    by (auto simp: canon_def simp del: set_map)
qed

lemma distinct_canon: "distinct (map fst (canon kvs))"
  by (simp add: canon_def comp_def)

lemma sorted_canon: "sorted (map fst (canon kvs))"
  by (simp add: canon_def comp_def)

text \<open>A canonical map is determined by its lookups.\<close>

lemma canon_eqI:
  fixes xs ys :: obj
  assumes "sorted (map fst xs)" "distinct (map fst xs)" "sorted (map fst ys)" "distinct (map fst ys)"
    "map_of xs = map_of ys"
  shows "xs = ys"
proof -
  have f: "map fst xs = map fst ys"
    by (rule sorted_distinct_set_unique) (use assms in \<open>auto simp: dom_map_of_conv_image_fst [symmetric]\<close>)
  have v: "map (\<lambda>k. (k, the (map_of zs k))) (map fst zs) = zs" if "distinct (map fst zs)" for zs :: obj
    using that by (auto intro!: map_idI simp: comp_def)
  show ?thesis using v [OF assms(2)] v [OF assms(4)] f assms(5) by simp
qed

section \<open>Reading an event\<close>

text \<open>
  \<open>json.Unmarshal\<close> into \<open>struct { Type string; D json.RawMessage }\<close>: member names are matched without
  regard to case, a \<open>type\<close> that is no string is an error, and a \<open>null\<close> leaves it as it is.
\<close>

fun read_event :: "obj \<Rightarrow> string \<times> json option \<Rightarrow> (string \<times> json option) option" where
  "read_event [] acc = Some acc"
| "read_event ((k, v) # kvs) (t, d) =
     (if EqualFold k ''type'' then
        (case v of JStr s \<Rightarrow> read_event kvs (s, d) | JNull \<Rightarrow> read_event kvs (t, d) | _ \<Rightarrow> None)
      else if EqualFold k ''d'' then read_event kvs (t, Some v)
      else read_event kvs (t, d))"

text \<open>\<open>fmt.Sprint\<close> of a value decoded into an \<open>any\<close>; a missing value prints as nil does.\<close>

fun Sprint :: "(string \<Rightarrow> string) \<Rightarrow> json \<Rightarrow> string" where
  "Sprint fmtNum JNull = ''<nil>''"
| "Sprint fmtNum (JBool b) = (if b then ''true'' else ''false'')"
| "Sprint fmtNum (JNum s) = fmtNum s"
| "Sprint fmtNum (JStr s) = s"
| "Sprint fmtNum (JArr xs) = ''['' @ sep '' '' (map (Sprint fmtNum) xs) @ '']''"
| "Sprint fmtNum (JObj kvs) = ''map['' @ sep '' '' (map (\<lambda>(k, t). k @ '':'' @ t)
     (let es = map (\<lambda>(k, v). (k, Sprint fmtNum v)) kvs
      in map (\<lambda>k. (k, the (map_of (rev es) k))) (sort (remdups (map fst es))))) @ '']''"

definition id_of :: "(string \<Rightarrow> string) \<Rightarrow> obj \<Rightarrow> string \<Rightarrow> string" where
  "id_of fmtNum d k = Sprint fmtNum (case map_of d k of None \<Rightarrow> JNull | Some v \<Rightarrow> v)"

text \<open>The regular expression \<open>^[A-Za-z0-9_-]{1,64}$\<close>.\<close>

definition connUUID :: "string \<Rightarrow> bool" where
  "connUUID u \<longleftrightarrow> u \<noteq> [] \<and> len u \<le> 64 \<and>
     list_all (\<lambda>c. let n = of_char c :: nat in
       65 \<le> n \<and> n \<le> 90 \<or> 97 \<le> n \<and> n \<le> 122 \<or> 48 \<le> n \<and> n \<le> 57 \<or> n = 95 \<or> n = 45) u"

text \<open>
  What compaction knows of an event.  The fingerprint of an upsert is what the code hashes: the event's
  data without the record, and the record without \<open>hls_last_read\<close> (SHA-256 is taken to tell any two apart).
\<close>

datatype event = evKeep | evSlot string string obj | evUpsert string "obj \<times> obj" | evConnEnd string

definition classify_data :: "(string \<Rightarrow> string) \<Rightarrow> string \<Rightarrow> obj \<Rightarrow> event" where
  "classify_data fmtNum t d =
     (if t = ''stream.state'' then
        (if map_of d ''ssid'' \<noteq> None then evSlot (''state:r'' @ id_of fmtNum d ''ssid'') ''fields'' d
         else evSlot (''state:s'' @ id_of fmtNum d ''stream_id'' @ '':'' @ id_of fmtNum d ''server_id'') ''fields'' d)
      else if t = ''stream.monitor'' then evSlot (''monitor:'' @ id_of fmtNum d ''stream_id'') '''' d
      else if t = ''stream.worker'' then
        evSlot (''worker:'' @ id_of fmtNum d ''stream_id'' @ '':'' @ id_of fmtNum d ''worker'') '''' d
      else if t = ''recording.state'' then evSlot (''recording:'' @ id_of fmtNum d ''id'') '''' d
      else if t = ''vod.analysis'' then evSlot (''vod:'' @ id_of fmtNum d ''stream_id'') ''props'' d
      else if t = ''node.state'' then evSlot ''node'' ''fields'' d
      else if t = ''conn.upsert'' then
        (case as_map (map_of d ''record'') of
           None \<Rightarrow> evKeep
         | Some r \<Rightarrow>
             (case as_string (map_of r ''uuid'') of
                None \<Rightarrow> evKeep
              | Some u \<Rightarrow> if connUUID u then evUpsert u (mdel ''record'' d, mdel ''hls_last_read'' r) else evKeep))
      else if t = ''conn.remove'' \<or> t = ''conn.close'' then
        (case as_string (map_of d ''uuid'') of None \<Rightarrow> evKeep | Some u \<Rightarrow> evConnEnd u)
      else evKeep)"

text \<open>\<open>None\<close> is a line \<open>readSpoolFile\<close> skips.\<close>

definition classify :: "(string \<Rightarrow> string) \<Rightarrow> line \<Rightarrow> event option" where
  "classify fmtNum l =
     (case l of
        Val (JObj kvs) \<Rightarrow>
          (case read_event kvs ('''', None) of
             None \<Rightarrow> None
           | Some (t, rd) \<Rightarrow>
               if t = '''' then None
               else (case as_map rd of None \<Rightarrow> Some evKeep | Some d \<Rightarrow> Some (classify_data fmtNum t d)))
      | _ \<Rightarrow> None)"

text \<open>The events of a spool line: itself when it is one.\<close>

definition usable :: "(string \<Rightarrow> string) \<Rightarrow> line \<Rightarrow> bool" where
  "usable fmtNum l \<longleftrightarrow> classify fmtNum l \<noteq> None"

text \<open>
  The event line with its \<open>d[part]\<close> replaced.  The outer option is the panic on a nil map, the inner one
  the error of an \<open>Unmarshal\<close>.
\<close>

definition withPart :: "line \<Rightarrow> string \<Rightarrow> obj \<Rightarrow> line option go" where
  "withPart l part merged =
     (case l of
        Val (JObj kvs) \<Rightarrow>
          (case map_of (canon kvs) ''d'' of
             Some (JObj ds) \<Rightarrow>
               Some (Some (Val (JObj (mput ''d'' (JObj (mput part (JObj (canon merged)) (canon ds))) (canon kvs)))))
           | Some JNull \<Rightarrow> None
           | _ \<Rightarrow> Some None)
      | Val JNull \<Rightarrow> Some None
      | _ \<Rightarrow> Some None)"

end
