(* ===== verification/Compact.thy ===== *)
theory Compact
  imports SpoolLine
begin

text \<open>
  The compaction of an event lane's backlog (\<open>stage\<close> of \<^verbatim>\<open>clusteragent/compact.go\<close>): two passes over
  the tail's lines, the first to find the last event of every key and the runs of every viewer's upserts,
  the second to write what stays, and the writer that cuts the result into files that fit a batch.

  A spool file is its name and its lines; a line's place in the tail is the number of its file and its own
  number there, where the code has a byte offset.  The maps of the passes are functions.
\<close>

record limits =
  MaxBatchEvents :: int
  MaxBatchBytes :: int

type_synonym spool_file = "string \<times> line list"
type_synonym lineAt = "nat \<times> nat"
type_synonym item = "lineAt \<times> line"

text \<open>\<open>eachLine\<close>: blank lines and lines longer than a batch are skipped.\<close>

definition eachLine :: "int \<Rightarrow> line list \<Rightarrow> line list" where
  "eachLine mx ls = filter (\<lambda>l. line_text l \<noteq> '''' \<and> line_len l \<le> mx) ls"

definition file_items :: "int \<Rightarrow> nat \<Rightarrow> line list \<Rightarrow> item list" where
  "file_items mx fi ls =
     filter (\<lambda>(_, l). line_text l \<noteq> '''' \<and> line_len l \<le> mx) (map (\<lambda>(j, l). ((fi, j), l)) (enumerate 0 ls))"

definition tail_items :: "int \<Rightarrow> spool_file list \<Rightarrow> item list" where
  "tail_items mx fs = concat (map (\<lambda>(fi, f). file_items mx fi (snd f)) (enumerate 0 fs))"

definition readLineAt :: "spool_file list \<Rightarrow> lineAt \<Rightarrow> line option" where
  "readLineAt fs p =
     (if fst p < length fs \<and> snd p < length (snd (fs ! fst p)) then Some (snd (fs ! fst p) ! snd p) else None)"

definition readSpoolFile :: "(string \<Rightarrow> string) \<Rightarrow> limits \<Rightarrow> line list \<Rightarrow> line list" where
  "readSpoolFile fmtNum lim ls = filter (usable fmtNum) (eachLine (MaxBatchBytes lim) ls)"

section \<open>Pass 1\<close>

record slotState =
  sLast :: int
  sCount :: int
  sPart :: "obj option"

record connRun =
  rFirst :: int
  rLast :: int
  rFp :: "obj \<times> obj"
  rAt :: lineAt

record pass1 =
  slots :: "string \<Rightarrow> slotState option"
  openRun :: "string \<Rightarrow> connRun option"
  runs :: "string \<Rightarrow> connRun list"
  ord :: int

definition noSlot :: slotState where
  "noSlot = \<lparr>sLast = 0, sCount = 0, sPart = None\<rparr>"

definition closeRun :: "connRun option \<Rightarrow> connRun list" where
  "closeRun r = (case r of None \<Rightarrow> [] | Some r \<Rightarrow> if rLast r > rFirst r then [r] else [])"

definition endRun :: "string \<Rightarrow> pass1 \<Rightarrow> pass1" where
  "endRun u p = p\<lparr>runs := (runs p)(u := runs p u @ closeRun (openRun p u)), openRun := (openRun p)(u := None)\<rparr>"

text \<open>The members of an event's part, which merge into the key's.\<close>

definition part_of :: "string \<Rightarrow> obj \<Rightarrow> obj" where
  "part_of part d = (case as_map (map_of d part) of None \<Rightarrow> [] | Some np \<Rightarrow> np)"

definition mergePart :: "obj option \<Rightarrow> obj \<Rightarrow> obj option" where
  "mergePart old np = Some (canon ((case old of None \<Rightarrow> [] | Some m \<Rightarrow> m) @ np))"

definition slotSeen :: "int \<Rightarrow> string \<Rightarrow> obj \<Rightarrow> slotState \<Rightarrow> slotState" where
  "slotSeen i part d s =
     s\<lparr>sPart := (if part \<noteq> '''' then mergePart (sPart s) (part_of part d) else sPart s),
       sLast := i, sCount := sCount s + 1\<rparr>"

definition pass1_event :: "lineAt \<Rightarrow> event \<Rightarrow> pass1 \<Rightarrow> pass1" where
  "pass1_event p ev st =
     (let i = ord st; st = st\<lparr>ord := ord st + 1\<rparr>
      in case ev of
           evKeep \<Rightarrow> st
         | evSlot k part d \<Rightarrow>
             (let s = (case slots st k of None \<Rightarrow> noSlot | Some s \<Rightarrow> s)
              in st\<lparr>slots := (slots st)(k \<mapsto> slotSeen i part d s)\<rparr>)
         | evUpsert u fp \<Rightarrow>
             (let new = (let st = endRun u st
                         in st\<lparr>openRun := (openRun st)(u \<mapsto> \<lparr>rFirst = i, rLast = i, rFp = fp, rAt = p\<rparr>)\<rparr>)
              in case openRun st u of
                   None \<Rightarrow> new
                 | Some r \<Rightarrow>
                     if rFp r = fp then st\<lparr>openRun := (openRun st)(u \<mapsto> r\<lparr>rLast := i, rAt := p\<rparr>)\<rparr> else new)
         | evConnEnd u \<Rightarrow> endRun u st)"

definition pass1_line :: "(string \<Rightarrow> string) \<Rightarrow> item \<Rightarrow> pass1 \<Rightarrow> pass1" where
  "pass1_line fmtNum it st =
     (case classify fmtNum (snd it) of None \<Rightarrow> st | Some ev \<Rightarrow> pass1_event (fst it) ev st)"

definition no_events :: pass1 where
  "no_events = \<lparr>slots = (\<lambda>_. None), openRun = (\<lambda>_. None), runs = (\<lambda>_. []), ord = 0\<rparr>"

text \<open>The whole pass; at its end every open run is ended.\<close>

definition pass1_all :: "(string \<Rightarrow> string) \<Rightarrow> item list \<Rightarrow> pass1" where
  "pass1_all fmtNum its =
     (let st = fold (pass1_line fmtNum) its no_events
      in st\<lparr>runs := (\<lambda>u. runs st u @ closeRun (openRun st u)), openRun := (\<lambda>_. None)\<rparr>)"

section \<open>The chunk writer\<close>

definition ndjson :: string where "ndjson = ''.ndjson''"

definition spoolPrefix :: "string \<Rightarrow> string" where
  "spoolPrefix name =
     (let base = (if suffix ndjson name then take (length name - length ndjson) name else name);
          p = takeWhile (\<lambda>c. c \<noteq> CHR ''-'') base
      in if p = base \<or> p = [] then base else p)"

text \<open>\<open>%06d\<close>.\<close>

definition pad6 :: "nat \<Rightarrow> string" where
  "pad6 n = replicate (6 - length (show_nat n)) CHR ''0'' @ show_nat n"

record chunkWriter =
  prefix0 :: string
  cgen :: string
  chunk :: "line list option"
  cn :: int
  cbytes :: int
  cnames :: "string list"
  cdone :: "line list list"
  cevents :: int
  ctotal :: int

definition chunk_name :: "string \<Rightarrow> string \<Rightarrow> nat \<Rightarrow> string" where
  "chunk_name pre g k = pre @ ''-compact-'' @ g @ ''-'' @ pad6 k @ ndjson"

definition newChunks :: "string \<Rightarrow> string \<Rightarrow> chunkWriter" where
  "newChunks pre g = \<lparr>prefix0 = pre, cgen = g, chunk = None, cn = 0, cbytes = 0, cnames = [], cdone = [], cevents = 0,
     ctotal = 0\<rparr>"

definition cw_close :: "chunkWriter \<Rightarrow> chunkWriter" where
  "cw_close cw = (case chunk cw of None \<Rightarrow> cw | Some ls \<Rightarrow> cw\<lparr>chunk := None, cdone := cdone cw @ [ls]\<rparr>)"

definition cw_open :: "chunkWriter \<Rightarrow> chunkWriter" where
  "cw_open cw =
     (if chunk cw = None
      then cw\<lparr>chunk := Some [], cn := 0, cbytes := 0,
              cnames := cnames cw @ [chunk_name (prefix0 cw) (cgen cw) (length (cnames cw))]\<rparr>
      else cw)"

definition cw_write :: "limits \<Rightarrow> line \<Rightarrow> chunkWriter \<Rightarrow> chunkWriter" where
  "cw_write lim l cw =
     (let cw = (if chunk cw \<noteq> None \<and> (cn cw + 1 > MaxBatchEvents lim \<or> cbytes cw + line_len l + 1 > MaxBatchBytes lim)
                then cw_close cw else cw);
          cw = cw_open cw
      in cw\<lparr>chunk := map_option (\<lambda>ls. ls @ [l]) (chunk cw), cn := cn cw + 1, cevents := cevents cw + 1,
            cbytes := cbytes cw + line_len l + 1, ctotal := ctotal cw + line_len l + 1\<rparr>)"

section \<open>Pass 2 and the whole\<close>

record pass2 =
  pruns :: "string \<Rightarrow> connRun list"
  pord :: int
  pw :: chunkWriter

text \<open>
  What pass 2 writes for one event: \<open>Some None\<close> is nothing, \<open>None\<close> an error (of a merge, or of reading the
  run's last event back).  The outer option is a panic.
\<close>

definition pass2_event ::
  "limits \<Rightarrow> spool_file list \<Rightarrow> (string \<Rightarrow> slotState option) \<Rightarrow> line \<Rightarrow> event \<Rightarrow> pass2 \<Rightarrow> pass2 option go" where
  "pass2_event lim fs sl l ev st =
     (let i = pord st; st = st\<lparr>pord := pord st + 1\<rparr>;
          put = (\<lambda>x st. st\<lparr>pw := cw_write lim x (pw st)\<rparr>)
      in case ev of
           evSlot k part d \<Rightarrow>
             (case sl k of
                None \<Rightarrow> None
              | Some s \<Rightarrow>
                  if sLast s \<noteq> i then Some (Some st)
                  else if sCount s > 1 \<and> part \<noteq> '''' then do {
                    m \<leftarrow> withPart l part (case sPart s of None \<Rightarrow> [] | Some m \<Rightarrow> m);
                    Some (case m of None \<Rightarrow> None | Some x \<Rightarrow> Some (put x st))
                  }
                  else Some (Some (put l st)))
         | evUpsert u fp \<Rightarrow>
             (case pruns st u of
                [] \<Rightarrow> Some (Some (put l st))
              | r # q \<Rightarrow>
                  if i < rFirst r then Some (Some (put l st))
                  else (let st = (if i = rLast r then st\<lparr>pruns := (pruns st)(u := q)\<rparr> else st)
                        in if i \<noteq> rFirst r then Some (Some st)
                           else Some (case readLineAt fs (rAt r) of
                                        None \<Rightarrow> None | Some x \<Rightarrow> Some (put x st))))
         | _ \<Rightarrow> Some (Some (put l st)))"

fun pass2_all ::
  "(string \<Rightarrow> string) \<Rightarrow> limits \<Rightarrow> spool_file list \<Rightarrow> (string \<Rightarrow> slotState option) \<Rightarrow> item list \<Rightarrow> pass2 \<Rightarrow> pass2 option go"
where
  "pass2_all fmtNum lim fs sl [] st = Some (Some st)"
| "pass2_all fmtNum lim fs sl (it # its) st =
     (case classify fmtNum (snd it) of
        None \<Rightarrow> pass2_all fmtNum lim fs sl its st
      | Some ev \<Rightarrow>
          (case pass2_event lim fs sl (snd it) ev st of
             None \<Rightarrow> None
           | Some None \<Rightarrow> Some None
           | Some (Some st') \<Rightarrow> pass2_all fmtNum lim fs sl its st'))"

record staged =
  chunks :: "spool_file list"
  folded :: int
  csize :: int

definition stage :: "(string \<Rightarrow> string) \<Rightarrow> limits \<Rightarrow> string \<Rightarrow> spool_file list \<Rightarrow> staged option go" where
  "stage fmtNum lim g fs =
     (let its = tail_items (MaxBatchBytes lim) fs;
          p1 = pass1_all fmtNum its
      in do {
        name \<leftarrow> at (map fst fs) 0;
        r \<leftarrow> pass2_all fmtNum lim fs (slots p1) its
               \<lparr>pruns = runs p1, pord = 0, pw = newChunks (spoolPrefix name) g\<rparr>;
        Some (case r of
                None \<Rightarrow> None
              | Some st \<Rightarrow>
                  let cw = cw_close (pw st)
                  in Some \<lparr>chunks = zip (cnames cw) (cdone cw), folded = pord st - cevents cw, csize = ctotal cw\<rparr>)
      })"

end
