(* ===== verification/CompactMain.thy ===== *)
theory CompactMain
  imports Compact
begin

text \<open>
  What a compaction promises: MAIN, which applies the lane's events in order, cannot tell the compacted
  backlog from the one it replaces.  This theory has what MAIN keeps of the events, as far as the spool's own
  notes describe it, and the simulation: a reference of pass 2 that looks ahead in the list instead of
  using the tables of pass 1, and the state of MAIN after either.
\<close>

section \<open>What MAIN keeps\<close>

text \<open>
  A slot is the latest event of its key (its other members, its data) with the part that merges; a viewer is
  the fingerprint of its last upsert and the record's \<open>hls_last_read\<close>.  Every other event is a step of MAIN's
  history: the line, who is connected with what record (up to \<open>hls_last_read\<close>) when it is applied, and for the
  end of a connection the viewer's row as it stood.
\<close>

type_synonym fields = "string \<Rightarrow> json option"

record mainState =
  rows :: "string \<Rightarrow> (fields \<times> fields \<times> fields) option"
  viewers :: "string \<Rightarrow> ((obj \<times> obj) \<times> json option) option"
  history :: "(line \<times> (string \<Rightarrow> (obj \<times> obj) option) \<times> ((obj \<times> obj) \<times> json option) option) list"

definition top_of :: "line \<Rightarrow> fields" where
  "top_of l = (case l of Val (JObj kvs) \<Rightarrow> (map_of (canon kvs))(''d'' := None) | _ \<Rightarrow> Map.empty)"

definition last_read :: "line \<Rightarrow> json option" where
  "last_read l =
     (case l of
        Val (JObj kvs) \<Rightarrow>
          (case read_event kvs ('''', None) of
             None \<Rightarrow> None
           | Some (_, rd) \<Rightarrow>
               (case as_map rd of
                  None \<Rightarrow> None
                | Some d \<Rightarrow> (case as_map (map_of d ''record'') of None \<Rightarrow> None | Some r \<Rightarrow> map_of r ''hls_last_read'')))
      | _ \<Rightarrow> None)"

definition merged_fields :: "(fields \<times> fields \<times> fields) option \<Rightarrow> fields" where
  "merged_fields old = (case old of None \<Rightarrow> Map.empty | Some (_, _, p) \<Rightarrow> p)"

definition apply_slot ::
  "line \<Rightarrow> string \<Rightarrow> obj \<Rightarrow> (fields \<times> fields \<times> fields) option \<Rightarrow> fields \<times> fields \<times> fields" where
  "apply_slot l part d old =
     (top_of l, if part = '''' then map_of d else (map_of d)(part := None),
      merged_fields old ++ (if part = '''' then Map.empty else map_of (part_of part d)))"

definition seen_viewers :: "mainState \<Rightarrow> string \<Rightarrow> (obj \<times> obj) option" where
  "seen_viewers M = (\<lambda>u. map_option fst (viewers M u))"

definition main_event :: "line \<Rightarrow> event \<Rightarrow> mainState \<Rightarrow> mainState" where
  "main_event l ev M =
     (case ev of
        evSlot k part d \<Rightarrow> M\<lparr>rows := (rows M)(k \<mapsto> apply_slot l part d (rows M k))\<rparr>
      | evUpsert u fp \<Rightarrow> M\<lparr>viewers := (viewers M)(u \<mapsto> (fp, last_read l))\<rparr>
      | evConnEnd u \<Rightarrow> M\<lparr>history := history M @ [(l, seen_viewers M, viewers M u)],
                         viewers := (viewers M)(u := None)\<rparr>
      | evKeep \<Rightarrow> M\<lparr>history := history M @ [(l, seen_viewers M, None)]\<rparr>)"

definition main_line :: "(string \<Rightarrow> string) \<Rightarrow> line \<Rightarrow> mainState \<Rightarrow> mainState" where
  "main_line fmtNum l M = (case classify fmtNum l of None \<Rightarrow> M | Some ev \<Rightarrow> main_event l ev M)"

definition main_lines :: "(string \<Rightarrow> string) \<Rightarrow> line list \<Rightarrow> mainState \<Rightarrow> mainState" where
  "main_lines fmtNum ls M = fold (main_line fmtNum) ls M"

text \<open>Two lists of lines MAIN cannot tell apart, whatever it held before.\<close>

definition same_effect :: "(string \<Rightarrow> string) \<Rightarrow> line list \<Rightarrow> line list \<Rightarrow> bool" where
  "same_effect fmtNum xs ys \<longleftrightarrow> main_lines fmtNum xs = main_lines fmtNum ys"

text \<open>
  A line as the node's PHP writes it: an object without a member twice, and the two members an event is read
  from spelled as they are.
\<close>

definition plain :: "line \<Rightarrow> bool" where
  "plain l \<longleftrightarrow>
     (case l of
        Val (JObj kvs) \<Rightarrow> distinct (map fst kvs) \<and>
          list_all (\<lambda>k. (EqualFold k ''type'' \<longrightarrow> k = ''type'') \<and> (EqualFold k ''d'' \<longrightarrow> k = ''d'')) (map fst kvs)
      | _ \<Rightarrow> True)"

section \<open>Reading a plain line\<close>

lemma fold_names [simp]: "EqualFold ''type'' ''type''" "EqualFold ''d'' ''d''"
  "\<not> EqualFold ''d'' ''type''" "\<not> EqualFold ''type'' ''d''"
  by (simp_all add: EqualFold_def to_lower_def)

definition plain_keys :: "obj \<Rightarrow> bool" where
  "plain_keys kvs \<longleftrightarrow> distinct (map fst kvs) \<and>
     (\<forall>k \<in> fst ` set kvs. (EqualFold k ''type'' \<longrightarrow> k = ''type'') \<and> (EqualFold k ''d'' \<longrightarrow> k = ''d''))"

lemma plain_obj: "plain (Val (JObj kvs)) \<longleftrightarrow> plain_keys kvs"
  by (auto simp: plain_def plain_keys_def list_all_iff)

lemma read_event_plain:
  "plain_keys kvs \<Longrightarrow> read_event kvs (t, d) =
     (let d' = (case map_of kvs ''d'' of None \<Rightarrow> d | Some v \<Rightarrow> Some v)
      in case map_of kvs ''type'' of
           None \<Rightarrow> Some (t, d') | Some JNull \<Rightarrow> Some (t, d') | Some (JStr s) \<Rightarrow> Some (s, d') | _ \<Rightarrow> None)"
proof (induction kvs arbitrary: t d)
  case Nil
  then show ?case by simp
next
  case (Cons kv kvs)
  obtain k v where kv: "kv = (k, v)" by fastforce
  have p: "plain_keys kvs" using Cons.prems by (simp add: plain_keys_def)
  have n: "k \<notin> fst ` set kvs" using Cons.prems kv by (simp add: plain_keys_def)
  consider "k = ''type''" | "k = ''d''" | "\<not> EqualFold k ''type''" "\<not> EqualFold k ''d''"
    using Cons.prems kv by (auto simp: plain_keys_def)
  then show ?case
  proof cases
    case 1
    then have "map_of kvs ''type'' = None" using n by (simp add: map_of_eq_None_iff)
    then show ?thesis using 1 kv Cons.IH [OF p] by (auto simp: Let_def split: json.split option.split)
  next
    case 2
    then have "map_of kvs ''d'' = None" using n by (simp add: map_of_eq_None_iff)
    then show ?thesis using 2 kv Cons.IH [OF p] by (auto simp: Let_def split: json.split option.split)
  next
    case 3
    then have "k \<noteq> ''type''" "k \<noteq> ''d''" by auto
    then show ?thesis using 3 kv Cons.IH [OF p] by (simp add: Let_def)
  qed
qed

lemma map_of_rev: "distinct (map fst kvs) \<Longrightarrow> map_of (rev kvs) = map_of kvs"
  by (rule map_of_inject_set [THEN iffD2]) (simp_all add: rev_map [symmetric])

lemma canon_id: "sorted (map fst m) \<Longrightarrow> distinct (map fst m) \<Longrightarrow> canon m = m"
  by (rule canon_eqI) (simp_all add: sorted_canon distinct_canon map_of_canon map_of_rev)

lemma canon_canon [simp]: "canon (canon m) = canon m"
  by (rule canon_id) (simp_all add: sorted_canon distinct_canon)

lemma canon_mput [simp]: "canon (mput k v m) = mput k v m"
  by (simp add: mput_def)

lemma map_of_mput: "distinct (map fst m) \<Longrightarrow> map_of (mput k v m) = (map_of m)(k \<mapsto> v)"
  by (auto simp: mput_def map_of_canon map_of_rev)

lemma keys_mput: "fst ` set (mput k v m) = insert k (fst ` set m)"
  using set_canon_keys [of "m @ [(k, v)]"] by (auto simp: mput_def)

lemma plain_keys_canon: "plain_keys kvs \<Longrightarrow> plain_keys (canon kvs)"
  using set_canon_keys [of kvs] by (simp add: plain_keys_def distinct_canon [simplified])

lemma plain_keys_mput_d: "plain_keys kvs \<Longrightarrow> plain_keys (mput ''d'' v kvs)"
  using distinct_canon [of "kvs @ [(''d'', v)]"] keys_mput [of "''d''" v kvs]
  by (auto simp: plain_keys_def mput_def)


text \<open>An event of a slot keeps its slot and its other data when its part is replaced by a merged one.\<close>

lemma id_of_mput: "distinct (map fst d) \<Longrightarrow> k \<noteq> part \<Longrightarrow> id_of fmtNum (mput part v d) k = id_of fmtNum d k"
  by (simp add: id_of_def map_of_mput)

lemma classify_data_slot:
  assumes "classify_data fmtNum t d = evSlot k part e"
  shows "e = d" "part \<in> {'''', ''fields'', ''props''}"
  using assms by (auto simp: classify_data_def split: if_splits option.splits)

lemma classify_data_mput:
  assumes c: "classify_data fmtNum t d = evSlot k part e" and p: "part \<noteq> ''''" and d: "distinct (map fst d)"
  shows "classify_data fmtNum t (mput part v d) = evSlot k part (mput part v d)"
  using c p d
  by (auto simp: classify_data_def id_of_mput map_of_mput split: if_splits option.splits)

text \<open>The part that merges is the same for every event of a key.\<close>

definition key_part :: "string \<Rightarrow> string" where
  "key_part k =
     (if hd k = CHR ''s'' \<or> hd k = CHR ''n'' then ''fields'' else if hd k = CHR ''v'' then ''props'' else '''')"

lemma classify_data_part: "classify_data fmtNum t d = evSlot k part e \<Longrightarrow> part = key_part k"
  by (auto simp: classify_data_def key_part_def split: if_splits option.splits)

lemma classify_slotD:
  assumes "classify fmtNum l = Some (evSlot k part d)"
  obtains kvs t rd where "l = Val (JObj kvs)" "read_event kvs ('''', None) = Some (t, rd)" "t \<noteq> ''''"
    "as_map rd = Some d" "classify_data fmtNum t d = evSlot k part d"
  using assms classify_data_slot
  by (fastforce simp: classify_def split: line.splits json.splits option.splits if_splits prod.splits)

lemma classify_part: "classify fmtNum l = Some (evSlot k part d) \<Longrightarrow> part = key_part k"
  by (erule classify_slotD) (rule classify_data_part)

lemma as_map_distinct: "as_map rd = Some d \<Longrightarrow> distinct (map fst d)"
  by (cases rd rule: as_map.cases) (auto simp del: distinct_map simp: distinct_canon)

lemma classify_distinct: "classify fmtNum l = Some (evSlot k part d) \<Longrightarrow> distinct (map fst d)"
  by (erule classify_slotD) (rule as_map_distinct)

lemma withPart_event:
  assumes pl: "plain l" and c: "classify fmtNum l = Some (evSlot k part d)" and p: "part \<noteq> ''''"
  shows "\<exists>x. withPart l part m = Some (Some x) \<and>
      classify fmtNum x = Some (evSlot k part (mput part (JObj (canon m)) d)) \<and> top_of x = top_of l \<and> plain x"
proof -
  obtain kvs t rd where l: "l = Val (JObj kvs)" and r: "read_event kvs ('''', None) = Some (t, rd)" "t \<noteq> ''''"
    "as_map rd = Some d" and cd: "classify_data fmtNum t d = evSlot k part d"
    using c by (rule classify_slotD)
  have k: "plain_keys kvs" using pl l by (simp add: plain_obj)
  then have dk: "distinct (map fst kvs)" by (simp add: plain_keys_def)
  have rd: "rd = map_of kvs ''d''" using r(1) read_event_plain [OF k, of "''''" None]
    by (auto simp: Let_def split: option.splits json.splits)
  obtain ds where ds: "map_of kvs ''d'' = Some (JObj ds)" "d = canon ds"
    using r(3) unfolding rd by (cases "map_of kvs ''d''" rule: as_map.cases) auto
  define dd where "dd = mput part (JObj (canon m)) d"
  define ks where "ks = mput ''d'' (JObj dd) (canon kvs)"
  have w: "withPart l part m = Some (Some (Val (JObj ks)))"
    using l ds by (simp add: withPart_def map_of_canon map_of_rev dk ks_def dd_def)
  have pk: "plain_keys ks" unfolding ks_def by (intro plain_keys_mput_d plain_keys_canon k)
  have mk: "map_of ks = (map_of kvs)(''d'' \<mapsto> JObj dd)"
    unfolding ks_def by (subst map_of_mput) (simp_all add: distinct_canon map_of_canon map_of_rev dk del: distinct_map)
  have "read_event ks ('''', None) = Some (t, Some (JObj dd))"
    using r(1) read_event_plain [OF pk, of "''''" None] read_event_plain [OF k, of "''''" None] ds(1)
    by (auto simp: mk Let_def split: option.splits json.splits)
  moreover have "classify_data fmtNum t dd = evSlot k part dd"
    unfolding dd_def by (rule classify_data_mput [OF cd p as_map_distinct [OF r(3)]])
  moreover have "as_map (Some (JObj dd)) = Some dd" by (simp add: dd_def)
  ultimately have "classify fmtNum (Val (JObj ks)) = Some (evSlot k part dd)"
    using r(2) by (simp add: classify_def del: as_map.simps)
  moreover have "top_of (Val (JObj ks)) = top_of l"
    using pk by (simp add: top_of_def l map_of_canon map_of_rev dk plain_keys_def)
      (simp add: mk)
  ultimately show ?thesis using w pk by (simp add: plain_obj dd_def)
qed

end
