(* ===== verification/CompactSim.thy ===== *)
theory CompactSim
  imports CompactMain
begin

text \<open>
  Pass 2 as a function that looks ahead instead of into the tables of pass 1, and the simulation that MAIN ends
  in the same state.
\<close>

type_synonym ev = "lineAt \<times> line \<times> event"
type_synonym cur = "string \<Rightarrow> ((obj \<times> obj) \<times> lineAt \<times> line) option"

definition ev_items :: "(string \<Rightarrow> string) \<Rightarrow> item list \<Rightarrow> ev list" where
  "ev_items fmtNum its =
     concat (map (\<lambda>(p, l). case classify fmtNum l of None \<Rightarrow> [] | Some e \<Rightarrow> [(p, l, e)]) its)"

section \<open>The reference\<close>

text \<open>Whether a key occurs again.\<close>

fun occurs :: "string \<Rightarrow> ev list \<Rightarrow> bool" where
  "occurs k [] = False"
| "occurs k ((p, l, e) # es) = ((case e of evSlot k' _ _ \<Rightarrow> k' = k | _ \<Rightarrow> False) \<or> occurs k es)"

text \<open>The last event of a viewer's run, \<open>it\<close> being the last one so far; and whether the run goes on.\<close>

fun ahead :: "string \<Rightarrow> obj \<times> obj \<Rightarrow> lineAt \<times> line \<Rightarrow> ev list \<Rightarrow> lineAt \<times> line" where
  "ahead u fp it [] = it"
| "ahead u fp it ((p, l, e) # es) =
     (case e of
        evUpsert u' fp' \<Rightarrow> if u' = u then (if fp' = fp then ahead u fp (p, l) es else it) else ahead u fp it es
      | evConnEnd u' \<Rightarrow> if u' = u then it else ahead u fp it es
      | _ \<Rightarrow> ahead u fp it es)"

fun continues :: "string \<Rightarrow> obj \<times> obj \<Rightarrow> ev list \<Rightarrow> bool" where
  "continues u fp [] = False"
| "continues u fp ((p, l, e) # es) =
     (case e of
        evUpsert u' fp' \<Rightarrow> if u' = u then fp' = fp else continues u fp es
      | evConnEnd u' \<Rightarrow> u' \<noteq> u \<and> continues u fp es
      | _ \<Rightarrow> continues u fp es)"

definition cur_step :: "ev \<Rightarrow> cur \<Rightarrow> cur" where
  "cur_step x cur = (case x of (p, l, e) \<Rightarrow>
     (case e of evUpsert u fp \<Rightarrow> cur(u \<mapsto> (fp, p, l)) | evConnEnd u \<Rightarrow> cur(u := None) | _ \<Rightarrow> cur))"

definition merged_line :: "line \<Rightarrow> string \<Rightarrow> slotState \<Rightarrow> line" where
  "merged_line l part s =
     (if sCount s > 1 \<and> part \<noteq> ''''
      then (case withPart l part (case sPart s of None \<Rightarrow> [] | Some m \<Rightarrow> m) of Some (Some x) \<Rightarrow> x | _ \<Rightarrow> l) else l)"

definition slot_step :: "int \<Rightarrow> event \<Rightarrow> (string \<Rightarrow> slotState option) \<Rightarrow> string \<Rightarrow> slotState option" where
  "slot_step i e st = (case e of
     evSlot k part d \<Rightarrow> st(k \<mapsto> slotSeen i part d (case st k of None \<Rightarrow> noSlot | Some s \<Rightarrow> s)) | _ \<Rightarrow> st)"

fun written :: "ev \<Rightarrow> ev list \<Rightarrow> (string \<Rightarrow> slotState option) \<Rightarrow> cur \<Rightarrow> line list" where
  "written (p, l, e) es st cur =
     (case e of
        evSlot k part d \<Rightarrow> (if occurs k es then [] else (case st k of None \<Rightarrow> [l] | Some s \<Rightarrow> [merged_line l part s]))
      | evUpsert u fp \<Rightarrow> (case cur u of
                            None \<Rightarrow> [snd (ahead u fp (p, l) es)]
                          | Some c \<Rightarrow> if fst c = fp then [] else [snd (ahead u fp (p, l) es)])
      | _ \<Rightarrow> [l])"

fun reference :: "int \<Rightarrow> (string \<Rightarrow> slotState option) \<Rightarrow> cur \<Rightarrow> ev list \<Rightarrow> line list" where
  "reference i st cur [] = []"
| "reference i st cur ((p, l, e) # es) =
     (let st' = slot_step i e st
      in written (p, l, e) es st' cur @ reference (i + 1) st' (cur_step (p, l, e) cur) es)"

section \<open>The simulation\<close>

text \<open>
  \<open>V\<close> is MAIN after the events so far, \<open>W\<close> after what was written for them, \<open>S0\<close> the slots both began with.
\<close>

definition slot_sim :: "string \<Rightarrow> (fields \<times> fields \<times> fields) option \<Rightarrow> slotState option \<Rightarrow>
    (fields \<times> fields \<times> fields) option \<Rightarrow> bool" where
  "slot_sim part base so row \<longleftrightarrow>
     (case so of
        None \<Rightarrow> row = base
      | Some s \<Rightarrow> sCount s \<ge> 1 \<and> (part \<noteq> '''' \<longrightarrow> sPart s \<noteq> None) \<and>
          (\<forall>m. sPart s = Some m \<longrightarrow> distinct (map fst m) \<and> canon m = m) \<and>
          (\<exists>t r. row = Some (t, r, merged_fields base ++
             (if part = '''' then Map.empty else (case sPart s of None \<Rightarrow> Map.empty | Some m \<Rightarrow> map_of m)))))"

definition slots_sim where
  "slots_sim S0 st es V W \<longleftrightarrow>
     (\<forall>k. rows W k = (if occurs k es then S0 k else rows V k) \<and> slot_sim (key_part k) (S0 k) (st k) (rows V k))"

definition viewers_sim where
  "viewers_sim cur es V W \<longleftrightarrow> history V = history W \<and>
     (\<forall>u. case cur u of None \<Rightarrow> viewers W u = viewers V u
          | Some (fp, it) \<Rightarrow> viewers V u = Some (fp, last_read (snd it)) \<and>
              viewers W u = Some (fp, last_read (snd (ahead u fp it es))))"

text \<open>The items of the list are classified as they say, and every line is plain.\<close>

definition well_read :: "(string \<Rightarrow> string) \<Rightarrow> ev list \<Rightarrow> bool" where
  "well_read fmtNum es \<longleftrightarrow> (\<forall>(p, l, e) \<in> set es. classify fmtNum l = Some e \<and> plain l)"

lemma main_event_parts [simp]:
  "rows (main_event l e M) = (case e of evSlot k part d \<Rightarrow> (rows M)(k \<mapsto> apply_slot l part d (rows M k)) | _ \<Rightarrow> rows M)"
  "viewers (main_event l e M) = (case e of evUpsert u fp \<Rightarrow> (viewers M)(u \<mapsto> (fp, last_read l))
     | evConnEnd u \<Rightarrow> (viewers M)(u := None) | _ \<Rightarrow> viewers M)"
  "history (main_event l e M) = history M @ (case e of evConnEnd u \<Rightarrow> [(l, seen_viewers M, viewers M u)]
     | evKeep \<Rightarrow> [(l, seen_viewers M, None)] | _ \<Rightarrow> [])"
  by (simp_all add: main_event_def split: event.split)

lemma seen_viewers_sim: "viewers_sim cur es V W \<Longrightarrow> seen_viewers W = seen_viewers V"
  unfolding seen_viewers_def
proof
  fix u
  assume "viewers_sim cur es V W"
  then have "case cur u of None \<Rightarrow> viewers W u = viewers V u
      | Some (fp, it) \<Rightarrow> viewers V u = Some (fp, last_read (snd it)) \<and>
          viewers W u = Some (fp, last_read (snd (ahead u fp it es)))"
    by (simp add: viewers_sim_def)
  then show "map_option fst (viewers W u) = map_option fst (viewers V u)"
    by (auto split: option.splits)
qed

lemma map_of_mergePart:
  assumes "\<And>m. old = Some m \<Longrightarrow> distinct (map fst m)" "mergePart old np = Some m'" "distinct (map fst np)"
  shows "map_of m' = (case old of None \<Rightarrow> Map.empty | Some m \<Rightarrow> map_of m) ++ map_of np"
proof -
  have m': "m' = canon ((case old of None \<Rightarrow> [] | Some m \<Rightarrow> m) @ np)" using assms(2) by (simp add: mergePart_def)
  show ?thesis
    using assms(1,3) by (cases old) (simp_all add: m' map_of_canon map_of_rev)
qed

lemma part_of_distinct: "distinct (map fst (part_of part d))"
  by (simp add: part_of_def as_map_distinct split: option.split)


lemma slots_sim_other:
  assumes "slots_sim S0 st ((p, l, e) # es) V W" "case e of evSlot _ _ _ \<Rightarrow> False | _ \<Rightarrow> True" "rows W' = rows W"
  shows "slots_sim S0 (slot_step i e st) es (main_event l e V) W'"
  using assms unfolding slots_sim_def by (cases e) (simp_all add: slot_step_def)

lemma merged_line_event:
  assumes pl: "plain l" and c: "classify fmtNum l = Some (evSlot k part d)"
    and s: "sCount s > 1" "part \<noteq> ''''" "sPart s = Some m" "canon m = m"
  shows "classify fmtNum (merged_line l part s) = Some (evSlot k part (mput part (JObj m) d))"
    "top_of (merged_line l part s) = top_of l"
  using withPart_event [OF pl c s(2), of m] s by (auto simp: merged_line_def)

lemma apply_merged:
  assumes "distinct (map fst d)" "part \<noteq> ''''" "top_of x = top_of l" "canon m = m"
  shows "apply_slot x part (mput part (JObj m) d) old
    = (top_of l, (map_of d)(part := None), merged_fields old ++ map_of m)"
  using assms by (simp add: apply_slot_def map_of_mput part_of_def)

text \<open>One slot event: the slot it leaves, and what applying what was written for it leaves.\<close>

lemma slot_sim_base:
  assumes "slot_sim part base so row"
  shows "merged_fields row = merged_fields base ++ (if part = '''' then Map.empty else
      (case so of None \<Rightarrow> Map.empty | Some s \<Rightarrow> (case sPart s of None \<Rightarrow> Map.empty | Some m \<Rightarrow> map_of m)))"
  using assms unfolding slot_sim_def by (cases so) (auto simp: merged_fields_def)

lemma slotSeen_parts [simp]:
  "sLast (slotSeen i part d s) = i" "sCount (slotSeen i part d s) = sCount s + 1"
  "sPart (slotSeen i part d s) = (if part \<noteq> '''' then mergePart (sPart s) (part_of part d) else sPart s)"
  by (simp_all add: slotSeen_def)

lemma slot_row:
  assumes sim: "slot_sim part base so row" and s: "s = slotSeen i part d (case so of None \<Rightarrow> noSlot | Some s \<Rightarrow> s)"
  shows "apply_slot l part d row = (top_of l, if part = '''' then map_of d else (map_of d)(part := None),
      merged_fields base ++ (if part = '''' then Map.empty else (case sPart s of None \<Rightarrow> Map.empty | Some m \<Rightarrow> map_of m)))"
proof (cases "part = ''''")
  case True
  then show ?thesis using slot_sim_base [OF sim] by (simp add: apply_slot_def)
next
  case False
  define old where "old = (case so of None \<Rightarrow> None | Some s \<Rightarrow> sPart s)"
  have d: "\<And>m. old = Some m \<Longrightarrow> distinct (map fst m)"
    using sim unfolding slot_sim_def old_def by (auto split: option.splits)
  have b: "merged_fields row = merged_fields base ++ (case old of None \<Rightarrow> Map.empty | Some m \<Rightarrow> map_of m)"
    using slot_sim_base [OF sim] False unfolding old_def by (auto split: option.splits)
  obtain m where m: "mergePart old (part_of part d) = Some m" by (simp add: mergePart_def)
  have "sPart s = Some m" using s False m by (cases so) (simp_all add: old_def noSlot_def)
  then show ?thesis using map_of_mergePart [OF d m part_of_distinct] False b by (simp add: apply_slot_def)
qed

lemma slot_sim_step:
  assumes sim: "slot_sim part base so row" and s: "s = slotSeen i part d (case so of None \<Rightarrow> noSlot | Some s \<Rightarrow> s)"
  shows "slot_sim part base (Some s) (Some (apply_slot l part d row))"
proof -
  have "sCount s \<ge> 1" using sim s unfolding slot_sim_def by (cases so) (simp_all add: noSlot_def)
  moreover have "part \<noteq> '''' \<longrightarrow> sPart s \<noteq> None" using s by (simp add: mergePart_def)
  moreover have "distinct (map fst m) \<and> canon m = m" if "sPart s = Some m" for m
  proof (cases "part = ''''")
    case True
    then show ?thesis using that sim s unfolding slot_sim_def by (cases so) (auto simp: noSlot_def)
  next
    case False
    then show ?thesis using that s by (auto simp: mergePart_def distinct_canon simp del: distinct_map)
  qed
  ultimately show ?thesis unfolding slot_sim_def slot_row [OF sim s] by auto
qed

lemma slot_sim_written:
  assumes sim: "slot_sim part base so row" and s: "s = slotSeen i part d (case so of None \<Rightarrow> noSlot | Some s \<Rightarrow> s)"
    and c: "classify fmtNum l = Some (evSlot k part d)" and pl: "plain l" and W: "rows W k = base"
  shows "rows (main_line fmtNum (merged_line l part s) W) = (rows W)(k \<mapsto> apply_slot l part d row)"
proof (cases "sCount s > 1 \<and> part \<noteq> ''''")
  case True
  have sim': "slot_sim part base (Some s) (Some (apply_slot l part d row))" by (rule slot_sim_step [OF sim s])
  then obtain m where m: "sPart s = Some m" and cm: "canon m = m"
    using True unfolding slot_sim_def by auto
  note c' = merged_line_event [OF pl c _ _ m cm]
  have "main_line fmtNum (merged_line l part s) W = main_event (merged_line l part s)
      (evSlot k part (mput part (JObj m) d)) W"
    using c'(1) True by (simp add: main_line_def)
  then show ?thesis
    using apply_merged [OF classify_distinct [OF c], of part "merged_line l part s" l m "rows W k"] c'(2) True cm m W
    unfolding slot_row [OF sim s] by simp
next
  case False
  then have ml: "merged_line l part s = l" unfolding merged_line_def by auto
  have same: "merged_fields row = merged_fields base"
  proof (cases "part = ''''")
    case True
    then show ?thesis using slot_sim_base [OF sim] by simp
  next
    case nz: False
    then have "\<not> sCount s > 1" using False by simp
    then have "so = None" using s sim unfolding slot_sim_def by (cases so) auto
    then show ?thesis using sim unfolding slot_sim_def by simp
  qed
  have "apply_slot l part d base = apply_slot l part d row" by (simp add: apply_slot_def same)
  then show ?thesis by (simp add: ml main_line_def c W)
qed

lemma slots_sim_slot:
  assumes sim: "slots_sim S0 st ((p, l, evSlot k part d) # es) V W"
    and c: "classify fmtNum l = Some (evSlot k part d)" and pl: "plain l"
  shows "slots_sim S0 (slot_step i (evSlot k part d) st) es (main_event l (evSlot k part d) V)
    (main_lines fmtNum (written (p, l, evSlot k part d) es (slot_step i (evSlot k part d) st) cur) W)"
proof -
  let ?e = "evSlot k part d"
  let ?st = "slot_step i ?e st"
  have part: "part = key_part k" by (rule classify_part [OF c])
  define s where "s = slotSeen i part d (case st k of None \<Rightarrow> noSlot | Some s \<Rightarrow> s)"
  have stk: "?st = st(k \<mapsto> s)" by (simp add: slot_step_def s_def)
  have Wk: "rows W k = S0 k" using sim by (simp add: slots_sim_def)
  have ssk: "slot_sim part (S0 k) (st k) (rows V k)" using sim part by (simp add: slots_sim_def)
  note step = slot_sim_step [OF ssk s_def, of l] and out = slot_sim_written [where W = W, OF ssk s_def c pl Wk]
  define W1 where "W1 = main_lines fmtNum (written (p, l, ?e) es ?st cur) W"
  have W': "rows W1 =
      (if occurs k es then rows W else (rows W)(k \<mapsto> apply_slot l part d (rows V k)))"
    using out by (simp add: W1_def main_lines_def stk)
  show ?thesis
    unfolding W1_def [symmetric] unfolding slots_sim_def W' stk
    using sim [unfolded slots_sim_def] step Wk part by (auto split: if_splits)
qed


text \<open>One event for the viewers and the history.\<close>

lemma ahead_event:
  assumes "well_read fmtNum es" "classify fmtNum (snd it) = Some (evUpsert u fp)"
  shows "classify fmtNum (snd (ahead u fp it es)) = Some (evUpsert u fp)"
  using assms
proof (induction es arbitrary: it)
  case (Cons x es)
  obtain p l e where x: "x = (p, l, e)" by (metis prod_cases3)
  have w: "well_read fmtNum es" and c: "classify fmtNum l = Some e"
    using Cons.prems(1) by (auto simp: well_read_def x)
  show ?case using Cons.IH [OF w] Cons.prems(2) c by (auto simp: x split: event.split)
qed simp

lemma main_line_classified: "classify fmtNum l = Some e \<Longrightarrow> main_line fmtNum l M = main_event l e M"
  by (simp add: main_line_def)

lemma main_lines_simps [simp]:
  "main_lines fmtNum [] M = M" "main_lines fmtNum (l # ls) M = main_lines fmtNum ls (main_line fmtNum l M)"
  "main_lines fmtNum (xs @ ys) M = main_lines fmtNum ys (main_lines fmtNum xs M)"
  by (simp_all add: main_lines_def)

lemma merged_line_slot:
  assumes pl: "plain l" and c: "classify fmtNum l = Some (evSlot k part d)"
  shows "\<exists>d'. classify fmtNum (merged_line l part s) = Some (evSlot k part d')"
proof (cases "sCount s > 1 \<and> part \<noteq> ''''")
  case True
  then show ?thesis
    using withPart_event [OF pl c, of "case sPart s of None \<Rightarrow> [] | Some m \<Rightarrow> m"]
    by (auto simp: merged_line_def)
next
  case False
  then have "merged_line l part s = l" unfolding merged_line_def by auto
  then show ?thesis using c by simp
qed

lemma slot_written_viewers:
  assumes "plain l" "classify fmtNum l = Some (evSlot k part d)"
  shows "viewers (main_lines fmtNum (written (p, l, evSlot k part d) es st cur) W) = viewers W"
    "history (main_lines fmtNum (written (p, l, evSlot k part d) es st cur) W) = history W"
proof -
  have "viewers (main_line fmtNum (merged_line l part s) W) = viewers W \<and>
      history (main_line fmtNum (merged_line l part s) W) = history W" for s
    using merged_line_slot [OF assms, of s] by (auto simp: main_line_classified)
  moreover have "viewers (main_line fmtNum l W) = viewers W \<and> history (main_line fmtNum l W) = history W"
    using assms by (simp add: main_line_classified)
  ultimately show "viewers (main_lines fmtNum (written (p, l, evSlot k part d) es st cur) W) = viewers W"
    "history (main_lines fmtNum (written (p, l, evSlot k part d) es st cur) W) = history W"
    by (auto split: option.split)
qed

lemma viewers_simD:
  assumes "viewers_sim cur es V W"
  shows "cur u = None \<Longrightarrow> viewers W u = viewers V u"
    "cur u = Some (fp, it) \<Longrightarrow> viewers V u = Some (fp, last_read (snd it))"
    "cur u = Some (fp, it) \<Longrightarrow> viewers W u = Some (fp, last_read (snd (ahead u fp it es)))"
  using assms [unfolded viewers_sim_def, THEN conjunct2, THEN spec, of u] by simp_all

lemma viewers_simI:
  assumes "history V = history W" "\<And>u. cur u = None \<Longrightarrow> viewers W u = viewers V u"
    "\<And>u fp it. cur u = Some (fp, it) \<Longrightarrow> viewers V u = Some (fp, last_read (snd it)) \<and>
      viewers W u = Some (fp, last_read (snd (ahead u fp it es)))"
  shows "viewers_sim cur es V W"
  using assms unfolding viewers_sim_def by (auto split: option.split)

lemma viewers_sim_step:
  assumes sim: "viewers_sim cur ((p, l, e) # es) V W" and wr: "well_read fmtNum ((p, l, e) # es)"
  shows "viewers_sim (cur_step (p, l, e) cur) es (main_event l e V)
    (main_lines fmtNum (written (p, l, e) es st cur) W)"
proof -
  have c: "classify fmtNum l = Some e" and pl: "plain l" and wr': "well_read fmtNum es"
    using wr by (auto simp: well_read_def)
  note D = viewers_simD [OF sim] and seen = seen_viewers_sim [OF sim]
  have h: "history V = history W" using sim by (simp add: viewers_sim_def)
  show ?thesis
  proof (cases e)
    case evKeep
    show ?thesis
      by (rule viewers_simI) (use D evKeep h seen c in \<open>simp_all add: cur_step_def main_line_classified\<close>)
  next
    case (evSlot k part d)
    note w = slot_written_viewers [OF pl c [unfolded evSlot], of p es st cur W]
    show ?thesis
      by (rule viewers_simI) (use D evSlot h w in \<open>simp_all add: cur_step_def del: written.simps\<close>)
  next
    case (evUpsert u fp)
    have x: "classify fmtNum (snd (ahead u fp (p, l) es)) = Some (evUpsert u fp)"
      by (rule ahead_event [OF wr']) (use c evUpsert in simp)
    show ?thesis
      by (rule viewers_simI) (use D evUpsert h x in
        \<open>auto simp: cur_step_def main_line_classified split: option.splits if_splits\<close>)
  next
    case (evConnEnd u)
    have u: "viewers W u = viewers V u" using D [of u] evConnEnd by (cases "cur u") auto
    show ?thesis
      by (rule viewers_simI) (use D evConnEnd h seen c u in
        \<open>auto simp: cur_step_def main_line_classified split: if_splits\<close>)
  qed
qed

lemma other_written_rows:
  assumes "well_read fmtNum ((p, l, e) # es)" "case e of evSlot _ _ _ \<Rightarrow> False | _ \<Rightarrow> True"
  shows "rows (main_lines fmtNum (written (p, l, e) es st cur) W) = rows W"
proof -
  have c: "classify fmtNum l = Some e" and wr': "well_read fmtNum es" using assms(1) by (auto simp: well_read_def)
  have "classify fmtNum (snd (ahead u fp (p, l) es)) = Some (evUpsert u fp)" if "e = evUpsert u fp" for u fp
    by (rule ahead_event [OF wr']) (use c that in simp)
  then show ?thesis
    using assms(2) c by (cases e) (auto simp: main_line_classified split: option.splits)
qed

theorem reference_same_state:
  assumes "slots_sim S0 st es V W" "viewers_sim cur es V W" "well_read fmtNum es"
  shows "main_lines fmtNum (reference i st cur es) W = main_lines fmtNum (map (fst \<circ> snd) es) V"
  using assms
proof (induction es arbitrary: i st cur V W)
  case Nil
  have "viewers W u = viewers V u" for u using viewers_simD [OF Nil(2), of u] by (cases "cur u") auto
  moreover have "rows W = rows V" using Nil(1) by (auto simp: slots_sim_def)
  moreover have "history W = history V" using Nil(2) by (simp add: viewers_sim_def)
  ultimately have "W = V" by (intro mainState.equality) auto
  then show ?case by simp
next
  case (Cons x es)
  obtain p l e where x: "x = (p, l, e)" by (metis prod_cases3)
  have c: "classify fmtNum l = Some e" and pl: "plain l" and wr: "well_read fmtNum es"
    using Cons.prems(3) by (auto simp: well_read_def x)
  let ?W = "main_lines fmtNum (written (p, l, e) es (slot_step i e st) cur) W"
  have s: "slots_sim S0 (slot_step i e st) es (main_event l e V) ?W"
  proof (cases "case e of evSlot _ _ _ \<Rightarrow> False | _ \<Rightarrow> True")
    case True
    show ?thesis
      by (rule slots_sim_other [OF Cons.prems(1) [unfolded x] True])
        (rule other_written_rows [OF Cons.prems(3) [unfolded x] True])
  next
    case False
    then obtain k part d where e: "e = evSlot k part d" by (cases e) auto
    show ?thesis using slots_sim_slot [OF Cons.prems(1) [unfolded x e] c [unfolded e] pl] by (simp add: e)
  qed
  have v: "viewers_sim (cur_step (p, l, e) cur) es (main_event l e V) ?W"
    by (rule viewers_sim_step [OF Cons.prems(2,3) [unfolded x]])
  show ?case
    using Cons.IH [OF s v wr] by (simp add: x Let_def main_line_classified [OF c] del: written.simps)
qed

text \<open>From the same state, the reference and the list itself lead to the same state.\<close>

lemma reference_same_effect:
  assumes "well_read fmtNum es"
  shows "same_effect fmtNum (reference 0 (\<lambda>_. None) (\<lambda>_. None) es) (map (fst \<circ> snd) es)"
  unfolding same_effect_def
proof
  fix M
  show "main_lines fmtNum (reference 0 (\<lambda>_. None) (\<lambda>_. None) es) M = main_lines fmtNum (map (fst \<circ> snd) es) M"
    by (rule reference_same_state [where ?S0.0 = "rows M"])
      (simp_all add: assms slots_sim_def slot_sim_def viewers_sim_def)
qed

end
