(* ===== verification/CompactPasses.thy ===== *)
theory CompactPasses
  imports CompactSim
begin

text \<open>
  The two passes of \<open>stage\<close> write what the reference writes: the slot table of pass 1 names the last
  event of every key, its queues of runs are the runs the reference sees ahead, and pass 2 takes a run from
  its queue exactly where the run ends.
\<close>

section \<open>Pass 1\<close>

fun slots_after :: "int \<Rightarrow> ev list \<Rightarrow> (string \<Rightarrow> slotState option) \<Rightarrow> string \<Rightarrow> slotState option" where
  "slots_after i [] st = st"
| "slots_after i ((p, l, e) # es) st = slots_after (i + 1) es (slot_step i e st)"

definition newRun :: "int \<Rightarrow> obj \<times> obj \<Rightarrow> lineAt \<Rightarrow> connRun" where
  "newRun i fp p = \<lparr>rFirst = i, rLast = i, rFp = fp, rAt = p\<rparr>"

definition run_step :: "string \<Rightarrow> int \<Rightarrow> ev \<Rightarrow> connRun option \<Rightarrow> connRun option" where
  "run_step u i x ro = (case x of (p, l, e) \<Rightarrow>
     (case e of
        evUpsert u' fp \<Rightarrow>
          if u' \<noteq> u then ro
          else (case ro of None \<Rightarrow> Some (newRun i fp p)
                | Some r \<Rightarrow> Some (if rFp r = fp then r\<lparr>rLast := i, rAt := p\<rparr> else newRun i fp p))
      | evConnEnd u' \<Rightarrow> if u' = u then None else ro
      | _ \<Rightarrow> ro))"

definition run_ends :: "string \<Rightarrow> ev \<Rightarrow> connRun option \<Rightarrow> bool" where
  "run_ends u x ro = (case x of (p, l, e) \<Rightarrow>
     (case e of
        evUpsert u' fp \<Rightarrow> u' = u \<and> (case ro of None \<Rightarrow> True | Some r \<Rightarrow> rFp r \<noteq> fp)
      | evConnEnd u' \<Rightarrow> u' = u
      | _ \<Rightarrow> False))"

text \<open>The runs of a viewer that end in the rest of the list, with the one open before it.\<close>

fun goruns :: "string \<Rightarrow> connRun option \<Rightarrow> int \<Rightarrow> ev list \<Rightarrow> connRun list" where
  "goruns u ro i [] = closeRun ro"
| "goruns u ro i (x # es) = (if run_ends u x ro then closeRun ro else []) @ goruns u (run_step u i x ro) (i + 1) es"

lemma closeRun_None [simp]: "closeRun None = []"
  by (simp add: closeRun_def)

lemma pass1_event_parts:
  "ord (pass1_event p e st) = ord st + 1"
  "slots (pass1_event p e st) = slot_step (ord st) e (slots st)"
  "openRun (pass1_event p e st) u = run_step u (ord st) (p, l, e) (openRun st u)"
  "runs (pass1_event p e st) u = runs st u @ (if run_ends u (p, l, e) (openRun st u) then closeRun (openRun st u) else [])"
  by (auto simp: pass1_event_def Let_def slot_step_def run_step_def run_ends_def endRun_def newRun_def
      split: event.split option.split)

definition pass1_fold :: "ev list \<Rightarrow> pass1 \<Rightarrow> pass1" where
  "pass1_fold es st = fold (\<lambda>(p, l, e). pass1_event p e) es st"

lemma pass1_lines: "fold (pass1_line fmtNum) its st = pass1_fold (ev_items fmtNum its) st"
  by (induction its arbitrary: st) (auto simp: pass1_fold_def ev_items_def pass1_line_def split: option.split)

lemma pass1_fold_parts:
  "slots (pass1_fold es st) = slots_after (ord st) es (slots st)"
  "runs (pass1_fold es st) u @ closeRun (openRun (pass1_fold es st) u) =
     runs st u @ goruns u (openRun st u) (ord st) es"
proof (induction es arbitrary: st)
  case Nil
  { case 1 show ?case by (simp add: pass1_fold_def) }
  { case 2 show ?case by (simp add: pass1_fold_def) }
next
  case (Cons x es)
  obtain p l e where x: "x = (p, l, e)" by (metis prod_cases3)
  have s: "pass1_fold (x # es) st = pass1_fold es (pass1_event p e st)" for st
    by (simp add: pass1_fold_def x)
  { case 1 show ?case unfolding s Cons.IH by (simp add: x pass1_event_parts) }
  { case 2 show ?case unfolding s Cons.IH
      by (simp add: x pass1_event_parts(1) pass1_event_parts(3,4) [where l = l]) }
qed

section \<open>Looking ahead\<close>

lemma goruns_ended:
  "\<not> continues u (rFp r) es \<Longrightarrow> goruns u (Some r) i es = closeRun (Some r) @ goruns u None i es"
proof (induction es arbitrary: i)
  case (Cons y es)
  then show ?case
    by (cases y; cases "snd (snd y)") (auto simp: run_step_def run_ends_def split: if_splits)
qed simp

lemma ahead_ended: "\<not> continues u fp es \<Longrightarrow> ahead u fp it es = it"
proof (induction es)
  case (Cons y es)
  then show ?case by (cases y; cases "snd (snd y)") (auto split: if_splits)
qed simp

lemma continues_goruns:
  assumes "continues u (rFp r) es" "rFirst r < i"
  shows "\<exists>r' q. goruns u (Some r) i es = r' # q \<and> rFirst r' = rFirst r \<and> rLast r' \<ge> i \<and>
      rAt r' = fst (ahead u (rFp r) it es)"
  using assms
proof (induction es arbitrary: r i it)
  case Nil
  then show ?case by simp
next
  case (Cons x es)
  obtain p l e where x: "x = (p, l, e)" by (metis prod_cases3)
  show ?case
  proof (cases "\<exists>fp'. e = evUpsert u fp'")
    case True
    then have e: "e = evUpsert u (rFp r)" using Cons.prems(1) x by auto
    let ?r = "r\<lparr>rLast := i, rAt := p\<rparr>"
    have g: "goruns u (Some r) i (x # es) = goruns u (Some ?r) (i + 1) es"
      by (simp add: x e run_step_def run_ends_def)
    show ?thesis
    proof (cases "continues u (rFp r) es")
      case True
      then show ?thesis using Cons.IH [of ?r "i + 1" "(p, l)"] Cons.prems(2) g by (auto simp: x e)
    next
      case False
      then show ?thesis
        using g goruns_ended [of u ?r es "i + 1"] ahead_ended [of u "rFp r" es "(p, l)"] Cons.prems(2)
        by (auto simp: x e closeRun_def)
    qed
  next
    case False
    then have "continues u (rFp r) es" "ahead u (rFp r) it (x # es) = ahead u (rFp r) it es"
      "goruns u (Some r) i (x # es) = goruns u (Some r) (i + 1) es"
      using Cons.prems(1) x by (cases e; auto simp: run_step_def run_ends_def split: if_splits)+
    then show ?thesis using Cons.IH [of r "i + 1" it] Cons.prems(2) by auto
  qed
qed

lemma goruns_first:
  "r' \<in> set (goruns u ro i es) \<Longrightarrow> rFirst r' \<ge> i \<or> (\<exists>r. ro = Some r \<and> rFirst r' = rFirst r)"
proof (induction es arbitrary: ro i)
  case Nil
  then show ?case by (auto simp: closeRun_def split: option.splits if_splits)
next
  case (Cons x es)
  obtain p l e where x: "x = (p, l, e)" by (metis prod_cases3)
  have step: "\<exists>r. ro = Some r \<and> rFirst r1 = rFirst r \<or> rFirst r1 = i" if "run_step u i x ro = Some r1" for r1
    using that by (auto simp: run_step_def x newRun_def split: event.splits if_splits option.splits)
  consider "r' \<in> set (closeRun ro)" | "r' \<in> set (goruns u (run_step u i x ro) (i + 1) es)"
    using Cons.prems by (auto split: if_splits)
  then show ?case
  proof cases
    case 1
    then show ?thesis by (auto simp: closeRun_def split: option.splits if_splits)
  next
    case 2
    then show ?thesis using Cons.IH [OF 2] step by fastforce
  qed
qed

lemma slots_after_absent: "\<not> occurs k es \<Longrightarrow> slots_after i es st k = st k"
proof (induction es arbitrary: i st)
  case (Cons x es)
  then show ?case by (cases x; cases "snd (snd x)") (auto simp: slot_step_def)
qed simp

lemma slots_after_occurs: "occurs k es \<Longrightarrow> \<exists>s. slots_after i es st k = Some s \<and> sLast s \<ge> i"
proof (induction es arbitrary: i st)
  case (Cons x es)
  obtain p l e where x: "x = (p, l, e)" by (metis prod_cases3)
  show ?case
  proof (cases "occurs k es")
    case True
    then show ?thesis using Cons.IH [OF True, of "i + 1" "slot_step i e st"] by (auto simp: x)
  next
    case False
    then obtain part d where "e = evSlot k part d" using Cons.prems by (auto simp: x split: event.splits)
    then show ?thesis using slots_after_absent [OF False] by (simp add: x slot_step_def)
  qed
qed simp

section \<open>Pass 2\<close>

text \<open>The queue of a viewer's runs at position \<open>i\<close> of the list, between the events before it and \<open>es\<close>.\<close>

definition queue_sim :: "string \<Rightarrow> int \<Rightarrow> ev list \<Rightarrow> ((obj \<times> obj) \<times> lineAt \<times> line) option \<Rightarrow> connRun list \<Rightarrow> bool" where
  "queue_sim u i es c q \<longleftrightarrow>
     (\<exists>ro. (case c of None \<Rightarrow> ro = None
            | Some (fp, it) \<Rightarrow> \<exists>r. ro = Some r \<and> rFp r = fp \<and> rFirst r \<le> rLast r \<and> rLast r < i) \<and>
       q = goruns u (case c of None \<Rightarrow> None | Some (fp, it) \<Rightarrow> if continues u fp es then ro else None) i es)"

lemma queue_sim_new:
  assumes "queue_sim u i ((p, l, evUpsert u fp) # es) c q" "\<And>fp' it. c = Some (fp', it) \<Longrightarrow> fp' \<noteq> fp"
  shows "q = goruns u (Some (newRun i fp p)) (i + 1) es"
  using assms unfolding queue_sim_def by (auto simp: run_step_def run_ends_def split: option.splits)

lemma queue_sim_goes_on:
  assumes "queue_sim u i ((p, l, evUpsert u fp) # es) (Some (fp, it)) q"
  shows "\<exists>r. q = goruns u (Some r) (i + 1) es \<and> rFp r = fp \<and> rFirst r < i \<and> rLast r = i \<and> rAt r = p"
proof -
  obtain r where r: "rFp r = fp" "rFirst r \<le> rLast r" "rLast r < i" "q = goruns u (Some r) i ((p, l, evUpsert u fp) # es)"
    using assms unfolding queue_sim_def by auto
  then show ?thesis
    by (intro exI [of _ "r\<lparr>rLast := i, rAt := p\<rparr>"]) (simp add: run_step_def run_ends_def)
qed

lemma queue_sim_after:
  assumes "rFp r = fp" "rFirst r \<le> rLast r" "rLast r = i" "q = (if continues u fp es then goruns u (Some r) (i + 1) es
      else goruns u None (i + 1) es)"
  shows "queue_sim u (i + 1) es (Some (fp, it)) q"
  using assms unfolding queue_sim_def by auto

lemma queue_sim_other:
  assumes "queue_sim u i ((p, l, e) # es) c q"
    and "case e of evUpsert u' _ \<Rightarrow> u' \<noteq> u | evConnEnd u' \<Rightarrow> u' \<noteq> u | _ \<Rightarrow> True"
  shows "queue_sim u (i + 1) es c q"
proof -
  have g: "goruns u ro i ((p, l, e) # es) = goruns u ro (i + 1) es" for ro
    using assms(2) by (cases e) (auto simp: run_step_def run_ends_def)
  have c: "continues u fp ((p, l, e) # es) = continues u fp es" for fp
    using assms(2) by (cases e) auto
  show ?thesis using assms(1) unfolding queue_sim_def c g by (fastforce split: option.splits)
qed

lemma queue_sim_end:
  assumes "queue_sim u i ((p, l, evConnEnd u) # es) c q"
  shows "queue_sim u (i + 1) es None q"
  using assms unfolding queue_sim_def by (auto simp: run_step_def run_ends_def split: option.splits)


definition lines_at :: "spool_file list \<Rightarrow> ev list \<Rightarrow> bool" where
  "lines_at fs es \<longleftrightarrow> (\<forall>(p, l, e) \<in> set es. readLineAt fs p = Some l)"

lemma lines_atD: "lines_at fs es \<Longrightarrow> (p, l, e) \<in> set es \<Longrightarrow> readLineAt fs p = Some l"
  by (auto simp: lines_at_def)

lemma ahead_lines_at:
  "lines_at fs es \<Longrightarrow> readLineAt fs (fst it) = Some (snd it) \<Longrightarrow>
     readLineAt fs (fst (ahead u fp it es)) = Some (snd (ahead u fp it es))"
proof (induction es arbitrary: it)
  case (Cons x es)
  obtain p l e where x: "x = (p, l, e)" by (metis prod_cases3)
  have "lines_at fs es" "readLineAt fs p = Some l" using Cons.prems(1) by (auto simp: lines_at_def x)
  then show ?case using Cons.IH Cons.prems(2) by (auto simp: x split: event.split)
qed simp

definition put_line :: "limits \<Rightarrow> line \<Rightarrow> pass2 \<Rightarrow> pass2" where
  "put_line lim x s = s\<lparr>pw := cw_write lim x (pw s)\<rparr>"

lemma pass2_slot:
  assumes wr: "well_read fmtNum ((p, l, evSlot k part d) # es)"
    and sl: "sl = slots_after (pord s) ((p, l, evSlot k part d) # es) st"
  shows "pass2_event lim fs sl l (evSlot k part d) s = Some (Some (fold (put_line lim)
    (written (p, l, evSlot k part d) es (slot_step (pord s) (evSlot k part d) st) cur) (s\<lparr>pord := pord s + 1\<rparr>)))"
proof -
  have c: "classify fmtNum l = Some (evSlot k part d)" and pl: "plain l" using wr by (auto simp: well_read_def)
  let ?st = "slot_step (pord s) (evSlot k part d) st"
  define t where "t = slotSeen (pord s) part d (case st k of None \<Rightarrow> noSlot | Some s \<Rightarrow> s)"
  have t: "?st k = Some t" by (simp add: slot_step_def t_def)
  show ?thesis
  proof (cases "occurs k es")
    case True
    then obtain s' where "sl k = Some s'" "sLast s' \<ge> pord s + 1"
      using slots_after_occurs [OF True, of "pord s + 1" ?st] by (auto simp: sl)
    then show ?thesis using True by (simp add: pass2_event_def Let_def)
  next
    case False
    have slk: "sl k = Some t" using slots_after_absent [OF False] t by (simp add: sl)
    have lt: "sLast t = pord s" by (simp add: t_def)
    show ?thesis
    proof (cases "sCount t > 1 \<and> part \<noteq> ''''")
      case True
      obtain x where "withPart l part (case sPart t of None \<Rightarrow> [] | Some m \<Rightarrow> m) = Some (Some x)"
        using withPart_event [OF pl c, of "case sPart t of None \<Rightarrow> [] | Some m \<Rightarrow> m"] True by auto
      then show ?thesis
        using False True slk lt t by (simp add: pass2_event_def Let_def merged_line_def put_line_def)
    next
      case F: False
      then have "merged_line l part t = l" unfolding merged_line_def by auto
      then show ?thesis using False F slk lt t by (auto simp: pass2_event_def Let_def put_line_def)
    qed
  qed
qed

lemma pass2_upsert:
  assumes q: "queue_sim u (pord s) ((p, l, evUpsert u fp) # es) (cur u) (pruns s u)"
    and rl: "lines_at fs ((p, l, evUpsert u fp) # es)"
  shows "\<exists>s'. pass2_event lim fs sl l (evUpsert u fp) s = Some (Some s') \<and> pord s' = pord s + 1 \<and>
    pw s' = fold (cw_write lim) (written (p, l, evUpsert u fp) es st cur) (pw s) \<and>
    queue_sim u (pord s + 1) es (Some (fp, p, l)) (pruns s' u) \<and> (\<forall>w. w \<noteq> u \<longrightarrow> pruns s' w = pruns s w)"
proof (cases "\<exists>it. cur u = Some (fp, it)")
  case True
  then obtain it where it: "cur u = Some (fp, it)" by blast
  obtain r where r: "pruns s u = goruns u (Some r) (pord s + 1) es" "rFp r = fp" "rFirst r < pord s" "rLast r = pord s"
    using queue_sim_goes_on [OF q [unfolded it]] by blast
  show ?thesis
  proof (cases "continues u fp es")
    case True
    obtain r' q' where "pruns s u = r' # q'" "rFirst r' = rFirst r" "rLast r' \<ge> pord s + 1"
      using continues_goruns [of u r es "pord s + 1" it] True r by auto
    then show ?thesis
      using r it queue_sim_after [of r fp "pord s" "pruns s u" u es] True by (simp add: pass2_event_def Let_def)
  next
    case False
    have "pruns s u = r # goruns u None (pord s + 1) es"
      using goruns_ended [of u r es] False r by (simp add: closeRun_def)
    then show ?thesis
      using r it queue_sim_after [of r fp "pord s" _ u es] False by (simp add: pass2_event_def Let_def)
  qed
next
  case new: False
  have g: "pruns s u = goruns u (Some (newRun (pord s) fp p)) (pord s + 1) es"
    by (rule queue_sim_new [OF q]) (use new in blast)
  have rw: "written (p, l, evUpsert u fp) es st cur = [snd (ahead u fp (p, l) es)]"
    using new by (auto split: option.split)
  have nr: "rFp (newRun i fp p) = fp" "rFirst (newRun i fp p) = i" "rLast (newRun i fp p) = i" for i
    by (simp_all add: newRun_def)
  have rd: "readLineAt fs (fst (ahead u fp (p, l) es)) = Some (snd (ahead u fp (p, l) es))"
    by (rule ahead_lines_at) (use rl in \<open>auto simp: lines_at_def\<close>)
  note after = queue_sim_after [of "newRun (pord s) fp p" fp "pord s" "pruns s u" u es]
  show ?thesis
  proof (cases "continues u fp es")
    case True
    obtain r' q' where h: "pruns s u = r' # q'" "rFirst r' = pord s" "rLast r' \<ge> pord s + 1"
      "rAt r' = fst (ahead u fp (p, l) es)"
      using continues_goruns [of u "newRun (pord s) fp p" es "pord s + 1" "(p, l)"] True g nr by auto
    show ?thesis
      unfolding rw using h rd after True g nr by (simp add: pass2_event_def Let_def)
  next
    case False
    have e: "pruns s u = goruns u None (pord s + 1) es"
      using g goruns_ended [of u "newRun (pord s) fp p" es] False nr by (simp add: closeRun_def)
    have a: "ahead u fp (p, l) es = (p, l)" by (rule ahead_ended [OF False])
    have "pord s < rFirst r" if "r \<in> set (pruns s u)" for r
      using goruns_first [of r u None "pord s + 1" es] that e by auto
    then have "pass2_event lim fs sl l (evUpsert u fp) s =
        Some (Some (s\<lparr>pord := pord s + 1, pw := cw_write lim l (pw s)\<rparr>))"
      by (cases "pruns s u") (simp_all add: pass2_event_def Let_def)
    then show ?thesis
      unfolding rw using after False e nr a by simp
  qed
qed

lemma fold_put_line: "pw (fold (put_line lim) xs s) = fold (cw_write lim) xs (pw s)"
  "pord (fold (put_line lim) xs s) = pord s" "pruns (fold (put_line lim) xs s) = pruns s"
  by (induction xs arbitrary: s) (simp_all add: put_line_def)

lemma pass2_step:
  assumes wr: "well_read fmtNum ((p, l, e) # es)" and rl: "lines_at fs ((p, l, e) # es)"
    and sl: "sl = slots_after (pord s) ((p, l, e) # es) st"
    and q: "\<And>u. queue_sim u (pord s) ((p, l, e) # es) (cur u) (pruns s u)"
  shows "\<exists>s'. pass2_event lim fs sl l e s = Some (Some s') \<and> pord s' = pord s + 1 \<and>
    pw s' = fold (cw_write lim) (written (p, l, e) es (slot_step (pord s) e st) cur) (pw s) \<and>
    (\<forall>u. queue_sim u (pord s + 1) es (cur_step (p, l, e) cur u) (pruns s' u))"
proof (cases e)
  case evKeep
  then show ?thesis
    using queue_sim_other [OF q] by (auto simp: pass2_event_def Let_def cur_step_def)
next
  case (evSlot k part d)
  show ?thesis
    using pass2_slot [OF wr [unfolded evSlot] sl [unfolded evSlot], of lim fs cur] queue_sim_other [OF q]
    by (simp add: evSlot fold_put_line cur_step_def del: written.simps)
next
  case (evUpsert u fp)
  obtain s' where s': "pass2_event lim fs sl l e s = Some (Some s')" "pord s' = pord s + 1"
    "pw s' = fold (cw_write lim) (written (p, l, e) es (slot_step (pord s) e st) cur) (pw s)"
    "queue_sim u (pord s + 1) es (Some (fp, p, l)) (pruns s' u)" "\<And>w. w \<noteq> u \<Longrightarrow> pruns s' w = pruns s w"
    using pass2_upsert [where cur = cur and u = u, OF q [of u, unfolded evUpsert] rl [unfolded evUpsert],
        of lim sl "slot_step (pord s) e st"]
    unfolding evUpsert by blast
  have "queue_sim w (pord s + 1) es (cur_step (p, l, e) cur w) (pruns s' w)" for w
    using s'(4,5) queue_sim_other [OF q, of w] by (cases "w = u") (simp_all add: cur_step_def evUpsert)
  then show ?thesis using s' by blast
next
  case (evConnEnd u)
  have "queue_sim w (pord s + 1) es (cur_step (p, l, e) cur w) (pruns s w)" for w
    using queue_sim_end [OF q [of u, unfolded evConnEnd]] queue_sim_other [OF q, of w]
    by (cases "w = u") (simp_all add: cur_step_def evConnEnd)
  then show ?thesis by (simp add: pass2_event_def Let_def evConnEnd)
qed

lemma pass2_reference:
  assumes "well_read fmtNum (ev_items fmtNum its)" "lines_at fs (ev_items fmtNum its)"
    and "sl = slots_after (pord s) (ev_items fmtNum its) st"
    and "\<And>u. queue_sim u (pord s) (ev_items fmtNum its) (cur u) (pruns s u)"
  shows "\<exists>s'. pass2_all fmtNum lim fs sl its s = Some (Some s') \<and>
    pw s' = fold (cw_write lim) (reference (pord s) st cur (ev_items fmtNum its)) (pw s) \<and>
    pord s' = pord s + len (ev_items fmtNum its)"
  using assms
proof (induction its arbitrary: s st cur)
  case Nil
  then show ?case by (simp add: ev_items_def)
next
  case (Cons it its)
  obtain p l where it: "it = (p, l)" by fastforce
  show ?case
  proof (cases "classify fmtNum l")
    case None
    then have "ev_items fmtNum (it # its) = ev_items fmtNum its" by (simp add: ev_items_def it)
    then show ?thesis using Cons.IH [of s st cur] Cons.prems None by (simp add: it)
  next
    case (Some e)
    let ?es = "ev_items fmtNum its"
    have es: "ev_items fmtNum (it # its) = (p, l, e) # ?es" using Some by (simp add: ev_items_def it)
    obtain s' where s': "pass2_event lim fs sl l e s = Some (Some s')" "pord s' = pord s + 1"
      "pw s' = fold (cw_write lim) (written (p, l, e) ?es (slot_step (pord s) e st) cur) (pw s)"
      "\<And>u. queue_sim u (pord s + 1) ?es (cur_step (p, l, e) cur u) (pruns s' u)"
      using pass2_step [OF Cons.prems [unfolded es], of lim] by blast
    have "well_read fmtNum ?es" "lines_at fs ?es"
      using Cons.prems(1,2) unfolding es by (auto simp: well_read_def lines_at_def)
    then show ?thesis
      using Cons.IH [of s' "slot_step (pord s) e st" "cur_step (p, l, e) cur"] s' Cons.prems(3) Some
      unfolding es by (auto simp: it Let_def algebra_simps simp del: written.simps)
  qed
qed

end
