(* ===== verification/CompactProps.thy ===== *)
theory CompactProps
  imports CompactPasses
begin

text \<open>
  What holds of a whole compaction: it never fails on lines as PHP writes them, every chunk fits a batch, and
  MAIN cannot tell the chunks from the files they replace.
\<close>

section \<open>The chunk writer\<close>

definition lines_bytes :: "line list \<Rightarrow> int" where
  "lines_bytes ls = sum_list (map (\<lambda>l. line_len l + 1) ls)"

text \<open>A file that fits a batch: within both limits, or a single event.\<close>

definition fits_batch :: "limits \<Rightarrow> line list \<Rightarrow> bool" where
  "fits_batch lim c \<longleftrightarrow>
     c \<noteq> [] \<and> (length c = 1 \<or> (len c \<le> MaxBatchEvents lim \<and> lines_bytes c \<le> MaxBatchBytes lim))"

definition chunk_lines :: "chunkWriter \<Rightarrow> line list" where
  "chunk_lines cw = (case chunk cw of None \<Rightarrow> [] | Some c \<Rightarrow> c)"

definition cw_ok :: "limits \<Rightarrow> string \<Rightarrow> string \<Rightarrow> line list \<Rightarrow> chunkWriter \<Rightarrow> bool" where
  "cw_ok lim pre g ls cw \<longleftrightarrow>
     concat (cdone cw) @ chunk_lines cw = ls \<and>
     prefix0 cw = pre \<and> cgen cw = g \<and>
     cnames cw = map (chunk_name pre g) [0..<length (cdone cw) + (if chunk cw = None then 0 else 1)] \<and>
     list_all (fits_batch lim) (cdone cw) \<and>
     (\<forall>c. chunk cw = Some c \<longrightarrow> fits_batch lim c \<and> cn cw = len c \<and> cbytes cw = lines_bytes c) \<and>
     cevents cw = len ls \<and> ctotal cw = lines_bytes ls"

lemma lines_bytes_simps [simp]:
  "lines_bytes [] = 0" "lines_bytes (l # ls) = line_len l + 1 + lines_bytes ls"
  "lines_bytes (xs @ ys) = lines_bytes xs + lines_bytes ys"
  by (simp_all add: lines_bytes_def)

lemma newChunks_ok: "cw_ok lim pre g [] (newChunks pre g)"
  by (simp add: cw_ok_def newChunks_def chunk_lines_def)

lemma cw_close_ok: "cw_ok lim pre g ls cw \<Longrightarrow> cw_ok lim pre g ls (cw_close cw)"
  by (cases "chunk cw") (auto simp: cw_ok_def cw_close_def chunk_lines_def)

lemma cw_write_ok:
  assumes ok: "cw_ok lim pre g ls cw"
  shows "cw_ok lim pre g (ls @ [l]) (cw_write lim l cw)"
proof -
  define cut where "cut = (chunk cw \<noteq> None \<and>
    (cn cw + 1 > MaxBatchEvents lim \<or> cbytes cw + line_len l + 1 > MaxBatchBytes lim))"
  define cw1 where "cw1 = (if cut then cw_close cw else cw)"
  have ok1: "cw_ok lim pre g ls cw1" using cw_close_ok [OF ok] ok by (simp add: cw1_def)
  have w: "cw_write lim l cw = (let cw = cw_open cw1 in
      cw\<lparr>chunk := map_option (\<lambda>ls. ls @ [l]) (chunk cw), cn := cn cw + 1, cevents := cevents cw + 1,
        cbytes := cbytes cw + line_len l + 1, ctotal := ctotal cw + line_len l + 1\<rparr>)"
    unfolding cw_write_def Let_def cw1_def cut_def by (rule refl)
  show ?thesis
  proof (cases "chunk cw1")
    case None
    then show ?thesis
      using ok1 unfolding w cw_ok_def cw_open_def by (simp add: chunk_lines_def fits_batch_def Let_def)
  next
    case (Some c)
    then have nc: "\<not> cut" by (auto simp: cw1_def cw_close_def split: option.splits)
    then have "cn cw + 1 \<le> MaxBatchEvents lim" "cbytes cw + line_len l + 1 \<le> MaxBatchBytes lim"
      using Some by (auto simp: cut_def cw1_def)
    then show ?thesis
      using ok1 Some nc unfolding w cw_ok_def cw_open_def by (simp add: chunk_lines_def fits_batch_def Let_def cw1_def)
  qed
qed

lemma cw_writes_ok: "cw_ok lim pre g ls cw \<Longrightarrow> cw_ok lim pre g (ls @ xs) (fold (cw_write lim) xs cw)"
proof (induction xs arbitrary: ls cw)
  case (Cons x xs)
  show ?case using Cons.IH [OF cw_write_ok [OF Cons.prems, of x]] by simp
qed simp

text \<open>What the writer leaves: the lines in order, cut into numbered files that fit.\<close>

lemma chunks_written:
  assumes "cw = cw_close (fold (cw_write lim) ls (newChunks pre g))"
  shows "concat (cdone cw) = ls" "cnames cw = map (chunk_name pre g) [0..<length (cdone cw)]"
    "list_all (fits_batch lim) (cdone cw)" "cevents cw = len ls" "ctotal cw = lines_bytes ls"
proof -
  have "cw_ok lim pre g ls cw"
    using cw_close_ok [OF cw_writes_ok [OF newChunks_ok, of lim pre g ls]] assms by simp
  moreover have "chunk cw = None" by (simp add: assms cw_close_def split: option.split)
  ultimately show "concat (cdone cw) = ls" "cnames cw = map (chunk_name pre g) [0..<length (cdone cw)]"
    "list_all (fits_batch lim) (cdone cw)" "cevents cw = len ls" "ctotal cw = lines_bytes ls"
    by (simp_all add: cw_ok_def chunk_lines_def)
qed

section \<open>The items of a tail\<close>

definition lane_lines :: "(string \<Rightarrow> string) \<Rightarrow> limits \<Rightarrow> spool_file list \<Rightarrow> line list" where
  "lane_lines fmtNum lim fs = concat (map (\<lambda>f. readSpoolFile fmtNum lim (snd f)) fs)"

lemma file_items_lines: "map snd (file_items mx fi ls) = eachLine mx ls"
proof -
  have "map snd (filter (\<lambda>(_, l). line_text l \<noteq> '''' \<and> line_len l \<le> mx) (map (\<lambda>(j, l). ((fi, j), l)) (enumerate n ls)))
      = eachLine mx ls" for n
    by (induction ls arbitrary: n) (simp_all add: eachLine_def)
  then show ?thesis by (simp add: file_items_def)
qed

lemma tail_items_lines: "map snd (tail_items mx fs) = concat (map (eachLine mx \<circ> snd) fs)"
proof -
  have "map snd (concat (map (\<lambda>(fi, f). file_items mx fi (snd f)) (enumerate n fs))) = concat (map (eachLine mx \<circ> snd) fs)"
    for n by (induction fs arbitrary: n) (simp_all add: file_items_lines)
  then show ?thesis by (simp add: tail_items_def)
qed

lemma tail_items_at: "(p, l) \<in> set (tail_items mx fs) \<Longrightarrow> readLineAt fs p = Some l"
  by (auto simp: tail_items_def file_items_def readLineAt_def in_set_enumerate_eq)

lemma ev_items_lines: "map (fst \<circ> snd) (ev_items fmtNum its) = filter (usable fmtNum) (map snd its)"
  by (induction its) (auto simp: ev_items_def usable_def split: option.split)

lemma ev_items_set:
  "(p, l, e) \<in> set (ev_items fmtNum its) \<longleftrightarrow> (p, l) \<in> set its \<and> classify fmtNum l = Some e"
  by (induction its) (auto simp: ev_items_def split: option.splits)

lemma filter_concat: "filter P (concat xss) = concat (map (filter P) xss)"
  by (induction xss) simp_all

lemma tail_events_lines:
  "map (fst \<circ> snd) (ev_items fmtNum (tail_items (MaxBatchBytes lim) fs)) = lane_lines fmtNum lim fs"
  unfolding ev_items_lines tail_items_lines filter_concat by (simp add: lane_lines_def readSpoolFile_def comp_def)

section \<open>A whole compaction\<close>

definition plain_tail :: "spool_file list \<Rightarrow> bool" where
  "plain_tail fs \<longleftrightarrow> list_all (\<lambda>f. list_all plain (snd f)) fs"

lemma tail_items_in: "(p, l) \<in> set (tail_items mx fs) \<Longrightarrow> \<exists>f \<in> set fs. l \<in> set (snd f)"
  by (drule tail_items_at) (auto simp: readLineAt_def intro!: bexI [of _ "fs ! fst p"] split: if_splits)

lemma tail_well_read:
  assumes "plain_tail fs"
  shows "well_read fmtNum (ev_items fmtNum (tail_items mx fs))" "lines_at fs (ev_items fmtNum (tail_items mx fs))"
  using assms tail_items_in [of _ _ mx fs] tail_items_at [of _ _ mx fs]
  by (fastforce simp: well_read_def lines_at_def ev_items_set plain_tail_def list_all_iff)+

text \<open>What \<open>stage\<close> returns.\<close>

lemma stage_reference:
  fixes fmtNum :: "string \<Rightarrow> string" and lim :: limits and fs :: "spool_file list"
  assumes pl: "plain_tail fs" and ne: "fs \<noteq> []"
  defines "es \<equiv> ev_items fmtNum (tail_items (MaxBatchBytes lim) fs)"
  defines "ls \<equiv> reference 0 (\<lambda>_. None) (\<lambda>_. None) es"
  shows "\<exists>r. stage fmtNum lim g fs = Some (Some r) \<and> concat (map snd (chunks r)) = ls \<and>
      map fst (chunks r) = map (chunk_name (spoolPrefix (fst (hd fs))) g) [0..<length (chunks r)] \<and>
      list_all (\<lambda>f. fits_batch lim (snd f)) (chunks r) \<and> folded r = len es - len ls \<and> csize r = lines_bytes ls"
proof -
  let ?its = "tail_items (MaxBatchBytes lim) fs"
  define p1 where "p1 = pass1_all fmtNum ?its"
  define nm where "nm = fst (hd fs)"
  define s where "s = \<lparr>pruns = runs p1, pord = 0, pw = newChunks (spoolPrefix nm) g\<rparr>"
  have at: "at (map fst fs) 0 = Some nm" using ne by (cases fs) (simp_all add: at_def nm_def)
  have sl: "slots p1 = slots_after (pord s) es (\<lambda>_. None)"
    using pass1_fold_parts(1) [of es no_events] by (simp add: p1_def pass1_all_def Let_def pass1_lines es_def no_events_def s_def)
  have q: "queue_sim u (pord s) es None (pruns s u)" for u
    using pass1_fold_parts(2) [of es no_events u]
    by (simp add: queue_sim_def s_def p1_def pass1_all_def Let_def pass1_lines es_def no_events_def)
  obtain s' where s': "pass2_all fmtNum lim fs (slots p1) ?its s = Some (Some s')"
    "pw s' = fold (cw_write lim) ls (newChunks (spoolPrefix nm) g)" "pord s' = len es"
    using pass2_reference [OF tail_well_read [OF pl], of "slots p1" s fmtNum "MaxBatchBytes lim" "\<lambda>_. None" "\<lambda>_. None" lim]
      sl q unfolding es_def [symmetric] ls_def by (auto simp: s_def)
  define cw where "cw = cw_close (pw s')"
  note ok = chunks_written [of cw lim ls "spoolPrefix nm" g, OF cw_def [unfolded s'(2)]]
  have st: "stage fmtNum lim g fs = Some (Some \<lparr>chunks = zip (cnames cw) (cdone cw), folded = pord s' - cevents cw,
      csize = ctotal cw\<rparr>)"
    unfolding stage_def Let_def p1_def [symmetric] at using s'(1) by (simp add: s_def cw_def)
  show ?thesis
    unfolding st using ok s'(3) by (simp add: nm_def list_all_length)
qed


lemma reference_shorter: "length (reference i st cur es) \<le> length es"
proof (induction es arbitrary: i st cur)
  case (Cons x es)
  obtain p l e where x: "x = (p, l, e)" by (metis prod_cases3)
  have "length (written (p, l, e) es st' cur) \<le> 1" for st' by (auto split: event.split option.split)
  then show ?case using Cons.IH [of "i + 1" "slot_step i e st" "cur_step (p, l, e) cur"]
    by (simp add: x Let_def del: written.simps) (metis add_mono One_nat_def plus_1_eq_Suc)
qed simp

lemma blank_unusable: "line_text l = '''' \<Longrightarrow> \<not> usable fmtNum l"
  by (auto simp: usable_def classify_def line_text_def split: line.splits json.splits)

lemma main_line_unusable: "\<not> usable fmtNum l \<Longrightarrow> main_line fmtNum l M = M"
  by (simp add: usable_def main_line_def)

definition short_lines :: "limits \<Rightarrow> line list \<Rightarrow> bool" where
  "short_lines lim ls \<longleftrightarrow> list_all (\<lambda>l. line_len l \<le> MaxBatchBytes lim) ls"

lemma main_lines_read:
  "short_lines lim ls \<Longrightarrow> main_lines fmtNum (readSpoolFile fmtNum lim ls) M = main_lines fmtNum ls M"
  by (induction ls arbitrary: M)
    (auto simp: readSpoolFile_def eachLine_def short_lines_def blank_unusable main_line_unusable)

lemma main_lines_lane:
  "list_all (\<lambda>f. short_lines lim (snd f)) fs \<Longrightarrow>
     main_lines fmtNum (lane_lines fmtNum lim fs) M = main_lines fmtNum (concat (map snd fs)) M"
  by (induction fs arbitrary: M) (auto simp: lane_lines_def main_lines_read)

text \<open>A compaction of lines as PHP writes them is never refused, and its chunks fit.\<close>

lemma stage_succeeds:
  assumes "plain_tail fs" "fs \<noteq> []"
  shows "\<exists>r. stage fmtNum lim g fs = Some (Some r) \<and> list_all (\<lambda>f. fits_batch lim (snd f)) (chunks r) \<and>
    0 \<le> folded r \<and> map fst (chunks r) = map (chunk_name (spoolPrefix (fst (hd fs))) g) [0..<length (chunks r)]"
  using stage_reference [OF assms, of fmtNum lim g] reference_shorter by (fastforce simp: len_def)

lemma stage_same_effect:
  assumes st: "stage fmtNum lim g fs = Some (Some r)" and pl: "plain_tail fs"
    and short: "list_all (\<lambda>f. short_lines lim (snd f)) (chunks r)"
  shows "same_effect fmtNum (lane_lines fmtNum lim (chunks r)) (lane_lines fmtNum lim fs)"
proof -
  have ne: "fs \<noteq> []" using st by (auto simp: stage_def Let_def at_def)
  let ?es = "ev_items fmtNum (tail_items (MaxBatchBytes lim) fs)"
  have c: "concat (map snd (chunks r)) = reference 0 (\<lambda>_. None) (\<lambda>_. None) ?es"
    using stage_reference [OF pl ne, of fmtNum lim g] st by auto
  show ?thesis
    using reference_same_effect [OF tail_well_read(1) [OF pl], of fmtNum "MaxBatchBytes lim"]
    unfolding same_effect_def tail_events_lines c [symmetric]
    by (simp add: fun_eq_iff main_lines_lane [OF short] del: main_lines_simps)
qed


section \<open>An example\<close>

definition state_line :: "string \<Rightarrow> obj \<Rightarrow> line" where
  "state_line n fl = Val (JObj [(''type'', JStr ''stream.state''), (''t'', JNum ''1''),
     (''d'', JObj [(''ssid'', JNum n), (''fields'', JObj fl)])])"

definition upsert_line :: "string \<Rightarrow> string \<Rightarrow> line" where
  "upsert_line u t = Val (JObj [(''type'', JStr ''conn.upsert''), (''t'', JNum t),
     (''d'', JObj [(''key'', JStr ''k''), (''record'', JObj [(''uuid'', JStr u), (''hls_last_read'', JNum t)])])])"

definition close_line :: "string \<Rightarrow> line" where
  "close_line u = Val (JObj [(''type'', JStr ''conn.close''), (''d'', JObj [(''uuid'', JStr u)])])"

definition demo_tail :: "spool_file list" where
  "demo_tail =
     [(''01-7-a.ndjson'', [state_line ''5'' [(''pid'', JNum ''9''), (''bitrate'', JNum ''1'')], upsert_line ''v'' ''1'']),
      (''02-7-b.ndjson'', [Junk ''half'', state_line ''5'' [(''bitrate'', JNum ''2'')], upsert_line ''v'' ''2'',
         close_line ''v'', upsert_line ''v'' ''3''])]"

definition demo_limits :: limits where "demo_limits = \<lparr>MaxBatchEvents = 2, MaxBatchBytes = 200\<rparr>"

definition demo_chunks :: "spool_file list" where
  "demo_chunks =
     [(''01-compact-g-000000.ndjson'', [upsert_line ''v'' ''2'',
         Val (JObj [(''d'', JObj [(''fields'', JObj [(''bitrate'', JNum ''2''), (''pid'', JNum ''9'')]), (''ssid'', JNum ''5'')]),
           (''t'', JNum ''1''), (''type'', JStr ''stream.state'')])]),
      (''01-compact-g-000001.ndjson'', [close_line ''v'', upsert_line ''v'' ''3''])]"


lemma demo_stage: "stage id demo_limits ''g'' demo_tail = Some (Some \<lparr>chunks = demo_chunks, folded = 2, csize = 285\<rparr>)"
  by code_simp

lemma demo_tail_plain: "plain_tail demo_tail \<and> demo_tail \<noteq> []"
  by code_simp

lemma demo_chunks_short: "list_all (\<lambda>f. short_lines demo_limits (snd f)) demo_chunks"
  by code_simp


text \<open>
  Without that bound on the merged lines an event is lost: two events, each shorter than a batch, are merged into one
  longer than a batch, which no reader of the chunk takes.
\<close>

definition wide_tail :: "spool_file list" where
  "wide_tail = [(''01-7-a.ndjson'', [state_line ''5'' [(''aaaaaaaa'', JNum ''1'')], state_line ''5'' [(''bbbbbbbb'', JNum ''2'')]])]"

definition tight_limits :: limits where "tight_limits = \<lparr>MaxBatchEvents = 2, MaxBatchBytes = 80\<rparr>"

lemma long_merge_lost:
  "lane_lines id tight_limits wide_tail \<noteq> [] \<and>
     (case stage id tight_limits ''g'' wide_tail of
        Some (Some r) \<Rightarrow> lane_lines id tight_limits (chunks r) = [] | _ \<Rightarrow> False)"
  by code_simp

end
