(* ===== verification/SpoolDisk.thy ===== *)
theory SpoolDisk
  imports Compact
begin

text \<open>
  An event lane on disk (\<^verbatim>\<open>clusteragent/events.go\<close>, \<^verbatim>\<open>clusteragent/compact.go\<close>): the spool directory, the staging
  directory and the manifest of a compaction, the in-flight record, and the operations on them.

  Every operation that changes the disk takes the next entry of a script of faults: it is done, it fails and is
  not done, or the machine or the agent goes down before it, and then nothing more of this run
  reaches the disk.  A panic of the agent ends its run the same way.  Looking a file up (\<open>os.Stat\<close>, reading a spool
  file) always works; reading a directory or a state file may fail.  A file written aside and renamed in is there
  whole or not at all; a manifest that cannot be parsed is \<open>Some None\<close>.
\<close>

record manifest =
  mgen :: string
  Replaced :: "string list"
  Staged :: "string list"

record inflight =
  First :: int
  Count :: int
  Files :: "string list"

datatype fault = Works | Fails | Crashes

text \<open>What becomes of a request: it is lost, its reply is lost, or it is answered.\<close>

datatype fate = Lost | NoReply | Answered

type_synonym dir = "spool_file list"

record 'm world =
  lane :: dir
  staging :: "dir option"
  manifest :: "manifest option option"
  infl :: "inflight option"
  script :: "fault list"
  down :: bool
  net :: "fate list"
  main :: 'm

text \<open>One operation on the disk, and whether it was done.\<close>

definition fs_op :: "('m world \<Rightarrow> 'm world) \<Rightarrow> 'm world \<Rightarrow> bool \<times> 'm world" where
  "fs_op f w =
     (if down w then (False, w)
      else (case script w of
              [] \<Rightarrow> (True, f w)
            | Works # fs \<Rightarrow> (True, f (w\<lparr>script := fs\<rparr>))
            | Fails # fs \<Rightarrow> (False, w\<lparr>script := fs\<rparr>)
            | Crashes # fs \<Rightarrow> (False, w\<lparr>script := fs, down := True\<rparr>)))"

definition ddel :: "string \<Rightarrow> dir \<Rightarrow> dir" where
  "ddel n d = filter (\<lambda>f. fst f \<noteq> n) d"

definition dput :: "string \<Rightarrow> line list \<Rightarrow> dir \<Rightarrow> dir" where
  "dput n ls d = (n, ls) # ddel n d"

section \<open>The spool directory\<close>

definition spoolName :: "string \<Rightarrow> bool" where
  "spoolName n \<longleftrightarrow> \<not> prefix ''.'' n \<and> suffix ndjson n"

text \<open>The lane's complete files, oldest first.\<close>

definition spooled :: "dir \<Rightarrow> string list" where
  "spooled d = sort (filter spoolName (map fst d))"

definition file_lines :: "dir \<Rightarrow> string \<Rightarrow> line list" where
  "file_lines d n = (case map_of d n of None \<Rightarrow> [] | Some ls \<Rightarrow> ls)"

definition file_size :: "line list \<Rightarrow> int" where
  "file_size ls = sum_list (map (\<lambda>l. line_len l + 1) ls)"

section \<open>Committing a compaction and rolling it forward\<close>

definition writeFile :: "('m world \<Rightarrow> 'm world) \<Rightarrow> bool \<Rightarrow> 'm world \<Rightarrow> bool \<times> 'm world" where
  "writeFile f mustSyncDir w =
     (let (ok, w) = fs_op id w
      in if \<not> ok then (False, w)
         else let (ok, w) = fs_op f w
              in if \<not> ok then (False, w)
                 else let (ok, w) = fs_op id w in (if mustSyncDir then ok else True, w))"

definition commit :: "manifest \<Rightarrow> 'm world \<Rightarrow> bool \<times> 'm world" where
  "commit m w = writeFile (\<lambda>w. w\<lparr>manifest := Some (Some m)\<rparr>) True w"

definition removeStaging :: "'m world \<Rightarrow> bool \<times> 'm world" where
  "removeStaging w = fs_op (\<lambda>w. w\<lparr>staging := None\<rparr>) w"

definition in_staging :: "'m world \<Rightarrow> string \<Rightarrow> bool" where
  "in_staging w n \<longleftrightarrow> (case staging w of None \<Rightarrow> False | Some d \<Rightarrow> map_of d n \<noteq> None)"

definition removeManifest :: "'m world \<Rightarrow> bool \<times> 'm world" where
  "removeManifest w = fs_op (\<lambda>w. w\<lparr>manifest := None\<rparr>) w"

text \<open>\<open>abandon\<close>: a committed compaction with a chunk that is in neither place; always an error.\<close>

definition abandon :: "manifest \<Rightarrow> 'm world \<Rightarrow> bool \<times> 'm world" where
  "abandon m w =
     (if \<not> list_all (\<lambda>n. map_of (lane w) n \<noteq> None) (Replaced m) then (False, w)
      else let (ok, w) = removeManifest w
           in if \<not> ok then (False, w)
              else let (ok, w) = fs_op id w
                   in if \<not> ok then (False, w)
                      else let (_, w) = removeStaging w in (False, w))"

fun removeAll :: "string list \<Rightarrow> 'm world \<Rightarrow> bool \<times> 'm world" where
  "removeAll [] w = (True, w)"
| "removeAll (n # ns) w =
     (let (ok, w) = fs_op (\<lambda>w. w\<lparr>lane := ddel n (lane w)\<rparr>) w
      in if \<not> ok then (False, w) else removeAll ns w)"

text \<open>\<open>moveChunk\<close>, a rename of a staged chunk into the lane.\<close>

definition moveChunk :: "string \<Rightarrow> 'm world \<Rightarrow> 'm world" where
  "moveChunk n w =
     (case staging w of
        None \<Rightarrow> w
      | Some d \<Rightarrow> (case map_of d n of
                    None \<Rightarrow> w
                  | Some ls \<Rightarrow> w\<lparr>staging := Some (ddel n d), lane := dput n ls (lane w)\<rparr>))"

fun moveAll :: "string list \<Rightarrow> 'm world \<Rightarrow> bool \<times> 'm world" where
  "moveAll [] w = (True, w)"
| "moveAll (n # ns) w =
     (if \<not> in_staging w n then moveAll ns w
      else let (ok, w) = fs_op (moveChunk n) w
           in if \<not> ok then (False, w) else moveAll ns w)"

definition rollForward :: "manifest \<Rightarrow> 'm world \<Rightarrow> bool \<times> 'm world" where
  "rollForward m w =
     (if \<not> list_all (\<lambda>n. in_staging w n \<or> map_of (lane w) n \<noteq> None) (Staged m) then abandon m w
      else let (ok, w) = removeAll (Replaced m) w
           in if \<not> ok then (False, w)
              else let (ok, w) = moveAll (Staged m) w
                   in if \<not> ok then (False, w)
                      else let (ok, w) = fs_op id w
                           in if \<not> ok then (False, w)
                              else let (_, w) = removeStaging w; (ok, w) = removeManifest w
                                   in if \<not> ok then (False, w) else fs_op id w)"

definition recoverCompaction :: "'m world \<Rightarrow> bool \<times> 'm world" where
  "recoverCompaction w =
     (case manifest w of
        None \<Rightarrow> (if staging w \<noteq> None then removeStaging w else (True, w))
      | Some mo \<Rightarrow>
          (let (ok, w) = fs_op id w
           in if \<not> ok then (False, w)
              else (case mo of
                      None \<Rightarrow> (let (_, w) = removeStaging w; (_, w) = removeManifest w in (False, w))
                    | Some m \<Rightarrow> rollForward m w)))"

section \<open>Compacting the tail\<close>

record laneCfg =
  laneCap :: int
  laneCompact :: int
  lim :: limits
  fmt :: "string \<Rightarrow> string"

record spooler =
  checked :: int
  compacted :: int
  retryAt :: int
  failures :: nat

definition CompactRetry :: int where "CompactRetry = 10 * 10 ^ 9"
definition CompactRetryMax :: int where "CompactRetryMax = 10 * 60 * 10 ^ 9"
definition compactReserve :: int where "compactReserve = push_bit 26 1"
definition HousekeepEvery :: int where "HousekeepEvery = 10 ^ 9"

definition compactFailed :: "int \<Rightarrow> spooler \<Rightarrow> spooler" where
  "compactFailed now ls =
     (let wait = (if failures ls < 16 then min (CompactRetry * 2 ^ failures ls) CompactRetryMax else CompactRetryMax)
      in ls\<lparr>failures := failures ls + 1, retryAt := now + wait\<rparr>)"

fun writeChunks :: "spool_file list \<Rightarrow> 'm world \<Rightarrow> bool \<times> 'm world" where
  "writeChunks [] w = (True, w)"
| "writeChunks (f # fs) w =
     (let (ok, w) = fs_op (\<lambda>w. w\<lparr>staging := Some ((case staging w of None \<Rightarrow> [] | Some d \<Rightarrow> d) @ [f])\<rparr>) w
      in if \<not> ok then (False, w) else writeChunks fs w)"

text \<open>\<open>stage\<close> on the disk; \<open>None\<close> is an error, after which the staging directory is removed.\<close>

definition stageFiles :: "laneCfg \<Rightarrow> string \<Rightarrow> string list \<Rightarrow> 'm world \<Rightarrow> (manifest \<times> staged) option \<times> 'm world" where
  "stageFiles cfg g tail w =
     (let fail = (\<lambda>w. (None, snd (removeStaging w)));
          (_, w) = removeStaging w;
          (ok, w) = fs_op (\<lambda>w. w\<lparr>staging := (if staging w = None then Some [] else staging w)\<rparr>) w
      in if \<not> ok then (None, w)
         else (case stage (fmt cfg) (lim cfg) g (map (\<lambda>n. (n, file_lines (lane w) n)) tail) of
                 None \<Rightarrow> (None, w\<lparr>down := True\<rparr>)
               | Some None \<Rightarrow> fail w
               | Some (Some r) \<Rightarrow>
                   let (ok, w) = writeChunks (chunks r) w
                   in if \<not> ok then fail w
                      else let (ok, w) = fs_op id w
                           in if \<not> ok then fail w
                              else (Some (\<lparr>mgen = g, Replaced = tail, Staged = map fst (chunks r)\<rparr>, r), w)))"

text \<open>The result is \<open>None\<close> for an error; \<open>now\<close> is the clock, \<open>free\<close> the free space (\<open>None\<close>: unknown).\<close>

definition compactTail ::
  "laneCfg \<Rightarrow> int \<Rightarrow> int option \<Rightarrow> string \<Rightarrow> string list \<Rightarrow> spooler \<Rightarrow> 'm world \<Rightarrow> (int \<times> int) option \<times> spooler \<times> 'm world"
where
  "compactTail cfg now free g exclude ls w =
     (let (ok, w) = fs_op id w
      in if \<not> ok then (None, ls, w)
         else
           let tail = filter (\<lambda>n. n \<notin> set exclude) (spooled (lane w));
               total = sum_list (map (\<lambda>n. file_size (file_lines (lane w) n)) tail);
               ls = (if total < laneCompact cfg then ls\<lparr>compacted := 0\<rparr> else ls);
               threshold = max (laneCompact cfg) (2 * compacted ls)
           in if tail = [] \<or> total \<le> threshold \<or> now < retryAt ls then (Some (0, 0), ls, w)
              else if (case free of None \<Rightarrow> False | Some fr \<Rightarrow> fr < total + compactReserve)
                   then (None, compactFailed now ls, w)
                   else
                     let (st, w) = stageFiles cfg g tail w
                     in case st of
                          None \<Rightarrow> (None, compactFailed now ls, w)
                        | Some (m, r) \<Rightarrow>
                            let (ok, w) = commit m w
                            in if \<not> ok
                               then (if manifest w = None
                                     then (None, compactFailed now ls, snd (removeStaging w))
                                     else (None, ls, w))
                               else
                                 let ls = ls\<lparr>failures := 0, retryAt := 0\<rparr>;
                                     (ok, w) = rollForward m w
                                 in if \<not> ok then (None, ls, w)
                                    else (Some (folded r, csize r), ls\<lparr>compacted := csize r\<rparr>, w))"

end
