(* ===== verification/SpoolShip.thy ===== *)
theory SpoolShip
  imports SpoolDisk
begin

text \<open>
  Sending a lane's events (\<^verbatim>\<open>clusteragent/events.go\<close>): the bounds on the backlog, the batch that is collected and
  recorded before it is sent, the exchange with MAIN, and the loop's body.

  MAIN is the argument \<open>serve\<close>: its state, and its reply to a batch.  A request may be lost, or its reply; neither
  is sent once the agent is down.
\<close>

section \<open>The bounds on the backlog\<close>

definition skip_line :: "int \<Rightarrow> int \<Rightarrow> line" where
  "skip_line now k = Val (JObj [(''d'', JObj [(''count'', JNum (show_int k))]), (''t'', JNum (show_int now)),
     (''type'', JStr ''skip'')])"

definition skip_name :: "string \<Rightarrow> string" where
  "skip_name tag = replicate 19 CHR ''0'' @ ''-skip-'' @ tag @ ndjson"

definition writeSkip :: "int \<Rightarrow> int \<Rightarrow> string \<Rightarrow> 'm world \<Rightarrow> bool \<times> 'm world" where
  "writeSkip now k tag w = writeFile (\<lambda>w. w\<lparr>lane := dput (skip_name tag) [skip_line now k] (lane w)\<rparr>) False w"

fun dropOldest :: "laneCfg \<Rightarrow> string list \<Rightarrow> string list \<Rightarrow> int \<Rightarrow> int \<Rightarrow> 'm world \<Rightarrow> int \<times> 'm world" where
  "dropOldest cfg ex [] tot dropped w = (dropped, w)"
| "dropOldest cfg ex (n # ns) tot dropped w =
     (if tot \<le> laneCap cfg then (dropped, w)
      else if n \<in> set ex then dropOldest cfg ex ns tot dropped w
      else
        let ls = file_lines (lane w) n;
            (ok, w) = fs_op (\<lambda>w. w\<lparr>lane := ddel n (lane w)\<rparr>) w
        in if ok then dropOldest cfg ex ns (tot - file_size ls) (dropped + len (readSpoolFile (fmt cfg) (lim cfg) ls)) w
           else dropOldest cfg ex ns tot dropped w)"

definition enforceCap :: "laneCfg \<Rightarrow> int \<Rightarrow> string \<Rightarrow> string list \<Rightarrow> 'm world \<Rightarrow> 'm world" where
  "enforceCap cfg now tag ex w =
     (let (ok, w) = fs_op id w
      in if \<not> ok then w
         else
           let names = spooled (lane w);
               tot = sum_list (map (\<lambda>n. file_size (file_lines (lane w) n)) (filter (\<lambda>n. n \<notin> set ex) names));
               (dropped, w) = dropOldest cfg ex names tot 0 w
           in if dropped > 0 then snd (writeSkip now dropped tag w) else w)"

text \<open>What a pass reads from its surroundings: the clock, the free space, the random parts of names.\<close>

record pass_env =
  now :: int
  free :: "int option"
  gen :: string
  tag :: string

definition batch_files :: "inflight option \<Rightarrow> string list" where
  "batch_files fl = (case fl of None \<Rightarrow> [] | Some fl \<Rightarrow> Files fl)"

definition housekeep :: "laneCfg \<Rightarrow> pass_env \<Rightarrow> inflight option \<Rightarrow> spooler \<Rightarrow> 'm world \<Rightarrow> bool \<times> spooler \<times> 'm world" where
  "housekeep cfg e fl ls w =
     (let (ok, w) = recoverCompaction w
      in if \<not> ok \<and> manifest w \<noteq> None then (False, ls, w)
         else if laneCap cfg = 0 \<and> laneCompact cfg = 0 \<or> now e - checked ls < HousekeepEvery then (True, ls, w)
         else
           let ls = ls\<lparr>checked := now e\<rparr>;
               ex = batch_files fl;
               w = (if laneCap cfg > 0 then enforceCap cfg (now e) (tag e) ex w else w)
           in if laneCompact cfg > 0
              then (let (res, ls, w) = compactTail cfg (now e) (free e) (gen e) ex ls w
                    in (\<not> (res = None \<and> manifest w \<noteq> None), ls, w))
              else (True, ls, w))"

section \<open>The batch\<close>

fun collect :: "laneCfg \<Rightarrow> string list \<Rightarrow> string list \<Rightarrow> line list \<Rightarrow> int \<Rightarrow> 'm world \<Rightarrow> string list \<times> line list \<times> 'm world" where
  "collect cfg [] files events sz w = (files, events, w)"
| "collect cfg (n # ns) files events sz w =
     (let ls = file_lines (lane w) n; evs = readSpoolFile (fmt cfg) (lim cfg) ls
      in if evs = [] then
           (let (_, w) = fs_op (\<lambda>w. w\<lparr>lane := ddel n (lane w)\<rparr>) w in collect cfg ns files events sz w)
         else if files \<noteq> [] \<and> (len events + len evs > MaxBatchEvents (lim cfg) \<or> sz + file_size ls > MaxBatchBytes (lim cfg))
         then (files, events, w)
         else collect cfg ns (files @ [n]) (events @ evs) (sz + file_size ls) w)"

definition readBatch :: "laneCfg \<Rightarrow> string list \<Rightarrow> 'm world \<Rightarrow> line list" where
  "readBatch cfg files w = concat (map (\<lambda>n. readSpoolFile (fmt cfg) (lim cfg) (file_lines (lane w) n)) files)"

definition saveInflight :: "inflight \<Rightarrow> 'm world \<Rightarrow> bool \<times> 'm world" where
  "saveInflight fl w = writeFile (\<lambda>w. w\<lparr>infl := Some fl\<rparr>) False w"

text \<open>\<open>loadInflight\<close>: \<open>None\<close> is an error; a record that names no batch is removed.\<close>

definition loadInflight :: "'m world \<Rightarrow> inflight option option \<times> 'm world" where
  "loadInflight w =
     (let (ok, w) = fs_op id w
      in if \<not> ok then (None, w)
         else (case infl w of
                 None \<Rightarrow> (Some None, w)
               | Some fl \<Rightarrow>
                   if First fl < 1 \<or> Files fl = []
                   then (let (_, w) = fs_op (\<lambda>w. w\<lparr>infl := None\<rparr>) w in (Some None, w))
                   else (Some (Some fl), w)))"

fun removeFiles :: "string list \<Rightarrow> 'm world \<Rightarrow> 'm world" where
  "removeFiles [] w = w"
| "removeFiles (n # ns) w = removeFiles ns (snd (fs_op (\<lambda>w. w\<lparr>lane := ddel n (lane w)\<rparr>) w))"

definition finish :: "inflight \<Rightarrow> 'm world \<Rightarrow> 'm world" where
  "finish fl w = snd (fs_op (\<lambda>w. w\<lparr>infl := None\<rparr>) (removeFiles (Files fl) w))"

section \<open>The exchange with MAIN\<close>

datatype reply = Served int | Gap int | Denied

definition call :: "('m \<Rightarrow> int \<Rightarrow> line list \<Rightarrow> 'm \<times> reply) \<Rightarrow> int \<Rightarrow> line list \<Rightarrow> 'm world \<Rightarrow> reply option \<times> 'm world" where
  "call serve first events w =
     (if down w then (None, w)
      else
        let (m, r) = serve (main w) first events;
            w' = w\<lparr>net := tl (net w)\<rparr>
        in case net w of
             Lost # _ \<Rightarrow> (None, w')
           | NoReply # _ \<Rightarrow> (None, w'\<lparr>main := m\<rparr>)
           | _ \<Rightarrow> (Some r, w'\<lparr>main := m\<rparr>))"

text \<open>The next number to use, whether MAIN served a batch, and whether there was an error.\<close>

type_synonym shipped = "int \<times> bool \<times> bool"

fun attempts ::
  "('m \<Rightarrow> int \<Rightarrow> line list \<Rightarrow> 'm \<times> reply) \<Rightarrow> nat \<Rightarrow> inflight \<Rightarrow> int \<Rightarrow> line list \<Rightarrow> 'm world \<Rightarrow> shipped \<times> 'm world"
where
  "attempts serve 0 fl next events w = ((next, False, True), w)"
| "attempts serve (Suc k) fl next events w =
     (let (r, w) = call serve (First fl) events w
      in case r of
           None \<Rightarrow> ((next, False, True), w)
         | Some Denied \<Rightarrow> ((next, False, True), w)
         | Some (Gap expected) \<Rightarrow>
             if expected \<le> 0 then ((next, False, True), w)
             else if expected > First fl + Count fl - 1 then ((expected, False, False), finish fl w)
             else
               let fl = fl\<lparr>First := expected\<rparr>; (ok, w) = saveInflight fl w
               in if \<not> ok then ((next, False, True), w) else attempts serve k fl expected events w
         | Some (Served useq) \<Rightarrow> ((max (First fl + Count fl) (useq + 1), True, False), finish fl w))"

text \<open>Sending the recorded batch.\<close>

definition sendBatch ::
  "laneCfg \<Rightarrow> ('m \<Rightarrow> int \<Rightarrow> line list \<Rightarrow> 'm \<times> reply) \<Rightarrow> inflight \<Rightarrow> int \<Rightarrow> 'm world \<Rightarrow> shipped \<times> 'm world" where
  "sendBatch cfg serve fl next w =
     (let events = readBatch cfg (Files fl) w
      in if len events \<noteq> Count fl then ((next, False, False), finish fl w)
         else attempts serve 3 fl next events w)"

definition shipOnce ::
  "laneCfg \<Rightarrow> ('m \<Rightarrow> int \<Rightarrow> line list \<Rightarrow> 'm \<times> reply) \<Rightarrow> pass_env \<Rightarrow> int \<Rightarrow> spooler \<Rightarrow> 'm world
     \<Rightarrow> shipped \<times> spooler \<times> 'm world"
where
  "shipOnce cfg serve e next ls w =
     (let (lo, w) = loadInflight w
      in case lo of
           None \<Rightarrow> ((next, False, True), ls, w)
         | Some flo \<Rightarrow>
             let (ok, ls, w) = housekeep cfg e flo ls w
             in if \<not> ok then ((next, False, True), ls, w)
                else (case flo of
                        None \<Rightarrow>
                          (let (ok, w) = fs_op id w
                           in if \<not> ok then ((next, False, True), ls, w)
                              else
                                let (files, events, w) = collect cfg (spooled (lane w)) [] [] 0 w
                                in if events = [] then ((next, False, False), ls, w)
                                   else
                                     let fl = \<lparr>First = next, Count = len events, Files = files\<rparr>;
                                         (ok, w) = saveInflight fl w
                                     in if \<not> ok then ((next, False, True), ls, w)
                                        else let (r, w) = sendBatch cfg serve fl next w in (r, ls, w))
                      | Some fl \<Rightarrow>
                          if First fl + Count fl - 1 < next then ((next, False, False), ls, finish fl w)
                          else if First fl \<noteq> next then
                            (let fl = fl\<lparr>First := next\<rparr>; (ok, w) = saveInflight fl w
                             in if \<not> ok then ((next, False, True), ls, w)
                                else let (r, w) = sendBatch cfg serve fl next w in (r, ls, w))
                          else let (r, w) = sendBatch cfg serve fl next w in (r, ls, w)))"

section \<open>The loop\<close>

text \<open>
  The agent process of one lane: the number of the next event (0 until MAIN's cursor is known), the cursor from the
  latest hello (-1 until one), and the spooler.
\<close>

record proc =
  nextNo :: int
  helloCur :: int
  spo :: spooler

definition proc0 :: proc where
  "proc0 = \<lparr>nextNo = 0, helloCur = - 1, spo = \<lparr>checked = 0, compacted = 0, retryAt = 0, failures = 0\<rparr>\<rparr>"

text \<open>The body of \<open>RunEvents\<close>' loop.\<close>

definition runPass ::
  "laneCfg \<Rightarrow> ('m \<Rightarrow> int \<Rightarrow> line list \<Rightarrow> 'm \<times> reply) \<Rightarrow> pass_env \<Rightarrow> proc \<Rightarrow> 'm world \<Rightarrow> proc \<times> 'm world" where
  "runPass cfg serve e p w =
     (if nextNo p = 0 \<and> helloCur p < 0 then
        (let (lo, w) = loadInflight w
         in case lo of
              None \<Rightarrow> (p, w)
            | Some flo \<Rightarrow> let (ok, ls, w) = housekeep cfg e flo (spo p) w in (p\<lparr>spo := ls\<rparr>, w))
      else
        let next = (if nextNo p = 0 then helloCur p + 1 else nextNo p);
            ((n, served, err), ls, w) = shipOnce cfg serve e next (spo p) w
        in (p\<lparr>nextNo := (if n > 0 then n else next), spo := ls\<rparr>, w))"

end
