(* ===== verification/SpoolCrash.thy ===== *)
theory SpoolCrash
  imports SpoolDisk CompactProps
begin

text \<open>
  What the lane holds whatever the disk has been through: \<open>vmap\<close> reads the lane as it will be once a committed
  compaction is rolled forward.  No operation of a roll forward changes it, at whatever point it stops, and
  a compaction changes it in one step, the rename of its manifest, from the tail to the chunks.
\<close>

definition staged_file :: "'m world \<Rightarrow> string \<Rightarrow> line list option" where
  "staged_file w n = (case staging w of None \<Rightarrow> None | Some d \<Rightarrow> map_of d n)"

definition vmap :: "'m world \<Rightarrow> string \<Rightarrow> line list option" where
  "vmap w = (case manifest w of
     Some (Some m) \<Rightarrow> (\<lambda>n. if n \<in> set (Staged m)
        then (case staged_file w n of None \<Rightarrow> map_of (lane w) n | Some ls \<Rightarrow> Some ls)
        else if n \<in> set (Replaced m) then None else map_of (lane w) n)
   | _ \<Rightarrow> map_of (lane w))"

definition disk_ok :: "'m world \<Rightarrow> bool" where
  "disk_ok w \<longleftrightarrow>
     distinct (map fst (lane w)) \<and> manifest w \<noteq> Some None \<and>
     (\<forall>m. manifest w = Some (Some m) \<longrightarrow> set (Staged m) \<inter> set (Replaced m) = {} \<and>
        (\<forall>n \<in> set (Staged m). staged_file w n \<noteq> None \<or> map_of (lane w) n \<noteq> None)) \<and>
     (\<forall>n ls. vmap w n = Some ls \<longrightarrow> spoolName n \<and> list_all plain ls)"

text \<open>\<open>w'\<close> holds what \<open>w\<close> holds, and is in order.\<close>

definition keeps :: "'m world \<Rightarrow> 'm world \<Rightarrow> bool" where
  "keeps w w' \<longleftrightarrow> disk_ok w' \<and> vmap w' = vmap w \<and> infl w' = infl w \<and> main w' = main w \<and> net w' = net w"

lemma keeps_refl: "disk_ok w \<Longrightarrow> keeps w w"
  by (simp add: keeps_def)

lemma keeps_trans: "keeps w1 w2 \<Longrightarrow> keeps w2 w3 \<Longrightarrow> keeps w1 w3"
  by (simp add: keeps_def)

lemma keeps_ok: "keeps w w' \<Longrightarrow> disk_ok w'"
  by (simp add: keeps_def)

lemma script_irrelevant [simp]:
  "vmap (w\<lparr>script := s\<rparr>) = vmap w" "vmap (w\<lparr>down := d\<rparr>) = vmap w"
  "disk_ok (w\<lparr>script := s\<rparr>) = disk_ok w" "disk_ok (w\<lparr>down := d\<rparr>) = disk_ok w"
  "staged_file (w\<lparr>script := s\<rparr>) = staged_file w" "staged_file (w\<lparr>down := d\<rparr>) = staged_file w"
  by (simp_all add: vmap_def disk_ok_def staged_file_def fun_eq_iff split: option.split)

lemma in_staging: "in_staging w n \<longleftrightarrow> staged_file w n \<noteq> None"
  by (simp add: in_staging_def staged_file_def split: option.split)

lemma fs_opE:
  assumes "fs_op f w = (ok, w')"
  obtains (acts) s where "ok" "w' = f (w\<lparr>script := s\<rparr>)" | (stops) s d where "\<not> ok" "w' = w\<lparr>script := s, down := d\<rparr>"
proof (cases "down w")
  case True
  then show ?thesis using assms stops [of "down w" "script w"] by (auto simp: fs_op_def)
next
  case False
  have e: "w\<lparr>script := []\<rparr> = w" if "script w = []" using that by simp
  show ?thesis
  proof (cases "script w")
    case Nil
    then show ?thesis using assms False acts [of "[]"] e by (auto simp: fs_op_def)
  next
    case (Cons x xs)
    have d: "w\<lparr>script := xs, down := False\<rparr> = w\<lparr>script := xs\<rparr>" using False by simp
    show ?thesis
      using assms False Cons acts [of xs] stops [of False xs] stops [of True xs] d
      by (cases x) (auto simp: fs_op_def)
  qed
qed

lemma keeps_script: "keeps w (w\<lparr>script := s, down := d\<rparr>) \<longleftrightarrow> disk_ok w"
  by (simp add: keeps_def)

text \<open>An operation that keeps what the lane holds keeps it whether or not it is done.\<close>

lemma fs_op_keeps:
  assumes "fs_op f w = (ok, w')" "disk_ok w" "\<And>s. keeps (w\<lparr>script := s\<rparr>) (f (w\<lparr>script := s\<rparr>))"
  shows "keeps w w'"
  using assms(1)
proof (cases rule: fs_opE)
  case (acts s)
  then show ?thesis using assms(3) [of s] by (simp add: keeps_def)
next
  case (stops s d)
  then show ?thesis using assms(2) by (simp add: keeps_script)
qed

lemma fs_op_id:
  assumes "fs_op id w = (ok, w')"
  shows "\<exists>s d. w' = w\<lparr>script := s, down := d\<rparr>"
  using assms
proof (cases rule: fs_opE)
  case (acts s)
  then show ?thesis by (intro exI [of _ s] exI [of _ "down w"]) simp
qed blast

section \<open>Rolling forward\<close>

lemma map_of_ddel: "map_of (ddel n d) = (map_of d)(n := None)"
  by (induction d) (auto simp: ddel_def fun_eq_iff)

lemma map_of_dput: "map_of (dput n ls d) = (map_of d)(n \<mapsto> ls)"
  by (simp add: dput_def map_of_ddel)

lemma distinct_ddel: "distinct (map fst d) \<Longrightarrow> distinct (map fst (ddel n d))"
  by (simp add: ddel_def distinct_map_filter)

lemma distinct_dput: "distinct (map fst d) \<Longrightarrow> distinct (map fst (dput n ls d))"
  by (auto simp: dput_def ddel_def distinct_map_filter)

lemma disk_okI:
  assumes "distinct (map fst (lane w'))" "manifest w' = Some (Some m)" "set (Staged m) \<inter> set (Replaced m) = {}"
    "\<And>n. n \<in> set (Staged m) \<Longrightarrow> staged_file w' n \<noteq> None \<or> map_of (lane w') n \<noteq> None"
    "vmap w' = vmap w" "disk_ok w"
  shows "disk_ok w'"
  using assms by (auto simp: disk_ok_def)

lemma remove_keeps:
  assumes "disk_ok w" "manifest w = Some (Some m)" "n \<in> set (Replaced m)"
  shows "keeps w (w\<lparr>lane := ddel n (lane w)\<rparr>)"
proof -
  let ?w = "w\<lparr>lane := ddel n (lane w)\<rparr>"
  have st: "staged_file ?w = staged_file w" by (simp add: staged_file_def fun_eq_iff)
  have ns: "n \<notin> set (Staged m)" and dj: "set (Staged m) \<inter> set (Replaced m) = {}"
    using assms unfolding disk_ok_def by auto
  have v: "vmap ?w = vmap w"
    using assms(2,3) ns by (auto simp: vmap_def map_of_ddel fun_eq_iff st split: option.split)
  have "disk_ok ?w"
  proof (rule disk_okI [OF _ _ dj _ v assms(1)])
    show "distinct (map fst (lane ?w))" using assms(1) by (simp add: disk_ok_def distinct_ddel del: distinct_map)
    show "staged_file ?w n' \<noteq> None \<or> map_of (lane ?w) n' \<noteq> None" if "n' \<in> set (Staged m)" for n'
      using assms(1,2) that ns unfolding st by (auto simp: disk_ok_def map_of_ddel)
  qed (simp add: assms(2))
  then show ?thesis using v by (simp add: keeps_def)
qed

lemma removeAll_keeps:
  assumes "removeAll ns w = (ok, w')" "disk_ok w" "manifest w = Some (Some m)" "set ns \<subseteq> set (Replaced m)"
  shows "keeps w w' \<and> manifest w' = Some (Some m) \<and>
    (ok \<longrightarrow> (\<forall>n. map_of (lane w') n = (if n \<in> set ns then None else map_of (lane w) n)))"
  using assms
proof (induction ns arbitrary: w)
  case Nil
  then show ?case by (simp add: keeps_refl)
next
  case (Cons n ns)
  let ?f = "\<lambda>w. w\<lparr>lane := ddel n (lane w)\<rparr>"
  obtain ok1 w1 where w1: "fs_op ?f w = (ok1, w1)" by fastforce
  have k: "keeps w w1"
    by (rule fs_op_keeps [OF w1 Cons.prems(2)], rule remove_keeps) (use Cons.prems in auto)
  from w1 show ?case
  proof (cases rule: fs_opE)
    case (acts s)
    have m: "manifest w1 = Some (Some m)" using acts Cons.prems(3) by simp
    have l: "map_of (lane w1) = (map_of (lane w))(n := None)" using acts by (simp add: map_of_ddel)
    have "removeAll ns w1 = (ok, w')" using Cons.prems(1) w1 acts by simp
    from Cons.IH [OF this keeps_ok [OF k] m] Cons.prems(4) l k show ?thesis by (auto intro: keeps_trans)
  next
    case (stops s d)
    then show ?thesis using Cons.prems w1 k by auto
  qed
qed

lemma move_keeps:
  assumes "disk_ok w" "manifest w = Some (Some m)" "n \<in> set (Staged m)" "staged_file w n = Some ls"
  shows "keeps w (moveChunk n w)" "manifest (moveChunk n w) = Some (Some m)"
    "map_of (lane (moveChunk n w)) = (map_of (lane w))(n \<mapsto> ls)"
    "staged_file (moveChunk n w) = (staged_file w)(n := None)"
proof -
  obtain d where d: "staging w = Some d" "map_of d n = Some ls"
    using assms(4) by (auto simp: staged_file_def split: option.splits)
  have mv: "moveChunk n w = w\<lparr>staging := Some (ddel n d), lane := dput n ls (lane w)\<rparr>"
    by (simp add: moveChunk_def d)
  show m: "manifest (moveChunk n w) = Some (Some m)" by (simp add: mv assms)
  show l: "map_of (lane (moveChunk n w)) = (map_of (lane w))(n \<mapsto> ls)" by (simp add: mv map_of_dput)
  show st: "staged_file (moveChunk n w) = (staged_file w)(n := None)"
    by (simp add: mv staged_file_def d map_of_ddel fun_eq_iff)
  have v: "vmap (moveChunk n w) = vmap w"
    using assms(3,4) by (auto simp: vmap_def m assms(2) l st fun_eq_iff split: option.split)
  have "disk_ok (moveChunk n w)"
  proof (rule disk_okI [OF _ m _ _ v assms(1)])
    show "distinct (map fst (lane (moveChunk n w)))" using assms(1) by (simp add: mv disk_ok_def distinct_dput del: distinct_map)
    show "set (Staged m) \<inter> set (Replaced m) = {}" using assms(1,2) by (simp add: disk_ok_def)
    show "staged_file (moveChunk n w) n' \<noteq> None \<or> map_of (lane (moveChunk n w)) n' \<noteq> None" if "n' \<in> set (Staged m)" for n'
      using assms(1,2) that by (auto simp: disk_ok_def l st)
  qed
  then show "keeps w (moveChunk n w)" using v by (simp add: keeps_def mv)
qed

lemma moveAll_keeps:
  assumes "moveAll ns w = (ok, w')" "disk_ok w" "manifest w = Some (Some m)" "set ns \<subseteq> set (Staged m)"
  shows "keeps w w' \<and> manifest w' = Some (Some m) \<and>
    (\<forall>n. n \<notin> set (Staged m) \<longrightarrow> map_of (lane w') n = map_of (lane w) n) \<and>
    (\<forall>n. staged_file w n = None \<longrightarrow> staged_file w' n = None) \<and>
    (ok \<longrightarrow> (\<forall>n \<in> set ns. staged_file w' n = None))"
  using assms
proof (induction ns arbitrary: w)
  case Nil
  then show ?case by (simp add: keeps_refl)
next
  case (Cons n ns)
  show ?case
  proof (cases "staged_file w n")
    case None
    then have "moveAll ns w = (ok, w')" using Cons.prems(1) by (simp add: in_staging)
    from Cons.IH [OF this Cons.prems(2,3)] Cons.prems(4) None show ?thesis by auto
  next
    case (Some ls)
    obtain ok1 w1 where w1: "fs_op (moveChunk n) w = (ok1, w1)" by fastforce
    have n: "n \<in> set (Staged m)" using Cons.prems(4) by simp
    have mv: "disk_ok (w\<lparr>script := s\<rparr>)" "manifest (w\<lparr>script := s\<rparr>) = Some (Some m)"
      "staged_file (w\<lparr>script := s\<rparr>) n = Some ls" for s using Cons.prems Some by simp_all
    have k: "keeps w w1" by (rule fs_op_keeps [OF w1 Cons.prems(2) move_keeps(1) [OF mv(1,2) n mv(3)]])
    from w1 show ?thesis
    proof (cases rule: fs_opE)
      case (acts s)
      note mv' = move_keeps [OF mv(1,2) n mv(3), of s, folded acts(2)]
      have "moveAll ns w1 = (ok, w')" using Cons.prems(1) w1 acts Some by (simp add: in_staging)
      from Cons.IH [OF this keeps_ok [OF k] mv'(2)] Cons.prems(4) mv' k n show ?thesis
        by (auto intro: keeps_trans)
    next
      case (stops s d)
      then show ?thesis using Cons.prems w1 k Some by (auto simp: in_staging)
    qed
  qed
qed


lemma prod_split: "(let (ok, w) = p in f ok w) = f (fst p) (snd p)"
  by (simp add: case_prod_unfold)

lemma removeStaging_keeps:
  assumes "disk_ok w" "\<And>m n. manifest w = Some (Some m) \<Longrightarrow> n \<in> set (Staged m) \<Longrightarrow> staged_file w n = None"
    "removeStaging w = (ok, w')"
  shows "keeps w w' \<and> manifest w' = manifest w \<and> map_of (lane w') = map_of (lane w) \<and>
    (\<forall>n. staged_file w n = None \<longrightarrow> staged_file w' n = None)"
proof -
  have k: "keeps w1 (w1\<lparr>staging := None\<rparr>)" if "w1 = w\<lparr>script := s\<rparr>" for w1 s
  proof -
    have v: "vmap (w1\<lparr>staging := None\<rparr>) = vmap w1"
      using assms(2) unfolding that vmap_def staged_file_def
      by (auto simp: fun_eq_iff split: option.splits)
    have "disk_ok (w1\<lparr>staging := None\<rparr>)"
      using assms(1,2) v unfolding that disk_ok_def by (auto simp: staged_file_def)
    then show ?thesis using v by (simp add: keeps_def)
  qed
  have "keeps w w'"
    by (rule fs_op_keeps [OF assms(3) [unfolded removeStaging_def] assms(1)]) (rule k [OF refl])
  moreover have "manifest w' = manifest w \<and> map_of (lane w') = map_of (lane w) \<and>
      (\<forall>n. staged_file w n = None \<longrightarrow> staged_file w' n = None)"
    using assms(3) unfolding removeStaging_def
    by (cases rule: fs_opE) (auto simp: staged_file_def)
  ultimately show ?thesis by blast
qed

text \<open>Taking the manifest away changes nothing once every chunk is in the lane and no replaced file is.\<close>

lemma removeManifest_keeps:
  assumes "disk_ok w" "manifest w = Some (Some m)"
    "\<And>n. n \<in> set (Staged m) \<Longrightarrow> staged_file w n = None" "\<And>n. n \<in> set (Replaced m) \<Longrightarrow> map_of (lane w) n = None"
    "removeManifest w = (ok, w')"
  shows "keeps w w' \<and> (manifest w' = None \<or> \<not> ok \<and> manifest w' = Some (Some m))"
proof -
  have k: "keeps w1 (w1\<lparr>manifest := None\<rparr>)" if "w1 = w\<lparr>script := s\<rparr>" for w1 s
  proof -
    have v: "vmap (w1\<lparr>manifest := None\<rparr>) = vmap w1"
      using assms(2-4) unfolding that by (auto simp: vmap_def staged_file_def fun_eq_iff split: option.splits)
    have "disk_ok (w1\<lparr>manifest := None\<rparr>)"
      using assms(1) v unfolding that by (simp add: disk_ok_def)
    then show ?thesis using v by (simp add: keeps_def)
  qed
  have "keeps w w'"
    by (rule fs_op_keeps [OF assms(5) [unfolded removeManifest_def] assms(1)]) (rule k [OF refl])
  moreover have "manifest w' = None \<or> \<not> ok \<and> manifest w' = Some (Some m)"
    using assms(5,2) unfolding removeManifest_def by (cases rule: fs_opE) auto
  ultimately show ?thesis by blast
qed

lemma id_keeps:
  assumes "fs_op id w = (ok, w')" "disk_ok w"
  shows "keeps w w' \<and> manifest w' = manifest w \<and> lane w' = lane w \<and> staged_file w' = staged_file w \<and> staging w' = staging w"
  using fs_op_id [OF assms(1)] assms(2) by (auto simp: keeps_script)

text \<open>A roll forward keeps what the lane holds, wherever it stops; one that ends has taken the manifest away.\<close>

lemma rollForward_keeps:
  assumes "disk_ok w" "manifest w = Some (Some m)" "rollForward m w = (ok, w')"
  shows "keeps w w' \<and> (manifest w' = None \<or> \<not> ok \<and> manifest w' = Some (Some m))"
proof -
  have all: "list_all (\<lambda>n. in_staging w n \<or> map_of (lane w) n \<noteq> None) (Staged m)"
    using assms(1,2) by (auto simp: disk_ok_def in_staging list_all_iff)
  obtain ok1 w1 where r1: "removeAll (Replaced m) w = (ok1, w1)" by fastforce
  obtain ok2 w2 where r2: "moveAll (Staged m) w1 = (ok2, w2)" by fastforce
  obtain ok3 w3 where r3: "fs_op id w2 = (ok3, w3)" by fastforce
  obtain ok4 w4 where r4: "removeStaging w3 = (ok4, w4)" by fastforce
  obtain ok5 w5 where r5: "removeManifest w4 = (ok5, w5)" by fastforce
  obtain ok6 w6 where r6: "fs_op id w5 = (ok6, w6)" by fastforce
  have rf: "(ok, w') = (if \<not> ok1 then (False, w1) else if \<not> ok2 then (False, w2) else if \<not> ok3 then (False, w3)
      else if \<not> ok5 then (False, w5) else (ok6, w6))"
    using assms(3) all by (simp add: rollForward_def r1 r2 r3 r4 r5 r6 cong: if_cong)
  have k1: "keeps w w1" "manifest w1 = Some (Some m)" "ok1 \<Longrightarrow> n \<in> set (Replaced m) \<Longrightarrow> map_of (lane w1) n = None" for n
    using removeAll_keeps [OF r1 assms(1,2)] by auto
  show ?thesis
  proof (cases ok1)
    case False
    then show ?thesis using rf k1 by simp
  next
    case ok1: True
    note m2 = moveAll_keeps [OF r2 keeps_ok [OF k1(1)] k1(2) subset_refl]
    have k2: "keeps w w2" "manifest w2 = Some (Some m)" using m2 keeps_trans [OF k1(1)] by auto
    have dj: "set (Staged m) \<inter> set (Replaced m) = {}" using assms(1,2) by (simp add: disk_ok_def)
    have gone: "map_of (lane w2) n = None" if "n \<in> set (Replaced m)" for n
      using m2 k1(3) [OF ok1 that] that dj by auto
    show ?thesis
    proof (cases ok2)
      case False
      then show ?thesis using rf k2 ok1 by simp
    next
      case ok2: True
      then have inl: "staged_file w2 n = None" if "n \<in> set (Staged m)" for n using m2 that by blast
      note m3 = id_keeps [OF r3 keeps_ok [OF k2(1)]]
      have k3: "keeps w w3" using m3 keeps_trans [OF k2(1)] by blast
      have m4: "keeps w3 w4 \<and> manifest w4 = manifest w3 \<and> map_of (lane w4) = map_of (lane w3) \<and>
          (\<forall>n. staged_file w3 n = None \<longrightarrow> staged_file w4 n = None)"
        by (rule removeStaging_keeps [OF keeps_ok [OF k3] _ r4]) (use m3 k2(2) inl in auto)
      have k4: "keeps w w4" using m4 keeps_trans [OF k3] by blast
      have m5: "keeps w4 w5 \<and> (manifest w5 = None \<or> \<not> ok5 \<and> manifest w5 = Some (Some m))"
        by (rule removeManifest_keeps [OF keeps_ok [OF k4] _ _ _ r5]) (use m3 m4 k2(2) inl gone in auto)
      have k5: "keeps w w5" using m5 keeps_trans [OF k4] by blast
      note m6 = id_keeps [OF r6 keeps_ok [OF k5]]
      have k6: "keeps w w6" using m6 keeps_trans [OF k5] by blast
      show ?thesis using rf ok1 ok2 k3 k5 k6 m5 m3 m6 k2 by (auto split: if_splits)
    qed
  qed
qed

lemma recover_keeps:
  assumes "disk_ok w" "recoverCompaction w = (ok, w')"
  shows "keeps w w' \<and> (manifest w' = None \<or> \<not> ok)"
proof (cases "manifest w")
  case None
  obtain ok1 w1 where r1: "removeStaging w = (ok1, w1)" by fastforce
  have "keeps w w1 \<and> manifest w1 = None"
    using removeStaging_keeps [OF assms(1) _ r1] None by auto
  then show ?thesis using assms None r1 keeps_refl [OF assms(1)] by (auto simp: recoverCompaction_def split: if_splits)
next
  case (Some mo)
  then obtain m where m: "mo = Some m" using assms(1) by (cases mo) (auto simp: disk_ok_def)
  obtain ok1 w1 where r1: "fs_op id w = (ok1, w1)" by fastforce
  note k1 = id_keeps [OF r1 assms(1)]
  have m1: "manifest w1 = Some (Some m)" using k1 Some m by simp
  show ?thesis
  proof (cases ok1)
    case False
    then show ?thesis using assms(2) Some k1 r1 by (simp add: recoverCompaction_def)
  next
    case True
    then have "rollForward m w1 = (ok, w')" using assms(2) Some m r1 by (simp add: recoverCompaction_def)
    from rollForward_keeps [OF keeps_ok m1 this] k1 show ?thesis using keeps_trans by blast
  qed
qed

end
