(* ===== verification/SpoolNames.thy ===== *)
theory SpoolNames
  imports SpoolDisk
begin

text \<open>
  The names of the chunks of one compaction: each is a name the lane reads, no two are alike, and in the order
  the lane reads its files they come in the order they were written (up to a million of them).
\<close>

text \<open>\<open>n\<close> decimal digits of a number, the most significant first.\<close>

fun digs :: "nat \<Rightarrow> nat \<Rightarrow> string" where
  "digs 0 k = ''''"
| "digs (Suc n) k = digs n (k div 10) @ [digit (k mod 10)]"

lemma length_digs [simp]: "length (digs n k) = n"
  by (induction n arbitrary: k) simp_all

lemma show_nat_digs: "show_nat k = (if k < 10 then digs 1 k else show_nat (k div 10) @ [digit (k mod 10)])"
  by (subst show_nat.simps) simp

lemma digit_0: "digit 0 = CHR ''0''"
  by code_simp

lemma digs_zero: "digs n 0 = replicate n CHR ''0''"
  by (induction n) (simp_all add: digit_0 replicate_append_same)

lemma show_nat_pad: "k < 10 ^ n \<Longrightarrow> 0 < n \<Longrightarrow> length (show_nat k) \<le> n \<and>
    digs n k = replicate (n - length (show_nat k)) CHR ''0'' @ show_nat k"
proof (induction n arbitrary: k)
  case 0
  then show ?case by simp
next
  case (Suc n)
  show ?case
  proof (cases "k < 10")
    case True
    then show ?thesis by (simp add: show_nat_digs digs_zero)
  next
    case False
    then have "0 < n" using Suc.prems(1) by (cases n) auto
    moreover have "k div 10 < 10 ^ n" using Suc.prems(1) by (simp add: less_mult_imp_div_less mult.commute)
    ultimately show ?thesis using Suc.IH [of "k div 10"] False by (simp add: show_nat_digs [of k])
  qed
qed

lemma pad6_digs: "k < 10 ^ 6 \<Longrightarrow> pad6 k = digs 6 k"
  using show_nat_pad [of k 6] by (simp add: pad6_def del: digs.simps)

lemma digit_less: "a < b \<Longrightarrow> b < 10 \<Longrightarrow> digit a < digit b"
  by (simp add: digit_def less_char_def)

lemma append_less: "xs < (ys :: string) \<Longrightarrow> length xs = length ys \<Longrightarrow> xs @ us < ys @ vs"
proof (induction xs ys rule: list_induct2')
  case (4 x xs y ys)
  then show ?case by auto
qed simp_all

lemma same_append_less: "us < (vs :: string) \<Longrightarrow> xs @ us < xs @ vs"
  by (induction xs) simp_all

lemma digs_less: "j < k \<Longrightarrow> k < 10 ^ n \<Longrightarrow> digs n j < digs n k"
proof (induction n arbitrary: j k)
  case 0
  then show ?case by simp
next
  case (Suc n)
  have k: "k div 10 < 10 ^ n" using Suc.prems(2) by (simp add: less_mult_imp_div_less mult.commute)
  show ?case
  proof (cases "j div 10 = k div 10")
    case True
    then have "j mod 10 < k mod 10" using Suc.prems(1) by (metis div_mult_mod_eq nat_add_left_cancel_less)
    then show ?thesis using digit_less [of "j mod 10" "k mod 10"] True by (simp add: same_append_less)
  next
    case False
    then have "j div 10 < k div 10" using Suc.prems(1) by (simp add: div_le_mono le_neq_implies_less)
    then show ?thesis using Suc.IH [OF _ k] by (simp add: append_less)
  qed
qed

lemma chunk_name_less: "j < k \<Longrightarrow> k < 10 ^ 6 \<Longrightarrow> chunk_name pre g j < chunk_name pre g k"
  using digs_less [of j k 6]
  by (simp add: chunk_name_def pad6_digs same_append_less append_less del: digs.simps)

definition chunk_names :: "string \<Rightarrow> string \<Rightarrow> nat \<Rightarrow> string list" where
  "chunk_names pre g n = map (chunk_name pre g) [0..<n]"

lemma chunk_names_sorted: "n \<le> 10 ^ 6 \<Longrightarrow> sorted_wrt (<) (chunk_names pre g n)"
  by (auto simp: chunk_names_def sorted_wrt_iff_nth_less intro: chunk_name_less)

lemma spoolPrefix_hd:
  assumes "spoolName n"
  shows "spoolPrefix n \<noteq> '''' \<and> hd (spoolPrefix n) \<noteq> CHR ''.''"
proof -
  obtain b where b: "n = b @ ndjson" using assms by (auto simp: spoolName_def suffix_def)
  have "\<not> prefix ''.'' (b @ ndjson)" using assms unfolding b spoolName_def by simp
  then obtain c cs where nb: "b = c # cs" "c \<noteq> CHR ''.''" by (cases b) (auto simp: ndjson_def)
  have t: "take (length n - length ndjson) n = b" unfolding b by simp
  have s: "suffix ndjson n" unfolding b by (simp add: suffix_def)
  have "spoolPrefix n = (if takeWhile (\<lambda>c. c \<noteq> CHR ''-'') b = b \<or> takeWhile (\<lambda>c. c \<noteq> CHR ''-'') b = []
      then b else takeWhile (\<lambda>c. c \<noteq> CHR ''-'') b)"
    unfolding spoolPrefix_def Let_def t using s by (simp only: if_True t)
  then show ?thesis using nb by (cases "c = CHR ''-''") simp_all
qed

lemma spoolName_append: "spoolName (xs @ ndjson) \<longleftrightarrow> \<not> prefix ''.'' (xs @ ndjson)"
  by (simp add: spoolName_def suffix_def)

lemma chunk_name_spool:
  assumes "spoolName n"
  shows "spoolName (chunk_name (spoolPrefix n) g k)"
proof -
  obtain c cs where c: "spoolPrefix n = c # cs" "c \<noteq> CHR ''.''"
    using spoolPrefix_hd [OF assms] by (cases "spoolPrefix n") simp_all
  have "chunk_name (spoolPrefix n) g k = (c # cs @ ''-compact-'' @ g @ ''-'' @ pad6 k) @ ndjson"
    by (simp add: chunk_name_def c)
  then show ?thesis using c by (simp only: spoolName_append) simp
qed

end
