(* ===== verification/SpoolCompact.thy ===== *)
theory SpoolCompact
  imports SpoolCrash SpoolNames
begin

text \<open>
  A compaction on the disk.  Wherever it stops, the lane holds what it held, or the chunks in the place of the
  tail, and nothing in between.
\<close>

text \<open>Changes outside the lane, while nothing is committed.\<close>

definition loose :: "'m world \<Rightarrow> 'm world \<Rightarrow> bool" where
  "loose w w' \<longleftrightarrow> (\<exists>st s d. w' = w\<lparr>staging := st, script := s, down := d\<rparr>)"

lemma looseI [intro]: "loose w (w\<lparr>staging := st, script := s, down := d\<rparr>)"
  by (auto simp: loose_def)

lemma loose_refl: "loose w w"
  unfolding loose_def by (rule exI [of _ "staging w"], rule exI [of _ "script w"], rule exI [of _ "down w"]) simp

lemma loose_trans: "loose w1 w2 \<Longrightarrow> loose w2 w3 \<Longrightarrow> loose w1 w3"
  unfolding loose_def by (elim exE) (simp, blast)

lemma loose_lane: "loose w w' \<Longrightarrow> lane w' = lane w \<and> manifest w' = manifest w \<and> infl w' = infl w \<and> main w' = main w \<and> net w' = net w"
  by (auto simp: loose_def)

lemma loose_keeps:
  assumes "loose w w'" "disk_ok w" "manifest w = None"
  shows "keeps w w'"
proof -
  have "vmap w' = vmap w" using assms loose_lane [OF assms(1)] by (simp add: vmap_def)
  then show ?thesis using assms loose_lane [OF assms(1)] by (simp add: keeps_def disk_ok_def)
qed

lemma fs_op_loose:
  assumes "fs_op f w = (ok, w')" "\<And>w. loose w (f w)"
  shows "loose w w'"
  using assms(1)
proof (cases rule: fs_opE)
  case (acts s)
  have "loose w (w\<lparr>script := s\<rparr>)"
    unfolding loose_def by (rule exI [of _ "staging w"], rule exI [of _ s], rule exI [of _ "down w"]) simp
  then show ?thesis using acts assms(2) loose_trans by blast
next
  case (stops s d)
  show ?thesis
    unfolding stops loose_def by (rule exI [of _ "staging w"], rule exI [of _ s], rule exI [of _ d]) simp
qed

lemma staging_loose: "loose w (w\<lparr>staging := st\<rparr>)"
  unfolding loose_def by (rule exI [of _ st], rule exI [of _ "script w"], rule exI [of _ "down w"]) simp

lemma down_loose: "loose w (w\<lparr>down := d\<rparr>)"
  unfolding loose_def by (rule exI [of _ "staging w"], rule exI [of _ "script w"], rule exI [of _ d]) simp

lemma script_loose: "loose w (w\<lparr>script := s, down := d\<rparr>)"
  unfolding loose_def by (rule exI [of _ "staging w"], rule exI [of _ s], rule exI [of _ d]) simp

lemma removeStaging_loose:
  assumes "removeStaging w = (ok, w')"
  shows "loose w w' \<and> (staging w' = None \<or> staging w' = staging w)"
proof
  show "loose w w'" by (rule fs_op_loose [OF assms [unfolded removeStaging_def]]) (rule staging_loose)
  show "staging w' = None \<or> staging w' = staging w"
    using assms unfolding removeStaging_def by (cases rule: fs_opE) auto
qed

lemma writeChunks_loose:
  assumes "writeChunks fs w = (ok, w')"
  shows "loose w w' \<and> (\<forall>d. ok \<and> staging w = Some d \<longrightarrow> staging w' = Some (d @ fs))"
  using assms
proof (induction fs arbitrary: w)
  case Nil
  then show ?case by (simp add: loose_refl)
next
  case (Cons f fs)
  let ?f = "\<lambda>w. w\<lparr>staging := Some ((case staging w of None \<Rightarrow> [] | Some d \<Rightarrow> d) @ [f])\<rparr>"
  obtain ok1 w1 where w1: "fs_op ?f w = (ok1, w1)" by fastforce
  have l: "loose w w1" by (rule fs_op_loose [OF w1]) (rule staging_loose)
  show ?case
  proof (cases ok1)
    case True
    have s: "staging w = Some d \<longrightarrow> staging w1 = Some (d @ [f])" for d
      using w1 by (cases rule: fs_opE) (use True in auto)
    have "writeChunks fs w1 = (ok, w')" using Cons.prems w1 True by simp
    from Cons.IH [OF this] s l show ?thesis by (auto intro: loose_trans)
  next
    case False
    then show ?thesis using Cons.prems w1 l by auto
  qed
qed

text \<open>The generation of a compaction is its own: no file carries it.\<close>

definition fresh :: "string \<Rightarrow> 'm world \<Rightarrow> bool" where
  "fresh g w \<longleftrightarrow> (\<forall>pre k. map_of (lane w) (chunk_name pre g k) = None \<and> staged_file w (chunk_name pre g k) = None)"

lemma stageFiles_loose:
  assumes "stageFiles cfg g tail w = (res, w')"
  shows "loose w w' \<and> (case res of None \<Rightarrow> True
    | Some (m, r) \<Rightarrow> m = \<lparr>mgen = g, Replaced = tail, Staged = map fst (chunks r)\<rparr> \<and>
        stage (fmt cfg) (lim cfg) g (map (\<lambda>n. (n, file_lines (lane w) n)) tail) = Some (Some r) \<and>
        (\<exists>d. (d = [] \<or> staging w = Some d) \<and> staging w' = Some (d @ chunks r)))"
proof -
  obtain ok1 w1 where r1: "removeStaging w = (ok1, w1)" by fastforce
  let ?f = "\<lambda>w. w\<lparr>staging := (if staging w = None then Some [] else staging w)\<rparr>"
  obtain ok2 w2 where r2: "fs_op ?f w1 = (ok2, w2)" by fastforce
  have l1: "loose w w1" "staging w1 = None \<or> staging w1 = staging w" using removeStaging_loose [OF r1] by auto
  have l2: "loose w1 w2" by (rule fs_op_loose [OF r2]) (rule staging_loose)
  then have l: "loose w w2" using loose_trans [OF l1(1)] by blast
  have ln: "lane w2 = lane w" using loose_lane [OF l] by simp
  have fail: "loose w (snd (removeStaging w3))" if "loose w w3" for w3
    using removeStaging_loose [of w3 "fst (removeStaging w3)" "snd (removeStaging w3)"] loose_trans [OF that] by simp
  show ?thesis
  proof (cases ok2)
    case False
    then show ?thesis using assms l by (auto simp: stageFiles_def r1 r2 Let_def)
  next
    case ok2: True
    obtain d where d: "d = [] \<or> staging w = Some d" "staging w2 = Some d"
      using r2
    proof (cases rule: fs_opE)
      case (acts s)
      then show ?thesis using l1(2) that by (auto split: if_splits)
    qed (use ok2 in simp)
    let ?st = "stage (fmt cfg) (lim cfg) g (map (\<lambda>n. (n, file_lines (lane w2) n)) tail)"
    consider "?st = None" | "?st = Some None" | r where "?st = Some (Some r)" by (metis option.exhaust)
    then show ?thesis
    proof cases
      case 1
      then show ?thesis using assms l ok2 loose_trans [OF l down_loose] by (auto simp: stageFiles_def r1 r2 Let_def)
    next
      case 2
      then show ?thesis using assms fail [OF l] ok2 by (auto simp: stageFiles_def r1 r2 Let_def)
    next
      case (3 r)
      obtain ok3 w3 where r3: "writeChunks (chunks r) w2 = (ok3, w3)" by fastforce
      obtain ok4 w4 where r4: "fs_op id w3 = (ok4, w4)" by fastforce
      have l3: "loose w w3" "ok3 \<Longrightarrow> staging w3 = Some (d @ chunks r)"
        using writeChunks_loose [OF r3] d(2) loose_trans [OF l] by auto
      have l4: "loose w w4" "staging w4 = staging w3"
        using fs_op_id [OF r4] loose_trans [OF l3(1)] fs_op_loose [OF r4] loose_refl by auto
      have e: "(res, w') = (if \<not> ok3 then (None, snd (removeStaging w3)) else if \<not> ok4 then (None, snd (removeStaging w4))
          else (Some (\<lparr>mgen = g, Replaced = tail, Staged = map fst (chunks r)\<rparr>, r), w4))"
        using assms 3 ok2 by (simp add: stageFiles_def r1 r2 r3 r4 Let_def cong: if_cong)
      show ?thesis
        using e fail [OF l3(1)] fail [OF l4(1)] l3 l4 d(1) 3 ln by (auto split: if_splits)
    qed
  qed
qed


section \<open>What a compaction writes\<close>

lemma merged_line_plain:
  assumes pl: "plain l" and c: "classify fmtNum l = Some (evSlot k part d)"
  shows "plain (merged_line l part s)"
proof (cases "sCount s > 1 \<and> part \<noteq> ''''")
  case True
  then show ?thesis
    using withPart_event [OF pl c, of "case sPart s of None \<Rightarrow> [] | Some m \<Rightarrow> m"] by (auto simp: merged_line_def)
next
  case False
  then have "merged_line l part s = l" unfolding merged_line_def by auto
  then show ?thesis using pl by simp
qed

lemma ahead_plain: "well_read fmtNum es \<Longrightarrow> plain (snd it) \<Longrightarrow> plain (snd (ahead u fp it es))"
proof (induction es arbitrary: it)
  case (Cons x es)
  obtain p l e where x: "x = (p, l, e)" by (metis prod_cases3)
  have "well_read fmtNum es" "plain l" using Cons.prems(1) by (auto simp: well_read_def x)
  then show ?case using Cons.IH Cons.prems(2) by (auto simp: x split: event.split)
qed simp

lemma reference_plain: "well_read fmtNum es \<Longrightarrow> list_all plain (reference i st cur es)"
proof (induction es arbitrary: i st cur)
  case (Cons x es)
  obtain p l e where x: "x = (p, l, e)" by (metis prod_cases3)
  have w: "well_read fmtNum es" and pl: "plain l" and c: "classify fmtNum l = Some e"
    using Cons.prems by (auto simp: well_read_def x)
  have "list_all plain (written (p, l, e) es st' cur)" for st'
  proof (cases e)
    case (evSlot k part d)
    then show ?thesis using merged_line_plain [OF pl, of fmtNum k part d] pl c by (auto split: option.split)
  next
    case (evUpsert u fp)
    then show ?thesis using ahead_plain [OF w, of "(p, l)" u fp] pl by (auto split: option.split)
  qed (use pl in auto)
  then show ?case using Cons.IH [OF w] by (simp add: x Let_def del: written.simps)
qed simp

lemma stage_plain:
  assumes "stage fmtNum lm g fs = Some (Some r)" "plain_tail fs"
  shows "plain_tail (chunks r)"
proof -
  have ne: "fs \<noteq> []" using assms(1) by (auto simp: stage_def Let_def at_def)
  have "list_all plain (concat (map snd (chunks r)))"
    using stage_reference [OF assms(2) ne, of fmtNum lm g] reference_plain [OF tail_well_read(1) [OF assms(2)]] assms(1)
    by auto
  then show ?thesis by (auto simp: plain_tail_def list_all_iff)
qed

lemma stage_names:
  assumes "stage fmtNum lm g fs = Some (Some r)" "plain_tail fs"
  shows "map fst (chunks r) = chunk_names (spoolPrefix (fst (hd fs))) g (length (chunks r))" "fs \<noteq> []"
proof -
  show ne: "fs \<noteq> []" using assms(1) by (auto simp: stage_def Let_def at_def)
  show "map fst (chunks r) = chunk_names (spoolPrefix (fst (hd fs))) g (length (chunks r))"
    using stage_succeeds [OF assms(2) ne, of fmtNum lm g] assms(1) by (auto simp: chunk_names_def)
qed

section \<open>Files in the order of their names\<close>

definition files_of :: "(string \<Rightarrow> line list option) \<Rightarrow> spool_file list" where
  "files_of m = map (\<lambda>n. (n, the (m n))) (sorted_list_of_set (dom m))"

lemma map_of_files_of: "finite (dom m) \<Longrightarrow> map_of (files_of m) = m"
proof
  fix n
  assume f: "finite (dom m)"
  have "map_of (map (\<lambda>n. (n, the (m n))) ns) n = (if n \<in> set ns then Some (the (m n)) else None)" for ns
    by (simp add: map_of_map_restrict restrict_map_def)
  then show "map_of (files_of m) n = m n" using f by (auto simp: files_of_def domIff)
qed

text \<open>A list of files sorted by name is the list of files of its map.\<close>

lemma files_of_map_of:
  assumes "sorted_wrt (<) (map fst fs)"
  shows "files_of (map_of fs) = fs"
proof -
  have d: "distinct (map fst fs)" using assms strict_sorted_iff by blast
  have "sorted_list_of_set (dom (map_of fs)) = map fst fs"
    using assms d distinct_card [OF d]
    by (intro sorted_list_of_set_unique [THEN iffD1]) (simp_all add: dom_map_of_conv_image_fst)
  then show ?thesis using d by (auto simp: files_of_def comp_def intro!: map_idI)
qed

lemma spooled_vmap:
  assumes "disk_ok w" "manifest w = None"
  shows "spooled (lane w) = sorted_list_of_set (dom (vmap w))" "finite (dom (vmap w))"
proof -
  have v: "vmap w = map_of (lane w)" using assms(2) by (simp add: vmap_def)
  have d: "distinct (map fst (lane w))" using assms(1) by (simp add: disk_ok_def)
  have s: "spoolName n" if "n \<in> fst ` set (lane w)" for n
    using assms(1) that v unfolding disk_ok_def by (metis domD dom_map_of_conv_image_fst)
  have "filter spoolName (map fst (lane w)) = map fst (lane w)" using s by (auto simp: filter_id_conv)
  then show "spooled (lane w) = sorted_list_of_set (dom (vmap w))"
    using d unfolding spooled_def v dom_map_of_conv_image_fst
    by (intro sorted_distinct_set_unique) simp_all
  show "finite (dom (vmap w))" by (simp add: v finite_dom_map_of)
qed

lemma filter_sorted_list_of_set:
  assumes "finite A"
  shows "filter (\<lambda>x. x \<notin> E) (sorted_list_of_set A) = sorted_list_of_set (A - E)"
  by (rule sorted_distinct_set_unique) (use assms in \<open>auto simp: sorted_wrt_filter\<close>)

lemma tail_files:
  assumes "disk_ok w" "manifest w = None"
  shows "map (\<lambda>n. (n, file_lines (lane w) n)) (filter (\<lambda>n. n \<notin> set ex) (spooled (lane w)))
    = files_of (vmap w |` (- set ex))"
proof -
  have "dom (vmap w |` (- set ex)) = dom (vmap w) - set ex" by auto
  moreover have "vmap w = map_of (lane w)" using assms(2) by (simp add: vmap_def)
  ultimately show ?thesis
    using spooled_vmap [OF assms] filter_sorted_list_of_set [of "dom (vmap w)" "set ex"]
    by (auto simp: files_of_def file_lines_def domIff split: option.split)
qed


section \<open>One compaction\<close>

text \<open>
  The bound on what a compaction of \<open>fs\<close> writes: fewer than a million chunks, and no merged line
  longer than a batch.
\<close>

definition chunks_ok :: "laneCfg \<Rightarrow> string \<Rightarrow> spool_file list \<Rightarrow> bool" where
  "chunks_ok cfg g fs \<longleftrightarrow> (\<forall>r. stage (fmt cfg) (lim cfg) g fs = Some (Some r) \<longrightarrow>
     length (chunks r) \<le> 10 ^ 6 \<and> list_all (\<lambda>f. short_lines (lim cfg) (snd f)) (chunks r))"

text \<open>The chunks of the compaction of every file but \<open>ex\<close> have come in.\<close>

definition swapped :: "laneCfg \<Rightarrow> string \<Rightarrow> string list \<Rightarrow> 'm world \<Rightarrow> 'm world \<Rightarrow> bool" where
  "swapped cfg g ex w w' \<longleftrightarrow>
     (\<exists>r. stage (fmt cfg) (lim cfg) g (files_of (vmap w |` (- set ex))) = Some (Some r) \<and> disk_ok w' \<and>
        vmap w' = (vmap w |` set ex) ++ map_of (chunks r) \<and> infl w' = infl w \<and> main w' = main w \<and> net w' = net w)"

lemma writeFileE:
  assumes "writeFile f must w = (ok, w')"
  obtains (before) s d where "\<not> ok" "w' = w\<lparr>script := s, down := d\<rparr>"
  | (after) s1 s2 d2 where "must \<or> ok" "w' = (f (w\<lparr>script := s1\<rparr>))\<lparr>script := s2, down := d2\<rparr>"
proof -
  obtain ok1 w1 where r1: "fs_op id w = (ok1, w1)" by fastforce
  obtain ok2 w2 where r2: "fs_op f w1 = (ok2, w2)" by fastforce
  obtain ok3 w3 where r3: "fs_op id w2 = (ok3, w3)" by fastforce
  obtain s d where w1: "w1 = w\<lparr>script := s, down := d\<rparr>" using fs_op_id [OF r1] by blast
  have e: "(ok, w') = (if \<not> ok1 then (False, w1) else if \<not> ok2 then (False, w2) else (if must then ok3 else True, w3))"
    using assms by (simp add: writeFile_def r1 r2 r3 cong: if_cong)
  show ?thesis
  proof (cases ok1)
    case False
    then show ?thesis using e before w1 by auto
  next
    case ok1: True
    have up: "w1 = w\<lparr>script := script w1\<rparr>"
      using r1 ok1 by (cases rule: fs_opE) auto
    show ?thesis
      using r2
    proof (cases rule: fs_opE)
      case (acts s2)
      obtain s3 d3 where "w3 = w2\<lparr>script := s3, down := d3\<rparr>" using fs_op_id [OF r3] by blast
      moreover have "w2 = f (w\<lparr>script := s2\<rparr>)" using acts by (subst (asm) up) simp
      ultimately show ?thesis using e ok1 acts after by auto
    next
      case (stops s2 d2)
      then show ?thesis using e ok1 before w1 by auto
    qed
  qed
qed

text \<open>The chunks of a lane's tail: plain lines under names of their own that the lane reads.\<close>

lemma tail_chunks:
  assumes ok: "disk_ok w" "manifest w = None"
    and st: "stage (fmt cfg) (lim cfg) g (files_of (vmap w |` (- set ex))) = Some (Some r)"
  shows "plain_tail (files_of (vmap w |` (- set ex)))" "plain_tail (chunks r)"
    "n \<in> fst ` set (chunks r) \<Longrightarrow> \<exists>pre k. n = chunk_name pre g k \<and> spoolName n"
proof -
  let ?fs = "files_of (vmap w |` (- set ex))"
  have fin: "finite (dom (vmap w |` (- set ex)))" using spooled_vmap(2) [OF ok] by (rule rev_finite_subset) auto
  have "list_all plain (the ((vmap w |` (- set ex)) n))" if "n \<in> dom (vmap w |` (- set ex))" for n
    using ok(1) that by (auto simp: disk_ok_def restrict_map_def split: if_splits)
  then show pt: "plain_tail ?fs" using fin by (simp add: plain_tail_def files_of_def list_all_iff)
  show "plain_tail (chunks r)" by (rule stage_plain [OF st pt])
  note nm = stage_names [OF st pt]
  have "hd ?fs \<in> set ?fs" using nm(2) by simp
  then have "fst (hd ?fs) \<in> dom (vmap w)" using fin by (auto simp: files_of_def)
  then have sp: "spoolName (fst (hd ?fs))" using ok(1) by (auto simp: disk_ok_def)
  assume n: "n \<in> fst ` set (chunks r)"
  have "n \<in> set (chunk_names (spoolPrefix (fst (hd ?fs))) g (length (chunks r)))"
    using n nm(1) by (metis list.set_map)
  then show "\<exists>pre k. n = chunk_name pre g k \<and> spoolName n"
    using chunk_name_spool [OF sp] unfolding chunk_names_def by auto
qed

lemma committed_vmap:
  assumes ok: "disk_ok w" "manifest w = None"
    and w2: "loose w w2" "staging w2 = Some (d @ chunks r)"
    and fr: "\<And>n. n \<in> fst ` set (chunks r) \<Longrightarrow> map_of (lane w) n = None \<and> map_of d n = None"
    and w3: "w3 = w2\<lparr>manifest := Some (Some \<lparr>mgen = g,
        Replaced = filter (\<lambda>n. n \<notin> set ex) (spooled (lane w)), Staged = map fst (chunks r)\<rparr>)\<rparr>"
  shows "vmap w3 = (vmap w |` set ex) ++ map_of (chunks r)"
    "n \<in> fst ` set (chunks r) \<Longrightarrow> staged_file w3 n \<noteq> None"
proof -
  let ?t = "filter (\<lambda>n. n \<notin> set ex) (spooled (lane w))"
  have v: "vmap w = map_of (lane w)" using ok(2) by (simp add: vmap_def)
  have ln: "lane w3 = lane w" using loose_lane [OF w2(1)] by (simp add: w3)
  have mf: "manifest w3 = Some (Some \<lparr>mgen = g, Replaced = ?t, Staged = map fst (chunks r)\<rparr>)" by (simp add: w3)
  have sf: "staged_file w3 n = map_of (chunks r) n" if "n \<in> fst ` set (chunks r)" for n
    using fr [OF that] by (simp add: staged_file_def w3 w2(2) map_add_def split: option.split)
  have nd: "map_of (chunks r) n = None \<longleftrightarrow> n \<notin> fst ` set (chunks r)" for n by (simp add: map_of_eq_None_iff)
  have set_t: "set ?t = dom (vmap w) - set ex" using spooled_vmap [OF ok] by auto
  show "vmap w3 = (vmap w |` set ex) ++ map_of (chunks r)"
  proof
    fix n
    have "vmap w3 n = (if n \<in> fst ` set (chunks r) then (case staged_file w3 n of None \<Rightarrow> map_of (lane w) n | Some ls \<Rightarrow> Some ls)
        else if n \<in> set ?t then None else map_of (lane w) n)"
      using ln mf by (simp add: vmap_def split: option.split)
    then show "vmap w3 n = ((vmap w |` set ex) ++ map_of (chunks r)) n"
      using sf [of n] nd [of n] unfolding set_t v
      by (cases "n \<in> fst ` set (chunks r)") (auto simp: map_add_def restrict_map_def split: option.splits)
  qed
  show "staged_file w3 n \<noteq> None" if "n \<in> fst ` set (chunks r)" using sf [OF that] nd [of n] that by simp
qed

lemma committed:
  assumes ok: "disk_ok w" "manifest w = None" and fr: "fresh g w"
    and st: "stage (fmt cfg) (lim cfg) g (files_of (vmap w |` (- set ex))) = Some (Some r)"
    and w2: "loose w w2" "d = [] \<or> staging w = Some d" "staging w2 = Some (d @ chunks r)"
    and w3: "w3 = w2\<lparr>manifest := Some (Some \<lparr>mgen = g,
        Replaced = filter (\<lambda>n. n \<notin> set ex) (spooled (lane w)), Staged = map fst (chunks r)\<rparr>)\<rparr>"
  shows "swapped cfg g ex w w3"
proof -
  note ch = tail_chunks [OF ok st]
  have frd: "map_of (lane w) n = None \<and> map_of d n = None" if "n \<in> fst ` set (chunks r)" for n
    using ch(3) [OF that] fr w2(2) by (auto simp: fresh_def staged_file_def)
  have v3: "vmap w3 = (vmap w |` set ex) ++ map_of (chunks r)"
    by (rule committed_vmap(1) [OF ok w2(1,3) frd w3])
  have sf: "staged_file w3 n \<noteq> None" if "n \<in> fst ` set (chunks r)" for n
    by (rule committed_vmap(2) [OF ok w2(1,3) frd w3 that])
  have ln: "lane w3 = lane w" "infl w3 = infl w" "main w3 = main w" "net w3 = net w"
    using loose_lane [OF w2(1)] by (simp_all add: w3)
  have disj: "set (map fst (chunks r)) \<inter> set (filter (\<lambda>n. n \<notin> set ex) (spooled (lane w))) = {}"
  proof (rule ccontr)
    assume "set (map fst (chunks r)) \<inter> set (filter (\<lambda>n. n \<notin> set ex) (spooled (lane w))) \<noteq> {}"
    then obtain n where n: "n \<in> fst ` set (chunks r)" "n \<in> dom (vmap w)" using spooled_vmap [OF ok] by auto
    then show False using frd [OF n(1)] ok(2) by (auto simp: vmap_def)
  qed
  have good: "spoolName n \<and> list_all plain ls" if a: "vmap w3 n = Some ls" for n ls
  proof (cases "map_of (chunks r) n")
    case None
    then have "vmap w n = Some ls" using a unfolding v3 by (simp add: map_add_def restrict_map_def split: if_splits)
    then show ?thesis using ok(1) by (auto simp: disk_ok_def)
  next
    case (Some ls')
    then have "(n, ls) \<in> set (chunks r)" using a unfolding v3 by (auto dest: map_of_SomeD)
    then show ?thesis using ch(2) ch(3) [of n] by (force simp: plain_tail_def list_all_iff)
  qed
  have "disk_ok w3"
    unfolding disk_ok_def using ok(1) disj good sf by (simp add: w3 ln [unfolded w3, simplified]) (simp add: disk_ok_def)
  then show ?thesis using st v3 ln by (auto simp: swapped_def)
qed

text \<open>Wherever a compaction stops: what the lane held, or the chunks in the place of the tail.\<close>

lemma keeps_swapped: "swapped cfg g ex w w1 \<Longrightarrow> keeps w1 w2 \<Longrightarrow> swapped cfg g ex w w2"
  by (auto simp: swapped_def keeps_def)

lemma commit_steps:
  assumes ok: "disk_ok w" "manifest w = None" and fr: "fresh g w"
    and st: "stage (fmt cfg) (lim cfg) g (files_of (vmap w |` (- set ex))) = Some (Some r)"
    and w2: "loose w w2" "d = [] \<or> staging w = Some d" "staging w2 = Some (d @ chunks r)"
    and m: "m = \<lparr>mgen = g, Replaced = filter (\<lambda>n. n \<notin> set ex) (spooled (lane w)), Staged = map fst (chunks r)\<rparr>"
    and c: "commit m w2 = (okc, w3)"
  shows "\<not> okc \<and> manifest w3 = None \<and> loose w w3 \<or> swapped cfg g ex w w3 \<and> manifest w3 = Some (Some m)"
  using c unfolding commit_def
proof (cases rule: writeFileE)
  case (before s d)
  then show ?thesis using loose_trans [OF w2(1) script_loose] loose_lane [OF w2(1)] ok(2) by simp
next
  case (after s1 s2 d2)
  let ?w3 = "w2\<lparr>manifest := Some (Some m)\<rparr>"
  have "swapped cfg g ex w ?w3" by (rule committed [OF ok fr st w2]) (simp add: m)
  moreover from this have "disk_ok ?w3" by (auto simp: swapped_def)
  ultimately have "swapped cfg g ex w (?w3\<lparr>script := s2, down := d2\<rparr>)"
    using keeps_swapped keeps_script by blast
  moreover have "w3 = ?w3\<lparr>script := s2, down := d2\<rparr>" using after by simp
  ultimately show ?thesis by simp
qed


lemma swapped_ok: "swapped cfg g ex w w' \<Longrightarrow> disk_ok w'"
  by (auto simp: swapped_def)

lemma keeps_then_swapped:
  assumes "keeps w w1" "swapped cfg g ex w1 w2"
  shows "swapped cfg g ex w w2"
  using assms by (auto simp: swapped_def keeps_def)

lemma compactTail_steps:
  assumes ok: "disk_ok w" "manifest w = None" and fr: "fresh g w"
    and c: "compactTail cfg now free g ex ls w = (res, ls', w')"
  shows "(keeps w w' \<or> swapped cfg g ex w w') \<and> (manifest w' = None \<or> res = None)"
proof -
  obtain ok0 w0 where r0: "fs_op id w = (ok0, w0)" by fastforce
  note k0 = id_keeps [OF r0 ok(1)]
  have ok0': "disk_ok w0" "manifest w0 = None" "fresh g w0"
    using k0 keeps_ok ok(2) fr by (auto simp: fresh_def)
  define tail where "tail = filter (\<lambda>n. n \<notin> set ex) (spooled (lane w0))"
  have tf: "map (\<lambda>n. (n, file_lines (lane w0) n)) tail = files_of (vmap w0 |` (- set ex))"
    unfolding tail_def by (rule tail_files [OF ok0'(1,2)])
  obtain st w1 where r1: "stageFiles cfg g tail w0 = (st, w1)" by fastforce
  note s1 = stageFiles_loose [OF r1, unfolded tf]
  have k00: "keeps w w0" using k0 by blast
  have lk: "keeps w w2 \<and> manifest w2 = None" if "loose w0 w2" for w2
    using keeps_trans [OF k00 loose_keeps [OF that ok0'(1,2)]] loose_lane [OF that] ok0'(2) by simp
  have k1: "keeps w w1" "manifest w1 = None" using lk [OF conjunct1 [OF s1]] by simp_all
  show ?thesis
  proof (cases "st = None \<or> w' = w0 \<and> (manifest w' = None \<or> res = None)")
    case True
    then consider "w' = w0" | "st = None" by blast
    then show ?thesis
    proof cases
      case 1
      then show ?thesis using k0 ok0' by simp
    next
      case 2
      then have "w' = w0 \<or> w' = w1" using c r1 unfolding tail_def
        by (auto simp: compactTail_def r0 Let_def split: if_splits)
      then show ?thesis using k0 k1 ok0' by auto
    qed
  next
    case False
    then obtain m r where st: "st = Some (m, r)" by (cases st) auto
    obtain d where m: "m = \<lparr>mgen = g, Replaced = tail, Staged = map fst (chunks r)\<rparr>"
      "stage (fmt cfg) (lim cfg) g (files_of (vmap w0 |` (- set ex))) = Some (Some r)"
      "d = [] \<or> staging w0 = Some d" "staging w1 = Some (d @ chunks r)" "loose w0 w1"
      using s1 st by auto
    obtain okc w3 where r3: "commit m w1 = (okc, w3)" by fastforce
    note cm = commit_steps [OF ok0' m(2,5,3,4) m(1) [unfolded tail_def] r3]
    obtain ok4 w4 where r4: "rollForward m w3 = (ok4, w4)" by fastforce
    obtain ok5 w5 where r5: "removeStaging w3 = (ok5, w5)" by fastforce
    have e: "w' = w0 \<or> (if \<not> okc then (if manifest w3 = None then w' = w5 else w' = w3 \<and> res = None)
        else w' = w4 \<and> (ok4 \<or> res = None))"
      using c r1 st unfolding tail_def
      by (auto simp: compactTail_def r0 r3 r4 r5 Let_def split: if_splits)
    have cases4: "swapped cfg g ex w w4 \<and> (manifest w4 = None \<or> \<not> ok4)" if "swapped cfg g ex w0 w3" "manifest w3 = Some (Some m)"
      using rollForward_keeps [OF swapped_ok [OF that(1)] that(2) r4] keeps_swapped [OF that(1)]
        keeps_then_swapped [OF k00] by blast
    have cases5: "keeps w w5 \<and> manifest w5 = None" if "loose w0 w3"
      using lk [OF loose_trans [OF that conjunct1 [OF removeStaging_loose [OF r5]]]] .
    from e show ?thesis
    proof
      assume "w' = w0"
      then show ?thesis using k0 ok0' by simp
    next
      assume a: "if \<not> okc then (if manifest w3 = None then w' = w5 else w' = w3 \<and> res = None)
        else w' = w4 \<and> (ok4 \<or> res = None)"
      from cm show ?thesis
      proof
        assume "\<not> okc \<and> manifest w3 = None \<and> loose w0 w3"
        then show ?thesis using a cases5 by simp
      next
        assume s: "swapped cfg g ex w0 w3 \<and> manifest w3 = Some (Some m)"
        then show ?thesis using a cases4 keeps_then_swapped [OF k00] by (cases okc) auto
      qed
    qed
  qed
qed

end
