(* ===== verification/SpoolFaults.thy ===== *)
theory SpoolFaults
  imports SpoolCompact
begin

text \<open>
  Runs in which no operation fails on its own: each is done, or the run ends there.
\<close>

definition calm :: "'m world \<Rightarrow> bool" where
  "calm w \<longleftrightarrow> Fails \<notin> set (script w)"

text \<open>A run of operations keeps a calm script calm, and what is down stays down.\<close>

definition evolves :: "'m world \<Rightarrow> 'm world \<Rightarrow> bool" where
  "evolves w w' \<longleftrightarrow> (calm w \<longrightarrow> calm w') \<and> (down w \<longrightarrow> down w')"

lemma evolves_refl [simp]: "evolves w w"
  by (simp add: evolves_def)

lemma evolves_trans: "evolves w1 w2 \<Longrightarrow> evolves w2 w3 \<Longrightarrow> evolves w1 w3"
  by (auto simp: evolves_def)

lemma fs_op_evolves:
  assumes "fs_op f w = (ok, w')" "\<And>w. script (f w) = script w" "\<And>w. down (f w) = down w"
  shows "evolves w w' \<and> (calm w \<longrightarrow> \<not> ok \<longrightarrow> down w')"
proof (cases "down w")
  case True
  then show ?thesis using assms(1) by (auto simp: fs_op_def)
next
  case False
  show ?thesis
  proof (cases "script w")
    case Nil
    then show ?thesis using assms False by (auto simp: fs_op_def evolves_def calm_def)
  next
    case (Cons x xs)
    then show ?thesis using assms False by (cases x) (auto simp: fs_op_def evolves_def calm_def)
  qed
qed

text \<open>An operation of a calm run is done, or the run is over and nothing was changed.\<close>

lemma fs_op_calm:
  assumes "fs_op f w = (ok, w')" "calm w" "\<And>w. script (f w) = script w" "\<And>w. down (f w) = down w"
  obtains (acts) s where "ok" "w' = f (w\<lparr>script := s\<rparr>)" "calm w'" "\<not> down w"
  | (over) s where "\<not> ok" "w' = w\<lparr>script := s, down := True\<rparr>" "calm w'"
proof (cases "down w")
  case True
  then have "w = w\<lparr>script := script w, down := True\<rparr>" by simp
  then show ?thesis using assms True over [of "script w"] by (simp add: fs_op_def)
next
  case False
  show ?thesis
  proof (cases "script w")
    case Nil
    then have e: "w\<lparr>script := []\<rparr> = w" by simp
    show ?thesis
      by (rule acts [of "[]", unfolded e]) (use assms Nil False in \<open>auto simp: fs_op_def calm_def\<close>)
  next
    case (Cons x xs)
    then show ?thesis using assms False acts [of xs] over [of xs]
      by (cases x) (auto simp: fs_op_def calm_def)
  qed
qed


lemmas evolves_intros = evolves_refl evolves_trans

lemma fs_op_ev:
  "fs_op f w = (ok, w') \<Longrightarrow> (\<And>w. script (f w) = script w) \<Longrightarrow> (\<And>w. down (f w) = down w) \<Longrightarrow> evolves w w'"
  using fs_op_evolves by blast

lemma down_evolves: "evolves w (w\<lparr>down := True\<rparr>)"
  by (simp add: evolves_def calm_def)

lemma writeFile_evolves:
  assumes "writeFile f must w = (ok, w')" "\<And>w. script (f w) = script w" "\<And>w. down (f w) = down w"
  shows "evolves w w' \<and> (calm w \<longrightarrow> \<not> ok \<longrightarrow> down w')"
proof -
  obtain ok1 w1 where r1: "fs_op id w = (ok1, w1)" by fastforce
  obtain ok2 w2 where r2: "fs_op f w1 = (ok2, w2)" by fastforce
  obtain ok3 w3 where r3: "fs_op id w2 = (ok3, w3)" by fastforce
  have e: "(ok, w') = (if \<not> ok1 then (False, w1) else if \<not> ok2 then (False, w2) else (if must then ok3 else True, w3))"
    using assms(1) by (simp add: writeFile_def r1 r2 r3 cong: if_cong)
  note k1 = fs_op_evolves [OF r1] and k2 = fs_op_evolves [OF r2 assms(2,3)] and k3 = fs_op_evolves [OF r3]
  have c1: "evolves w w1" using k1 by simp
  have c2: "evolves w w2" using evolves_trans [OF c1] k2 by blast
  have c3: "evolves w w3" using evolves_trans [OF c2] k3 by simp
  show ?thesis using e c1 c2 c3 k1 k2 k3 by (auto simp: evolves_def split: if_splits)
qed

lemma removeStaging_evolves: "removeStaging w = (ok, w') \<Longrightarrow> evolves w w'"
  unfolding removeStaging_def by (erule fs_op_ev) simp_all

lemma removeManifest_evolves: "removeManifest w = (ok, w') \<Longrightarrow> evolves w w'"
  unfolding removeManifest_def by (erule fs_op_ev) simp_all

lemma id_evolves: "fs_op id w = (ok, w') \<Longrightarrow> evolves w w'"
  by (erule fs_op_ev) simp_all

lemma removeAll_evolves: "removeAll ns w = (ok, w') \<Longrightarrow> evolves w w'"
proof (induction ns arbitrary: w)
  case (Cons n ns)
  obtain ok1 w1 where r1: "fs_op (\<lambda>w. w\<lparr>lane := ddel n (lane w)\<rparr>) w = (ok1, w1)" by fastforce
  have "evolves w w1" by (rule fs_op_ev [OF r1]) simp_all
  then show ?case using Cons r1 evolves_trans by (auto split: if_splits)
qed simp

lemma moveChunk_script: "script (moveChunk n w) = script w" "down (moveChunk n w) = down w"
  by (simp_all add: moveChunk_def split: option.split)

lemma moveAll_evolves: "moveAll ns w = (ok, w') \<Longrightarrow> evolves w w'"
proof (induction ns arbitrary: w)
  case (Cons n ns)
  obtain ok1 w1 where r1: "fs_op (moveChunk n) w = (ok1, w1)" by fastforce
  have "evolves w w1" by (rule fs_op_ev [OF r1]) (simp_all add: moveChunk_script)
  then show ?case using Cons r1 evolves_trans by (auto split: if_splits)
qed simp

lemma abandon_evolves: "abandon m w = (ok, w') \<Longrightarrow> evolves w w'"
proof -
  obtain ok1 w1 where r1: "removeManifest w = (ok1, w1)" by fastforce
  obtain ok2 w2 where r2: "fs_op id w1 = (ok2, w2)" by fastforce
  obtain ok3 w3 where r3: "removeStaging w2 = (ok3, w3)" by fastforce
  have c: "evolves w w1" "evolves w w2" "evolves w w3"
    using removeManifest_evolves [OF r1] id_evolves [OF r2] removeStaging_evolves [OF r3] evolves_trans by blast+
  assume "abandon m w = (ok, w')"
  then have "w' = w \<or> w' = w1 \<or> w' = w2 \<or> w' = w3"
    by (auto simp: abandon_def r1 r2 r3 Let_def split: if_splits)
  then show "evolves w w'" using c by auto
qed

lemma rollForward_evolves:
  assumes "rollForward m w = (ok, w')"
  shows "evolves w w'"
proof -
  obtain ok1 w1 where r1: "removeAll (Replaced m) w = (ok1, w1)" by fastforce
  obtain ok2 w2 where r2: "moveAll (Staged m) w1 = (ok2, w2)" by fastforce
  obtain ok3 w3 where r3: "fs_op id w2 = (ok3, w3)" by fastforce
  obtain ok4 w4 where r4: "removeStaging w3 = (ok4, w4)" by fastforce
  obtain ok5 w5 where r5: "removeManifest w4 = (ok5, w5)" by fastforce
  obtain ok6 w6 where r6: "fs_op id w5 = (ok6, w6)" by fastforce
  obtain ok7 w7 where r7: "abandon m w = (ok7, w7)" by fastforce
  have e: "w' = w7 \<or> w' = w1 \<or> w' = w2 \<or> w' = w3 \<or> w' = w5 \<or> w' = w6"
    using assms by (auto simp: rollForward_def r1 r2 r3 r4 r5 r6 r7 split: if_splits)
  have c1: "evolves w w1" by (rule removeAll_evolves [OF r1])
  have c2: "evolves w w2" by (rule evolves_trans [OF c1 moveAll_evolves [OF r2]])
  have c3: "evolves w w3" by (rule evolves_trans [OF c2 id_evolves [OF r3]])
  have c4: "evolves w w4" by (rule evolves_trans [OF c3 removeStaging_evolves [OF r4]])
  have c5: "evolves w w5" by (rule evolves_trans [OF c4 removeManifest_evolves [OF r5]])
  have c6: "evolves w w6" by (rule evolves_trans [OF c5 id_evolves [OF r6]])
  show ?thesis using e c1 c2 c3 c5 c6 abandon_evolves [OF r7] by blast
qed

lemma recover_evolves:
  assumes "recoverCompaction w = (ok, w')"
  shows "evolves w w'"
proof -
  obtain ok1 w1 where r1: "removeStaging w = (ok1, w1)" by fastforce
  obtain ok2 w2 where r2: "fs_op id w = (ok2, w2)" by fastforce
  obtain ok3 w3 where r3: "removeStaging w2 = (ok3, w3)" by fastforce
  obtain ok4 w4 where r4: "removeManifest w3 = (ok4, w4)" by fastforce
  have c1: "evolves w w1" by (rule removeStaging_evolves [OF r1])
  have c2: "evolves w w2" by (rule id_evolves [OF r2])
  have c4: "evolves w w4"
    by (rule evolves_trans [OF evolves_trans [OF c2 removeStaging_evolves [OF r3]] removeManifest_evolves [OF r4]])
  have "w' = w \<or> w' = w1 \<or> w' = w2 \<or> w' = w4 \<or> (\<exists>m. rollForward m w2 = (ok, w'))"
    using assms by (auto simp: recoverCompaction_def r1 r2 r3 r4 split: if_splits option.splits)
  then show ?thesis using c1 c2 c4 evolves_trans [OF c2 rollForward_evolves] by auto
qed

lemma writeChunks_evolves: "writeChunks fs w = (ok, w') \<Longrightarrow> evolves w w'"
proof (induction fs arbitrary: w)
  case (Cons f fs)
  obtain ok1 w1 where r1: "fs_op (\<lambda>w. w\<lparr>staging := Some ((case staging w of None \<Rightarrow> [] | Some d \<Rightarrow> d) @ [f])\<rparr>) w
      = (ok1, w1)" by fastforce
  have "evolves w w1" by (rule fs_op_ev [OF r1]) simp_all
  then show ?case using Cons r1 evolves_trans by (auto split: if_splits)
qed simp

lemma stageFiles_evolves:
  assumes "stageFiles cfg g tail w = (res, w')"
  shows "evolves w w'"
proof -
  obtain ok1 w1 where r1: "removeStaging w = (ok1, w1)" by fastforce
  obtain ok2 w2 where r2: "fs_op (\<lambda>w. w\<lparr>staging := (if staging w = None then Some [] else staging w)\<rparr>) w1 = (ok2, w2)"
    by fastforce
  obtain st where st: "stage (fmt cfg) (lim cfg) g (map (\<lambda>n. (n, file_lines (lane w2) n)) tail) = st" by blast
  obtain ok3 w3 where r3: "removeStaging w2 = (ok3, w3)" by fastforce
  have c1: "evolves w w1" by (rule removeStaging_evolves [OF r1])
  have "evolves w1 w2" by (rule fs_op_ev [OF r2]) simp_all
  then have c2: "evolves w w2" by (rule evolves_trans [OF c1])
  have c3: "evolves w w3" by (rule evolves_trans [OF c2 removeStaging_evolves [OF r3]])
  have c4: "evolves w (w2\<lparr>down := True\<rparr>)" by (rule evolves_trans [OF c2 down_evolves])
  show ?thesis
  proof (cases "\<exists>r. ok2 \<and> st = Some (Some r)")
    case False
    then have "w' = w2 \<or> w' = w2\<lparr>down := True\<rparr> \<or> w' = w3"
      using assms by (auto simp: stageFiles_def r1 r2 r3 st Let_def split: if_splits option.splits)
    then show ?thesis using c2 c3 c4 by blast
  next
    case True
    then obtain r where r: "st = Some (Some r)" "ok2" by blast
    obtain ok5 w5 where r5: "writeChunks (chunks r) w2 = (ok5, w5)" by fastforce
    obtain ok6 w6 where r6: "fs_op id w5 = (ok6, w6)" by fastforce
    obtain ok7 w7 where r7: "removeStaging w5 = (ok7, w7)" by fastforce
    obtain ok8 w8 where r8: "removeStaging w6 = (ok8, w8)" by fastforce
    have c5: "evolves w w5" by (rule evolves_trans [OF c2 writeChunks_evolves [OF r5]])
    have c6: "evolves w w6" by (rule evolves_trans [OF c5 id_evolves [OF r6]])
    have "w' = w6 \<or> w' = w7 \<or> w' = w8"
      using assms r by (auto simp: stageFiles_def r1 r2 r5 r6 r7 r8 st Let_def split: if_splits)
    then show ?thesis
      using c6 evolves_trans [OF c5 removeStaging_evolves [OF r7]] evolves_trans [OF c6 removeStaging_evolves [OF r8]] by blast
  qed
qed

lemma compactTail_evolves:
  assumes "compactTail cfg t fr g ex ls w = (res, ls', w')"
  shows "evolves w w'"
proof -
  obtain ok0 w0 where r0: "fs_op id w = (ok0, w0)" by fastforce
  define tail where "tail = filter (\<lambda>n. n \<notin> set ex) (spooled (lane w0))"
  obtain st w1 where r1: "stageFiles cfg g tail w0 = (st, w1)" by fastforce
  have c0: "evolves w w0" by (rule id_evolves [OF r0])
  have c1: "evolves w w1" by (rule evolves_trans [OF c0 stageFiles_evolves [OF r1]])
  show ?thesis
  proof (cases st)
    case None
    then have "w' = w0 \<or> w' = w1" using assms r1 unfolding tail_def
      by (auto simp: compactTail_def r0 Let_def split: if_splits)
    then show ?thesis using c0 c1 by blast
  next
    case (Some mr)
    then obtain m r where st: "st = Some (m, r)" by (cases mr) auto
    obtain okc w3 where r3: "commit m w1 = (okc, w3)" by fastforce
    obtain ok4 w4 where r4: "rollForward m w3 = (ok4, w4)" by fastforce
    obtain ok5 w5 where r5: "removeStaging w3 = (ok5, w5)" by fastforce
    have "evolves w1 w3" using writeFile_evolves [OF r3 [unfolded commit_def]] by simp
    then have c3: "evolves w w3" by (rule evolves_trans [OF c1])
    have "w' = w0 \<or> w' = w3 \<or> w' = w4 \<or> w' = w5"
      using assms r1 st unfolding tail_def by (auto simp: compactTail_def r0 r3 r4 r5 Let_def split: if_splits)
    then show ?thesis
      using c0 c3 evolves_trans [OF c3 rollForward_evolves [OF r4]] evolves_trans [OF c3 removeStaging_evolves [OF r5]] by blast
  qed
qed


section \<open>Names\<close>

text \<open>Removing and moving files brings no new name in.\<close>

definition has_name :: "'m world \<Rightarrow> string \<Rightarrow> bool" where
  "has_name w n \<longleftrightarrow> map_of (lane w) n \<noteq> None \<or> staged_file w n \<noteq> None"

definition shrinks :: "'m world \<Rightarrow> 'm world \<Rightarrow> bool" where
  "shrinks w w' \<longleftrightarrow> (\<forall>n. has_name w' n \<longrightarrow> has_name w n)"

lemma fresh_names: "fresh g w \<longleftrightarrow> (\<forall>pre k. \<not> has_name w (chunk_name pre g k))"
  by (auto simp: fresh_def has_name_def)

lemma shrinks_refl [simp]: "shrinks w w"
  by (simp add: shrinks_def)

lemma shrinks_trans: "shrinks w1 w2 \<Longrightarrow> shrinks w2 w3 \<Longrightarrow> shrinks w1 w3"
  by (auto simp: shrinks_def)

lemma shrinks_fresh: "shrinks w w' \<Longrightarrow> fresh g w \<Longrightarrow> fresh g w'"
  by (auto simp: shrinks_def fresh_names)

lemma fs_op_shrinks:
  assumes "fs_op f w = (ok, w')" "\<And>w. shrinks w (f w)"
  shows "shrinks w w'"
  using assms(1)
proof (cases rule: fs_opE)
  case (acts s)
  then show ?thesis using assms(2) [of "w\<lparr>script := s\<rparr>"] by (simp add: shrinks_def has_name_def)
next
  case (stops s d)
  then show ?thesis by (simp add: shrinks_def has_name_def)
qed

lemma ddel_shrinks: "shrinks w (w\<lparr>lane := ddel n (lane w)\<rparr>)"
  by (auto simp: shrinks_def has_name_def map_of_ddel staged_file_def split: if_splits)

lemma moveChunk_shrinks: "shrinks w (moveChunk n w)"
  by (auto simp: shrinks_def has_name_def moveChunk_def staged_file_def map_of_ddel map_of_dput
      split: option.splits if_splits)

lemma removeAll_shrinks: "removeAll ns w = (ok, w') \<Longrightarrow> shrinks w w'"
proof (induction ns arbitrary: w)
  case (Cons n ns)
  obtain ok1 w1 where r1: "fs_op (\<lambda>w. w\<lparr>lane := ddel n (lane w)\<rparr>) w = (ok1, w1)" by fastforce
  have "shrinks w w1" by (rule fs_op_shrinks [OF r1 ddel_shrinks])
  then show ?case using Cons r1 shrinks_trans by (auto split: if_splits)
qed simp

lemma moveAll_shrinks: "moveAll ns w = (ok, w') \<Longrightarrow> shrinks w w'"
proof (induction ns arbitrary: w)
  case (Cons n ns)
  obtain ok1 w1 where r1: "fs_op (moveChunk n) w = (ok1, w1)" by fastforce
  have "shrinks w w1" by (rule fs_op_shrinks [OF r1 moveChunk_shrinks])
  then show ?case using Cons r1 shrinks_trans by (auto split: if_splits)
qed simp

lemma removeStaging_shrinks: "removeStaging w = (ok, w') \<Longrightarrow> shrinks w w'"
  unfolding removeStaging_def by (erule fs_op_shrinks) (simp add: shrinks_def has_name_def staged_file_def)

lemma removeManifest_shrinks: "removeManifest w = (ok, w') \<Longrightarrow> shrinks w w'"
  unfolding removeManifest_def by (erule fs_op_shrinks) (simp add: shrinks_def has_name_def staged_file_def)

lemma id_shrinks: "fs_op id w = (ok, w') \<Longrightarrow> shrinks w w'"
  by (erule fs_op_shrinks) simp

lemma abandon_shrinks: "abandon m w = (ok, w') \<Longrightarrow> shrinks w w'"
proof -
  obtain ok1 w1 where r1: "removeManifest w = (ok1, w1)" by fastforce
  obtain ok2 w2 where r2: "fs_op id w1 = (ok2, w2)" by fastforce
  obtain ok3 w3 where r3: "removeStaging w2 = (ok3, w3)" by fastforce
  have c1: "shrinks w w1" by (rule removeManifest_shrinks [OF r1])
  have c2: "shrinks w w2" by (rule shrinks_trans [OF c1 id_shrinks [OF r2]])
  have c3: "shrinks w w3" by (rule shrinks_trans [OF c2 removeStaging_shrinks [OF r3]])
  assume "abandon m w = (ok, w')"
  then have "w' = w \<or> w' = w1 \<or> w' = w2 \<or> w' = w3"
    by (auto simp: abandon_def r1 r2 r3 Let_def split: if_splits)
  then show "shrinks w w'" using c1 c2 c3 by auto
qed

lemma rollForward_shrinks:
  assumes "rollForward m w = (ok, w')"
  shows "shrinks w w'"
proof -
  obtain ok1 w1 where r1: "removeAll (Replaced m) w = (ok1, w1)" by fastforce
  obtain ok2 w2 where r2: "moveAll (Staged m) w1 = (ok2, w2)" by fastforce
  obtain ok3 w3 where r3: "fs_op id w2 = (ok3, w3)" by fastforce
  obtain ok4 w4 where r4: "removeStaging w3 = (ok4, w4)" by fastforce
  obtain ok5 w5 where r5: "removeManifest w4 = (ok5, w5)" by fastforce
  obtain ok6 w6 where r6: "fs_op id w5 = (ok6, w6)" by fastforce
  obtain ok7 w7 where r7: "abandon m w = (ok7, w7)" by fastforce
  have e: "w' = w7 \<or> w' = w1 \<or> w' = w2 \<or> w' = w3 \<or> w' = w5 \<or> w' = w6"
    using assms by (auto simp: rollForward_def r1 r2 r3 r4 r5 r6 r7 split: if_splits)
  have c1: "shrinks w w1" by (rule removeAll_shrinks [OF r1])
  have c2: "shrinks w w2" by (rule shrinks_trans [OF c1 moveAll_shrinks [OF r2]])
  have c3: "shrinks w w3" by (rule shrinks_trans [OF c2 id_shrinks [OF r3]])
  have c4: "shrinks w w4" by (rule shrinks_trans [OF c3 removeStaging_shrinks [OF r4]])
  have c5: "shrinks w w5" by (rule shrinks_trans [OF c4 removeManifest_shrinks [OF r5]])
  have c6: "shrinks w w6" by (rule shrinks_trans [OF c5 id_shrinks [OF r6]])
  show ?thesis using e c1 c2 c3 c5 c6 abandon_shrinks [OF r7] by blast
qed

lemma recover_shrinks:
  assumes "recoverCompaction w = (ok, w')"
  shows "shrinks w w'"
proof -
  obtain ok1 w1 where r1: "removeStaging w = (ok1, w1)" by fastforce
  obtain ok2 w2 where r2: "fs_op id w = (ok2, w2)" by fastforce
  obtain ok3 w3 where r3: "removeStaging w2 = (ok3, w3)" by fastforce
  obtain ok4 w4 where r4: "removeManifest w3 = (ok4, w4)" by fastforce
  have c1: "shrinks w w1" by (rule removeStaging_shrinks [OF r1])
  have c2: "shrinks w w2" by (rule id_shrinks [OF r2])
  have c4: "shrinks w w4"
    by (rule shrinks_trans [OF shrinks_trans [OF c2 removeStaging_shrinks [OF r3]] removeManifest_shrinks [OF r4]])
  have "w' = w \<or> w' = w1 \<or> w' = w2 \<or> w' = w4 \<or> (\<exists>m. rollForward m w2 = (ok, w'))"
    using assms by (auto simp: recoverCompaction_def r1 r2 r3 r4 split: if_splits option.splits)
  then show ?thesis using c1 c2 c4 shrinks_trans [OF c2 rollForward_shrinks] by auto
qed

end
