(* ===== verification/SpoolShipInv.thy ===== *)
theory SpoolShipInv
  imports SpoolShip SpoolFaults
begin

text \<open>
  The ledger of a lane: what MAIN has been sent and what waits in the lane are together what was
  spooled, wherever a pass stops.  An in-flight batch waits while its first number is past MAIN's cursor.
\<close>

section \<open>Reading the lane\<close>

definition LN :: "laneCfg \<Rightarrow> (string \<Rightarrow> line list option) \<Rightarrow> string \<Rightarrow> line list" where
  "LN cfg m n = (case m n of None \<Rightarrow> [] | Some ls \<Rightarrow> readSpoolFile (fmt cfg) (lim cfg) ls)"

definition LNS :: "laneCfg \<Rightarrow> (string \<Rightarrow> line list option) \<Rightarrow> string list \<Rightarrow> line list" where
  "LNS cfg m ns = concat (map (LN cfg m) ns)"

definition backlog :: "laneCfg \<Rightarrow> (string \<Rightarrow> line list option) \<Rightarrow> line list" where
  "backlog cfg m = lane_lines (fmt cfg) (lim cfg) (files_of m)"

lemma LNS_simps [simp]: "LNS cfg m [] = []" "LNS cfg m (n # ns) = LN cfg m n @ LNS cfg m ns"
  "LNS cfg m (xs @ ys) = LNS cfg m xs @ LNS cfg m ys"
  by (simp_all add: LNS_def)

lemma LNS_cong: "(\<And>n. n \<in> set ns \<Longrightarrow> LN cfg m n = LN cfg m' n) \<Longrightarrow> LNS cfg m ns = LNS cfg m' ns"
  by (induction ns) simp_all

lemma LNS_filter: "(\<And>n. n \<in> set ns \<Longrightarrow> \<not> P n \<Longrightarrow> LN cfg m n = []) \<Longrightarrow> LNS cfg m (filter P ns) = LNS cfg m ns"
  by (induction ns) simp_all

text \<open>The backlog, read along any sorted list of names that has all of its files.\<close>

lemma backlog_along:
  assumes "sorted_wrt (<) ns" "dom m \<subseteq> set ns"
  shows "backlog cfg m = LNS cfg m ns"
proof -
  have fin: "finite (dom m)" using assms(2) by (rule finite_subset) simp
  have d: "distinct ns" "sorted ns" using assms(1) strict_sorted_iff by blast+
  have f: "filter (\<lambda>n. n \<in> dom m) ns = sorted_list_of_set (dom m)"
    by (rule sorted_distinct_set_unique) (use d fin assms(2) in \<open>auto simp: sorted_wrt_filter\<close>)
  have "backlog cfg m = LNS cfg m (sorted_list_of_set (dom m))"
  proof -
    have "readSpoolFile (fmt cfg) (lim cfg) (the (m n)) = LN cfg m n" if "n \<in> set (sorted_list_of_set (dom m))" for n
      using that fin by (auto simp: LN_def)
    then have "map (\<lambda>n. readSpoolFile (fmt cfg) (lim cfg) (the (m n))) (sorted_list_of_set (dom m)) =
        map (LN cfg m) (sorted_list_of_set (dom m))" by simp
    then have "map (\<lambda>f. readSpoolFile (fmt cfg) (lim cfg) (snd f)) (files_of m) = map (LN cfg m) (sorted_list_of_set (dom m))"
      by (simp add: files_of_def comp_def)
    then show ?thesis by (simp only: backlog_def lane_lines_def LNS_def)
  qed
  also have "\<dots> = LNS cfg m (filter (\<lambda>n. n \<in> dom m) ns)" by (simp add: f)
  also have "\<dots> = LNS cfg m ns" by (rule LNS_filter) (simp add: LN_def domIff)
  finally show ?thesis .
qed

lemma backlog_new:
  assumes "finite (dom m)" "\<And>n'. n' \<in> dom m \<Longrightarrow> n' < n"
  shows "backlog cfg (m(n \<mapsto> ls)) = backlog cfg m @ readSpoolFile (fmt cfg) (lim cfg) ls"
proof -
  let ?ns = "sorted_list_of_set (dom m)"
  have s: "sorted_wrt (<) ?ns" "set ?ns = dom m" using assms(1) by simp_all
  have nn: "n \<notin> dom m" using assms(2) by blast
  have "backlog cfg (m(n \<mapsto> ls)) = LNS cfg (m(n \<mapsto> ls)) (?ns @ [n])"
    by (rule backlog_along) (use s assms(2) in \<open>auto simp: sorted_wrt_append\<close>)
  also have "\<dots> = LNS cfg m ?ns @ readSpoolFile (fmt cfg) (lim cfg) ls"
  proof -
    have "LNS cfg (m(n \<mapsto> ls)) ?ns = LNS cfg m ?ns"
      by (rule LNS_cong) (use s nn in \<open>auto simp: LN_def\<close>)
    then show ?thesis by (simp add: LN_def)
  qed
  also have "LNS cfg m ?ns = backlog cfg m" by (rule backlog_along [symmetric]) (simp_all add: s)
  finally show ?thesis .
qed

section \<open>The invariant\<close>

definition pend :: "laneCfg \<Rightarrow> ('m \<Rightarrow> int) \<Rightarrow> 'm world \<Rightarrow> line list" where
  "pend cfg cursor w =
     (case infl w of None \<Rightarrow> []
      | Some fl \<Rightarrow> if First fl > cursor (main w) then LNS cfg (vmap w) (Files fl) else []) @
     backlog cfg (vmap w |` (- set (batch_files (infl w))))"

definition whole :: "laneCfg \<Rightarrow> inflight \<Rightarrow> 'm world \<Rightarrow> bool" where
  "whole cfg fl w \<longleftrightarrow> set (Files fl) \<subseteq> dom (vmap w) \<and> Count fl = len (LNS cfg (vmap w) (Files fl))"

definition next_ok :: "int \<Rightarrow> int \<Rightarrow> bool" where
  "next_ok c n \<longleftrightarrow> n = 0 \<or> n = c + 1"

definition batch_ok :: "laneCfg \<Rightarrow> ('m \<Rightarrow> int) \<Rightarrow> int \<Rightarrow> 'm world \<Rightarrow> bool" where
  "batch_ok cfg cursor n w \<longleftrightarrow>
     (let c = cursor (main w)
      in case infl w of
           None \<Rightarrow> next_ok c n
         | Some fl \<Rightarrow> Files fl \<noteq> [] \<and> Count fl > 0 \<and> First fl \<ge> 1 \<and>
             (whole cfg fl w \<and> First fl = c + 1 \<and> next_ok c n \<or>
              First fl + Count fl = c + 1 \<and> (next_ok c n \<or> n = First fl \<and> whole cfg fl w)))"

text \<open>What it means that MAIN is sent one list instead of another: they are the same, and for a lane that is compacted
  MAIN cannot tell them apart.\<close>

definition delivers :: "laneCfg \<Rightarrow> line list \<Rightarrow> line list \<Rightarrow> bool" where
  "delivers cfg xs ys \<longleftrightarrow> (if laneCompact cfg > 0 then same_effect (fmt cfg) xs ys else xs = ys)"

definition lane_inv ::
  "laneCfg \<Rightarrow> ('m \<Rightarrow> int) \<Rightarrow> ('m \<Rightarrow> line list) \<Rightarrow> line list \<Rightarrow> int \<Rightarrow> 'm world \<Rightarrow> bool"
where
  "lane_inv cfg cursor log pr n w \<longleftrightarrow>
     disk_ok w \<and> calm w \<and> cursor (main w) \<ge> 0 \<and>
     delivers cfg (log (main w) @ pend cfg cursor w) pr \<and>
     batch_ok cfg cursor 0 w \<and> (\<not> down w \<longrightarrow> batch_ok cfg cursor n w)"

text \<open>What MAIN promises: it applies a batch, whole and with its cursor, exactly when it begins behind the cursor.\<close>

definition main_contract :: "('m \<Rightarrow> int \<Rightarrow> line list \<Rightarrow> 'm \<times> reply) \<Rightarrow> ('m \<Rightarrow> int) \<Rightarrow> ('m \<Rightarrow> line list) \<Rightarrow> bool" where
  "main_contract serve cursor log \<longleftrightarrow>
     (\<forall>m first ls. let (m', r) = serve m first ls
        in if first = cursor m + 1
           then m' = m \<and> r = Denied \<or> cursor m' = cursor m + len ls \<and> log m' = log m @ ls \<and> r = Served (cursor m')
           else m' = m \<and> (r = Denied \<or> r = Gap (cursor m + 1)))"


section \<open>The bounds on the backlog keep the ledger\<close>

lemma same_effect_refl [simp]: "same_effect f xs xs"
  by (simp add: same_effect_def)

lemma same_effect_append:
  "same_effect f xs ys \<Longrightarrow> same_effect f (as @ xs @ bs) (as @ ys @ bs)"
  by (simp add: same_effect_def fun_eq_iff)

lemma same_effect_trans: "same_effect f xs ys \<Longrightarrow> same_effect f ys zs \<Longrightarrow> same_effect f xs zs"
  by (simp add: same_effect_def)

lemma delivers_trans: "delivers cfg xs ys \<Longrightarrow> delivers cfg ys zs \<Longrightarrow> delivers cfg xs zs"
  by (auto simp: delivers_def same_effect_def split: if_splits)

lemma delivers_append: "delivers cfg xs ys \<Longrightarrow> delivers cfg (xs @ zs) (ys @ zs)"
  using same_effect_append [of "fmt cfg" xs ys "[]" zs] by (auto simp: delivers_def)

lemma batch_ok_zero: "batch_ok cfg cursor n w \<Longrightarrow> batch_ok cfg cursor 0 w"
  by (auto simp: batch_ok_def Let_def next_ok_def split: option.splits)

lemma same_world:
  assumes "vmap w' = vmap w" "infl w' = infl w" "main w' = main w"
  shows "pend cfg cursor w' = pend cfg cursor w" "batch_ok cfg cursor n w' = batch_ok cfg cursor n w"
    "whole cfg fl w' = whole cfg fl w"
proof -
  show wh: "whole cfg fl w' = whole cfg fl w" for fl by (simp add: whole_def assms)
  show "pend cfg cursor w' = pend cfg cursor w" unfolding pend_def assms by (rule refl)
  show "batch_ok cfg cursor n w' = batch_ok cfg cursor n w" unfolding batch_ok_def assms wh by (rule refl)
qed

lemma keeps_inv:
  assumes "lane_inv cfg cursor log pr n w" "keeps w w'" "evolves w w'"
  shows "lane_inv cfg cursor log pr n w'"
  using assms same_world [of w' w] by (auto simp: lane_inv_def keeps_def evolves_def)

definition pass_fresh :: "string \<Rightarrow> 'm world \<Rightarrow> bool" where
  "pass_fresh g w \<longleftrightarrow> fresh g w \<and> (\<forall>n \<in> set (batch_files (infl w)). \<forall>pre k. n \<noteq> chunk_name pre g k)"

lemma files_of_chunks:
  assumes "disk_ok w" "manifest w = None"
    and st: "stage (fmt cfg) (lim cfg) g (files_of (vmap w |` (- set ex))) = Some (Some r)"
    and "length (chunks r) \<le> 10 ^ 6"
  shows "files_of (map_of (chunks r)) = chunks r"
  using files_of_map_of [of "chunks r"] stage_names(1) [OF st tail_chunks(1) [OF assms(1,2) st]]
    chunk_names_sorted [OF assms(4)] by simp

lemma swapped_inv:
  assumes inv: "lane_inv cfg cursor log pr n w" and mn: "manifest w = None" and lc: "laneCompact cfg > 0"
    and sw: "swapped cfg g (batch_files (infl w)) w w'" and ev: "evolves w w'"
    and fr: "\<forall>n \<in> set (batch_files (infl w)). \<forall>pre k. n \<noteq> chunk_name pre g k"
    and ok: "chunks_ok cfg g (files_of (vmap w |` (- set (batch_files (infl w)))))"
  shows "lane_inv cfg cursor log pr n w'"
proof -
  let ?ex = "batch_files (infl w)"
  have dk: "disk_ok w" using inv by (simp add: lane_inv_def)
  obtain r where st: "stage (fmt cfg) (lim cfg) g (files_of (vmap w |` (- set ?ex))) = Some (Some r)"
    and d: "disk_ok w'" and v: "vmap w' = (vmap w |` set ?ex) ++ map_of (chunks r)"
    and same: "infl w' = infl w" "main w' = main w" using sw unfolding swapped_def by blast
  have c: "length (chunks r) \<le> 10 ^ 6" "list_all (\<lambda>f. short_lines (lim cfg) (snd f)) (chunks r)"
    using ok st by (auto simp: chunks_ok_def)
  have nch: "map_of (chunks r) n = None" if "n \<in> set ?ex" for n
    using tail_chunks(3) [OF dk mn st, of n] fr that by (force simp: map_of_eq_None_iff)
  have vx: "vmap w' n = vmap w n" if "n \<in> set ?ex" for n
    using nch [OF that] that by (simp add: v map_add_def restrict_map_def)
  have rest: "vmap w' |` (- set ?ex) = map_of (chunks r)"
    using nch by (auto simp: v fun_eq_iff restrict_map_def map_add_def split: option.split)
  have eff: "same_effect (fmt cfg) (backlog cfg (vmap w' |` (- set ?ex))) (backlog cfg (vmap w |` (- set ?ex)))"
    unfolding rest backlog_def files_of_chunks [OF dk mn st c(1)]
    by (rule stage_same_effect [OF st tail_chunks(1) [OF dk mn st] c(2)])
  have lns: "LNS cfg (vmap w') (Files fl) = LNS cfg (vmap w) (Files fl)" if "infl w = Some fl" for fl
    by (rule LNS_cong) (use vx that in \<open>simp add: LN_def batch_files_def\<close>)
  have wh: "whole cfg fl w' = whole cfg fl w" if "infl w = Some fl" for fl
    using vx lns [OF that] that unfolding whole_def by (auto simp: batch_files_def)
  have b: "batch_ok cfg cursor k w' = batch_ok cfg cursor k w" for k
    using wh by (simp add: batch_ok_def same split: option.split)
  define waits where "waits = (case infl w of None \<Rightarrow> []
      | Some fl \<Rightarrow> if First fl > cursor (main w) then LNS cfg (vmap w) (Files fl) else [])"
  have "pend cfg cursor w = waits @ backlog cfg (vmap w |` (- set ?ex))"
    by (simp add: pend_def waits_def)
  moreover have "pend cfg cursor w' = waits @ backlog cfg (vmap w' |` (- set ?ex))"
    using lns by (cases "infl w") (simp_all add: pend_def waits_def same)
  ultimately have "delivers cfg (log (main w') @ pend cfg cursor w') (log (main w) @ pend cfg cursor w)"
    using same_effect_append [OF eff, of "log (main w) @ waits" "[]"] lc by (simp add: same delivers_def)
  then show ?thesis
    using inv ev d b same delivers_trans unfolding lane_inv_def evolves_def by metis
qed

lemma housekeep_inv:
  assumes inv: "lane_inv cfg cursor log pr n w" and fl: "fl = infl w" and cap: "laneCap cfg = 0"
    and fr: "pass_fresh (gen e) w" and ok: "chunks_ok cfg (gen e) (files_of (vmap w |` (- set (batch_files (infl w)))))"
    and h: "housekeep cfg e fl ls w = (res, ls', w')"
  shows "lane_inv cfg cursor log pr n w' \<and> evolves w w' \<and> infl w' = infl w \<and> main w' = main w \<and> net w' = net w \<and>
    (res \<longrightarrow> manifest w' = None)"
proof -
  obtain ok1 w1 where r1: "recoverCompaction w = (ok1, w1)" by fastforce
  have dk: "disk_ok w" using inv by (simp add: lane_inv_def)
  note k1 = recover_keeps [OF dk r1] and e1 = recover_evolves [OF r1]
  have inv1: "lane_inv cfg cursor log pr n w1" by (rule keeps_inv [OF inv conjunct1 [OF k1] e1])
  have same1: "vmap w1 = vmap w" "infl w1 = infl w" "main w1 = main w" "net w1 = net w" "disk_ok w1"
    using k1 by (simp_all add: keeps_def)
  show ?thesis
  proof (cases "manifest w1 = None \<and> laneCompact cfg > 0 \<and>
      \<not> (laneCap cfg = 0 \<and> laneCompact cfg = 0 \<or> now e - checked ls < HousekeepEvery)")
    case False
    then have "w' = w1 \<and> (res \<longrightarrow> manifest w1 = None)"
      using h cap k1 by (auto simp: housekeep_def r1 Let_def split: if_splits)
    then show ?thesis using inv1 same1 e1 by simp
  next
    case True
    obtain cr ls2 w2 where r2: "compactTail cfg (now e) (free e) (gen e) (batch_files fl) (ls\<lparr>checked := now e\<rparr>) w1
        = (cr, ls2, w2)" by (metis prod_cases3)
    have fr1: "fresh (gen e) w1" using shrinks_fresh [OF recover_shrinks [OF r1]] fr by (simp add: pass_fresh_def)
    have s2: "(keeps w1 w2 \<or> swapped cfg (gen e) (batch_files fl) w1 w2) \<and> (manifest w2 = None \<or> cr = None)"
      by (rule compactTail_steps [OF same1(5) _ fr1 r2]) (use True in simp)
    have e2: "evolves w1 w2" by (rule compactTail_evolves [OF r2])
    have w': "w' = w2" "res = (\<not> (cr = None \<and> manifest w2 \<noteq> None))"
      using h True cap by (auto simp: housekeep_def r1 r2 Let_def split: if_splits)
    have "lane_inv cfg cursor log pr n w2 \<and> infl w2 = infl w1 \<and> main w2 = main w1 \<and> net w2 = net w1"
    proof (cases "keeps w1 w2")
      case True
      then show ?thesis using keeps_inv [OF inv1 True e2] by (simp add: keeps_def)
    next
      case False
      then have sw: "swapped cfg (gen e) (batch_files (infl w1)) w1 w2" using s2 fl same1 by simp
      have "lane_inv cfg cursor log pr n w2"
        by (rule swapped_inv [OF inv1 _ _ sw e2]) (use True fr ok same1 in \<open>simp_all add: pass_fresh_def\<close>)
      then show ?thesis using sw by (auto simp: swapped_def)
    qed
    then show ?thesis using w' s2 evolves_trans [OF e1 e2] same1 by auto
  qed
qed

end
