(* ===== verification/SpoolSend.thy ===== *)
theory SpoolSend
  imports SpoolShipInv
begin

text \<open>
  A pass keeps the ledger: recording a batch, sending it, and removing it once MAIN has it.
\<close>

lemma vmap_other [simp]:
  "vmap (w\<lparr>infl := fl\<rparr>) = vmap w" "vmap (w\<lparr>net := nt\<rparr>) = vmap w" "vmap (w\<lparr>main := m\<rparr>) = vmap w"
  by (simp_all add: vmap_def staged_file_def fun_eq_iff split: option.split)

lemma disk_ok_other [simp]:
  "disk_ok (w\<lparr>infl := fl\<rparr>) = disk_ok w" "disk_ok (w\<lparr>net := nt\<rparr>) = disk_ok w" "disk_ok (w\<lparr>main := m\<rparr>) = disk_ok w"
  by (simp_all add: disk_ok_def staged_file_def)

section \<open>Removing files\<close>

text \<open>\<open>w'\<close> is \<open>w\<close> with some files of the lane gone, none of them committed to a compaction.\<close>

definition thinned :: "'m world \<Rightarrow> 'm world \<Rightarrow> bool" where
  "thinned w w' \<longleftrightarrow> disk_ok w' \<and> calm w' \<and> manifest w' = None \<and> infl w' = infl w \<and> main w' = main w \<and> net w' = net w \<and>
     (down w \<longrightarrow> down w') \<and> (\<forall>n. vmap w' n = None \<or> vmap w' n = vmap w n)"

lemma thinned_refl: "disk_ok w \<Longrightarrow> calm w \<Longrightarrow> manifest w = None \<Longrightarrow> thinned w w"
  by (simp add: thinned_def)

lemma thinned_trans: "thinned w1 w2 \<Longrightarrow> thinned w2 w3 \<Longrightarrow> thinned w1 w3"
  unfolding thinned_def by metis

lemma del_step:
  assumes "fs_op (\<lambda>w. w\<lparr>lane := ddel n (lane w)\<rparr>) w = (ok, w')" "disk_ok w" "calm w" "manifest w = None"
  shows "thinned w w' \<and> (\<forall>n'. n' \<noteq> n \<longrightarrow> vmap w' n' = vmap w n') \<and> (\<not> down w' \<longrightarrow> vmap w' n = None)"
proof (cases rule: fs_op_calm [OF assms(1,3), case_names s d acts over])
  case (acts s)
  have v: "vmap w' = (vmap w)(n := None)" using acts(2) assms(4) by (simp add: vmap_def map_of_ddel)
  have "disk_ok w'"
    using assms(2,4) v unfolding acts(2) disk_ok_def
    by (auto simp: distinct_ddel simp del: distinct_map split: if_splits)
  then show ?thesis using v acts assms(4) by (simp add: thinned_def)
next
  case (over s)
  then show ?thesis using assms(2,4) by (simp add: thinned_def)
qed simp_all

lemma thinnedD:
  "thinned w w' \<Longrightarrow> disk_ok w' \<and> calm w' \<and> manifest w' = None \<and> infl w' = infl w \<and> main w' = main w"
  by (simp add: thinned_def)

lemma removeFiles_thinned:
  assumes "disk_ok w" "calm w" "manifest w = None"
  shows "thinned w (removeFiles ns w) \<and> (\<forall>n. n \<notin> set ns \<longrightarrow> vmap (removeFiles ns w) n = vmap w n) \<and>
    (\<not> down (removeFiles ns w) \<longrightarrow> (\<forall>n \<in> set ns. vmap (removeFiles ns w) n = None))"
  using assms
proof (induction ns arbitrary: w)
  case Nil
  then show ?case by (simp add: thinned_refl)
next
  case (Cons n ns)
  obtain ok1 w1 where r1: "fs_op (\<lambda>w. w\<lparr>lane := ddel n (lane w)\<rparr>) w = (ok1, w1)" by fastforce
  note s1 = del_step [OF r1 Cons.prems]
  have t1: "disk_ok w1" "calm w1" "manifest w1 = None" using s1 thinnedD by blast+
  note ih = Cons.IH [OF t1]
  have e: "removeFiles (n # ns) w = removeFiles ns w1" by (simp add: r1)
  have "vmap (removeFiles ns w1) n = None" if "\<not> down (removeFiles ns w1)"
  proof -
    have "\<not> down w1" using ih that by (auto simp: thinned_def)
    then have "vmap w1 n = None" using s1 by blast
    moreover have "vmap (removeFiles ns w1) n = None \<or> vmap (removeFiles ns w1) n = vmap w1 n"
      using ih unfolding thinned_def by blast
    ultimately show ?thesis by auto
  qed
  then show ?case unfolding e using ih s1 thinned_trans by auto
qed

lemma backlog_cong:
  assumes "finite (dom m)" "finite (dom m')" "\<And>n. LN cfg m' n = LN cfg m n"
  shows "backlog cfg m' = backlog cfg m"
proof -
  let ?ns = "sorted_list_of_set (dom m \<union> dom m')"
  have s: "sorted_wrt (<) ?ns" "set ?ns = dom m \<union> dom m'" using assms by simp_all
  have "backlog cfg m' = LNS cfg m' ?ns" by (rule backlog_along) (use s in auto)
  also have "\<dots> = LNS cfg m ?ns" by (rule LNS_cong) (rule assms(3))
  also have "\<dots> = backlog cfg m" by (rule backlog_along [symmetric]) (use s in auto)
  finally show ?thesis .
qed

lemma finite_vmap: "manifest w = None \<Longrightarrow> finite (dom (vmap w))"
  by (simp add: vmap_def finite_dom_map_of)

text \<open>Finishing a batch MAIN has applied, whether or not it is finished to the end.\<close>

lemma finish_inv:
  assumes ok: "disk_ok w" "calm w" "manifest w = None" and c: "cursor (main w) = c" "c \<ge> 0"
    and i: "infl w = Some fl" "Files fl \<noteq> []" "Count fl > 0" "First fl \<ge> 1" "First fl + Count fl = c + 1"
    and led: "delivers cfg (log (main w) @ pend cfg cursor w) pr"
    and ns: "ns = Files fl"
  shows "lane_inv cfg cursor log pr (c + 1) (snd (fs_op (\<lambda>w. w\<lparr>infl := None\<rparr>) (removeFiles ns w)))"
proof -
  define w1 where "w1 = removeFiles ns w"
  have r: "thinned w w1" "\<And>n. n \<notin> set ns \<Longrightarrow> vmap w1 n = vmap w n" "\<not> down w1 \<Longrightarrow> n \<in> set ns \<Longrightarrow> vmap w1 n = None" for n
    using removeFiles_thinned [OF ok, of ns] by (auto simp: w1_def)
  note t = thinnedD [OF r(1)]
  have na: "\<not> First fl > c" using i by simp
  have p0: "pend cfg cursor w = backlog cfg (vmap w |` (- set ns))"
    using na by (simp add: pend_def i(1) c(1) batch_files_def ns)
  have rest: "vmap w1 |` (- set ns) = vmap w |` (- set ns)" using r(2) by (auto simp: restrict_map_def)
  obtain okw w2 where r2: "fs_op (\<lambda>w. w\<lparr>infl := None\<rparr>) w1 = (okw, w2)" by fastforce
  have "lane_inv cfg cursor log pr (c + 1) w2"
  proof (cases rule: fs_op_calm [OF r2 conjunct1 [OF conjunct2 [OF t]], case_names s d acts over])
    case (acts s)
    have v: "vmap w2 = vmap w1" using acts(2) by simp
    have "vmap w1 |` (- {}) = vmap w1 |` (- set ns)" using r(3) acts(4) by (auto simp: restrict_map_def fun_eq_iff)
    then have "pend cfg cursor w2 = pend cfg cursor w"
      using p0 rest acts(2) by (simp add: pend_def v batch_files_def)
    moreover have "disk_ok w2" using t acts(2) by simp
    moreover have "main w2 = main w" "infl w2 = None" using acts(2) t by simp_all
    ultimately show ?thesis using acts led c by (simp add: lane_inv_def batch_ok_def next_ok_def)
  next
    case (over s)
    have v: "vmap w2 = vmap w1" using over(2) by simp
    have same: "infl w2 = Some fl" "main w2 = main w" "down w2" using over(2) t i(1) by simp_all
    have "pend cfg cursor w2 = pend cfg cursor w"
      unfolding p0 using na rest by (simp add: pend_def v same c batch_files_def ns)
    moreover have "disk_ok w2" using t over(2) by simp
    ultimately show ?thesis using over led c i same by (simp add: lane_inv_def batch_ok_def next_ok_def)
  qed simp_all
  then show ?thesis using r2 by (simp add: w1_def)
qed

section \<open>Down\<close>

lemma fs_op_down: "down w \<Longrightarrow> fs_op f w = (False, w)"
  by (simp add: fs_op_def)

lemma removeFiles_down: "down w \<Longrightarrow> removeFiles ns w = w"
  by (induction ns) (simp_all add: fs_op_down)

lemma finish_down: "down w \<Longrightarrow> finish fl w = w"
  by (simp add: finish_def removeFiles_down fs_op_down)

lemma attempts_down: "down w \<Longrightarrow> attempts serve k fl next events w = ((next, False, True), w)"
  by (cases k) (simp_all add: call_def)

lemma saveInflight_down: "down w \<Longrightarrow> saveInflight fl w = (False, w)"
  by (simp add: saveInflight_def writeFile_def fs_op_down)

lemma sendBatch_down: "down w \<Longrightarrow> \<exists>r. sendBatch cfg serve fl next w = ((next, r), w)"
  by (auto simp: sendBatch_def attempts_down finish_down Let_def)


section \<open>Sending the recorded batch\<close>

lemma readBatch_LNS: "manifest w = None \<Longrightarrow> readBatch cfg files w = LNS cfg (vmap w) files"
  by (induction files) (auto simp: readBatch_def vmap_def LN_def file_lines_def readSpoolFile_def eachLine_def split: option.split)

text \<open>MAIN has applied the batch; the agent may not know yet.\<close>

lemma applied_inv:
  assumes inv: "lane_inv cfg cursor log pr n w" and i: "infl w = Some fl" "whole cfg fl w" "n = First fl"
    and un: "First fl = cursor (main w) + 1"
    and m: "cursor m = cursor (main w) + Count fl" "log m = log (main w) @ LNS cfg (vmap w) (Files fl)"
  shows "lane_inv cfg cursor log pr n (w\<lparr>net := nt, main := m\<rparr>)"
proof -
  have b: "Files fl \<noteq> []" "Count fl > 0" "First fl \<ge> 1"
    using inv i(1) by (simp_all add: lane_inv_def batch_ok_def Let_def)
  have "pend cfg cursor w = LNS cfg (vmap w) (Files fl) @ backlog cfg (vmap w |` (- set (Files fl)))"
    using un by (simp add: pend_def i batch_files_def)
  moreover have "pend cfg cursor (w\<lparr>net := nt, main := m\<rparr>) = backlog cfg (vmap w |` (- set (Files fl)))"
    using un m(1) b by (simp add: pend_def i batch_files_def)
  moreover have "whole cfg fl (w\<lparr>net := nt, main := m\<rparr>)" using i(2) by (simp add: whole_def)
  ultimately show ?thesis
    using inv b un m by (simp add: lane_inv_def batch_ok_def i next_ok_def calm_def)
qed

lemma net_inv: "lane_inv cfg cursor log pr n w \<Longrightarrow> lane_inv cfg cursor log pr n (w\<lparr>net := nt\<rparr>)"
  using same_world [of "w\<lparr>net := nt\<rparr>" w] by (simp add: lane_inv_def calm_def)

lemma finish_lane_inv:
  assumes inv: "lane_inv cfg cursor log pr n w" and mn: "manifest w = None" and i: "infl w = Some fl"
    and ap: "First fl + Count fl = cursor (main w) + 1" and fs: "Files fl' = Files fl"
  shows "lane_inv cfg cursor log pr (cursor (main w) + 1) (finish fl' w)"
  using finish_inv [of w cursor "cursor (main w)" fl cfg log pr "Files fl'"] inv mn i ap fs
  by (auto simp: lane_inv_def batch_ok_def Let_def finish_def)

definition next_after :: "int \<Rightarrow> int \<Rightarrow> int" where
  "next_after n next = (if n > 0 then n else next)"

lemma callE:
  assumes "\<not> down w" "serve (main w) first events = (m, r)" "call serve first events w = (ro, w')"
  obtains (lost) nt where "ro = None" "w' = w\<lparr>net := nt\<rparr>"
  | (no_reply) nt where "ro = None" "w' = w\<lparr>net := nt, main := m\<rparr>"
  | (answered) nt where "ro = Some r" "w' = w\<lparr>net := nt, main := m\<rparr>"
proof (cases "net w")
  case Nil
  then show ?thesis using assms answered [of "tl (net w)"] by (simp add: call_def)
next
  case (Cons x xs)
  then show ?thesis using assms lost [of xs] no_reply [of xs] answered [of xs] by (cases x) (simp_all add: call_def)
qed

lemma main_contractD:
  assumes "main_contract serve cursor log" "serve m first ls = (m', r)"
  shows "first = cursor m + 1 \<Longrightarrow> m' = m \<and> r = Denied \<or>
      cursor m' = cursor m + len ls \<and> log m' = log m @ ls \<and> r = Served (cursor m')"
    "first \<noteq> cursor m + 1 \<Longrightarrow> m' = m \<and> (r = Denied \<or> r = Gap (cursor m + 1))"
  using assms(1) [unfolded main_contract_def, THEN spec, THEN spec, THEN spec, of m first ls] assms(2)
  by (simp_all add: Let_def)

lemma attempts_inv:
  assumes inv: "lane_inv cfg cursor log pr next w" and mn: "manifest w = None"
    and i: "infl w = Some fl" "whole cfg fl w" "next = First fl"
    and mc: "main_contract serve cursor log" and ev: "events = LNS cfg (vmap w) (Files fl)"
    and a: "attempts serve (Suc k) fl next events w = ((n', sv, er), w')"
  shows "lane_inv cfg cursor log pr (next_after n' next) w' \<and> n' \<ge> 0"
proof (cases "down w")
  case True
  then have "w' = w \<and> n' = next" using a by (simp add: attempts_down del: attempts.simps)
  moreover have "next \<ge> 1" using inv i by (simp add: lane_inv_def batch_ok_def Let_def)
  ultimately show ?thesis using inv by (simp add: next_after_def)
next
  case up: False
  let ?c = "cursor (main w)"
  have b: "Count fl > 0" "First fl \<ge> 1" "?c \<ge> 0" "First fl = ?c + 1 \<or> First fl + Count fl = ?c + 1"
    using inv i(1) up by (auto simp: lane_inv_def batch_ok_def Let_def)
  have cnt: "len events = Count fl" using i(2) ev by (simp add: whole_def)
  obtain m r where s: "serve (main w) (First fl) events = (m, r)" by fastforce
  obtain ro w1 where cl: "call serve (First fl) events w = (ro, w1)" by fastforce
  have af: "ro = None \<or> ro = Some Denied \<Longrightarrow> n' = next \<and> w' = w1"
    "ro = Some (Served u) \<Longrightarrow> n' = max (First fl + Count fl) (u + 1) \<and> w' = finish fl w1"
    "ro = Some (Gap x) \<Longrightarrow> 0 < x \<Longrightarrow> x > First fl + Count fl - 1 \<Longrightarrow> n' = x \<and> w' = finish fl w1" for u x
    using a cl by auto
  have nn: "next_after next next = next" "next \<ge> 0" using b i by (simp_all add: next_after_def)
  have mm: "w\<lparr>net := nt, main := main w\<rparr> = w\<lparr>net := nt\<rparr>" for nt by simp
  note keep = net_inv [OF inv]
  show ?thesis
  proof (cases "First fl = ?c + 1")
    case True
    have r: "m = main w \<and> r = Denied \<or> cursor m = ?c + Count fl \<and> log m = log (main w) @ events \<and> r = Served (cursor m)"
      using main_contractD(1) [OF mc s True] cnt by simp
    have inv2: "lane_inv cfg cursor log pr next (w\<lparr>net := nt, main := m\<rparr>)" for nt
      using r applied_inv [OF inv i True, of m nt] keep [of nt] ev mm [of nt] by auto
    show ?thesis
      using up s cl
    proof (cases rule: callE)
      case (lost nt)
      then show ?thesis using af(1) keep nn by simp
    next
      case (no_reply nt)
      then show ?thesis using af(1) inv2 nn by simp
    next
      case (answered nt)
      show ?thesis
      proof (cases "r = Denied")
        case True
        then show ?thesis using answered af(1) inv2 nn by simp
      next
        case False
        then have c: "cursor m = ?c + Count fl" "r = Served (cursor m)" using r by auto
        have "lane_inv cfg cursor log pr (cursor m + 1) (finish fl w1)"
          using finish_lane_inv [OF inv2 [of nt], of fl fl] mn i(1) True c answered by simp
        then show ?thesis using answered af(2) [of "cursor m"] c True b by (simp add: next_after_def algebra_simps)
      qed
    qed
  next
    case False
    then have apd: "First fl + Count fl = ?c + 1" using b by simp
    have r: "m = main w" "r = Denied \<or> r = Gap (?c + 1)"
      using main_contractD(2) [OF mc s False] by simp_all
    have inv2: "lane_inv cfg cursor log pr next (w\<lparr>net := nt, main := m\<rparr>)" for nt
      using keep [of nt] mm [of nt] r(1) by simp
    show ?thesis
      using up s cl
    proof (cases rule: callE)
      case (lost nt)
      then show ?thesis using af(1) keep nn by simp
    next
      case (no_reply nt)
      then show ?thesis using af(1) inv2 nn by simp
    next
      case (answered nt)
      show ?thesis
      proof (cases "r = Denied")
        case True
        then show ?thesis using answered af(1) inv2 nn by simp
      next
        case False
        have "lane_inv cfg cursor log pr (?c + 1) (finish fl w1)"
          using finish_lane_inv [OF inv2 [of nt], of fl fl] mn i(1) apd r(1) answered by simp
        then show ?thesis using answered af(3) [of "?c + 1"] False r apd b by (simp add: next_after_def)
      qed
    qed
  qed
qed

lemma sendBatch_inv:
  assumes inv: "lane_inv cfg cursor log pr next w" and mn: "manifest w = None"
    and i: "infl w = Some fl" "whole cfg fl w" "next = First fl" and mc: "main_contract serve cursor log"
    and a: "sendBatch cfg serve fl next w = ((n', sv, er), w')"
  shows "lane_inv cfg cursor log pr (next_after n' next) w' \<and> n' \<ge> 0"
proof -
  have e: "readBatch cfg (Files fl) w = LNS cfg (vmap w) (Files fl)" by (rule readBatch_LNS [OF mn])
  have "attempts serve (Suc 2) fl next (LNS cfg (vmap w) (Files fl)) w = ((n', sv, er), w')"
    using a i(2) by (simp add: sendBatch_def e whole_def numeral_3_eq_3 Let_def del: attempts.simps)
  from attempts_inv [OF inv mn i mc refl this] show ?thesis .
qed

section \<open>Collecting a batch\<close>

lemma collect_files:
  assumes "disk_ok w" "calm w" "manifest w = None"
    and "collect cfg ns files events sz w = (files', events', w')"
  shows "thinned w w' \<and> (\<forall>n. LN cfg (vmap w') n = LN cfg (vmap w) n) \<and>
    (\<exists>ns1 ns2. ns = ns1 @ ns2 \<and> files' = files @ filter (\<lambda>n. LN cfg (vmap w) n \<noteq> []) ns1 \<and>
       events' = events @ LNS cfg (vmap w) ns1)"
  using assms
proof (induction ns arbitrary: files events sz w)
  case Nil
  then show ?case by (simp add: thinned_refl)
next
  case (Cons n ns)
  have ln: "readSpoolFile (fmt cfg) (lim cfg) (file_lines (lane w) n) = LN cfg (vmap w) n"
    using Cons.prems(3) by (simp add: LN_def vmap_def file_lines_def readSpoolFile_def eachLine_def split: option.split)
  show ?case
  proof (cases "LN cfg (vmap w) n = []")
    case True
    obtain ok1 w1 where r1: "fs_op (\<lambda>w. w\<lparr>lane := ddel n (lane w)\<rparr>) w = (ok1, w1)" by fastforce
    note s1 = del_step [OF r1 Cons.prems(1-3)]
    have t1: "disk_ok w1" "calm w1" "manifest w1 = None" using s1 thinnedD by blast+
    have L: "LN cfg (vmap w1) n' = LN cfg (vmap w) n'" for n'
    proof (cases "n' = n")
      case True
      have "vmap w1 n = None \<or> vmap w1 n = vmap w n" using s1 by (auto simp: thinned_def)
      then show ?thesis using True \<open>LN cfg (vmap w) n = []\<close> by (auto simp: LN_def)
    qed (use s1 in \<open>simp add: LN_def\<close>)
    have "collect cfg ns files events sz w1 = (files', events', w')" using Cons.prems(4) True ln r1 by simp
    note ih = Cons.IH [OF t1 this]
    have "filter (\<lambda>n. LN cfg (vmap w1) n \<noteq> []) ns1 = filter (\<lambda>n. LN cfg (vmap w) n \<noteq> []) (n # ns1)" for ns1
      using True by (simp add: L)
    moreover have "LNS cfg (vmap w1) ns1 = LNS cfg (vmap w) (n # ns1)" for ns1
      using True LNS_cong [of ns1 cfg "vmap w1" "vmap w"] by (simp add: L)
    moreover obtain ns1 ns2 where "ns = ns1 @ ns2" "files' = files @ filter (\<lambda>n. LN cfg (vmap w1) n \<noteq> []) ns1"
      "events' = events @ LNS cfg (vmap w1) ns1" using ih by blast
    ultimately have ex: "n # ns = (n # ns1) @ ns2 \<and> files' = files @ filter (\<lambda>n. LN cfg (vmap w) n \<noteq> []) (n # ns1) \<and>
        events' = events @ LNS cfg (vmap w) (n # ns1)" by simp
    have "thinned w w'" using thinned_trans [OF conjunct1 [OF s1] conjunct1 [OF ih]] .
    moreover have "\<forall>n. LN cfg (vmap w') n = LN cfg (vmap w) n" using conjunct1 [OF conjunct2 [OF ih]] L by simp
    ultimately show ?thesis using ex by blast
  next
    case False
    show ?thesis
    proof (cases "files \<noteq> [] \<and> (len events + len (LN cfg (vmap w) n) > MaxBatchEvents (lim cfg) \<or>
        sz + file_size (file_lines (lane w) n) > MaxBatchBytes (lim cfg))")
      case True
      then have "files' = files \<and> events' = events \<and> w' = w" using Cons.prems(4) False ln by (simp add: Let_def)
      then show ?thesis using thinned_refl [OF Cons.prems(1-3)]
        by (intro conjI exI [of _ "[]"] exI [of _ "n # ns"]) simp_all
    next
      case go: False
      have "collect cfg ns (files @ [n]) (events @ LN cfg (vmap w) n) (sz + file_size (file_lines (lane w) n)) w = (files', events', w')"
        using Cons.prems(4) False go ln by (simp add: Let_def)
      note ih = Cons.IH [OF Cons.prems(1-3) this]
      then obtain ns1 ns2 where "ns = ns1 @ ns2" "files' = (files @ [n]) @ filter (\<lambda>n. LN cfg (vmap w) n \<noteq> []) ns1"
        "events' = (events @ LN cfg (vmap w) n) @ LNS cfg (vmap w) ns1" by blast
      then have "n # ns = (n # ns1) @ ns2 \<and> files' = files @ filter (\<lambda>n. LN cfg (vmap w) n \<noteq> []) (n # ns1) \<and>
          events' = events @ LNS cfg (vmap w) (n # ns1)" using False by simp
      then show ?thesis using conjunct1 [OF ih] conjunct1 [OF conjunct2 [OF ih]] by blast
    qed
  qed
qed

end
