(* ===== verification/SpoolPass.thy ===== *)
theory SpoolPass
  imports SpoolSend
begin

text \<open>
  A whole pass of the loop, and the runs of a lane: files spooled, passes, hellos, and restarts of the agent
  at any point.
\<close>

section \<open>One pass\<close>

text \<open>The number a pass begins with: MAIN's next one, as far as the agent knows.\<close>

definition inv_next :: "laneCfg \<Rightarrow> ('m \<Rightarrow> int) \<Rightarrow> ('m \<Rightarrow> line list) \<Rightarrow> line list \<Rightarrow> int \<Rightarrow> 'm world \<Rightarrow> bool" where
  "inv_next cfg cursor log pr n w \<longleftrightarrow> lane_inv cfg cursor log pr n w \<and> n \<ge> 1"

lemma loadInflight_inv:
  assumes inv: "lane_inv cfg cursor log pr n w" and l: "loadInflight w = (lo, w')"
  shows "lane_inv cfg cursor log pr n w' \<and> keeps w w' \<and> evolves w w' \<and> shrinks w w' \<and> (lo = None \<or> lo = Some (infl w))"
proof -
  obtain ok1 w1 where r1: "fs_op id w = (ok1, w1)" by fastforce
  have "disk_ok w" using inv by (simp add: lane_inv_def)
  note k1 = id_keeps [OF r1 this] and e1 = id_evolves [OF r1] and s1 = id_shrinks [OF r1]
  have "w' = w1 \<and> (lo = None \<or> lo = Some (infl w))"
  proof (cases "infl w")
    case None
    then show ?thesis using l k1 r1 by (auto simp: loadInflight_def keeps_def split: if_splits)
  next
    case (Some fl)
    then have "\<not> First fl < 1" "Files fl \<noteq> []" using inv by (simp_all add: lane_inv_def batch_ok_def Let_def)
    then show ?thesis using l k1 r1 Some by (auto simp: loadInflight_def keeps_def split: if_splits)
  qed
  then show ?thesis using k1 e1 s1 keeps_inv [OF inv] by blast
qed

text \<open>Recording the batch that was collected.\<close>

lemma recorded_inv:
  assumes inv: "lane_inv cfg cursor log pr n w" and up: "n = cursor (main w) + 1" and mn: "manifest w = None"
    and i: "infl w = None" and fs: "dom (vmap w) \<subseteq> set (ns1 @ ns2)" "sorted_wrt (<) (ns1 @ ns2)"
    and files: "files = filter (\<lambda>n. LN cfg (vmap w) n \<noteq> []) ns1" and ev: "events = LNS cfg (vmap w) ns1" "events \<noteq> []"
    and sv: "saveInflight \<lparr>First = n, Count = len events, Files = files\<rparr> w = (ok, w')"
  shows "lane_inv cfg cursor log pr n w' \<and> manifest w' = None \<and> main w' = main w \<and>
    (ok \<longrightarrow> infl w' = Some \<lparr>First = n, Count = len events, Files = files\<rparr> \<and>
       whole cfg \<lparr>First = n, Count = len events, Files = files\<rparr> w')"
proof -
  let ?fl = "\<lparr>First = n, Count = len events, Files = files\<rparr>"
  have evf: "events = LNS cfg (vmap w) files"
    unfolding ev files by (rule LNS_filter [symmetric]) simp
  have fsub: "set files \<subseteq> dom (vmap w)" by (auto simp: files LN_def split: option.splits)
  have calm: "calm w" and dk: "disk_ok w" and c: "cursor (main w) \<ge> 0" using inv by (simp_all add: lane_inv_def)
  have p0: "pend cfg cursor w = LNS cfg (vmap w) ns1 @ LNS cfg (vmap w) ns2"
    using backlog_along [OF fs(2,1)] by (simp add: pend_def i batch_files_def restrict_map_def)
  have rest: "backlog cfg (vmap w |` (- set files)) = LNS cfg (vmap w) ns2"
  proof -
    have "backlog cfg (vmap w |` (- set files)) = LNS cfg (vmap w |` (- set files)) (ns1 @ ns2)"
      by (rule backlog_along [OF fs(2)]) (use fs(1) in auto)
    moreover have "LNS cfg (vmap w |` (- set files)) ns1 = LNS cfg (vmap w) []"
      unfolding LNS_def using files by (auto simp: LN_def restrict_map_def)
    moreover have "LNS cfg (vmap w |` (- set files)) ns2 = LNS cfg (vmap w) ns2"
    proof (rule LNS_cong)
      fix k assume "k \<in> set ns2"
      then have "k \<notin> set files" using fs(2) files by (force simp: sorted_wrt_append)
      then show "LN cfg (vmap w |` (- set files)) k = LN cfg (vmap w) k" by (simp add: LN_def)
    qed
    ultimately show ?thesis by simp
  qed
  have wh: "whole cfg ?fl w" using fsub evf by (simp add: whole_def)
  have nf: "files \<noteq> []" using evf ev(2) by auto
  have pos: "0 < len events" using ev(2) by (simp add: len_gt_0)
  have rec: "lane_inv cfg cursor log pr n (w\<lparr>infl := Some ?fl\<rparr>)"
  proof -
    have "pend cfg cursor (w\<lparr>infl := Some ?fl\<rparr>) = pend cfg cursor w"
      using p0 rest evf ev up by (simp add: pend_def batch_files_def)
    moreover have "whole cfg ?fl (w\<lparr>infl := Some ?fl\<rparr>)" using wh by (simp add: whole_def)
    ultimately show ?thesis using inv up nf pos c by (simp add: lane_inv_def batch_ok_def next_ok_def calm_def)
  qed
  have sc: "lane_inv cfg cursor log pr n (w1\<lparr>script := s, down := d\<rparr>)"
    if "lane_inv cfg cursor log pr n w1" "evolves w1 (w1\<lparr>script := s, down := d\<rparr>)" for w1 s d
    using that keeps_inv keeps_script by (metis lane_inv_def)
  have ev': "evolves w w'" using writeFile_evolves [OF sv [unfolded saveInflight_def]] by simp
  show ?thesis
    using sv unfolding saveInflight_def
  proof (cases rule: writeFileE)
    case (before s d)
    then show ?thesis using sc [OF inv] ev' mn by simp
  next
    case (after s1 s2 d2)
    let ?w = "w\<lparr>infl := Some ?fl\<rparr>"
    have e: "w' = ?w\<lparr>script := s2, down := d2\<rparr>" using after by simp
    have "evolves ?w w'" using ev' by (simp add: e evolves_def calm_def)
    then show ?thesis using sc [OF rec] mn wh by (simp add: e whole_def)
  qed
qed

lemma thinned_inv:
  assumes inv: "lane_inv cfg cursor log pr n w" and t: "thinned w w'" and mn: "manifest w = None" and i: "infl w = None"
    and L: "\<And>k. LN cfg (vmap w') k = LN cfg (vmap w) k"
  shows "lane_inv cfg cursor log pr n w'"
proof -
  note d = thinnedD [OF t]
  have "backlog cfg (vmap w') = backlog cfg (vmap w)"
    by (rule backlog_cong [OF finite_vmap finite_vmap L]) (use mn d in simp_all)
  then have "pend cfg cursor w' = pend cfg cursor w"
    using i d by (simp add: pend_def batch_files_def restrict_map_def)
  then show ?thesis using inv t i d by (auto simp: lane_inv_def batch_ok_def thinned_def)
qed

text \<open>A new batch is collected, recorded and sent.\<close>

lemma ship_new:
  assumes inv: "lane_inv cfg cursor log pr n w" "n \<ge> 1" and mn: "manifest w = None" and i: "infl w = None"
    and mc: "main_contract serve cursor log"
    and s: "(let (ok, w) = fs_op id w
             in if \<not> ok then ((n, False, True), ls, w)
                else
                  let (files, events, w) = collect cfg (spooled (lane w)) [] [] 0 w
                  in if events = [] then ((n, False, False), ls, w)
                     else
                       let fl = \<lparr>First = n, Count = len events, Files = files\<rparr>;
                           (ok, w) = saveInflight fl w
                       in if \<not> ok then ((n, False, True), ls, w)
                          else let (r, w) = sendBatch cfg serve fl n w in (r, ls, w)) = ((n', sv, er), ls', w')"
  shows "lane_inv cfg cursor log pr (next_after n' n) w' \<and> n' \<ge> 0"
proof -
  have nn: "next_after n n = n" "n \<ge> 0" using inv(2) by (simp_all add: next_after_def)
  obtain ok2 w2 where r2: "fs_op id w = (ok2, w2)" by fastforce
  have dk: "disk_ok w" using inv(1) by (simp add: lane_inv_def)
  note k2 = id_keeps [OF r2 dk]
  have inv2: "lane_inv cfg cursor log pr n w2" by (rule keeps_inv [OF inv(1) _ id_evolves [OF r2]]) (use k2 in blast)
  have w2: "manifest w2 = None" "infl w2 = None" "main w2 = main w" using k2 mn i by (simp_all add: keeps_def)
  show ?thesis
  proof (cases ok2)
    case False
    then show ?thesis using s r2 inv2 nn by simp
  next
    case True
    have "\<not> down w" using r2 True by (auto simp: fs_op_def)
    then have up: "n = cursor (main w) + 1" using inv i by (simp add: lane_inv_def batch_ok_def next_ok_def)
    obtain files events w3 where r3: "collect cfg (spooled (lane w2)) [] [] 0 w2 = (files, events, w3)" by (metis prod_cases3)
    have dk2: "disk_ok w2" "calm w2" using inv2 by (simp_all add: lane_inv_def)
    note c3 = collect_files [OF dk2 w2(1) r3]
    have t3: "thinned w2 w3" and L3: "\<And>k. LN cfg (vmap w3) k = LN cfg (vmap w2) k" using c3 by auto
    obtain ns1 ns2 where ns: "spooled (lane w2) = ns1 @ ns2" "files = filter (\<lambda>k. LN cfg (vmap w3) k \<noteq> []) ns1"
      "events = LNS cfg (vmap w3) ns1"
      using c3 LNS_cong [of _ cfg "vmap w3" "vmap w2"] by (auto simp: L3)
    note d3 = thinnedD [OF t3]
    have inv3: "lane_inv cfg cursor log pr n w3" by (rule thinned_inv [OF inv2 t3 w2(1,2) L3])
    show ?thesis
    proof (cases "events = []")
      case True
      then show ?thesis using s r2 r3 \<open>ok2\<close> inv3 nn by simp
    next
      case False
      let ?fl = "\<lparr>First = n, Count = len events, Files = files\<rparr>"
      obtain ok4 w4 where r4: "saveInflight ?fl w3 = (ok4, w4)" by fastforce
      have "dom (vmap w3) \<subseteq> dom (vmap w2)" using t3 unfolding thinned_def by (metis (mono_tags, lifting) domIff subsetI)
      then have dm: "dom (vmap w3) \<subseteq> set (ns1 @ ns2)" "sorted_wrt (<) (ns1 @ ns2)"
        using spooled_vmap [OF dk2(1) w2(1)] unfolding ns(1) by (metis set_sorted_list_of_set, metis strict_sorted_list_of_set)
      have "lane_inv cfg cursor log pr n w4 \<and> manifest w4 = None \<and> main w4 = main w3 \<and>
          (ok4 \<longrightarrow> infl w4 = Some ?fl \<and> whole cfg ?fl w4)"
        by (rule recorded_inv [OF inv3 _ _ _ dm ns(2,3) False r4]) (use up d3 w2 in simp_all)
      then show ?thesis
        using s r2 r3 r4 \<open>ok2\<close> False nn sendBatch_inv [of cfg cursor log pr n w4 ?fl serve n' sv er w'] mc
        by (auto simp: Let_def split: prod.splits if_splits)
    qed
  qed
qed

text \<open>A batch recorded before goes again, or is known to be applied.\<close>

lemma ship_old:
  assumes inv: "lane_inv cfg cursor log pr n w" "n \<ge> 1" and mn: "manifest w = None" and i: "infl w = Some fl"
    and mc: "main_contract serve cursor log"
    and s: "(if First fl + Count fl - 1 < n then ((n, False, False), ls, finish fl w)
             else if First fl \<noteq> n then
               (let fl = fl\<lparr>First := n\<rparr>; (ok, w) = saveInflight fl w
                in if \<not> ok then ((n, False, True), ls, w)
                   else let (r, w) = sendBatch cfg serve fl n w in (r, ls, w))
             else let (r, w) = sendBatch cfg serve fl n w in (r, ls, w)) = ((n', sv, er), ls', w')"
  shows "lane_inv cfg cursor log pr (next_after n' n) w' \<and> n' \<ge> 0"
proof -
  have nn: "next_after n n = n" "n \<ge> 0" using inv(2) by (simp_all add: next_after_def)
  show ?thesis
  proof (cases "down w")
    case True
    obtain r where r: "sendBatch cfg serve fl n w = ((n, r), w)" using sendBatch_down [OF True] by blast
    have "w' = w \<and> n' = n" using s r by (auto simp: finish_down [OF True] saveInflight_down [OF True] Let_def split: if_splits)
    then show ?thesis using inv nn by simp
  next
    case False
    let ?c = "cursor (main w)"
    have b: "Count fl > 0" "First fl \<ge> 1" "whole cfg fl w \<and> First fl = ?c + 1 \<and> n = ?c + 1 \<or>
        First fl + Count fl = ?c + 1 \<and> (n = ?c + 1 \<or> n = First fl \<and> whole cfg fl w)"
      using inv i False by (auto simp: lane_inv_def batch_ok_def Let_def next_ok_def)
    show ?thesis
    proof (cases "First fl + Count fl - 1 < n")
      case True
      then have "First fl + Count fl = ?c + 1" "n = ?c + 1" using b by auto
      then show ?thesis using s True finish_lane_inv [OF inv(1) mn i, of fl] nn by simp
    next
      case F: False
      then have w: "whole cfg fl w" "n = First fl" using b by auto
      have "sendBatch cfg serve fl n w = ((n', sv, er), w')" using s F w by (auto split: prod.splits)
      from sendBatch_inv [OF inv(1) mn i w mc this] show ?thesis .
    qed
  qed
qed

lemma shipOnce_inv:
  assumes inv: "lane_inv cfg cursor log pr n w" "n \<ge> 1" and cap: "laneCap cfg = 0" and mc: "main_contract serve cursor log"
    and fr: "pass_fresh (gen e) w" and ok: "chunks_ok cfg (gen e) (files_of (vmap w |` (- set (batch_files (infl w)))))"
    and s: "shipOnce cfg serve e n ls w = ((n', sv, er), ls', w')"
  shows "lane_inv cfg cursor log pr (next_after n' n) w' \<and> n' \<ge> 0"
proof -
  obtain lo w0 where r0: "loadInflight w = (lo, w0)" by fastforce
  note l0 = loadInflight_inv [OF inv(1) r0]
  have same0: "vmap w0 = vmap w" "infl w0 = infl w" using l0 by (simp_all add: keeps_def)
  have fr0: "pass_fresh (gen e) w0" using shrinks_fresh l0 fr same0 by (auto simp: pass_fresh_def)
  have nn: "next_after n n = n" "n \<ge> 0" using inv(2) by (simp_all add: next_after_def)
  show ?thesis
  proof (cases lo)
    case None
    then show ?thesis using s l0 nn by (auto simp: shipOnce_def r0)
  next
    case (Some flo)
    then have flo: "flo = infl w0" using l0 same0 by simp
    obtain hk ls1 w1 where r1: "housekeep cfg e flo ls w0 = (hk, ls1, w1)" by (metis prod_cases3)
    have h: "lane_inv cfg cursor log pr n w1 \<and> evolves w0 w1 \<and> infl w1 = infl w0 \<and> main w1 = main w0 \<and> net w1 = net w0 \<and>
        (hk \<longrightarrow> manifest w1 = None)"
      by (rule housekeep_inv [OF _ flo cap fr0 _ r1]) (use l0 ok same0 in simp_all)
    show ?thesis
    proof (cases hk)
      case False
      then show ?thesis using s Some h nn by (auto simp: shipOnce_def r0 r1)
    next
      case True
      then have h1: "lane_inv cfg cursor log pr n w1" "manifest w1 = None" using h by auto
      show ?thesis
      proof (cases flo)
        case None
        show ?thesis
          by (rule ship_new [OF h1(1) inv(2) h1(2) _ mc, of ls1 n' sv er ls' w'])
            (use s Some True None flo h in \<open>simp_all add: shipOnce_def r0 r1 [unfolded None]\<close>)
      next
        case fl: (Some fl)
        show ?thesis
          by (rule ship_old [OF h1(1) inv(2) h1(2) _ mc, of fl ls1 n' sv er ls' w'])
            (use s Some True fl flo h in \<open>simp_all add: shipOnce_def r0 r1 [unfolded fl]\<close>)
      qed
    qed
  qed
qed

end
