(* ===== verification/SpoolRuns.thy ===== *)
theory SpoolRuns
  imports SpoolPass
begin

text \<open>
  The runs of a lane as a step relation: PHP spools a file, the agent hears a hello, makes a pass that any
  operation of may be the last of, and is started again.  The ledger holds in every state a run reaches.
\<close>

definition mentions :: "'m world \<Rightarrow> string \<Rightarrow> bool" where
  "mentions w n \<longleftrightarrow> has_name w n \<or> n \<in> set (batch_files (infl w)) \<or>
     (case manifest w of Some (Some m) \<Rightarrow> n \<in> set (Replaced m) \<or> n \<in> set (Staged m) | _ \<Rightarrow> False)"

definition empty_lane :: "'m \<Rightarrow> 'm world" where
  "empty_lane m = \<lparr>lane = [], staging = None, manifest = None, infl = None, script = [], down = False, net = [], main = m\<rparr>"

text \<open>
  \<open>pr\<close> is what was spooled, in order.  A new file is named after every file before it (its name begins with the
  clock); the random parts of a pass are its own; no operation fails on its own, but the agent may go down before
  any of them.
\<close>

inductive lane_run ::
  "laneCfg \<Rightarrow> ('m \<Rightarrow> int \<Rightarrow> line list \<Rightarrow> 'm \<times> reply) \<Rightarrow> ('m \<Rightarrow> int) \<Rightarrow> 'm \<Rightarrow> proc \<Rightarrow> 'm world \<Rightarrow> line list \<Rightarrow> bool"
  for cfg serve cursor m0
where
  start: "lane_run cfg serve cursor m0 proc0 (empty_lane m0) []"
| spool: "lane_run cfg serve cursor m0 p w pr \<Longrightarrow> spoolName n \<Longrightarrow> list_all plain ls \<Longrightarrow>
     (\<And>n'. mentions w n' \<Longrightarrow> n' < n) \<Longrightarrow>
     lane_run cfg serve cursor m0 p (w\<lparr>lane := dput n ls (lane w)\<rparr>) (pr @ readSpoolFile (fmt cfg) (lim cfg) ls)"
| hello: "lane_run cfg serve cursor m0 p w pr \<Longrightarrow> \<not> down w \<Longrightarrow>
     lane_run cfg serve cursor m0 (p\<lparr>helloCur := cursor (main w)\<rparr>) w pr"
| pass: "lane_run cfg serve cursor m0 p w pr \<Longrightarrow> \<not> down w \<Longrightarrow> Fails \<notin> set fs \<Longrightarrow> pass_fresh (gen e) w \<Longrightarrow>
     chunks_ok cfg (gen e) (files_of (vmap w |` (- set (batch_files (infl w))))) \<Longrightarrow>
     runPass cfg serve e p (w\<lparr>script := fs, net := nt\<rparr>) = (p', w') \<Longrightarrow>
     lane_run cfg serve cursor m0 p' w' pr"
| restart: "lane_run cfg serve cursor m0 p w pr \<Longrightarrow> lane_run cfg serve cursor m0 proc0 (w\<lparr>down := False\<rparr>) pr"

definition run_inv ::
  "laneCfg \<Rightarrow> ('m \<Rightarrow> int) \<Rightarrow> ('m \<Rightarrow> line list) \<Rightarrow> line list \<Rightarrow> proc \<Rightarrow> 'm world \<Rightarrow> bool" where
  "run_inv cfg cursor log pr p w \<longleftrightarrow>
     lane_inv cfg cursor log pr (nextNo p) w \<and> nextNo p \<ge> 0 \<and>
     (nextNo p = 0 \<longrightarrow> helloCur p = - 1 \<or> helloCur p = cursor (main w))"

lemma start_inv:
  assumes "cursor m0 \<ge> 0" "log m0 = pr"
  shows "run_inv cfg cursor log pr proc0 (empty_lane m0)"
  using assms
  by (simp add: run_inv_def lane_inv_def empty_lane_def proc0_def batch_ok_def next_ok_def calm_def disk_ok_def vmap_def
      pend_def batch_files_def backlog_def files_of_def lane_lines_def delivers_def)

lemma finite_dom_vmap: "finite (dom (vmap w))"
proof -
  have "dom (vmap w) \<subseteq> dom (map_of (lane w)) \<union> (\<Union>m \<in> {m. manifest w = Some (Some m)}. set (Staged m))"
    by (auto simp: vmap_def split: option.splits if_splits)
  moreover have "finite (\<Union>m \<in> {m. manifest w = Some (Some m)}. set (Staged m))"
    by (cases "manifest w"; cases "the (manifest w)") auto
  ultimately show ?thesis by (meson finite_UnI finite_dom_map_of finite_subset)
qed

lemma vmap_names: "n \<in> dom (vmap w) \<Longrightarrow> has_name w n"
  by (auto simp: vmap_def has_name_def split: option.splits if_splits)

text \<open>A file spooled under a new name goes to the end of what waits.\<close>

lemma spool_vmap:
  assumes "\<not> mentions w n"
  shows "vmap (w\<lparr>lane := dput n ls (lane w)\<rparr>) = (vmap w)(n \<mapsto> ls)"
  using assms
  by (auto simp: vmap_def mentions_def map_of_dput staged_file_def fun_eq_iff split: option.splits)

lemma spool_inv:
  assumes inv: "lane_inv cfg cursor log pr k w" and n: "spoolName n" "list_all plain ls" "\<And>n'. mentions w n' \<Longrightarrow> n' < n"
  shows "lane_inv cfg cursor log (pr @ readSpoolFile (fmt cfg) (lim cfg) ls) k (w\<lparr>lane := dput n ls (lane w)\<rparr>)"
proof -
  let ?w = "w\<lparr>lane := dput n ls (lane w)\<rparr>" and ?ex = "batch_files (infl w)"
  have nm: "\<not> mentions w n" using n(3) by blast
  note v = spool_vmap [OF nm, of ls]
  have dk: "disk_ok w" using inv by (simp add: lane_inv_def)
  have sf: "staged_file ?w = staged_file w" by (simp add: staged_file_def fun_eq_iff)
  have "disk_ok ?w"
    unfolding disk_ok_def v sf
  proof (intro conjI allI impI ballI)
    show "distinct (map fst (lane ?w))" using dk by (simp add: disk_ok_def distinct_dput del: distinct_map)
    show "manifest ?w \<noteq> Some None" using dk by (simp add: disk_ok_def)
    show "set (Staged m) \<inter> set (Replaced m) = {}" if "manifest ?w = Some (Some m)" for m
      using dk that by (simp add: disk_ok_def)
    show "staged_file w k \<noteq> None \<or> map_of (lane ?w) k \<noteq> None"
      if "manifest ?w = Some (Some m)" "k \<in> set (Staged m)" for m k
    proof -
      have "manifest w = Some (Some m)" using that(1) by simp
      then have d: "staged_file w k \<noteq> None \<or> map_of (lane w) k \<noteq> None"
        using dk that(2) unfolding disk_ok_def by blast
      have e: "map_of (lane ?w) = (map_of (lane w))(n \<mapsto> ls)" by (simp add: map_of_dput)
      show ?thesis unfolding e using d by (cases "k = n") simp_all
    qed
    show "spoolName k" "list_all plain ls'" if "((vmap w)(n \<mapsto> ls)) k = Some ls'" for k ls'
      using dk n(1,2) that by (auto simp: disk_ok_def split: if_splits)
  qed
  moreover have L: "LNS cfg (vmap ?w) (Files fl) = LNS cfg (vmap w) (Files fl)" if "infl w = Some fl" for fl
    by (rule LNS_cong) (use nm that in \<open>auto simp: v LN_def mentions_def batch_files_def\<close>)
  moreover have "whole cfg fl ?w = whole cfg fl w" if "infl w = Some fl" for fl
    unfolding whole_def L [OF that] using nm that by (auto simp: v mentions_def batch_files_def)
  moreover have "pend cfg cursor ?w = pend cfg cursor w @ readSpoolFile (fmt cfg) (lim cfg) ls"
  proof -
    have "vmap ?w |` (- set ?ex) = (vmap w |` (- set ?ex))(n \<mapsto> ls)"
      using nm by (auto simp: v mentions_def restrict_map_def fun_eq_iff)
    moreover have "backlog cfg ((vmap w |` (- set ?ex))(n \<mapsto> ls)) =
        backlog cfg (vmap w |` (- set ?ex)) @ readSpoolFile (fmt cfg) (lim cfg) ls"
    proof (rule backlog_new)
      show "finite (dom (vmap w |` (- set ?ex)))" using finite_dom_vmap [of w] by (rule rev_finite_subset) auto
      show "n' < n" if "n' \<in> dom (vmap w |` (- set ?ex))" for n'
        using that vmap_names [of n' w] n(3) [of n'] by (auto simp: mentions_def)
    qed
    ultimately show ?thesis using L by (cases "infl w") (simp_all add: pend_def)
  qed
  ultimately show ?thesis
    using inv delivers_append [of cfg "log (main w) @ pend cfg cursor w" pr]
    by (cases "infl w") (simp_all add: lane_inv_def batch_ok_def calm_def)
qed

lemma batch_ok_next:
  "batch_ok cfg cursor 0 w \<Longrightarrow> batch_ok cfg cursor (cursor (main w) + 1) w"
  by (auto simp: batch_ok_def Let_def next_ok_def split: option.splits)

lemma runPass_inv:
  assumes inv: "run_inv cfg cursor log pr p w" and cap: "laneCap cfg = 0" and mc: "main_contract serve cursor log"
    and fr: "pass_fresh (gen e) w" and ok: "chunks_ok cfg (gen e) (files_of (vmap w |` (- set (batch_files (infl w)))))"
    and r: "runPass cfg serve e p w = (p', w')"
  shows "run_inv cfg cursor log pr p' w'"
proof (cases "nextNo p = 0 \<and> helloCur p < 0")
  case True
  obtain lo w0 where r0: "loadInflight w = (lo, w0)" by fastforce
  have inv0: "lane_inv cfg cursor log pr (nextNo p) w" using inv by (simp add: run_inv_def)
  note l0 = loadInflight_inv [OF inv0 r0]
  have same0: "vmap w0 = vmap w" "infl w0 = infl w" "main w0 = main w" using l0 by (simp_all add: keeps_def)
  show ?thesis
  proof (cases lo)
    case None
    then have "p' = p" "w' = w0" using r True by (simp_all add: runPass_def r0)
    then show ?thesis using l0 inv same0 by (simp add: run_inv_def)
  next
    case (Some flo)
    then have flo: "flo = infl w0" using l0 same0 by simp
    obtain hk ls1 w1 where r1: "housekeep cfg e flo (spo p) w0 = (hk, ls1, w1)" by (metis prod_cases3)
    have fr0: "pass_fresh (gen e) w0" using shrinks_fresh l0 fr same0 by (auto simp: pass_fresh_def)
    have h: "lane_inv cfg cursor log pr (nextNo p) w1 \<and> evolves w0 w1 \<and> infl w1 = infl w0 \<and> main w1 = main w0 \<and>
        net w1 = net w0 \<and> (hk \<longrightarrow> manifest w1 = None)"
      by (rule housekeep_inv [OF _ flo cap fr0 _ r1]) (use l0 ok same0 in simp_all)
    have "p' = p\<lparr>spo := ls1\<rparr>" "w' = w1" using r True Some by (simp_all add: runPass_def r0 r1)
    then show ?thesis using h inv same0 by (simp add: run_inv_def)
  qed
next
  case False
  define n where "n = (if nextNo p = 0 then helloCur p + 1 else nextNo p)"
  have n: "lane_inv cfg cursor log pr n w" "n \<ge> 1"
    using inv False batch_ok_next [of cfg cursor w] unfolding n_def run_inv_def lane_inv_def by (auto split: if_splits)
  obtain n' sv er ls' w2 where s: "shipOnce cfg serve e n (spo p) w = ((n', sv, er), ls', w2)" by (metis prod_cases3)
  have k: "lane_inv cfg cursor log pr (next_after n' n) w2 \<and> n' \<ge> 0"
    by (rule shipOnce_inv [OF n cap mc fr ok s])
  have "p' = p\<lparr>nextNo := next_after n' n, spo := ls'\<rparr>" "w' = w2"
    using r False s unfolding runPass_def n_def [symmetric] by (simp_all add: Let_def next_after_def n_def [symmetric])
  then show ?thesis using k n(2) by (simp add: run_inv_def next_after_def)
qed

lemma lane_run_inv:
  assumes "lane_run cfg serve cursor m0 p w pr" "main_contract serve cursor log" "laneCap cfg = 0" "cursor m0 \<ge> 0"
  shows "run_inv cfg cursor log (log m0 @ pr) p w"
  using assms(1)
proof (induction rule: lane_run.induct)
  case start
  show ?case by (rule start_inv) (simp_all add: assms(4))
next
  case (spool p w pr n ls)
  have "lane_inv cfg cursor log ((log m0 @ pr) @ readSpoolFile (fmt cfg) (lim cfg) ls) (nextNo p) (w\<lparr>lane := dput n ls (lane w)\<rparr>)"
    by (rule spool_inv) (use spool in \<open>auto simp: run_inv_def\<close>)
  then show ?case using spool.IH by (simp add: run_inv_def)
next
  case (hello p w pr)
  then show ?case by (simp add: run_inv_def)
next
  case (pass p w pr fs e nt p' w')
  let ?w = "w\<lparr>script := fs, net := nt\<rparr>"
  have v: "vmap ?w = vmap w" by simp
  have "lane_inv cfg cursor log (log m0 @ pr) (nextNo p) ?w"
    using pass.IH pass.hyps(3) same_world [of ?w w] by (simp add: run_inv_def lane_inv_def calm_def)
  then have "run_inv cfg cursor log (log m0 @ pr) p ?w" using pass.IH by (simp add: run_inv_def)
  moreover have "pass_fresh (gen e) ?w" using pass.hyps(4) by (simp add: pass_fresh_def fresh_def staged_file_def)
  ultimately show ?case
    using runPass_inv [OF _ assms(3,2) _ _ pass.hyps(6)] pass.hyps(5) v by simp
next
  case (restart p w pr)
  have "lane_inv cfg cursor log (log m0 @ pr) 0 (w\<lparr>down := False\<rparr>)"
    using restart.IH same_world [of "w\<lparr>down := False\<rparr>" w] by (simp add: run_inv_def lane_inv_def calm_def)
  then show ?case by (simp add: run_inv_def proc0_def)
qed

end
