(* ===== verification/SpoolProps.thy ===== *)
theory SpoolProps
  imports SpoolRuns
begin

text \<open>
  What holds of an event lane: nothing is lost or applied twice, a compaction is all or nothing, and what it
  writes can be compacted again.  The examples are at the end.
\<close>

section \<open>The properties\<close>


text \<open>C29: a compaction is all or nothing.  From a lane in order, whatever operations of a compaction fail and wherever
  it is cut off, and however a recovery after it fares, the lane holds the files it held or all of the chunks in
  the place of all of the tail; the in-flight batch is as it was, and a recovery that ends leaves exactly those
  files in the spool directory.\<close>

theorem compaction_all_or_nothing:
  assumes "disk_ok w" "manifest w = None" "fresh g w" "compactTail cfg t fr g ex ls w = (res, ls', w1)"
    and "recoverCompaction (w1\<lparr>script := s, down := False\<rparr>) = (ok, w2)"
  shows "(vmap w2 = vmap w \<or>
      (\<exists>r. stage (fmt cfg) (lim cfg) g (files_of (vmap w |` (- set ex))) = Some (Some r) \<and>
         vmap w2 = (vmap w |` set ex) ++ map_of (chunks r))) \<and>
    infl w2 = infl w \<and> (ok \<longrightarrow> map_of (lane w2) = vmap w2)"
proof -
  have c: "(keeps w w1 \<or> swapped cfg g ex w w1) \<and> (manifest w1 = None \<or> res = None)"
    by (rule compactTail_steps [OF assms(1-4)])
  have "disk_ok (w1\<lparr>script := s, down := False\<rparr>)" using c keeps_ok swapped_ok by fastforce
  from recover_keeps [OF this assms(5)]
  have k: "vmap w2 = vmap w1" "infl w2 = infl w1" "manifest w2 = None \<or> \<not> ok" by (simp_all add: keeps_def)
  from c have "(vmap w1 = vmap w \<or> (\<exists>r. stage (fmt cfg) (lim cfg) g (files_of (vmap w |` (- set ex))) = Some (Some r) \<and>
         vmap w1 = (vmap w |` set ex) ++ map_of (chunks r))) \<and> infl w1 = infl w"
    by (auto simp: keeps_def swapped_def)
  then show ?thesis using k by (auto simp: vmap_def)
qed

text \<open>C40: a compaction writes a tail like the one it read.  Its lines are lines as the node's PHP writes them, its names
  are names the lane reads, distinct and in the order the files were written, so the chunks are read back in
  that order and can be compacted again.\<close>

theorem chunks_well_formed:
  assumes "stage f lm g fs = Some (Some r)" "plain_tail fs" "list_all (\<lambda>x. spoolName (fst x)) fs" "length (chunks r) \<le> 10 ^ 6"
  shows "plain_tail (chunks r) \<and> list_all (\<lambda>x. spoolName (fst x)) (chunks r) \<and> sorted_wrt (<) (map fst (chunks r)) \<and>
    spooled (chunks r) = map fst (chunks r)"
proof -
  note nm = stage_names [OF assms(1,2)]
  have sp: "spoolName (fst (hd fs))" using assms(3) nm(2) by (cases fs) simp_all
  have all: "\<forall>n \<in> set (map fst (chunks r)). spoolName n"
    unfolding nm(1) chunk_names_def using chunk_name_spool [OF sp] by auto
  have so: "sorted_wrt (<) (map fst (chunks r))" unfolding nm(1) by (rule chunk_names_sorted [OF assms(4)])
  then have "sorted (map fst (chunks r))" using strict_sorted_iff by blast
  then have "spooled (chunks r) = map fst (chunks r)"
    using all by (simp add: spooled_def filter_True sorted_sort_id del: set_map)
  then show ?thesis using stage_plain [OF assms(1,2)] all so by (auto simp: list_all_iff)
qed


section \<open>Examples\<close>

text \<open>A MAIN that applies what follows its cursor, its state being what it has applied.\<close>

definition demo_serve :: "line list \<Rightarrow> int \<Rightarrow> line list \<Rightarrow> line list \<times> reply" where
  "demo_serve m first ls = (if first = len m + 1 then (m @ ls, Served (len (m @ ls))) else (m, Gap (len m + 1)))"

lemma demo_serve_contract: "main_contract demo_serve len (\<lambda>m. m)"
  by (simp add: main_contract_def demo_serve_def)

definition demo_cfg :: laneCfg where
  "demo_cfg = \<lparr>laneCap = 0, laneCompact = 10, lim = demo_limits, fmt = id\<rparr>"

definition demo_env :: "string \<Rightarrow> pass_env" where
  "demo_env g = \<lparr>now = 10 ^ 10, free = None, gen = g, tag = ''t''\<rparr>"

text \<open>Two files are spooled.  The agent hears MAIN's cursor and makes a pass: it compacts the two files, records the
  first chunk as its batch and sends it; the reply is lost, and the agent is started again.\<close>

definition demo_first :: "line list world" where
  "demo_first = (empty_lane [])\<lparr>lane := dput ''01-7-a.ndjson'' (snd (demo_tail ! 0)) []\<rparr>"

definition demo_spooled :: "line list world" where
  "demo_spooled = demo_first\<lparr>lane := dput ''02-7-b.ndjson'' (snd (demo_tail ! 1)) (lane demo_first)\<rparr>"

definition demo_sent :: "proc \<times> line list world" where
  "demo_sent = runPass demo_cfg demo_serve (demo_env ''G'') (proc0\<lparr>helloCur := len (main demo_spooled)\<rparr>)
     (demo_spooled\<lparr>script := [], net := [NoReply]\<rparr>)"

definition demo_lines :: "line list" where
  "demo_lines = readSpoolFile id demo_limits (snd (demo_tail ! 0)) @ readSpoolFile id demo_limits (snd (demo_tail ! 1))"

lemma other_name:
  assumes "c \<in> set g" "c \<notin> set n"
  shows "n \<noteq> chunk_name pre g k"
proof
  assume "n = chunk_name pre g k"
  then have "c \<in> set n" using assms(1) by (simp add: chunk_name_def)
  then show False using assms(2) by simp
qed

lemma demo_world:
  "lane demo_spooled = [(''02-7-b.ndjson'', snd (demo_tail ! 1)), (''01-7-a.ndjson'', snd (demo_tail ! 0))]"
  "infl demo_spooled = None" "manifest demo_spooled = None" "staging demo_spooled = None" "down demo_spooled = False"
  "main demo_spooled = []"
  by (simp_all add: demo_spooled_def demo_first_def empty_lane_def dput_def ddel_def)

lemma demo_names: "''01-7-a.ndjson'' < ''02-7-b.ndjson''" "spoolName ''01-7-a.ndjson''" "spoolName ''02-7-b.ndjson''"
  by code_simp+

lemma demo_vmap: "vmap demo_spooled = map_of demo_tail"
  by (auto simp: vmap_def demo_world demo_tail_def)

lemma demo_ok: "disk_ok demo_spooled"
  using demo_tail_plain demo_names
  by (auto simp: disk_ok_def demo_vmap demo_world plain_tail_def) (auto simp: demo_tail_def split: if_splits)

lemma demo_fresh: "fresh ''G'' demo_spooled"
proof -
  have "''01-7-a.ndjson'' \<noteq> chunk_name pre ''G'' k" "''02-7-b.ndjson'' \<noteq> chunk_name pre ''G'' k" for pre k
    by (rule other_name [of "CHR ''G''"]; simp)+
  note n = this this [symmetric]
  show ?thesis by (auto simp: fresh_def demo_world staged_file_def n)
qed

lemma demo_tail_files: "files_of (map_of demo_tail) = demo_tail"
  by (rule files_of_map_of) (use demo_names in \<open>simp add: demo_tail_def\<close>)

lemma demo_chunks_ok: "chunks_ok demo_cfg ''G'' demo_tail"
proof -
  have "stage id demo_limits ''G'' demo_tail = Some (Some r) \<Longrightarrow> length (chunks r) \<le> 10 ^ 6 \<and>
      list_all (\<lambda>f. short_lines demo_limits (snd f)) (chunks r)" for r
  proof -
    assume r: "stage id demo_limits ''G'' demo_tail = Some (Some r)"
    have "case stage id demo_limits ''G'' demo_tail of Some (Some r) \<Rightarrow> length (chunks r) \<le> 2 \<and>
        list_all (\<lambda>f. short_lines demo_limits (snd f)) (chunks r) | _ \<Rightarrow> False" by code_simp
    then show ?thesis using r by simp
  qed
  then show ?thesis by (simp add: chunks_ok_def demo_cfg_def)
qed

lemma demo_run: "lane_run demo_cfg demo_serve len [] proc0 ((snd demo_sent)\<lparr>down := False\<rparr>) demo_lines"
proof -
  let ?run = "lane_run demo_cfg demo_serve len []"
  have rd: "readSpoolFile (fmt demo_cfg) (lim demo_cfg) = readSpoolFile id demo_limits" by (simp add: demo_cfg_def)
  have pl: "list_all plain (snd (demo_tail ! 0))" "list_all plain (snd (demo_tail ! 1))"
    using demo_tail_plain by (simp_all add: plain_tail_def demo_tail_def)
  have "?run proc0 demo_first ([] @ readSpoolFile (fmt demo_cfg) (lim demo_cfg) (snd (demo_tail ! 0)))"
    using lane_run.spool [OF lane_run.start [of demo_cfg demo_serve len "[]"] demo_names(2) pl(1)]
    by (auto simp: demo_first_def empty_lane_def mentions_def has_name_def staged_file_def batch_files_def)
  moreover have "n' < ''02-7-b.ndjson''" if "mentions demo_first n'" for n'
    using that demo_names(1)
    by (auto simp: demo_first_def empty_lane_def mentions_def has_name_def staged_file_def batch_files_def dput_def
        ddel_def split: if_splits)
  ultimately have "?run proc0 demo_spooled demo_lines"
    using lane_run.spool [OF _ demo_names(3) pl(2), of demo_cfg demo_serve len "[]" proc0 demo_first]
    unfolding demo_spooled_def demo_lines_def rd by simp
  from lane_run.hello [OF this]
  have "?run (proc0\<lparr>helloCur := len (main demo_spooled)\<rparr>) demo_spooled demo_lines" by (simp add: demo_world)
  then have "?run (fst demo_sent) (snd demo_sent) demo_lines"
  proof (rule lane_run.pass [where fs = "[]" and e = "demo_env ''G''" and nt = "[NoReply]"])
    show "\<not> down demo_spooled" "Fails \<notin> set []" by (simp_all add: demo_world)
    show "pass_fresh (gen (demo_env ''G'')) demo_spooled"
      using demo_fresh by (simp add: pass_fresh_def demo_env_def demo_world batch_files_def)
    show "chunks_ok demo_cfg (gen (demo_env ''G'')) (files_of (vmap demo_spooled |` (- set (batch_files (infl demo_spooled)))))"
      using demo_chunks_ok
      by (simp add: demo_world batch_files_def demo_vmap demo_tail_files demo_env_def restrict_map_def)
    show "runPass demo_cfg demo_serve (demo_env ''G'') (proc0\<lparr>helloCur := len (main demo_spooled)\<rparr>)
        (demo_spooled\<lparr>script := [], net := [NoReply]\<rparr>) = (fst demo_sent, snd demo_sent)"
      by (simp add: demo_sent_def)
  qed
  then show ?thesis by (rule lane_run.restart)
qed


text \<open>The disk fails while the chunks replace the tail, and the agent goes down after that.\<close>

definition demo_broken :: "line list world" where
  "demo_broken = demo_spooled\<lparr>script := replicate 9 Works @ [Fails, Crashes]\<rparr>"

definition demo_compacted :: "(int \<times> int) option \<times> spooler \<times> line list world" where
  "demo_compacted = compactTail demo_cfg 0 None ''G'' [] (spo proc0) demo_broken"

definition demo_recovered :: "bool \<times> line list world" where
  "demo_recovered = recoverCompaction ((snd (snd demo_compacted))\<lparr>script := [], down := False\<rparr>)"

lemma compaction_all_or_nothing_witness:
  "(vmap (snd demo_recovered) = map_of demo_tail \<or>
      (\<exists>r. stage id demo_limits ''G'' demo_tail = Some (Some r) \<and> vmap (snd demo_recovered) = map_of (chunks r))) \<and>
    infl (snd demo_recovered) = None \<and>
    (if fst demo_recovered then map_of (lane (snd demo_recovered)) = vmap (snd demo_recovered) else True)"
proof -
  have v: "vmap demo_broken = map_of demo_tail" by (simp add: demo_broken_def demo_vmap)
  have i: "infl demo_broken = None" "manifest demo_broken = None" by (simp_all add: demo_broken_def demo_world)
  have d: "disk_ok demo_broken" using demo_ok by (simp add: demo_broken_def)
  have f: "fresh ''G'' demo_broken" using demo_fresh by (simp add: demo_broken_def fresh_def)
  have e: "compactTail demo_cfg 0 None ''G'' [] (spo proc0) demo_broken =
      (fst demo_compacted, fst (snd demo_compacted), snd (snd demo_compacted))" by (simp add: demo_compacted_def)
  have r: "recoverCompaction ((snd (snd demo_compacted))\<lparr>script := [], down := False\<rparr>) = (fst demo_recovered, snd demo_recovered)"
    by (simp add: demo_recovered_def)
  have u: "m |` {} ++ c = c" for m c :: "string \<Rightarrow> line list option"
    by (auto simp: fun_eq_iff map_add_def restrict_map_def split: option.split)
  show ?thesis
    using compaction_all_or_nothing [OF d i(2) f e r] by (simp add: v i demo_tail_files demo_cfg_def u restrict_map_def [of "map_of demo_tail" UNIV])
qed

lemma chunks_well_formed_witness:
  "plain_tail demo_chunks \<and> list_all (\<lambda>x. spoolName (fst x)) demo_chunks \<and> sorted_wrt (<) (map fst demo_chunks) \<and>
    spooled demo_chunks = map fst demo_chunks"
  using chunks_well_formed [OF demo_stage conjunct1 [OF demo_tail_plain]] demo_names
  by (simp add: demo_tail_def demo_chunks_def)

end
