(* ===== verification/Spec2Isabelle.thy ===== *)
theory Spec2Isabelle
  imports TsTables TsMuxProps RingProps RingTime RingPinned RingHlsProps HubCopy SuperProps TsSegProps TsMergeProps
    CompactProps SpoolProps
begin

text \<open>
  A verification library for XC_VM Fanout, the streaming daemon of this repository (Go, \<^verbatim>\<open>src/internal\<close>).

  \<^bold>\<open>The program.\<close>  A stream is an MPEG transport stream.  Encoders are started and kept alive by the
  supervisor; their packets arrive at the daemon, where one hub per stream publishes them into an
  in-memory ring; viewers join the ring and follow it, and an HLS playlist and its segments are cut
  from the same ring.  Sources that are relayed without an encoder are muxed into a transport
  stream, or cut into segments on disk.  The node's events go to the main server through lanes on disk that
  the cluster agent ships.

  \<^bold>\<open>Conventions.\<close>  A Go function that can index or slice out of range returns \<open>'a go\<close>, which is
  \<open>None\<close> where the program panics (\<open>Prelude\<close>).  Bytes and 16-bit PIDs are machine words; Go's
  \<open>int\<close> and \<open>int64\<close> are integers, where the values in the program stay far below 64 bits.  A
  \<open>time.Time\<close> is the nanoseconds since Go's zero time, so \<open>IsZero\<close> is \<open>0\<close>, and reading the clock is
  an argument of the operation that reads it.  A method that holds a mutex from start to end is one step.
  \<open>float64\<close> values are dyadic numbers with the rounding of one operation (\<open>Float64\<close>).  Strings are
  ASCII.  Logging is left out.  A component with state is an event datatype and a step function;
  \<open>run\<close> performs a list of events, and the locale \<open>safe_system\<close> lifts "no step panics and the
  invariant is kept" to runs.  Each component interprets it.

  \<^bold>\<open>Transport-stream readers\<close> (\<^verbatim>\<open>tspes/tspes.go\<close>, \<^verbatim>\<open>tspes/section.go\<close>): \<open>TsPes\<close> has the readers of one
  packet (PID, clocks, tables, keyframe detection) and the assembler of sections over several
  packets; \<open>TsTables\<close> shows that they never panic, that the two table parsers agree, that a
  section cut over packets is reassembled and one with a lost packet is dropped.

  \<^bold>\<open>The muxer\<close> (\<^verbatim>\<open>tsmux/mux.go\<close>, \<^verbatim>\<open>tsmux/adts.go\<close>): \<open>TsMux\<close> and \<open>TsMuxProps\<close>.  What is written is read
  back by the readers above, sections pass the CRC check, ADTS is cut losslessly, and the clock of
  packed audio does not drift.

  \<^bold>\<open>The ring\<close> (\<^verbatim>\<open>tsjoin/tsjoin.go\<close>): \<open>RingState\<close> is its state, with the buffers as arrays in an explicit
  memory because they are recycled under viewers' slices; \<open>RingUpdate\<close> is the producer and \<open>RingRead\<close>
  the viewers' side and HLS.  The growth of an array by \<open>append\<close> is a parameter \<open>G\<close>.  \<open>RingLog\<close> is the
  abstract specification, a log of blocks that is opened, extended and dropped at the front;
  \<open>RingRefine\<close> and \<open>RingFollow\<close> show that every operation refines it, and \<open>RingProps\<close> what a viewer gets.
  \<open>RingTime\<close> bounds the ring in time and bytes; \<open>RingPins\<close>, \<open>RingSafety\<close> and \<open>RingPinned\<close> show that bytes
  handed out under a pin stay as they are; \<open>RingHls\<close> and \<open>RingHlsProps\<close> are about the playlist and its segments.

  \<^bold>\<open>The hub\<close> (\<^verbatim>\<open>hub/hub.go\<close>): \<open>Hub\<close> adds to the ring the wake channels (numbers, closed once) and the
  teardown; \<open>HubProps\<close> shows that viewers follow without a gap and that no wake-up is lost, \<open>HubCopy\<close>
  that copies made with the lock released are what was captured, and that pins balance.

  \<^bold>\<open>The supervisor\<close> (\<^verbatim>\<open>supervisor/sources.go\<close>, \<^verbatim>\<open>health.go\<close>, \<^verbatim>\<open>supervisor.go\<close>, \<^verbatim>\<open>adopt.go\<close>): \<open>GoStrings\<close> has the string
  functions it calls, \<open>Sources\<close> the specification, the stream's state and the choice of a source, \<open>Health\<close>
  the health rules, \<open>Supervise\<close> the restart loop as a state machine whose events carry what the
  operating system answered.  \<open>SuperInv\<close> is its invariant; \<open>HealthProps\<close> and \<open>SuperProps\<close> show
  when a run is condemned, that a failing stream tries every source and gives up exactly at its
  limit, and that a forced source is not lost.

  \<^bold>\<open>The segmenter\<close> (\<^verbatim>\<open>tsseg/tsseg.go\<close>): \<open>GoFormat\<close> renders numbers, \<open>TsSeg\<close> is the segmenter with the disk
  as a map from paths to contents; \<open>TsSegInv\<close> is its invariant, and \<open>TsSegProps\<close> shows that segments are
  verbatim stretches of the stream, that the playlist lists files that are there, and what the
  no-keyframe limit charges.

  \<^bold>\<open>The merge\<close> (\<^verbatim>\<open>tsmerge/tsmerge.go\<close>): \<open>TsMerge\<close> has the reading of packets, the cutting into frames and
  the joined table, \<open>TsMergeRun\<close> the goroutines as steps of one system.  \<open>TsMergeScan\<close> states the contract
  of a scan function as a locale and interprets it for both; \<open>TsMergeTable\<close> is about the joined table
  and the PIDs in it; \<open>TsMergeLog\<close> relates every state to a log of video frames and the audio frames
  before them, and \<open>TsMergeProps\<close> has what the log gives.

  \<^bold>\<open>The event lanes\<close> (\<^verbatim>\<open>clusteragent/events.go\<close>, \<^verbatim>\<open>clusteragent/compact.go\<close>): \<open>SpoolLine\<close> is a line of a spool
  file as a JSON value and how an event is read from it; \<open>Compact\<close> the compaction of a backlog (\<open>stage\<close>, its two
  passes and the chunk writer).  \<open>SpoolDisk\<close> is the lane's directory, its staging directory, manifest and
  in-flight record, with a script of faults that each operation on the disk takes one entry of, and the
  commit, roll-forward and recovery of a compaction; \<open>SpoolShip\<close> the shipping of a batch and the body of
  \<open>RunEvents\<close>.  MAIN is not in this repository: it is the argument \<open>serve\<close>, its documented behaviour (a batch is
  applied with its cursor, exactly when it begins behind the cursor) the hypothesis \<open>main_contract\<close>.
  \<open>CompactMain\<close> states what MAIN keeps of the events as the notes of \<^verbatim>\<open>compact.go\<close> describe it, \<open>CompactSim\<close> and
  \<open>CompactPasses\<close> relate the two passes to a reference that looks ahead in the list, and \<open>CompactProps\<close> shows
  that the compacted backlog has the effect of the original.  \<open>SpoolNames\<close>, \<open>SpoolCrash\<close>, \<open>SpoolCompact\<close> and
  \<open>SpoolFaults\<close> follow the lane's files through operations that fail or are cut off; \<open>SpoolShipInv\<close>,
  \<open>SpoolSend\<close>, \<open>SpoolPass\<close> and \<open>SpoolRuns\<close> carry the invariant that what MAIN has applied and what waits is what
  was spooled through a whole life of the agent, and \<open>SpoolProps\<close> has what it gives.  Limits of this model: a line's length is
  that of its compact text, without the escapes \<open>json.Marshal\<close> writes for the characters of HTML; SHA-256 tells
  fingerprints apart; a staging directory is removed whole; reading a spool file or looking it up does not fail.  For
  the delivery, files arrive between passes under names that increase, a pass may be cut off anywhere but an
  operation on the disk that runs does not fail (\<open>compaction_all_or_nothing\<close> has failures too), a
  compaction writes at most a million chunks, and no merged line is longer than a batch (\<open>long_merge_lost\<close>).

  \<^bold>\<open>Bounds.\<close>  Loops are structural or have a termination measure; the resynchronisation of \<open>tsmerge\<close>
  takes the number of bytes left as fuel, one of which each turn uses (\<open>next_packet_eq\<close>), and its search
  for a free PID is a partial function, shown to end for the tables that can occur (\<open>next_free_plan\<close>).  Runs are
  lists of events of any length.

  \<^bold>\<open>Not modelled.\<close>  The HTTP servers, the gateway, the rest of the cluster agent, the source readers, fragmented MP4, metadata probing, encryption, configuration and logging.
  Of the supervisor the launching of processes, pid and log files, and debug lines; of the
  readers the table of codec names.
\<close>

end
